(* ===== verification/Prelude.thy ===== *)
theory Prelude
  imports Complex_Main "HOL-Library.Word"
begin

unbundle bit_operations_syntax

section \<open>Shared types, results and generic lemmas\<close>

text \<open>
  What every theory of the development shares: Rust's machine integers as words, the error type
  of \<^verbatim>\<open>src/core/error.rs\<close>, the result type with the combinator \<^verbatim>\<open>and_then\<close> (Rust's \<^verbatim>\<open>?\<close>),
  checked indexing, fixed-width little-endian bytes, and the generic lemmas on sorted lists
  that the component proofs use.

  \<^verbatim>\<open>usize\<close> values that count elements of a \<^verbatim>\<open>Vec\<close> are \<open>nat\<close>: a Rust vector never holds
  more than \<open>2^63\<close> elements, so these counts do not wrap.  Every cast between integer widths
  that the source writes (\<^verbatim>\<open>as u32\<close>, \<^verbatim>\<open>as u64\<close>) is \<open>ucast\<close>.
\<close>

type_synonym u8 = "8 word"
type_synonym u32 = "32 word"
type_synonym u64 = "64 word"
type_synonym byte_vec = "u8 list"
type_synonym doc_id = u64

subsection \<open>Errors and results\<close>

datatype error_kind =
    Io
  | Parse
  | NotFound
  | InvalidArgument
  | Internal
  | InvalidInput
  | OutOfMemory
  | InvalidState
  | UnsupportedQuery

text \<open>
  \<^verbatim>\<open>Error\<close> is the source's struct (kind and context).  \<open>Panic\<close> is the value of a computation
  that aborts: an out-of-range index or an \<^verbatim>\<open>unwrap\<close> of \<^verbatim>\<open>None\<close>.
\<close>

datatype error = Error (err_kind: error_kind) (err_context: string) | Panic

type_synonym 'a result = "error + 'a"

abbreviation Ok :: "'a \<Rightarrow> 'a result" where
  "Ok \<equiv> Inr"

abbreviation Err :: "error \<Rightarrow> 'a result" where
  "Err \<equiv> Inl"

definition and_then :: "'a result \<Rightarrow> ('a \<Rightarrow> 'b result) \<Rightarrow> 'b result" where
  "and_then r f = (case r of Inl e \<Rightarrow> Inl e | Inr x \<Rightarrow> f x)"

lemma and_then_simps [simp]:
  "and_then (Inr x) f = f x"
  "and_then (Inl e) f = Inl e"
  by (simp_all add: and_then_def)

lemma and_then_Ok_iff: "and_then r f = Ok y \<longleftrightarrow> (\<exists>x. r = Ok x \<and> f x = Ok y)"
  by (cases r) simp_all

lemma and_then_split: "P (and_then r f) \<longleftrightarrow> (\<forall>e. r = Inl e \<longrightarrow> P (Inl e)) \<and> (\<forall>x. r = Inr x \<longrightarrow> P (f x))"
  by (cases r) simp_all

lemma and_then_split_asm:
  "P (and_then r f) \<longleftrightarrow> \<not> ((\<exists>e. r = Inl e \<and> \<not> P (Inl e)) \<or> (\<exists>x. r = Inr x \<and> \<not> P (f x)))"
  by (cases r) simp_all

lemmas and_then_splits = and_then_split and_then_split_asm

lemma and_then_cong [fundef_cong]:
  "r = r' \<Longrightarrow> (\<And>x. r' = Inr x \<Longrightarrow> f x = f' x) \<Longrightarrow> and_then r f = and_then r' f'"
  by (cases r') simp_all

text \<open>Indexing a slice panics out of range; this is \<^verbatim>\<open>xs[i]\<close>.\<close>

definition index :: "'a list \<Rightarrow> nat \<Rightarrow> 'a result" where
  "index xs i = (if i < length xs then Ok (xs ! i) else Err Panic)"

lemma index_Ok [simp]: "i < length xs \<Longrightarrow> index xs i = Ok (xs ! i)"
  by (simp add: index_def)

text \<open>A loop that runs a fallible body on every element and collects the results stops at the
  first error, as \<^verbatim>\<open>collect::<Result<Vec<_>>>()?\<close> and a \<^verbatim>\<open>for\<close> loop with \<^verbatim>\<open>?\<close> do.\<close>

fun try_map :: "('a \<Rightarrow> 'b result) \<Rightarrow> 'a list \<Rightarrow> 'b list result" where
  "try_map f [] = Ok []"
| "try_map f (x # xs) = and_then (f x) (\<lambda>y. and_then (try_map f xs) (\<lambda>ys. Ok (y # ys)))"

lemma try_map_Ok: "(\<And>x. x \<in> set xs \<Longrightarrow> f x = Ok (g x)) \<Longrightarrow> try_map f xs = Ok (map g xs)"
  by (induction xs) simp_all

lemma try_map_cong [fundef_cong]:
  "xs = ys \<Longrightarrow> (\<And>x. x \<in> set ys \<Longrightarrow> f x = g x) \<Longrightarrow> try_map f xs = try_map g ys"
  by (induction ys arbitrary: xs) auto

lemma try_map_length: "try_map f xs = Ok ys \<Longrightarrow> length ys = length xs"
  by (induction xs arbitrary: ys) (auto simp: and_then_Ok_iff)

lemma find_append:
  "List.find P (xs @ ys) = (case List.find P xs of None \<Rightarrow> List.find P ys | Some x \<Rightarrow> Some x)"
  by (induction xs) auto

subsection \<open>Little-endian bytes\<close>

definition to_le_bytes_u32 :: "u32 \<Rightarrow> byte_vec" where
  "to_le_bytes_u32 w =
     [ucast w, ucast (drop_bit 8 w), ucast (drop_bit 16 w), ucast (drop_bit 24 w)]"

definition from_le_bytes_u32 :: "u8 \<Rightarrow> u8 \<Rightarrow> u8 \<Rightarrow> u8 \<Rightarrow> u32" where
  "from_le_bytes_u32 b0 b1 b2 b3 =
     ucast b0 OR push_bit 8 (ucast b1) OR push_bit 16 (ucast b2) OR push_bit 24 (ucast b3)"

lemma length_to_le_bytes_u32 [simp]: "length (to_le_bytes_u32 w) = 4"
  by (simp add: to_le_bytes_u32_def)

lemma from_to_le_bytes_u32 [simp]:
  "from_le_bytes_u32 (ucast w) (ucast (drop_bit 8 w)) (ucast (drop_bit 16 w))
     (ucast (drop_bit 24 w)) = w"
  unfolding from_le_bytes_u32_def
  apply (rule bit_word_eqI)
  apply (auto simp: bit_simps)
  subgoal for n by (cases "24 \<le> n") auto
  done

lemma unat_u32_less: "unat (v::u32) < 2 ^ 32"
  by (rule order.strict_trans2 [OF unsigned_less]) simp

lemma unat_u64_less: "unat (v::u64) < 2 ^ 64"
  by (rule order.strict_trans2 [OF unsigned_less]) simp

subsection \<open>Floating-point values\<close>

text \<open>
  A \<^verbatim>\<open>f32\<close> or \<^verbatim>\<open>f64\<close> that the code only stores and compares: a number, an infinity or NaN.  The
  comparisons are those of IEEE 754, false whenever NaN is involved.  The two zeros compare equal
  and are one value here.
\<close>

datatype fval = NaN | NegInf | Fin rat | PosInf

text \<open>
  The total order on these values that puts NaN first; away from NaN it is the numeric order.
\<close>

primrec fval_key :: "fval \<Rightarrow> nat \<times> rat" where
  "fval_key NaN = (0, 0)"
| "fval_key NegInf = (1, 0)"
| "fval_key (Fin q) = (2, q)"
| "fval_key PosInf = (3, 0)"

instantiation fval :: linorder
begin

definition less_eq_fval :: "fval \<Rightarrow> fval \<Rightarrow> bool" where
  "less_eq_fval a b \<longleftrightarrow>
     fst (fval_key a) < fst (fval_key b) \<or>
     (fst (fval_key a) = fst (fval_key b) \<and> snd (fval_key a) \<le> snd (fval_key b))"

definition less_fval :: "fval \<Rightarrow> fval \<Rightarrow> bool" where
  "less_fval a b \<longleftrightarrow> a \<le> b \<and> \<not> b \<le> a"

instance
proof
  fix a b c :: fval
  show "a < b \<longleftrightarrow> a \<le> b \<and> \<not> b \<le> a" by (rule less_fval_def)
  show "a \<le> a" by (simp add: less_eq_fval_def)
  show "a \<le> b \<Longrightarrow> b \<le> c \<Longrightarrow> a \<le> c" by (auto simp: less_eq_fval_def)
  show "a \<le> b \<Longrightarrow> b \<le> a \<Longrightarrow> a = b" by (cases a; cases b) (auto simp: less_eq_fval_def)
  show "a \<le> b \<or> b \<le> a" by (auto simp: less_eq_fval_def)
qed

end

definition f_lt :: "fval \<Rightarrow> fval \<Rightarrow> bool" where
  "f_lt a b \<longleftrightarrow> a \<noteq> NaN \<and> b \<noteq> NaN \<and> a < b"

definition f_eq :: "fval \<Rightarrow> fval \<Rightarrow> bool" where
  "f_eq a b = (a \<noteq> NaN \<and> a = b)"

definition f_le :: "fval \<Rightarrow> fval \<Rightarrow> bool" where
  "f_le a b = (f_lt a b \<or> f_eq a b)"

subsection \<open>Strictly sorted lists\<close>

abbreviation strict_sorted :: "'a::linorder list \<Rightarrow> bool" where
  "strict_sorted xs \<equiv> sorted_wrt (<) xs"

lemma strict_sorted_nth_less:
  "strict_sorted xs \<Longrightarrow> i < j \<Longrightarrow> j < length xs \<Longrightarrow> xs ! i < xs ! j"
  by (simp add: sorted_wrt_nth_less)

lemma strict_sorted_set_unique:
  assumes "strict_sorted xs" "strict_sorted ys" "set xs = set ys"
  shows "xs = ys"
  using assms by (metis strict_sorted_equal)

lemma sorted_drop_ge:
  assumes "sorted xs" "i < length xs" "x \<in> set (drop i xs)"
  shows "xs ! i \<le> x"
proof -
  from assms(3) obtain k where "k < length xs - i" "x = xs ! (i + k)"
    by (auto simp: in_set_conv_nth)
  with assms(1,2) show ?thesis
    by (auto intro: sorted_nth_mono)
qed

lemma sorted_take_le:
  assumes "sorted xs" "i < length xs" "x \<in> set (take (Suc i) xs)"
  shows "x \<le> xs ! i"
  using assms by (fastforce simp: in_set_conv_nth less_Suc_eq_le intro: sorted_nth_mono)

subsection \<open>Binary search\<close>

text \<open>
  \<^verbatim>\<open>slice::binary_search\<close> of the standard library: the window \<open>[base, base + len)\<close> is halved until
  one element is left.
\<close>

function binary_search_loop :: "'a::linorder list \<Rightarrow> 'a \<Rightarrow> nat \<Rightarrow> nat \<Rightarrow> nat" where
  "binary_search_loop xs target base len =
     (if 1 < len
      then let half = len div 2;
               mid = base + half
           in binary_search_loop xs target (if target < xs ! mid then base else mid) (len - half)
      else base)"
  by pat_completeness auto
termination
  by (relation "measure (\<lambda>(xs, target, base, len). len)") auto

declare binary_search_loop.simps [simp del]

definition binary_search :: "'a::linorder list \<Rightarrow> 'a \<Rightarrow> nat option" where
  "binary_search xs target =
     (if xs = [] then None
      else let base = binary_search_loop xs target 0 (length xs)
           in if xs ! base = target then Some base else None)"

lemma binary_search_loop_bound:
  "0 < len \<Longrightarrow> base + len \<le> length xs \<Longrightarrow> binary_search_loop xs target base len < length xs"
proof (induction xs target base len rule: binary_search_loop.induct)
  case (1 xs target base len)
  then show ?case
    by (auto simp: binary_search_loop.simps [of xs target base len] Let_def)
qed

lemma binary_search_loop_finds:
  assumes "strict_sorted xs" "i < length xs"
  shows "base \<le> i \<Longrightarrow> i < base + len \<Longrightarrow> base + len \<le> length xs \<Longrightarrow>
           binary_search_loop xs (xs ! i) base len = i"
proof (induction len arbitrary: base rule: less_induct)
  case (less len)
  show ?case
  proof (cases "1 < len")
    case True
    define half where "half = len div 2"
    have "half < len" "0 < half" using True by (auto simp: half_def)
    have "xs ! i < xs ! (base + half) \<longleftrightarrow> i < base + half"
      using assms less.prems \<open>half < len\<close>
      by (metis linorder_neqE_nat order.asym order.strict_trans2 nat_add_left_cancel_less
          strict_sorted_nth_less)
    then show ?thesis
      using True less.IH [of "len - half" base] less.IH [of "len - half" "base + half"]
        less.prems \<open>half < len\<close> \<open>0 < half\<close>
      by (simp add: binary_search_loop.simps [of xs "xs ! i" base len] Let_def
          flip: half_def) (auto simp: half_def)
  next
    case False
    with less.prems show ?thesis by (simp add: binary_search_loop.simps)
  qed
qed

lemma binary_search_correct:
  assumes "strict_sorted xs"
  shows "binary_search xs target = Some i \<longleftrightarrow> i < length xs \<and> xs ! i = target"
proof (cases "target \<in> set xs")
  case True
  then obtain k where k: "k < length xs" "xs ! k = target" by (auto simp: in_set_conv_nth)
  then have "binary_search xs target = Some k"
    using binary_search_loop_finds [OF assms k(1), of 0 "length xs"]
    by (auto simp: binary_search_def)
  with k show ?thesis
    using strict_sorted_nth_less [OF assms] by (auto) (metis linorder_neqE_nat order.irrefl)
next
  case False
  then show ?thesis
    using binary_search_loop_bound [of "length xs" 0 xs target]
    by (auto simp: binary_search_def Let_def in_set_conv_nth)
qed

subsection \<open>Numbers in messages\<close>

fun show_nat :: "nat \<Rightarrow> string" where
  "show_nat n = (if n < 10 then [char_of (48 + n)] else show_nat (n div 10) @ [char_of (48 + n mod 10)])"

declare show_nat.simps [simp del]

end
