(* ===== verification/Floats.thy ===== *)
theory Floats
  imports Prelude
begin

section \<open>Floating-point arithmetic\<close>

text \<open>
  The operations on \<^verbatim>\<open>f32\<close> and \<^verbatim>\<open>f64\<close> that the code uses.  A value is an \<open>fval\<close>; every operation computes on
  rationals and rounds, \<^verbatim>\<open>f32\<close> to 24 significant bits with subnormal results down to \<open>2^-149\<close> and
  \<^verbatim>\<open>f64\<close> to 53 bits down to \<open>2^-1074\<close>, to nearest and ties to even, and with overflow to infinity.  The two zeros are one value, so a division
  by zero takes its sign from the dividend alone.
\<close>

subsection \<open>Rounding\<close>

fun bit_length :: "nat \<Rightarrow> nat" where
  "bit_length n = (if n = 0 then 0 else Suc (bit_length (n div 2)))"

declare bit_length.simps [simp del]

definition round_half_even :: "rat \<Rightarrow> int" where
  "round_half_even q =
     (let f = \<lfloor>q\<rfloor>; d = q - of_int f
      in if d < 1 / 2 \<or> (d = 1 / 2 \<and> even f) then f else f + 1)"

text \<open>
  A format has \<open>p\<close> significant bits and \<open>2^-m\<close> as its least positive value.  \<open>ulp_exponent\<close> is the number of
  positions by which the last of the \<open>p\<close> bits of \<open>q\<close> is above \<open>2^-m\<close>.
\<close>

definition ulp_exponent :: "nat \<Rightarrow> nat \<Rightarrow> rat \<Rightarrow> nat" where
  "ulp_exponent p m q = bit_length (nat \<lfloor>q * 2 ^ m\<rfloor>) - p"

definition round_magnitude :: "nat \<Rightarrow> nat \<Rightarrow> rat \<Rightarrow> rat" where
  "round_magnitude p m q =
     of_int (round_half_even (q * 2 ^ m / 2 ^ ulp_exponent p m q)) * 2 ^ ulp_exponent p m q / 2 ^ m"

definition round_f32 :: "rat \<Rightarrow> fval" where
  "round_f32 q =
     (let v = round_magnitude 24 149 \<bar>q\<bar>
      in if v \<ge> 2 ^ 128 then (if q < 0 then NegInf else PosInf)
         else Fin (if q < 0 then - v else v))"

definition round_f64 :: "rat \<Rightarrow> fval" where
  "round_f64 q =
     (let v = round_magnitude 53 1074 \<bar>q\<bar>
      in if v \<ge> 2 ^ 1024 then (if q < 0 then NegInf else PosInf)
         else Fin (if q < 0 then - v else v))"

subsection \<open>Operations\<close>

fun f_neg :: "fval \<Rightarrow> fval" where
  "f_neg NaN = NaN"
| "f_neg NegInf = PosInf"
| "f_neg PosInf = NegInf"
| "f_neg (Fin a) = Fin (- a)"

text \<open>The arithmetic of a format, given how it rounds.\<close>

fun add_with :: "(rat \<Rightarrow> fval) \<Rightarrow> fval \<Rightarrow> fval \<Rightarrow> fval" where
  "add_with r (Fin a) (Fin b) = r (a + b)"
| "add_with r NaN b = NaN"
| "add_with r a NaN = NaN"
| "add_with r PosInf NegInf = NaN"
| "add_with r NegInf PosInf = NaN"
| "add_with r PosInf b = PosInf"
| "add_with r NegInf b = NegInf"
| "add_with r a b = b"

definition f_signed_inf :: "rat \<Rightarrow> fval" where
  "f_signed_inf s = (if s = 0 then NaN else if s < 0 then NegInf else PosInf)"

fun f_sgn :: "fval \<Rightarrow> rat" where
  "f_sgn NaN = 0"
| "f_sgn NegInf = - 1"
| "f_sgn PosInf = 1"
| "f_sgn (Fin a) = sgn a"

fun mul_with :: "(rat \<Rightarrow> fval) \<Rightarrow> fval \<Rightarrow> fval \<Rightarrow> fval" where
  "mul_with r (Fin a) (Fin b) = r (a * b)"
| "mul_with r NaN b = NaN"
| "mul_with r a NaN = NaN"
| "mul_with r a b = f_signed_inf (f_sgn a * f_sgn b)"

fun div_with :: "(rat \<Rightarrow> fval) \<Rightarrow> fval \<Rightarrow> fval \<Rightarrow> fval" where
  "div_with r (Fin a) (Fin b) = (if b = 0 then f_signed_inf (sgn a) else r (a / b))"
| "div_with r NaN b = NaN"
| "div_with r a NaN = NaN"
| "div_with r (Fin a) b = Fin 0"
| "div_with r a (Fin b) = f_signed_inf (f_sgn a * (if b < 0 then - 1 else 1))"
| "div_with r a b = NaN"

abbreviation f_add :: "fval \<Rightarrow> fval \<Rightarrow> fval" where
  "f_add \<equiv> add_with round_f32"

abbreviation f_mul :: "fval \<Rightarrow> fval \<Rightarrow> fval" where
  "f_mul \<equiv> mul_with round_f32"

abbreviation f_div :: "fval \<Rightarrow> fval \<Rightarrow> fval" where
  "f_div \<equiv> div_with round_f32"

definition f_sub :: "fval \<Rightarrow> fval \<Rightarrow> fval" where
  "f_sub a b = f_add a (f_neg b)"

abbreviation d_add :: "fval \<Rightarrow> fval \<Rightarrow> fval" where
  "d_add \<equiv> add_with round_f64"

abbreviation d_mul :: "fval \<Rightarrow> fval \<Rightarrow> fval" where
  "d_mul \<equiv> mul_with round_f64"

abbreviation d_div :: "fval \<Rightarrow> fval \<Rightarrow> fval" where
  "d_div \<equiv> div_with round_f64"

text \<open>Conversions from an unsigned integer.\<close>

definition f_of_nat :: "nat \<Rightarrow> fval" where
  "f_of_nat n = round_f32 (of_nat n)"

definition d_of_nat :: "nat \<Rightarrow> fval" where
  "d_of_nat n = round_f64 (of_nat n)"

subsection \<open>Facts about rounding\<close>

lemma bit_length_bounds: "n < 2 ^ bit_length n \<and> (n > 0 \<longrightarrow> 2 ^ (bit_length n - 1) \<le> n)"
proof (induction n rule: bit_length.induct)
  case (1 n)
  show ?case
  proof (cases "n = 0")
    case False
    then have IH: "n div 2 < 2 ^ bit_length (n div 2)" "n div 2 > 0 \<longrightarrow> 2 ^ (bit_length (n div 2) - 1) \<le> n div 2"
      using 1 by auto
    have len: "bit_length n = Suc (bit_length (n div 2))" using False by (subst bit_length.simps) simp
    have "n < 2 * 2 ^ bit_length (n div 2)" using IH(1) by linarith
    moreover have "2 ^ bit_length (n div 2) \<le> n"
    proof (cases "n div 2 = 0")
      case True
      with False show ?thesis by (simp add: bit_length.simps)
    next
      case half: False
      then have "bit_length (n div 2) = Suc (bit_length (n div 2) - 1)" by (subst bit_length.simps) (simp add: bit_length.simps [of "n div 2"])
      then have "2 ^ bit_length (n div 2) = 2 * (2 :: nat) ^ (bit_length (n div 2) - 1)" by (metis power_Suc)
      with IH(2) half show ?thesis by linarith
    qed
    ultimately show ?thesis by (simp add: len)
  qed (simp add: bit_length.simps)
qed

lemma bit_length_le: "n < 2 ^ k \<Longrightarrow> bit_length n \<le> k"
proof (rule ccontr)
  assume n: "n < 2 ^ k" "\<not> bit_length n \<le> k"
  then have "n > 0" by (cases "n = 0") (simp_all add: bit_length.simps [of 0])
  then have "2 ^ (bit_length n - 1) \<le> n" using bit_length_bounds by blast
  moreover have "(2 :: nat) ^ k \<le> 2 ^ (bit_length n - 1)" using n(2) by (intro power_increasing) auto
  ultimately show False using n(1) by linarith
qed

lemma round_half_even_int [simp]: "round_half_even (of_int i) = i"
  by (simp add: round_half_even_def)

lemma round_half_even_bounds: "q \<le> of_int (round_half_even q) + 1 / 2 \<and> of_int (round_half_even q) \<le> q + 1 / 2"
proof -
  define f where "f = \<lfloor>q\<rfloor>"
  have "of_int f \<le> q" "q < of_int f + 1" unfolding f_def by linarith+
  then show ?thesis unfolding round_half_even_def Let_def f_def [symmetric] by auto
qed

lemma round_half_even_nonneg: "0 \<le> q \<Longrightarrow> 0 \<le> round_half_even q"
proof -
  assume "0 \<le> q"
  then have "0 \<le> \<lfloor>q\<rfloor>" by simp
  then show ?thesis by (auto simp: round_half_even_def Let_def)
qed

lemma round_half_even_le: "q \<le> of_int i \<Longrightarrow> round_half_even q \<le> i"
proof -
  assume "q \<le> of_int i"
  then have "of_int (round_half_even q) \<le> of_int i + (1 / 2 :: rat)" using round_half_even_bounds [of q] by linarith
  then have "of_int (round_half_even q) < (of_int (i + 1) :: rat)" by simp
  then show ?thesis by linarith
qed

lemma round_magnitude_nonneg: "0 \<le> q \<Longrightarrow> 0 \<le> round_magnitude p m q"
  by (simp add: round_magnitude_def round_half_even_nonneg)

lemma round_f32_zero [simp]: "round_f32 0 = Fin 0"
  by (simp add: round_f32_def round_magnitude_def round_half_even_def)

lemma round_f32_nonneg: "0 \<le> q \<Longrightarrow> Fin 0 \<le> round_f32 q"
  using round_magnitude_nonneg [of q] by (simp add: round_f32_def Let_def less_eq_fval_def)


text \<open>Rounding is idempotent: a rounded magnitude is rounded to itself.\<close>

lemma round_magnitude_exact:
  assumes "v = of_int i * 2 ^ e / 2 ^ m" "0 \<le> i" "i \<le> 2 ^ p" "0 < p"
  shows "round_magnitude p m v = v"
proof -
  define n where "n = nat i * 2 ^ e"
  have scaled: "v * 2 ^ m = of_nat n" using assms(1,2) by (simp add: n_def)
  define e' where "e' = ulp_exponent p m v"
  have e': "e' = bit_length n - p" unfolding e'_def ulp_exponent_def scaled by simp
  have "\<exists>j. n = j * 2 ^ e'"
  proof (cases "i = 2 ^ p")
    case True
    then have n: "n = 2 ^ (p + e)" by (simp add: n_def power_add nat_power_eq)
    then have "bit_length n \<le> Suc (p + e)" by (intro bit_length_le) simp
    then have "e' \<le> p + e" using assms(4) by (simp add: e')
    then show ?thesis using n le_imp_power_dvd [of e' "p + e" "2 :: nat"] by (auto simp: dvd_def mult.commute)
  next
    case False
    then have "nat i < 2 ^ p" using assms(2,3) by (simp add: nat_less_iff)
    then have "n < 2 ^ (p + e)" by (simp add: n_def power_add)
    then have "e' \<le> e" using bit_length_le [of n "p + e"] by (simp add: e')
    then have "2 ^ e' dvd n" unfolding n_def by (intro dvd_mult le_imp_power_dvd)
    then show ?thesis by (auto simp: dvd_def mult.commute)
  qed
  then obtain j where j: "n = j * 2 ^ e'" ..
  have "v * 2 ^ m / 2 ^ e' = of_int (int j)" unfolding scaled j by simp
  then have "round_magnitude p m v = of_int (int j) * 2 ^ e' / 2 ^ m"
    by (simp only: round_magnitude_def e'_def [symmetric] round_half_even_int)
  also have "of_int (int j) * 2 ^ e' = v * 2 ^ m" unfolding scaled j by simp
  also have "v * 2 ^ m / 2 ^ m = v" by simp
  finally show ?thesis .
qed

lemma ulp_exponent_lower:
  assumes "0 \<le> q" "0 < ulp_exponent p m q"
  shows "2 ^ (p + ulp_exponent p m q - 1) \<le> q * 2 ^ m"
proof -
  let ?n = "nat \<lfloor>q * 2 ^ m\<rfloor>" and ?e = "ulp_exponent p m q"
  have len: "p + ?e - 1 = bit_length ?n - 1" using assms(2) by (simp add: ulp_exponent_def)
  have "?n > 0" using assms(2) by (cases "?n = 0") (simp_all add: ulp_exponent_def bit_length.simps [of 0])
  then have "2 ^ (p + ?e - 1) \<le> ?n" using bit_length_bounds [of ?n] by (simp only: len)
  then have "2 ^ (p + ?e - 1) \<le> \<lfloor>q * 2 ^ m\<rfloor>" using assms(1) by (simp add: le_nat_iff)
  then show ?thesis by (simp add: le_floor_iff)
qed

lemma ulp_exponent_upper:
  assumes "0 \<le> q"
  shows "q * 2 ^ m < 2 ^ (p + ulp_exponent p m q)"
proof -
  let ?n = "nat \<lfloor>q * 2 ^ m\<rfloor>" and ?e = "ulp_exponent p m q"
  have "?n < 2 ^ bit_length ?n" using bit_length_bounds by blast
  also have "(2 :: nat) ^ bit_length ?n \<le> 2 ^ (p + ?e)" by (intro power_increasing) (auto simp: ulp_exponent_def)
  finally have "int ?n < 2 ^ (p + ?e)" by (metis of_nat_less_numeral_power_cancel_iff)
  moreover have "int ?n = \<lfloor>q * 2 ^ m\<rfloor>" using assms by simp
  ultimately have "\<lfloor>q * 2 ^ m\<rfloor> < 2 ^ (p + ?e)" by simp
  then show ?thesis by (simp add: floor_less_iff)
qed

lemma round_magnitude_form:
  assumes "0 \<le> q"
  shows "\<exists>i e. round_magnitude p m q = of_int i * 2 ^ e / 2 ^ m \<and> 0 \<le> i \<and> i \<le> 2 ^ p"
proof -
  let ?e = "ulp_exponent p m q"
  let ?i = "round_half_even (q * 2 ^ m / 2 ^ ?e)"
  have "q * 2 ^ m / 2 ^ ?e \<le> of_int (2 ^ p)"
    using ulp_exponent_upper [OF assms, of m p] by (simp add: field_simps power_add)
  then have "?i \<le> 2 ^ p" by (rule round_half_even_le)
  moreover have "0 \<le> ?i" using assms by (intro round_half_even_nonneg) simp
  ultimately show ?thesis unfolding round_magnitude_def by force
qed

lemma round_magnitude_idem: "0 \<le> q \<Longrightarrow> 0 < p \<Longrightarrow> round_magnitude p m (round_magnitude p m q) = round_magnitude p m q"
  using round_magnitude_form [of q] round_magnitude_exact by blast

text \<open>The values that \<^verbatim>\<open>f32\<close> can hold, and that every operation returns.\<close>

definition is_f32 :: "fval \<Rightarrow> bool" where
  "is_f32 v = (case v of Fin a \<Rightarrow> round_f32 a = Fin a | _ \<Rightarrow> True)"

lemma round_f32_is_f32 [simp]: "is_f32 (round_f32 q)"
proof -
  have "round_magnitude 24 149 \<bar>round_magnitude 24 149 \<bar>q\<bar>\<bar> = round_magnitude 24 149 \<bar>q\<bar>"
    using round_magnitude_idem [of "\<bar>q\<bar>" 24 149] round_magnitude_nonneg [of "\<bar>q\<bar>" 24 149] by simp
  moreover have "round_f32 0 = Fin 0" by simp
  ultimately show ?thesis
    using round_magnitude_nonneg [of "\<bar>q\<bar>" 24 149]
    by (cases "round_magnitude 24 149 \<bar>q\<bar> = 0") (auto simp: is_f32_def round_f32_def Let_def)
qed

lemma f_signed_inf_is_f32 [simp]: "is_f32 (f_signed_inf s)"
  by (simp add: f_signed_inf_def is_f32_def)

lemma f_mul_is_f32 [simp]: "is_f32 (f_mul a b)"
  by (cases a; cases b) (simp_all add: is_f32_def [of NaN])

lemma f_div_is_f32 [simp]: "is_f32 (f_div a b)"
  by (cases a; cases b) (simp_all add: is_f32_def [of NaN] is_f32_def [of "Fin 0"])

lemma f_mul_1 [simp]: "is_f32 a \<Longrightarrow> f_mul a (Fin 1) = a"
  by (cases a) (simp_all add: is_f32_def f_signed_inf_def)

lemma f_mul_nonneg:
  assumes "Fin 0 \<le> a" "Fin 0 \<le> b" "f_mul a b \<noteq> NaN"
  shows "Fin 0 \<le> f_mul a b"
  using assms round_f32_nonneg
  by (cases a; cases b) (auto simp: less_eq_fval_def f_signed_inf_def zero_less_mult_iff sgn_if split: if_splits)

subsection \<open>Square roots and conversions\<close>

text \<open>The integer square root, by halving the number of digits.\<close>

fun nat_sqrt :: "nat \<Rightarrow> nat" where
  "nat_sqrt n = (if n = 0 then 0 else let r = 2 * nat_sqrt (n div 4) in if (r + 1) * (r + 1) \<le> n then r + 1 else r)"

declare nat_sqrt.simps [simp del]

text \<open>
  The root of a non-negative value.  A value of \<^verbatim>\<open>f32\<close> is a multiple of \<open>2^-149\<close>, so \<open>2^300\<close> times it is a
  natural number; the root of that is known up to one unit of \<open>2^-150\<close>.  No value of \<^verbatim>\<open>f32\<close> and no
  midpoint of two neighbours near the root lies strictly within the unit, so the middle of the unit
  is rounded as the root itself.
\<close>

definition f_sqrt :: "fval \<Rightarrow> fval" where
  "f_sqrt v =
     (case v of
        Fin a \<Rightarrow>
          if a < 0 then NaN
          else let n = nat \<lfloor>a * 2 ^ 300\<rfloor>; r = nat_sqrt n
               in round_f32 ((of_nat (2 * r) + (if r * r = n then 0 else 1)) / 2 ^ 151)
      | PosInf \<Rightarrow> PosInf
      | _ \<Rightarrow> NaN)"

text \<open>\<^verbatim>\<open>f32::max\<close> ignores an operand that is not a number; \<^verbatim>\<open>as usize\<close> truncates and saturates.\<close>

fun f_max :: "fval \<Rightarrow> fval \<Rightarrow> fval" where
  "f_max NaN b = b"
| "f_max a NaN = a"
| "f_max a b = max a b"

fun f_to_usize :: "fval \<Rightarrow> nat" where
  "f_to_usize NaN = 0"
| "f_to_usize NegInf = 0"
| "f_to_usize PosInf = 2 ^ 64 - 1"
| "f_to_usize (Fin a) = min (nat \<lfloor>a\<rfloor>) (2 ^ 64 - 1)"

lemma nat_sqrt_bounds: "nat_sqrt n * nat_sqrt n \<le> n \<and> n < (nat_sqrt n + 1) * (nat_sqrt n + 1)"
proof (induction n rule: nat_sqrt.induct)
  case (1 n)
  show ?case
  proof (cases "n = 0")
    case False
    define k where "k = nat_sqrt (n div 4)"
    have IH: "k * k \<le> n div 4" "n div 4 < (k + 1) * (k + 1)" using 1 [OF False] by (simp_all add: k_def)
    then have "4 * (k * k) \<le> n" "n < 4 * ((k + 1) * (k + 1))" by linarith+
    moreover have "nat_sqrt n = (if (2 * k + 1) * (2 * k + 1) \<le> n then 2 * k + 1 else 2 * k)"
      using False by (subst nat_sqrt.simps) (simp add: k_def Let_def)
    ultimately show ?thesis by (auto simp: algebra_simps)
  qed (simp add: nat_sqrt.simps)
qed

lemma nat_sqrt_square: "nat_sqrt (k * k) = k"
proof -
  have "nat_sqrt (k * k) ^ 2 \<le> k ^ 2" "k ^ 2 < (nat_sqrt (k * k) + 1) ^ 2"
    using nat_sqrt_bounds [of "k * k"] by (simp_all add: power2_eq_square)
  then have "nat_sqrt (k * k) \<le> k" "k < nat_sqrt (k * k) + 1"
    by (auto intro: power2_le_imp_le power2_less_imp_less)
  then show ?thesis by simp
qed

lemma nat_sqrt_le: "n \<le> k * k \<Longrightarrow> nat_sqrt n \<le> k"
proof -
  assume "n \<le> k * k"
  then have "nat_sqrt n ^ 2 \<le> k ^ 2" using nat_sqrt_bounds [of n] by (simp add: power2_eq_square)
  then show ?thesis by (auto intro: power2_le_imp_le)
qed

text \<open>The root of the square of a value of \<^verbatim>\<open>f32\<close> with at most 75 fractional bits is that value.\<close>

lemma f_sqrt_square:
  assumes "is_f32 (Fin b)" "b = of_nat k / 2 ^ 150"
  shows "f_sqrt (Fin (b * b)) = Fin b"
proof -
  have "b * b * 2 ^ 300 = of_nat (k * k)" by (simp add: assms(2) field_simps flip: power_add)
  then have "nat \<lfloor>b * b * 2 ^ 300\<rfloor> = k * k" by (simp only: floor_of_nat nat_int)
  moreover have "of_nat (2 * k) / 2 ^ 151 = b" by (simp add: assms(2))
  moreover have "\<not> b * b < 0" by (simp add: not_less)
  ultimately show ?thesis using assms(1) by (simp add: f_sqrt_def nat_sqrt_square is_f32_def)
qed

text \<open>Rounding stays below every value of the format that is above the argument.\<close>

lemma round_magnitude_le_exact:
  assumes "0 \<le> q" "q \<le> v" "v = of_int i * 2 ^ e / 2 ^ m" "0 \<le> i" "i \<le> 2 ^ p" "0 < p"
  shows "round_magnitude p m q \<le> v"
proof (cases "ulp_exponent p m q \<le> e")
  case True
  let ?e = "ulp_exponent p m q"
  obtain j where j: "e = ?e + j" using True le_Suc_ex by blast
  have v: "v * 2 ^ m / 2 ^ ?e = of_int (i * 2 ^ j)"
  proof -
    have "v * 2 ^ m = of_int i * 2 ^ j * 2 ^ ?e" unfolding assms(3) by (subst j) (simp add: power_add mult_ac)
    then show ?thesis by simp
  qed
  have "q * 2 ^ m / 2 ^ ?e \<le> v * 2 ^ m / 2 ^ ?e"
    using assms(2) by (intro divide_right_mono mult_right_mono) auto
  then have "round_half_even (q * 2 ^ m / 2 ^ ?e) \<le> i * 2 ^ j" unfolding v by (rule round_half_even_le)
  then have "(of_int (round_half_even (q * 2 ^ m / 2 ^ ?e)) :: rat) \<le> v * 2 ^ m / 2 ^ ?e"
    unfolding v by (simp only: of_int_le_iff)
  then have "of_int (round_half_even (q * 2 ^ m / 2 ^ ?e)) * 2 ^ ?e \<le> v * 2 ^ m"
    by (simp add: pos_le_divide_eq)
  then show ?thesis by (simp add: round_magnitude_def divide_le_eq)
next
  case False
  have "(2 :: rat) ^ (p + e) \<le> 2 ^ (p + ulp_exponent p m q - 1)" using False by (intro power_increasing) auto
  also have "\<dots> \<le> q * 2 ^ m" using False assms(1) by (intro ulp_exponent_lower) auto
  finally have "2 ^ (p + e) \<le> q * 2 ^ m" .
  moreover have "v * 2 ^ m \<le> 2 ^ (p + e)"
  proof -
    have "(of_int i :: rat) \<le> of_int (2 ^ p)" using assms(5) by (simp only: of_int_le_iff)
    then show ?thesis by (simp add: assms(3) power_add mult_right_mono)
  qed
  ultimately have "v * 2 ^ m \<le> q * 2 ^ m" by linarith
  then have "v \<le> q" by simp
  then have "q = v" using assms(2) by linarith
  then show ?thesis using round_magnitude_exact [OF assms(3-6)] by simp
qed

lemma round_magnitude_le_power:
  assumes "0 \<le> q" "q \<le> 2 ^ k" "0 < p"
  shows "round_magnitude p m q \<le> 2 ^ k"
  by (rule round_magnitude_le_exact [of _ _ 1 "k + m"]) (use assms in \<open>simp_all add: power_add\<close>)

text \<open>Rounding stays above every value of the format that is below the argument, and is monotone.\<close>

lemma round_half_even_mono: "q \<le> q' \<Longrightarrow> round_half_even q \<le> round_half_even q'"
proof -
  assume le: "q \<le> q'"
  have f: "\<lfloor>q\<rfloor> \<le> \<lfloor>q'\<rfloor>" using le by (rule floor_mono)
  show ?thesis
  proof (cases "\<lfloor>q\<rfloor> = \<lfloor>q'\<rfloor>")
    case True
    then have "q - of_int \<lfloor>q\<rfloor> \<le> q' - of_int \<lfloor>q'\<rfloor>" using le by simp
    then show ?thesis using True unfolding round_half_even_def Let_def by auto
  next
    case False
    then have "\<lfloor>q\<rfloor> + 1 \<le> \<lfloor>q'\<rfloor>" using f by linarith
    then show ?thesis unfolding round_half_even_def Let_def by auto
  qed
qed

lemma round_half_even_ge: "of_int i \<le> q \<Longrightarrow> i \<le> round_half_even q"
  using round_half_even_mono [of "of_int i" q] by simp

lemma round_magnitude_ge_exact:
  assumes "0 \<le> q" "v \<le> q" "v = of_int i * 2 ^ e / 2 ^ m" "0 \<le> i" "i \<le> 2 ^ p" "0 < p"
  shows "v \<le> round_magnitude p m q"
proof (cases "ulp_exponent p m q \<le> e")
  case True
  let ?e = "ulp_exponent p m q"
  obtain j where j: "e = ?e + j" using True le_Suc_ex by blast
  have v: "v * 2 ^ m = of_int (i * 2 ^ j) * 2 ^ ?e" unfolding assms(3) by (subst j) (simp add: power_add mult_ac)
  have "v * 2 ^ m \<le> q * 2 ^ m" using assms(2) by simp
  then have "of_int (i * 2 ^ j) \<le> q * 2 ^ m / 2 ^ ?e" unfolding v by (simp only: pos_le_divide_eq zero_less_power zero_less_numeral)
  then have "i * 2 ^ j \<le> round_half_even (q * 2 ^ m / 2 ^ ?e)" by (rule round_half_even_ge)
  then have "(of_int (i * 2 ^ j) :: rat) \<le> of_int (round_half_even (q * 2 ^ m / 2 ^ ?e))" by (simp only: of_int_le_iff)
  then have "v * 2 ^ m \<le> of_int (round_half_even (q * 2 ^ m / 2 ^ ?e)) * 2 ^ ?e"
    unfolding v by (intro mult_right_mono) auto
  then show ?thesis by (simp add: round_magnitude_def pos_le_divide_eq)
next
  case False
  let ?e = "ulp_exponent p m q"
  have split: "p + ?e - 1 = (p - 1) + ?e" using assms(6) by simp
  have "(2 :: rat) ^ (p - 1) * 2 ^ ?e \<le> q * 2 ^ m"
    using False assms(1) ulp_exponent_lower [of q p m] unfolding split power_add by simp
  then have "of_int (2 ^ (p - 1)) \<le> q * 2 ^ m / 2 ^ ?e" by (simp add: pos_le_divide_eq)
  then have "2 ^ (p - 1) \<le> round_half_even (q * 2 ^ m / 2 ^ ?e)" by (rule round_half_even_ge)
  then have "(of_int (2 ^ (p - 1)) :: rat) \<le> of_int (round_half_even (q * 2 ^ m / 2 ^ ?e))" by (simp only: of_int_le_iff)
  then have "(of_int (2 ^ (p - 1)) :: rat) * 2 ^ ?e \<le> of_int (round_half_even (q * 2 ^ m / 2 ^ ?e)) * 2 ^ ?e"
    by (intro mult_right_mono) auto
  moreover have "v * 2 ^ m \<le> of_int (2 ^ (p - 1)) * 2 ^ ?e"
  proof -
    have "(of_int i :: rat) \<le> of_int (2 ^ p)" using assms(5) by (simp only: of_int_le_iff)
    then have "v * 2 ^ m \<le> 2 ^ (p + e)" by (simp add: assms(3) power_add mult_right_mono)
    also have "(2 :: rat) ^ (p + e) \<le> 2 ^ (p - 1 + ?e)" using False by (intro power_increasing) auto
    finally show ?thesis by (simp add: power_add)
  qed
  ultimately have "v * 2 ^ m \<le> of_int (round_half_even (q * 2 ^ m / 2 ^ ?e)) * 2 ^ ?e" by (rule order_trans [rotated])
  then show ?thesis by (simp add: round_magnitude_def pos_le_divide_eq)
qed

lemma round_magnitude_mono:
  assumes "0 \<le> q" "q \<le> q'" "0 < p"
  shows "round_magnitude p m q \<le> round_magnitude p m q'"
proof -
  let ?e = "ulp_exponent p m q" and ?f = "ulp_exponent p m q'"
  have q': "0 \<le> q'" and scaled: "q * 2 ^ m \<le> q' * 2 ^ m" using assms(1,2) by auto
  consider "?e = ?f" | "?e < ?f" | "?f < ?e" by linarith
  then show ?thesis
  proof cases
    case 1
    have "q * 2 ^ m / 2 ^ ?f \<le> q' * 2 ^ m / 2 ^ ?f" using scaled by (intro divide_right_mono) auto
    then have "(of_int (round_half_even (q * 2 ^ m / 2 ^ ?f)) :: rat) \<le> of_int (round_half_even (q' * 2 ^ m / 2 ^ ?f))"
      by (simp only: of_int_le_iff round_half_even_mono)
    then show ?thesis unfolding round_magnitude_def 1 by (intro divide_right_mono mult_right_mono) auto
  next
    case 2
    define v :: rat where "v = of_int (2 ^ p) * 2 ^ ?e / 2 ^ m"
    have v: "v * 2 ^ m = 2 ^ (p + ?e)" by (simp add: v_def power_add)
    have "q * 2 ^ m \<le> v * 2 ^ m" using ulp_exponent_upper [OF assms(1), of m p] by (simp add: v)
    then have "q \<le> v" by simp
    then have "round_magnitude p m q \<le> v"
      by (rule round_magnitude_le_exact [OF assms(1) _ v_def]) (use assms(3) in simp_all)
    moreover have "v * 2 ^ m \<le> q' * 2 ^ m"
    proof -
      have "(2 :: rat) ^ (p + ?e) \<le> 2 ^ (p + ?f - 1)" using 2 by (intro power_increasing) auto
      also have "\<dots> \<le> q' * 2 ^ m" using 2 q' by (intro ulp_exponent_lower) auto
      finally show ?thesis by (simp add: v)
    qed
    then have "v \<le> q'" by simp
    then have "v \<le> round_magnitude p m q'"
      by (rule round_magnitude_ge_exact [OF q' _ v_def]) (use assms(3) in simp_all)
    ultimately show ?thesis by linarith
  next
    case 3
    have "q' * 2 ^ m < 2 ^ (p + ?f)" using q' by (rule ulp_exponent_upper)
    also have "(2 :: rat) ^ (p + ?f) \<le> 2 ^ (p + ?e - 1)" using 3 by (intro power_increasing) auto
    also have "\<dots> \<le> q * 2 ^ m" using 3 assms(1) by (intro ulp_exponent_lower) auto
    finally show ?thesis using scaled by linarith
  qed
qed

lemma round_f32_le_power: "0 \<le> q \<Longrightarrow> q \<le> 2 ^ k \<Longrightarrow> k < 128 \<Longrightarrow> round_f32 q \<le> Fin (2 ^ k)"
proof -
  assume q: "0 \<le> q" "q \<le> 2 ^ k" "k < 128"
  have "(2 :: rat) ^ k < 2 ^ 128" using q(3) by (intro power_strict_increasing) auto
  with round_magnitude_le_power [OF q(1,2), of 24 149] have "round_magnitude 24 149 q < 2 ^ 128" by linarith
  then show ?thesis using round_magnitude_le_power [OF q(1,2), of 24 149] q(1) by (simp add: round_f32_def less_eq_fval_def)
qed

lemma f_of_nat_small: "n < 2 ^ 24 \<Longrightarrow> f_of_nat n = Fin (of_nat n)"
proof -
  assume n: "n < 2 ^ 24"
  have "round_magnitude 24 149 (of_nat n) = of_nat n"
    by (rule round_magnitude_exact [of _ "int n" 149]) (use n in auto)
  moreover have "(of_nat n :: rat) < 2 ^ 128"
  proof -
    have "n < 2 ^ 128" using n by (rule order.strict_trans) simp
    then show ?thesis by (metis of_nat_less_iff of_nat_power of_nat_numeral)
  qed
  ultimately show ?thesis by (simp add: f_of_nat_def round_f32_def Let_def)
qed

lemma is_f32_1: "is_f32 (Fin 1)"
  using f_of_nat_small [of 1] round_f32_is_f32 [of 1] by (simp add: f_of_nat_def)

text \<open>The root of a small integer is at most four.\<close>

lemma f_sqrt_le_4:
  assumes "n \<le> 16"
  shows "f_sqrt (f_of_nat n) \<le> Fin 4"
proof -
  define m where "m = n * 2 ^ 300"
  have fin: "f_of_nat n = Fin (of_nat n)" using assms by (intro f_of_nat_small) simp
  have "of_nat n * 2 ^ 300 = (of_nat m :: rat)" by (simp add: m_def)
  then have nat: "nat \<lfloor>of_nat n * 2 ^ 300 :: rat\<rfloor> = m" by (simp only: floor_of_nat nat_int)
  have "m \<le> (4 * 2 ^ 150) * (4 * 2 ^ 150)" unfolding m_def using assms by (simp flip: power_add)
  then have r: "nat_sqrt m \<le> 4 * 2 ^ 150" by (rule nat_sqrt_le)
  define x where "x = (of_nat (2 * nat_sqrt m) + (if nat_sqrt m * nat_sqrt m = m then 0 else 1) :: rat) / 2 ^ 151"
  have "2 * nat_sqrt m + (if nat_sqrt m * nat_sqrt m = m then 0 else 1) \<le> 2 ^ 153"
  proof (cases "nat_sqrt m = 4 * 2 ^ 150")
    case True
    then have "nat_sqrt m * nat_sqrt m = m"
      using nat_sqrt_bounds [of m] \<open>m \<le> (4 * 2 ^ 150) * (4 * 2 ^ 150)\<close> by (metis le_antisym)
    with True show ?thesis by simp
  qed (use r in simp)
  then have "(of_nat (2 * nat_sqrt m + (if nat_sqrt m * nat_sqrt m = m then 0 else 1)) :: rat) \<le> 2 ^ 153"
    by (metis of_nat_le_iff of_nat_power of_nat_numeral)
  then have "x \<le> 2 ^ 2" unfolding x_def by (auto simp: divide_le_eq split: if_splits)
  moreover have "0 \<le> x" by (simp add: x_def)
  ultimately have "round_f32 x \<le> Fin (2 ^ 2)" by (intro round_f32_le_power) auto
  moreover have "f_sqrt (f_of_nat n) = round_f32 x" unfolding fin f_sqrt_def fval.case nat by (simp add: Let_def x_def)
  ultimately show ?thesis by simp
qed

lemma f_to_usize_max: "m < 2 ^ 64 \<Longrightarrow> m \<le> f_to_usize (f_max v (Fin (of_nat m)))"
  by (cases v) (auto simp: max_def less_eq_fval_def le_nat_floor le_floor_iff nat_le_iff le_nat_iff)

subsection \<open>Ratios in double precision\<close>

lemma round_f64_between:
  assumes "2 ^ j / 2 ^ 1074 \<le> q" "q \<le> 2 ^ k" "k < 1024"
  shows "\<exists>a. round_f64 q = Fin a \<and> 2 ^ j / 2 ^ 1074 \<le> a \<and> a \<le> 2 ^ k"
proof -
  have "(0 :: rat) < 2 ^ j / 2 ^ 1074" by simp
  then have q: "0 \<le> q" using assms(1) by linarith
  have "2 ^ j / 2 ^ 1074 \<le> round_magnitude 53 1074 q"
    by (rule round_magnitude_ge_exact [OF q assms(1), of 1 j]) simp_all
  moreover have le: "round_magnitude 53 1074 q \<le> 2 ^ k" using q assms(2) by (intro round_magnitude_le_power) auto
  moreover have "(2 :: rat) ^ k < 2 ^ 1024" using assms(3) by (intro power_strict_increasing) auto
  ultimately show ?thesis using q by (simp add: round_f64_def Let_def not_le)
qed

lemma round_f64_le_nat:
  assumes "0 \<le> q" "q \<le> of_nat k" "k \<le> 2 ^ 53"
  shows "\<exists>a. round_f64 q = Fin a \<and> 0 \<le> a \<and> a \<le> of_nat k"
proof -
  have v: "(of_nat k :: rat) = of_int (int k) * 2 ^ 1074 / 2 ^ 1074" by simp
  have le: "round_magnitude 53 1074 q \<le> of_nat k"
    by (rule round_magnitude_le_exact [OF assms(1,2) v]) (use assms(3) in simp_all)
  have "(of_nat k :: rat) \<le> of_nat (2 ^ 53)" using assms(3) by (simp only: of_nat_le_iff)
  also have "(of_nat (2 ^ 53) :: rat) = 2 ^ 53" by simp
  also have "(2 :: rat) ^ 53 < 2 ^ 1024" by (intro power_strict_increasing) auto
  finally have "round_magnitude 53 1074 q < 2 ^ 1024" using le by linarith
  then show ?thesis using assms(1) le round_magnitude_nonneg [OF assms(1), of 53 1074]
    by (simp add: round_f64_def Let_def not_le)
qed

lemma d_of_nat_fin:
  assumes "n < 2 ^ 64"
  shows "d_of_nat n = Fin (round_magnitude 53 1074 (of_nat n)) \<and> (0 < n \<longrightarrow> 1 \<le> round_magnitude 53 1074 (of_nat n)) \<and>
    round_magnitude 53 1074 (of_nat n) \<le> 2 ^ 64"
proof -
  have "(of_nat n :: rat) \<le> of_nat (2 ^ 64)" using assms by (simp only: of_nat_le_iff less_imp_le)
  then have n: "(of_nat n :: rat) \<le> 2 ^ 64" by simp
  have le: "round_magnitude 53 1074 (of_nat n) \<le> 2 ^ 64" using n by (intro round_magnitude_le_power) auto
  have "(2 :: rat) ^ 64 < 2 ^ 1024" by (intro power_strict_increasing) auto
  with le have "round_magnitude 53 1074 (of_nat n) < 2 ^ 1024" by linarith
  moreover have "1 \<le> round_magnitude 53 1074 (of_nat n)" if "0 < n"
    by (rule round_magnitude_ge_exact [of _ _ 1 1074]) (use that in \<open>simp_all add: Suc_le_eq\<close>)
  ultimately show ?thesis using le by (simp add: d_of_nat_def round_f64_def Let_def not_le)
qed

lemma d_of_nat_small: "n \<le> 2 ^ 53 \<Longrightarrow> d_of_nat n = Fin (of_nat n)"
proof -
  assume n: "n \<le> 2 ^ 53"
  then have "n < 2 ^ 64" by (rule le_less_trans) simp
  moreover have "round_magnitude 53 1074 (of_nat n) = of_nat n"
    by (rule round_magnitude_exact [of _ "int n" 1074]) (use n in simp_all)
  ultimately show ?thesis using d_of_nat_fin by simp
qed

text \<open>
  The quotient of two converted counters, the first at most the second, is between zero and one, and
  it is zero only if the first counter is.
\<close>

lemma d_ratio_bounds:
  assumes "h \<le> t" "0 < t" "t < 2 ^ 64"
  shows "\<exists>r. d_div (d_of_nat h) (d_of_nat t) = Fin r \<and> 0 \<le> r \<and> r \<le> 1 \<and> (r = 0 \<longleftrightarrow> h = 0)"
proof -
  define A B where "A = round_magnitude 53 1074 (of_nat h)" and "B = round_magnitude 53 1074 (of_nat t)"
  have B: "d_of_nat t = Fin B" "1 \<le> B" "B \<le> 2 ^ 64" using d_of_nat_fin [OF assms(3)] assms(2) by (auto simp: B_def)
  have A: "d_of_nat h = Fin A" "0 < h \<longrightarrow> 1 \<le> A" using d_of_nat_fin [of h] assms(1,3) by (auto simp: A_def)
  have "A \<le> B" unfolding A_def B_def using assms(1) by (intro round_magnitude_mono) auto
  then have "A / B \<le> 2 ^ 0" using B(2) by simp
  have div: "d_div (d_of_nat h) (d_of_nat t) = round_f64 (A / B)" using A B by simp
  show ?thesis
  proof (cases "h = 0")
    case True
    then have "A = 0" by (simp add: A_def round_magnitude_def round_half_even_def)
    then have "round_f64 (A / B) = Fin 0" by (simp add: round_f64_def round_magnitude_def round_half_even_def)
    then show ?thesis unfolding div using True by simp
  next
    case False
    have "(2 :: rat) ^ 1010 / 2 ^ 1074 = 1 / 2 ^ 64" by simp
    also have "\<dots> \<le> A / B" using False A(2) B(2,3) by (intro frac_le) auto
    finally obtain a where "round_f64 (A / B) = Fin a" "2 ^ 1010 / 2 ^ 1074 \<le> a" "a \<le> 2 ^ 0"
      using round_f64_between [OF _ \<open>A / B \<le> 2 ^ 0\<close>, of 1010] by auto
    moreover have "(0 :: rat) < 2 ^ 1010 / 2 ^ 1074" by simp
    ultimately show ?thesis using False div by (intro exI [of _ a]) auto
  qed
qed

text \<open>A sum of numbers between zero and one is at most how many there are, rounding included.\<close>

lemma d_sum_bounds:
  assumes "\<And>x. x \<in> set xs \<Longrightarrow> \<exists>r. x = Fin r \<and> 0 \<le> r \<and> r \<le> 1" "0 \<le> a" "a \<le> of_nat n" "n + length xs \<le> 2 ^ 53"
  shows "\<exists>s. foldl d_add (Fin a) xs = Fin s \<and> 0 \<le> s \<and> s \<le> of_nat (n + length xs)"
  using assms
proof (induction xs arbitrary: a n)
  case Nil
  then show ?case by simp
next
  case (Cons x xs)
  obtain r where r: "x = Fin r" "0 \<le> r" "r \<le> 1" using Cons.prems(1) [of x] by auto
  have "a + r \<le> of_nat (Suc n)" using Cons.prems(3) r(3) by simp
  then obtain b where "round_f64 (a + r) = Fin b" "0 \<le> b" "b \<le> of_nat (Suc n)"
    using round_f64_le_nat [of "a + r" "Suc n"] Cons.prems(2,4) r(2) by auto
  then show ?case using Cons.IH [of b "Suc n"] Cons.prems(1,4) r(1) by simp
qed

subsection \<open>Printing\<close>

text \<open>The format \<^verbatim>\<open>{:.n}\<close>: the exact value rounded to \<open>n\<close> decimal digits.\<close>

definition show_fixed :: "nat \<Rightarrow> fval \<Rightarrow> string" where
  "show_fixed n v =
     (case v of
        NaN \<Rightarrow> ''NaN''
      | PosInf \<Rightarrow> ''inf''
      | NegInf \<Rightarrow> ''-inf''
      | Fin a \<Rightarrow>
          let k = nat (round_half_even (\<bar>a\<bar> * 10 ^ n));
              fraction = show_nat (k mod 10 ^ n)
          in (if a < 0 then ''-'' else []) @ show_nat (k div 10 ^ n) @
             (if n = 0 then [] else ''.'' @ replicate (n - length fraction) (CHR ''0'') @ fraction))"

end
