(* ===== verification/Integer_Codec.thy ===== *)
theory Integer_Codec
  imports Prelude
begin

section \<open>Integer encodings and block compression\<close>

text \<open>
  The model of \<^verbatim>\<open>src/compression\<close>: the variable-byte encoder (\<^verbatim>\<open>vbyte.rs\<close>), the delta encoder
  (\<^verbatim>\<open>delta.rs\<close>), \<^verbatim>\<open>EncodedIntegerBlock\<close> and \<^verbatim>\<open>CompressedBlock\<close> (\<^verbatim>\<open>compress.rs\<close>).  An output
  vector passed by \<^verbatim>\<open>&mut\<close> is an argument that is returned extended.  The loops over a slice
  are recursive functions over the same loop state.  The compressors of the crates \<^verbatim>\<open>lz4\<close>,
  \<^verbatim>\<open>zstd\<close> and \<^verbatim>\<open>snap\<close> are a parameter of the model.
\<close>

unbundle bit_operations_syntax

subsection \<open>Variable-byte encoding\<close>

lemma unat_drop_bit_7: "unat (drop_bit 7 (v::u32)) = unat v div 128"
  by (simp add: drop_bit_eq_div unat_div)

function encode_u32 :: "byte_vec \<Rightarrow> u32 \<Rightarrow> byte_vec result" where
  "encode_u32 output value =
     (if 128 \<le> value
      then encode_u32 (output @ [ucast (value AND 127) OR 128]) (drop_bit 7 value)
      else Ok (output @ [ucast value]))"
  by pat_completeness auto
termination
  by (relation "measure (\<lambda>(output, value). unat value)")
    (auto simp: unat_drop_bit_7 word_le_nat_alt)

declare encode_u32.simps [simp del]

fun vbyte_encode_loop :: "byte_vec \<Rightarrow> u32 list \<Rightarrow> byte_vec result" where
  "vbyte_encode_loop output [] = Ok output"
| "vbyte_encode_loop output (num # nums) =
     and_then (encode_u32 output num) (\<lambda>output'. vbyte_encode_loop output' nums)"

definition vbyte_encode_u32_list :: "u32 list \<Rightarrow> byte_vec result" where
  "vbyte_encode_u32_list nums = vbyte_encode_loop [] nums"

fun decode_u32_loop :: "u32 \<Rightarrow> nat \<Rightarrow> nat \<Rightarrow> byte_vec \<Rightarrow> (u32 \<times> nat) result" where
  "decode_u32_loop value shift consumed [] = Err (Error Parse ''Incomplete VByte'')"
| "decode_u32_loop value shift consumed (byte # input) =
     (let consumed' = consumed + 1;
          value' = value OR push_bit shift (ucast (byte AND 127))
      in if byte AND 128 = 0 then Ok (value', consumed')
         else let shift' = shift + 7
              in if 28 < shift' then Err (Error Parse ''VByte overflow'')
                 else decode_u32_loop value' shift' consumed' input)"

definition decode_u32 :: "byte_vec \<Rightarrow> (u32 \<times> nat) result" where
  "decode_u32 input = decode_u32_loop 0 0 0 input"

lemma decode_u32_loop_consumed:
  "decode_u32_loop acc shift consumed input = Ok (v, c) \<Longrightarrow>
     consumed < c \<and> c \<le> consumed + length input"
  by (induction acc shift consumed input rule: decode_u32_loop.induct)
    (fastforce simp: Let_def split: if_splits)+

lemma decode_u32_consumed: "decode_u32 input = Ok (v, c) \<Longrightarrow> 0 < c \<and> c \<le> length input"
  using decode_u32_loop_consumed [of 0 0 0 input v c] by (simp add: decode_u32_def)

function vbyte_decode_loop :: "byte_vec \<Rightarrow> nat \<Rightarrow> u32 list \<Rightarrow> u32 list result" where
  "vbyte_decode_loop data pos nums =
     (if pos < length data
      then and_then (decode_u32 (drop pos data))
             (\<lambda>(value, consumed). vbyte_decode_loop data (pos + consumed) (nums @ [value]))
      else Ok nums)"
  by pat_completeness auto
termination
  by (relation "measure (\<lambda>(data, pos, nums). length data - pos)")
    (auto dest!: decode_u32_consumed)

declare vbyte_decode_loop.simps [simp del]

definition vbyte_decode_u32_list :: "byte_vec \<Rightarrow> u32 list result" where
  "vbyte_decode_u32_list data = vbyte_decode_loop data 0 []"

subsection \<open>Delta encoding\<close>

text \<open>The loop over \<open>1..nums.len()\<close> reads \<open>nums[i]\<close> and \<open>nums[i - 1]\<close>; \<open>prev\<close> is the latter.\<close>

fun delta_encode_loop :: "byte_vec \<Rightarrow> u32 \<Rightarrow> u32 list \<Rightarrow> byte_vec result" where
  "delta_encode_loop output prev [] = Ok output"
| "delta_encode_loop output prev (num # nums) =
     and_then (encode_u32 output (num - prev)) (\<lambda>output'. delta_encode_loop output' num nums)"

definition delta_encode_u32_list :: "u32 list \<Rightarrow> byte_vec result" where
  "delta_encode_u32_list nums =
     (case nums of
        [] \<Rightarrow> Ok []
      | first # rest \<Rightarrow> delta_encode_loop (to_le_bytes_u32 first) first rest)"

function delta_decode_loop :: "byte_vec \<Rightarrow> nat \<Rightarrow> u32 \<Rightarrow> u32 list \<Rightarrow> u32 list result" where
  "delta_decode_loop data pos prev nums =
     (if pos < length data
      then and_then (decode_u32 (drop pos data))
             (\<lambda>(delta, consumed).
                let val = prev + delta
                in delta_decode_loop data (pos + consumed) val (nums @ [val]))
      else Ok nums)"
  by pat_completeness auto
termination
  by (relation "measure (\<lambda>(data, pos, prev, nums). length data - pos)")
    (auto dest!: decode_u32_consumed)

declare delta_decode_loop.simps [simp del]

definition delta_decode_u32_list :: "byte_vec \<Rightarrow> u32 list result" where
  "delta_decode_u32_list data =
     (if length data < 4 then Ok []
      else let first = from_le_bytes_u32 (data ! 0) (data ! 1) (data ! 2) (data ! 3)
           in delta_decode_loop data 4 first [first])"

subsection \<open>Encoded integer blocks\<close>

datatype integer_encoding_type = EncNone | EncDelta | EncVByte

record encoded_integer_block =
  ib_data :: byte_vec
  ib_original_count :: nat
  ib_encoding :: integer_encoding_type

definition encode :: "u32 list \<Rightarrow> integer_encoding_type \<Rightarrow> encoded_integer_block result" where
  "encode nums encoding =
     and_then
       (case encoding of
          EncNone \<Rightarrow> Ok (concat (map to_le_bytes_u32 nums))
        | EncDelta \<Rightarrow> delta_encode_u32_list nums
        | EncVByte \<Rightarrow> vbyte_encode_u32_list nums)
       (\<lambda>encoded. Ok \<lparr>ib_data = encoded, ib_original_count = length nums,
                      ib_encoding = encoding\<rparr>)"

text \<open>\<^verbatim>\<open>chunks_exact(4)\<close> drops a remainder of fewer than four bytes.\<close>

fun chunks_exact_4 :: "byte_vec \<Rightarrow> u32 list" where
  "chunks_exact_4 (b0 # b1 # b2 # b3 # rest) = from_le_bytes_u32 b0 b1 b2 b3 # chunks_exact_4 rest"
| "chunks_exact_4 _ = []"

definition decode :: "encoded_integer_block \<Rightarrow> u32 list result" where
  "decode self =
     (case ib_encoding self of
        EncNone \<Rightarrow> Ok (chunks_exact_4 (ib_data self))
      | EncDelta \<Rightarrow> delta_decode_u32_list (ib_data self)
      | EncVByte \<Rightarrow> vbyte_decode_u32_list (ib_data self))"

subsection \<open>Compressed blocks\<close>

datatype compression_type = CompNone | LZ4 | Zstd | Snappy

record compressed_block =
  cb_data :: byte_vec
  cb_original_size :: nat
  cb_compression :: compression_type

text \<open>
  The three third-party compressors: a compression function and a decompression function each,
  both fallible.  LZ4 takes the expected size as a signed 32-bit value.
\<close>

record compressors =
  lz4_compress :: "byte_vec \<Rightarrow> byte_vec result"
  lz4_decompress :: "byte_vec \<Rightarrow> int \<Rightarrow> byte_vec result"
  zstd_encode_all :: "byte_vec \<Rightarrow> byte_vec result"
  zstd_decode_all :: "byte_vec \<Rightarrow> byte_vec result"
  snap_compress_vec :: "byte_vec \<Rightarrow> byte_vec result"
  snap_decompress_vec :: "byte_vec \<Rightarrow> byte_vec result"

definition compress ::
  "compressors \<Rightarrow> byte_vec \<Rightarrow> compression_type \<Rightarrow> compressed_block result" where
  "compress cs data compression =
     and_then
       (case compression of
          CompNone \<Rightarrow> Ok data
        | LZ4 \<Rightarrow> lz4_compress cs data
        | Zstd \<Rightarrow> zstd_encode_all cs data
        | Snappy \<Rightarrow> snap_compress_vec cs data)
       (\<lambda>compressed. Ok \<lparr>cb_data = compressed, cb_original_size = length data,
                         cb_compression = compression\<rparr>)"

text \<open>\<^verbatim>\<open>self.original_size as i32\<close> keeps the low 32 bits of the size, read as signed.\<close>

definition size_as_i32 :: "nat \<Rightarrow> int" where
  "size_as_i32 n = sint (of_nat n :: u32)"

definition decompress :: "compressors \<Rightarrow> compressed_block \<Rightarrow> byte_vec result" where
  "decompress cs self =
     (case cb_compression self of
        CompNone \<Rightarrow> Ok (cb_data self)
      | LZ4 \<Rightarrow> lz4_decompress cs (cb_data self) (size_as_i32 (cb_original_size self))
      | Zstd \<Rightarrow> zstd_decode_all cs (cb_data self)
      | Snappy \<Rightarrow> snap_decompress_vec cs (cb_data self))"

datatype compression_priority = Speed | Ratio | Balanced

definition compress_auto ::
  "compressors \<Rightarrow> byte_vec \<Rightarrow> compression_priority \<Rightarrow> compressed_block result" where
  "compress_auto cs data priority =
     compress cs data (case priority of Speed \<Rightarrow> LZ4 | Ratio \<Rightarrow> Zstd | Balanced \<Rightarrow> Snappy)"

definition compress_with_lz4 ::
  "compressors \<Rightarrow> encoded_integer_block \<Rightarrow> compressed_block result" where
  "compress_with_lz4 cs self = compress cs (ib_data self) LZ4"

subsection \<open>The bytes of one integer\<close>

text \<open>
  \<open>vbytes v\<close> is the specification of the encoder: the groups of seven bits of \<open>v\<close>, the lowest
  first, each but the last with the continuation bit.
\<close>

function vbytes :: "u32 \<Rightarrow> byte_vec" where
  "vbytes v = (if 128 \<le> v then (ucast (v AND 127) OR 128) # vbytes (drop_bit 7 v) else [ucast v])"
  by pat_completeness auto
termination
  by (relation "measure unat") (auto simp: unat_drop_bit_7 word_le_nat_alt)
declare vbytes.simps [simp del]

lemma encode_u32_vbytes: "encode_u32 out v = Ok (out @ vbytes v)"
proof (induction out v rule: encode_u32.induct)
  case (1 out v)
  then show ?case
    by (cases "128 \<le> v") (simp_all add: encode_u32.simps [of out v] vbytes.simps [of v])
qed

lemma length_vbytes_pos: "0 < length (vbytes v)"
  by (simp add: vbytes.simps [of v])

lemma and_127_eq_take_bit: "(w::'a::len word) AND 127 = take_bit 7 w"
  by (simp add: take_bit_eq_mask mask_numeral)

lemma bit_128_u8: "bit (128::u8) n \<longleftrightarrow> n = 7"
proof -
  have "(128::u8) = 2 ^ 7" by simp
  then have "bit (128::u8) n = bit ((2::u8) ^ 7) n" by (simp only:)
  also have "\<dots> = (n = 7)" by (auto simp only: bit_exp_iff possible_bit_word) simp_all
  finally show ?thesis .
qed

lemma and_128_eq_0_iff: "(b::u8) AND 128 = 0 \<longleftrightarrow> \<not> bit b 7"
proof
  assume "b AND 128 = 0"
  then have "\<not> bit (b AND 128) 7" by simp
  then show "\<not> bit b 7" by (simp only: bit_and_iff bit_128_u8) simp
next
  assume "\<not> bit b 7"
  then show "b AND 128 = 0"
    by (intro bit_word_eqI) (simp only: bit_and_iff bit_128_u8 bit_0_eq, auto)
qed

lemma continuation_byte:
  fixes v :: u32
  shows "(ucast (v AND 127) OR 128 :: u8) AND 128 \<noteq> 0"
    and "ucast ((ucast (v AND 127) OR 128 :: u8) AND 127) = v AND 127"
proof -
  show "(ucast (v AND 127) OR 128 :: u8) AND 128 \<noteq> 0"
    by (simp add: and_128_eq_0_iff bit_simps bit_128_u8)
  show "ucast ((ucast (v AND 127) OR 128 :: u8) AND 127) = v AND 127"
    unfolding and_127_eq_take_bit by (rule bit_word_eqI) (auto simp: bit_simps bit_128_u8)
qed

lemma small_not_bit:
  fixes v :: u32
  assumes "v < 128" "7 \<le> n"
  shows "\<not> bit v n"
proof -
  have "v = take_bit 7 v"
    using assms(1) less_mask_eq [of v 7] by (simp add: take_bit_eq_mask mask_eq_exp_minus_1)
  then have "bit v n = bit (take_bit 7 v) n" by simp
  also have "\<dots> = False" using assms(2) by (simp add: bit_simps)
  finally show ?thesis by simp
qed

lemma final_byte:
  fixes v :: u32
  assumes "v < 128"
  shows "(ucast v :: u8) AND 128 = 0" and "ucast ((ucast v :: u8) AND 127) = v"
proof -
  show "(ucast v :: u8) AND 128 = 0"
    using small_not_bit [OF assms] by (simp add: and_128_eq_0_iff bit_simps)
  show "ucast ((ucast v :: u8) AND 127) = v"
    unfolding and_127_eq_take_bit
    using small_not_bit [OF assms]
    by (intro bit_word_eqI) (force simp: bit_simps not_less intro: ccontr)
qed

lemma push_bit_split_7: "push_bit s (v AND 127) OR push_bit (s + 7) (drop_bit 7 v) = push_bit s (v::u32)"
  unfolding and_127_eq_take_bit
  apply (rule bit_word_eqI)
  apply (auto simp: bit_simps)
  subgoal for n by (cases "s + 7 \<le> n") auto
  done

lemma decode_loop_vbytes:
  assumes "unat v < 2 ^ (32 - s)" "s \<le> 28" "7 dvd s"
  shows "decode_u32_loop acc s c (vbytes v @ rest) = Ok (acc OR push_bit s v, c + length (vbytes v))"
  using assms
proof (induction v arbitrary: acc s c rule: vbytes.induct)
  case (1 v)
  show ?case
  proof (cases "128 \<le> v")
    case True
    have "s \<le> 21"
    proof (rule ccontr)
      assume "\<not> s \<le> 21"
      with "1.prems" have "s = 28" by presburger
      with "1.prems"(1) True show False by (simp add: word_le_nat_alt)
    qed
    moreover have "unat (drop_bit 7 v) < 2 ^ (32 - (s + 7))"
    proof -
      have "unat v < 2 ^ (32 - (s + 7)) * 128"
      proof -
        have "(2::nat) ^ (32 - s) = 2 ^ (32 - (s + 7)) * 2 ^ 7"
          unfolding power_add [symmetric] using \<open>s \<le> 21\<close> by simp
        with "1.prems"(1) show ?thesis by simp
      qed
      then show ?thesis by (simp add: unat_drop_bit_7 less_mult_imp_div_less)
    qed
    ultimately have IH: "decode_u32_loop (acc OR push_bit s (v AND 127)) (s + 7) (Suc c) (vbytes (drop_bit 7 v) @ rest)
      = Ok (acc OR push_bit s (v AND 127) OR push_bit (s + 7) (drop_bit 7 v), c + 1 + length (vbytes (drop_bit 7 v)))"
      using "1.IH" [OF True, of "s + 7"] "1.prems"(3)
      by (simp add: or.assoc del: drop_bit_numeral_bit0 push_bit_and)
    have "vbytes v = (ucast (v AND 127) OR 128) # vbytes (drop_bit 7 v)"
      using True by (simp only: vbytes.simps [of v] if_True)
    moreover have split: "push_bit s (v AND 127) OR push_bit (s + 7) (drop_bit 7 v) = push_bit s v"
      by (rule push_bit_split_7)
    ultimately show ?thesis using \<open>s \<le> 21\<close>
      by (simp add: Let_def continuation_byte IH split or.assoc del: drop_bit_numeral_bit0 push_bit_and)
  next
    case False
    then have "vbytes v = [ucast v]" by (simp add: vbytes.simps [of v])
    with False show ?thesis by (simp add: Let_def final_byte not_le)
  qed
qed

lemma decode_u32_vbytes: "decode_u32 (vbytes v @ rest) = Ok (v, length (vbytes v))"
  using decode_loop_vbytes [of v 0 0 0 rest] unsigned_less [where w = v] by (simp add: decode_u32_def)

lemma vbyte_encode_loop_vbytes: "vbyte_encode_loop out nums = Ok (out @ concat (map vbytes nums))"
  by (induction nums arbitrary: out) (simp_all add: encode_u32_vbytes)

lemma vbyte_decode_loop_vbytes:
  "vbyte_decode_loop (pre @ concat (map vbytes nums)) (length pre) acc = Ok (acc @ nums)"
proof (induction nums arbitrary: pre acc)
  case Nil
  then show ?case by (simp add: vbyte_decode_loop.simps)
next
  case (Cons v nums)
  show ?case
    using Cons.IH [of "pre @ vbytes v" "acc @ [v]"] length_vbytes_pos [of v]
    by (subst vbyte_decode_loop.simps) (simp add: decode_u32_vbytes)
qed

fun deltas :: "u32 \<Rightarrow> u32 list \<Rightarrow> u32 list" where
  "deltas prev [] = []"
| "deltas prev (num # nums) = (num - prev) # deltas num nums"

lemma delta_encode_loop_deltas:
  "delta_encode_loop out prev nums = Ok (out @ concat (map vbytes (deltas prev nums)))"
  by (induction nums arbitrary: out prev) (simp_all add: encode_u32_vbytes)

lemma delta_decode_loop_deltas:
  "delta_decode_loop (pre @ concat (map vbytes (deltas prev nums))) (length pre) prev acc
     = Ok (acc @ nums)"
proof (induction nums arbitrary: pre prev acc)
  case Nil
  then show ?case by (simp add: delta_decode_loop.simps)
next
  case (Cons v nums)
  show ?case
    using Cons.IH [of "pre @ vbytes (v - prev)" v "acc @ [v]"] length_vbytes_pos [of "v - prev"]
    by (subst delta_decode_loop.simps) (simp add: decode_u32_vbytes)
qed

lemma vbyte_roundtrip: "and_then (vbyte_encode_u32_list nums) vbyte_decode_u32_list = Ok nums"
  using vbyte_decode_loop_vbytes [of "[]" nums "[]"]
  by (simp add: vbyte_encode_u32_list_def vbyte_decode_u32_list_def vbyte_encode_loop_vbytes)

lemma delta_roundtrip: "and_then (delta_encode_u32_list nums) delta_decode_u32_list = Ok nums"
proof (cases nums)
  case Nil
  then show ?thesis by (simp add: delta_encode_u32_list_def delta_decode_u32_list_def)
next
  case (Cons first rest)
  have "delta_decode_loop (to_le_bytes_u32 first @ concat (map vbytes (deltas first rest))) 4 first
          [first] = Ok nums"
    using delta_decode_loop_deltas [of "to_le_bytes_u32 first" first rest "[first]"] Cons
    by (simp only: length_to_le_bytes_u32 append_Cons append_Nil)
  with Cons show ?thesis
    by (simp add: delta_encode_u32_list_def delta_encode_loop_deltas delta_decode_u32_list_def
        to_le_bytes_u32_def)
qed

lemma raw_roundtrip: "chunks_exact_4 (concat (map to_le_bytes_u32 nums)) = nums"
  by (induction nums) (simp_all add: to_le_bytes_u32_def)

lemma length_vbytes_le_iff: "length (vbytes v) \<le> Suc n \<longleftrightarrow> unat v < 128 ^ Suc n"
proof (induction n arbitrary: v)
  case 0
  then show ?case
    using length_vbytes_pos [of "drop_bit 7 v"]
    by (auto simp: vbytes.simps [of v] word_le_nat_alt)
next
  case (Suc n)
  show ?case
  proof (cases "128 \<le> v")
    case True
    have "length (vbytes v) \<le> Suc (Suc n) \<longleftrightarrow> unat v div 128 < 128 ^ Suc n"
      using Suc.IH [of "drop_bit 7 v"] True by (simp add: vbytes.simps [of v] unat_drop_bit_7)
    also have "\<dots> \<longleftrightarrow> unat v < 128 ^ Suc (Suc n)"
      by (simp add: div_less_iff_less_mult mult.commute)
    finally show ?thesis .
  next
    case False
    then have "unat v < 128 ^ 1" by (simp add: word_le_nat_alt)
    also have "(128::nat) ^ 1 \<le> 128 ^ Suc (Suc n)" by (rule power_increasing) simp_all
    finally have "unat v < 128 ^ Suc (Suc n)" .
    with False show ?thesis by (simp add: vbytes.simps [of v])
  qed
qed

lemma vbytes_last:
  "vbytes v \<noteq> [] \<and> last (vbytes v) AND 128 = 0 \<and> (\<forall>b \<in> set (butlast (vbytes v)). b AND 128 \<noteq> 0)"
proof (induction v rule: vbytes.induct)
  case (1 v)
  show ?case
    by (cases "128 \<le> v") (use 1 in \<open>auto simp: vbytes.simps [of v] continuation_byte final_byte not_le\<close>)
qed

subsection \<open>The codec interface\<close>

text \<open>
  What the index relies on when it stores a list of integers: encoding never fails and decoding
  gives the list back.  The three encodings of \<^verbatim>\<open>IntegerEncodingType\<close> provide it.
\<close>

locale integer_codec =
  fixes enc :: "u32 list \<Rightarrow> 'b result"
    and dec :: "'b \<Rightarrow> u32 list result"
  assumes dec_enc: "and_then (enc nums) dec = Ok nums"
begin

lemma enc_total: "\<exists>bs. enc nums = Ok bs \<and> dec bs = Ok nums"
  using dec_enc [of nums] by (simp add: and_then_Ok_iff)

lemma enc_inj: "enc xs = enc ys \<Longrightarrow> xs = ys"
  using dec_enc by (metis Inr_inject)

end

interpretation vbyte: integer_codec vbyte_encode_u32_list vbyte_decode_u32_list
  by unfold_locales (rule vbyte_roundtrip)

interpretation delta: integer_codec delta_encode_u32_list delta_decode_u32_list
  by unfold_locales (rule delta_roundtrip)

interpretation raw: integer_codec
  "\<lambda>nums. Ok (concat (map to_le_bytes_u32 nums))" "\<lambda>bs. Ok (chunks_exact_4 bs)"
  by unfold_locales (simp add: raw_roundtrip)

interpretation block: integer_codec "\<lambda>nums. encode nums encoding" decode
proof
  fix nums
  show "and_then (encode nums encoding) decode = Ok nums"
    using vbyte.enc_total [of nums] delta.enc_total [of nums]
    by (cases encoding) (auto simp: encode_def decode_def raw_roundtrip)
qed

text \<open>
  C33: storing any list of integers as an encoded block and decoding the block gives the same
  list, for each of the three encodings, whatever the values (unsorted lists and wrap-around of
  the deltas included); the block records the number of integers and its encoding.
\<close>

theorem integer_block_roundtrip:
  "\<exists>b. encode nums encoding = Ok b \<and> decode b = Ok nums \<and>
       ib_original_count b = length nums \<and> ib_encoding b = encoding"
proof -
  obtain b where "encode nums encoding = Ok b" "decode b = Ok nums"
    using block.enc_total by blast
  then show ?thesis
    by (auto simp: encode_def and_then_Ok_iff)
qed

text \<open>
  A variable-byte integer is self-delimiting: the encoder appends between one and five bytes,
  \<open>k\<close> bytes exactly when \<open>k\<close> groups of seven bits are needed, and whatever follows them in the
  buffer the decoder returns the integer and the number of bytes the encoder wrote.
\<close>

theorem vbyte_self_delimiting:
  "\<exists>bs. encode_u32 out v = Ok (out @ bs) \<and> 1 \<le> length bs \<and> length bs \<le> 5 \<and>
        (\<forall>k. length bs \<le> Suc k \<longleftrightarrow> unat v < 128 ^ Suc k) \<and>
        (\<forall>rest. decode_u32 (bs @ rest) = Ok (v, length bs))"
proof (intro exI conjI allI impI)
  show "encode_u32 out v = Ok (out @ vbytes v)"
    by (rule encode_u32_vbytes)
  show "1 \<le> length (vbytes v)"
    using length_vbytes_pos [of v] by linarith
  show "length (vbytes v) \<le> 5"
    using length_vbytes_le_iff [of v 4] unat_u32_less [of v] by simp
  show "length (vbytes v) \<le> Suc k \<longleftrightarrow> unat v < 128 ^ Suc k" for k
    by (rule length_vbytes_le_iff)
  show "decode_u32 (vbytes v @ rest) = Ok (v, length (vbytes v))" for rest
    by (rule decode_u32_vbytes)
qed

subsection \<open>Compressor contract\<close>

text \<open>
  What a third-party compressor documents: what it compresses it decompresses, given the size of
  the original.  The law is stated for one block of data.
\<close>

definition compressor_laws :: "compressors \<Rightarrow> byte_vec \<Rightarrow> bool" where
  "compressor_laws cs data \<longleftrightarrow>
     (case lz4_compress cs data of
        Inl _ \<Rightarrow> True | Inr c \<Rightarrow> lz4_decompress cs c (int (length data)) = Ok data) \<and>
     (case zstd_encode_all cs data of Inl _ \<Rightarrow> True | Inr c \<Rightarrow> zstd_decode_all cs c = Ok data) \<and>
     (case snap_compress_vec cs data of
        Inl _ \<Rightarrow> True | Inr c \<Rightarrow> snap_decompress_vec cs c = Ok data)"

lemma size_as_i32_small: "n < 2 ^ 31 \<Longrightarrow> size_as_i32 n = int n"
  by (simp add: size_as_i32_def signed_of_nat signed_take_bit_int_eq_self)

text \<open>
  A compressed block decompresses to the data it was made from, with every compression type,
  provided the third-party compressor inverts itself on this data; for LZ4 the size must fit the
  signed 32-bit length the code passes.
\<close>

theorem compressed_block_roundtrip:
  assumes "compressor_laws cs data" "length data < 2 ^ 31" "compress cs data compression = Ok b"
  shows "decompress cs b = Ok data"
  using assms size_as_i32_small [of "length data"]
  by (cases compression) (auto simp: compress_def decompress_def compressor_laws_def and_then_Ok_iff)

definition store_only :: compressors where
  "store_only = \<lparr>lz4_compress = Ok, lz4_decompress = (\<lambda>c n. Ok c), zstd_encode_all = Ok,
     zstd_decode_all = Ok, snap_compress_vec = Ok, snap_decompress_vec = Ok\<rparr>"

theorem compressed_block_roundtrip_witness:
  "compressor_laws store_only [1, 2, 3] \<and>
   decompress store_only \<lparr>cb_data = [1, 2, 3], cb_original_size = 3, cb_compression = LZ4\<rparr>
     = Ok [1, 2, 3]"
proof -
  have laws: "compressor_laws store_only [1, 2, 3]"
    by (simp add: compressor_laws_def store_only_def)
  moreover have "compress store_only [1, 2, 3] LZ4 =
      Ok \<lparr>cb_data = [1, 2, 3], cb_original_size = 3, cb_compression = LZ4\<rparr>"
    by (simp add: compress_def store_only_def)
  ultimately show ?thesis
    using compressed_block_roundtrip [OF laws] by simp
qed

end
