(* ===== verification/Sorted_Ops.thy ===== *)
theory Sorted_Ops
  imports Prelude
begin

section \<open>Operations on sorted arrays\<close>

text \<open>
  The model of \<^verbatim>\<open>src/simd/operation.rs\<close>: union and galloping intersection of sorted arrays of
  document ids and the unrolled loops over scores.  The loops keep the source's indices; the
  lemmas show that the optimised loops compute the plain set operations and the plain folds.
  Scores have an arbitrary type with \<open>+\<close> and \<open>*\<close> and no laws, as for \<^verbatim>\<open>f32\<close>: the unrolled loops
  perform the same operations in the same order as the rolled ones.
\<close>

subsection \<open>Union\<close>

function push_rest :: "u32 list \<Rightarrow> nat \<Rightarrow> u32 list \<Rightarrow> u32 list" where
  "push_rest a i result =
     (if i < length a then push_rest a (i + 1) (result @ [a ! i]) else result)"
  by pat_completeness auto
termination
  by (relation "measure (\<lambda>(a, i, result). length a - i)") auto

declare push_rest.simps [simp del]

function union_loop :: "u32 list \<Rightarrow> u32 list \<Rightarrow> nat \<Rightarrow> nat \<Rightarrow> u32 list \<Rightarrow> u32 list" where
  "union_loop a b i j result =
     (if i < length a \<and> j < length b
      then if a ! i < b ! j then union_loop a b (i + 1) j (result @ [a ! i])
           else if a ! i > b ! j then union_loop a b i (j + 1) (result @ [b ! j])
           else union_loop a b (i + 1) (j + 1) (result @ [a ! i])
      else push_rest b j (push_rest a i result))"
  by pat_completeness auto
termination
  by (relation "measure (\<lambda>(a, b, i, j, result). (length a - i) + (length b - j))") auto

declare union_loop.simps [simp del]

definition union_sorted :: "u32 list \<Rightarrow> u32 list \<Rightarrow> u32 list" where
  "union_sorted a b = union_loop a b 0 0 []"

subsection \<open>Galloping intersection\<close>

definition gallop_threshold :: nat where
  "gallop_threshold = 8"

function intersect_loop :: "u32 list \<Rightarrow> u32 list \<Rightarrow> nat \<Rightarrow> nat \<Rightarrow> u32 list \<Rightarrow> u32 list" where
  "intersect_loop a b i j result =
     (if i < length a \<and> j < length b
      then let chunk = i + gallop_threshold \<le> length a \<and> j + gallop_threshold \<le> length b
           in if chunk \<and> a ! (i + gallop_threshold - 1) < b ! j
              then intersect_loop a b (i + gallop_threshold) j result
              else if chunk \<and> b ! (j + gallop_threshold - 1) < a ! i
              then intersect_loop a b i (j + gallop_threshold) result
              else if a ! i < b ! j then intersect_loop a b (i + 1) j result
              else if a ! i > b ! j then intersect_loop a b i (j + 1) result
              else intersect_loop a b (i + 1) (j + 1) (result @ [a ! i])
      else result)"
  by pat_completeness auto
termination
  by (relation "measure (\<lambda>(a, b, i, j, result). (length a - i) + (length b - j))")
    (auto simp: gallop_threshold_def)

declare intersect_loop.simps [simp del]

definition intersect_sorted :: "u32 list \<Rightarrow> u32 list \<Rightarrow> u32 list" where
  "intersect_sorted a b = (if a = [] \<or> b = [] then [] else intersect_loop a b 0 0 [])"

subsection \<open>Scores\<close>

text \<open>One iteration of the unrolled loop updates eight consecutive entries, in order.\<close>

definition scale_at :: "'f::times \<Rightarrow> 'f list \<Rightarrow> nat \<Rightarrow> 'f list" where
  "scale_at boost scores i = scores[i := scores ! i * boost]"

function score_loop :: "'f::times list \<Rightarrow> 'f \<Rightarrow> nat \<Rightarrow> 'f list" where
  "score_loop scores boost i =
     (if i + 8 \<le> length scores
      then score_loop
             (foldl (scale_at boost) scores [i, i + 1, i + 2, i + 3, i + 4, i + 5, i + 6, i + 7])
             boost (i + 8)
      else if i < length scores then score_loop (scale_at boost scores i) boost (i + 1)
      else scores)"
  by pat_completeness auto
termination
  by (relation "measure (\<lambda>(scores, boost, i). length scores - i)") (auto simp: scale_at_def)

declare score_loop.simps [simp del]

definition score_documents :: "'f::times list \<Rightarrow> 'f \<Rightarrow> 'f list" where
  "score_documents scores boost = score_loop scores boost 0"

function dot_loop :: "'f::{plus,times} list \<Rightarrow> 'f list \<Rightarrow> 'f \<Rightarrow> nat \<Rightarrow> 'f" where
  "dot_loop a b acc i =
     (if i + 4 \<le> length a
      then let acc = acc + a ! i * b ! i;
               acc = acc + a ! (i + 1) * b ! (i + 1);
               acc = acc + a ! (i + 2) * b ! (i + 2);
               acc = acc + a ! (i + 3) * b ! (i + 3)
           in dot_loop a b acc (i + 4)
      else if i < length a then dot_loop a b (acc + a ! i * b ! i) (i + 1)
      else acc)"
  by pat_completeness auto
termination
  by (relation "measure (\<lambda>(a, b, acc, i). length a - i)") auto

declare dot_loop.simps [simp del]

definition dot_product :: "'f::{zero,plus,times} list \<Rightarrow> 'f list \<Rightarrow> 'f result" where
  "dot_product a b = (if length a \<noteq> length b then Err Panic else Ok (dot_loop a b 0 0))"

subsection \<open>Union and intersection are the set operations\<close>

lemma push_rest_eq: "push_rest a i result = result @ drop i a"
proof (induction a i result rule: push_rest.induct)
  case (1 a i result)
  then show ?case
    by (cases "i < length a") (simp_all add: push_rest.simps [of a i] Cons_nth_drop_Suc)
qed

text \<open>The list functions that the loops compute from their current positions.\<close>

fun merge_union :: "u32 list \<Rightarrow> u32 list \<Rightarrow> u32 list" where
  "merge_union [] ys = ys"
| "merge_union xs [] = xs"
| "merge_union (x # xs) (y # ys) =
     (if x < y then x # merge_union xs (y # ys)
      else if y < x then y # merge_union (x # xs) ys
      else x # merge_union xs ys)"

lemma union_loop_eq: "union_loop a b i j result = result @ merge_union (drop i a) (drop j b)"
proof (induction a b i j result rule: union_loop.induct)
  case (1 a b i j result)
  show ?case
  proof (cases "i < length a \<and> j < length b")
    case True
    then have "drop i a = a ! i # drop (Suc i) a" "drop j b = b ! j # drop (Suc j) b"
      by (simp_all add: Cons_nth_drop_Suc)
    with True 1 show ?thesis
      by (auto simp: union_loop.simps [of a b i j])
  next
    case False
    then show ?thesis
      by (cases "drop i a")
        (auto simp: union_loop.simps [of a b i j] push_rest_eq not_less)
  qed
qed

lemma set_merge_union: "set (merge_union xs ys) = set xs \<union> set ys"
  by (induction xs ys rule: merge_union.induct) auto

lemma strict_sorted_merge_union:
  "strict_sorted xs \<Longrightarrow> strict_sorted ys \<Longrightarrow> strict_sorted (merge_union xs ys)"
  by (induction xs ys rule: merge_union.induct) (auto simp: set_merge_union)

lemma skip_chunk:
  assumes "sorted a" "i + n \<le> length a" "0 < n" "a ! (i + n - 1) < y" "\<And>z. z \<in> B \<Longrightarrow> y \<le> z"
  shows "filter (\<lambda>x. x \<in> B) (drop i a) = filter (\<lambda>x. x \<in> B) (drop (i + n) a)"
    and "\<And>x. y \<le> x \<Longrightarrow> x \<in> set (drop i a) \<longleftrightarrow> x \<in> set (drop (i + n) a)"
proof -
  have split: "drop i a = take n (drop i a) @ drop (i + n) a"
    by (metis append_take_drop_id drop_drop add.commute)
  have small: "x < y" if "x \<in> set (take n (drop i a))" for x
  proof -
    from that obtain k where "k < n" "x = a ! (i + k)"
      using assms(2) by (auto simp: in_set_conv_nth)
    then have "x \<le> a ! (i + n - 1)"
      using assms(1-3) by (auto intro: sorted_nth_mono)
    with assms(4) show ?thesis by simp
  qed
  have "filter (\<lambda>x. x \<in> B) (take n (drop i a)) = []"
    using small assms(5) by (fastforce simp: filter_empty_conv)
  then show "filter (\<lambda>x. x \<in> B) (drop i a) = filter (\<lambda>x. x \<in> B) (drop (i + n) a)"
    by (subst split) (simp only: filter_append append_Nil)
  show "x \<in> set (drop i a) \<longleftrightarrow> x \<in> set (drop (i + n) a)" if "y \<le> x" for x
  proof -
    have "x \<notin> set (take n (drop i a))" using small that by fastforce
    then show ?thesis by (subst split) (simp only: set_append Un_iff simp_thms)
  qed
qed

text \<open>Two elements of sorted arrays advance together when they are equal.\<close>

lemma match_step:
  assumes "strict_sorted a" "strict_sorted b" "i < length a" "j < length b" "a ! i = b ! j"
  shows "filter (\<lambda>x. x \<in> set (drop j b)) (drop i a) =
           a ! i # filter (\<lambda>x. x \<in> set (drop (Suc j) b)) (drop (Suc i) a)"
proof -
  have "drop i a = a ! i # drop (Suc i) a" "drop j b = b ! j # drop (Suc j) b"
    using assms(3,4) by (simp_all add: Cons_nth_drop_Suc)
  moreover have "b ! j < x" if "x \<in> set (drop (Suc i) a)" for x
    using that assms(1,3,5)
    by (metis calculation(1) sorted_wrt.simps(2) sorted_wrt_drop)
  ultimately show ?thesis
    using assms(5) by (auto intro!: filter_cong)
qed

lemma intersect_loop_eq:
  "strict_sorted a \<Longrightarrow> strict_sorted b \<Longrightarrow>
     intersect_loop a b i j result = result @ filter (\<lambda>x. x \<in> set (drop j b)) (drop i a)"
proof (induction a b i j result rule: intersect_loop.induct)
  case (1 a b i j result)
  have sorted: "sorted a" "sorted b"
    using "1.prems" by (simp_all add: strict_sorted_imp_sorted)
  show ?case
  proof (cases "i < length a \<and> j < length b")
    case True
    have ge_b: "b ! j \<le> z" if "z \<in> set (drop j b)" for z
      using sorted_drop_ge [OF sorted(2)] True that by blast
    have ge_a: "a ! i \<le> z" if "z \<in> set (drop i a)" for z
      using sorted_drop_ge [OF sorted(1)] True that by blast
    have skip_a: "filter (\<lambda>x. x \<in> set (drop j b)) (drop i a) =
        filter (\<lambda>x. x \<in> set (drop j b)) (drop (i + n) a)"
      if "i + n \<le> length a" "0 < n" "a ! (i + n - 1) < b ! j" for n
      using skip_chunk(1) [OF sorted(1) that, of "set (drop j b)"] ge_b by blast
    have skip_b: "filter (\<lambda>x. x \<in> set (drop j b)) (drop i a) =
        filter (\<lambda>x. x \<in> set (drop (j + n) b)) (drop i a)"
      if "j + n \<le> length b" "0 < n" "b ! (j + n - 1) < a ! i" for n
      by (rule filter_cong [OF refl])
        (use skip_chunk(2) [OF sorted(2) that, of "set (drop i a)"] ge_a in blast)
    show ?thesis
      using True "1.prems" "1.IH" skip_a [of gallop_threshold] skip_b [of gallop_threshold]
        skip_a [of 1] skip_b [of 1] match_step [OF "1.prems"]
      by (auto simp: intersect_loop.simps [of a b i j] Let_def gallop_threshold_def)
  next
    case False
    then show ?thesis
      by (auto simp: intersect_loop.simps [of a b i j] not_less)
  qed
qed

lemma intersect_sorted_eq:
  "strict_sorted a \<Longrightarrow> strict_sorted b \<Longrightarrow> intersect_sorted a b = filter (\<lambda>x. x \<in> set b) a"
  by (auto simp: intersect_sorted_def intersect_loop_eq)

lemma union_sorted_eq: "union_sorted a b = merge_union a b"
  by (simp add: union_sorted_def union_loop_eq)

text \<open>
  The contract that boolean search relies on: on strictly ascending arrays the two operations are
  union and intersection of the represented sets and the result is strictly ascending again, so
  that results can be chained.
\<close>

locale sorted_set_ops =
  fixes union inter :: "'a::linorder list \<Rightarrow> 'a list \<Rightarrow> 'a list"
  assumes union_sorted: "strict_sorted a \<Longrightarrow> strict_sorted b \<Longrightarrow> strict_sorted (union a b)"
    and union_set: "strict_sorted a \<Longrightarrow> strict_sorted b \<Longrightarrow> set (union a b) = set a \<union> set b"
    and inter_sorted: "strict_sorted a \<Longrightarrow> strict_sorted b \<Longrightarrow> strict_sorted (inter a b)"
    and inter_set: "strict_sorted a \<Longrightarrow> strict_sorted b \<Longrightarrow> set (inter a b) = set a \<inter> set b"
begin

lemma foldl_union:
  "strict_sorted a \<Longrightarrow> \<forall>b \<in> set bs. strict_sorted b \<Longrightarrow>
     strict_sorted (foldl union a bs) \<and> set (foldl union a bs) = set a \<union> (\<Union>b\<in>set bs. set b)"
  by (induction bs arbitrary: a) (auto simp: union_sorted union_set)

lemma foldl_inter:
  "strict_sorted a \<Longrightarrow> \<forall>b \<in> set bs. strict_sorted b \<Longrightarrow>
     strict_sorted (foldl inter a bs) \<and> set (foldl inter a bs) = set a \<inter> (\<Inter>b\<in>set bs. set b)"
  by (induction bs arbitrary: a) (auto simp: inter_sorted inter_set)

lemma union_unique:
  assumes "strict_sorted a" "strict_sorted b" "strict_sorted c" "set c = set a \<union> set b"
  shows "union a b = c"
  using assms by (intro strict_sorted_set_unique) (simp_all add: union_sorted union_set)

end

interpretation simd: sorted_set_ops union_sorted intersect_sorted
  by unfold_locales
    (auto simp: union_sorted_eq intersect_sorted_eq set_merge_union strict_sorted_merge_union
      intro: sorted_wrt_filter)

text \<open>
  C35: on strictly ascending arrays the merge union and the galloping intersection compute exactly
  the ascending enumeration of the union and of the intersection of the two sets.
\<close>

theorem sorted_ops_correct:
  assumes "strict_sorted a" "strict_sorted b"
  shows "union_sorted a b = sorted_list_of_set (set a \<union> set b) \<and>
         intersect_sorted a b = sorted_list_of_set (set a \<inter> set b)"
proof
  show "union_sorted a b = sorted_list_of_set (set a \<union> set b)"
    using assms by (intro simd.union_unique) simp_all
  show "intersect_sorted a b = sorted_list_of_set (set a \<inter> set b)"
    using assms simd.inter_sorted [OF assms] simd.inter_set [OF assms]
    by (intro strict_sorted_set_unique) simp_all
qed

theorem sorted_ops_correct_witness:
  "union_sorted [1, 3, 5] [2, 3] = [1, 2, 3, 5] \<and>
   intersect_sorted [1, 3, 5] [2, 3] = sorted_list_of_set {3}"
proof -
  have "strict_sorted [1, 3, 5 :: u32]" "strict_sorted [2, 3 :: u32]"
    by simp_all
  note ops = sorted_ops_correct [OF this]
  have "set [1, 3, 5 :: u32] \<inter> set [2, 3] = {3}" by auto
  moreover have "union_sorted [1, 3, 5] [2, 3] = [1, 2, 3, 5]"
    by (simp add: union_sorted_eq)
  ultimately show ?thesis using ops by simp
qed

subsection \<open>Scores\<close>

lemma length_scale_at [simp]: "length (scale_at boost scores i) = length scores"
  by (simp add: scale_at_def)

lemma nth_scale_at:
  "k < length scores \<Longrightarrow>
     scale_at boost scores i ! k = (if k = i then scores ! k * boost else scores ! k)"
  by (auto simp: scale_at_def)

lemma length_foldl_scale_at [simp]: "length (foldl (scale_at boost) scores ks) = length scores"
  by (induction ks arbitrary: scores) simp_all

lemma nth_foldl_scale_at:
  "distinct ks \<Longrightarrow> k < length scores \<Longrightarrow>
     foldl (scale_at boost) scores ks ! k =
       (if k \<in> set ks then scores ! k * boost else scores ! k)"
  by (induction ks arbitrary: scores) (auto simp: nth_scale_at)

lemma score_loop_nth:
  "length (score_loop scores boost i) = length scores \<and>
   (\<forall>k < length scores. score_loop scores boost i ! k =
      (if i \<le> k then scores ! k * boost else scores ! k))"
proof (induction scores boost i rule: score_loop.induct)
  case (1 scores boost i)
  show ?case
  proof (cases "i + 8 \<le> length scores")
    case True
    then show ?thesis
      using "1.IH"(1)
      by (simp add: score_loop.simps [of scores boost i] nth_foldl_scale_at del: foldl.simps)
  next
    case False
    show ?thesis
    proof (cases "i < length scores")
      case True
      with False "1.IH"(2) show ?thesis
        by (auto simp: score_loop.simps [of scores boost i] nth_scale_at)
    qed (simp add: score_loop.simps [of scores boost i])
  qed
qed

lemma score_documents_eq: "score_documents scores boost = map (\<lambda>s. s * boost) scores"
  using score_loop_nth [of scores boost 0] by (simp add: score_documents_def list_eq_iff_nth_eq)

lemma dot_loop_eq:
  assumes "length a = length b"
  shows "dot_loop a b acc i = foldl (\<lambda>s (x, y). s + x * y) acc (drop i (zip a b))"
  using assms
proof (induction a b acc i rule: dot_loop.induct)
  case (1 a b acc i)
  have step: "drop k (zip a b) = (a ! k, b ! k) # drop (Suc k) (zip a b)" if "k < length a" for k
    using that "1.prems" by (simp add: Cons_nth_drop_Suc [symmetric])
  show ?case
  proof (cases "i + 4 \<le> length a")
    case True
    have "drop i (zip a b) = (a ! i, b ! i) # (a ! (i + 1), b ! (i + 1)) #
        (a ! (i + 2), b ! (i + 2)) # (a ! (i + 3), b ! (i + 3)) # drop (i + 4) (zip a b)"
      using True step [of i] step [of "i + 1"] step [of "i + 2"] step [of "i + 3"]
      by (simp add: eval_nat_numeral)
    with True 1 show ?thesis
      by (simp add: dot_loop.simps [of a b acc i] Let_def)
  next
    case False
    then show ?thesis
      using "1.IH"(2) "1.prems" step [of i]
      by (cases "i < length a") (simp_all add: dot_loop.simps [of a b acc i])
  qed
qed

text \<open>
  The unrolled score loops perform the operations of the plain loops, element by element and
  in the same order, for any arithmetic; the dot product panics exactly on a length mismatch.
\<close>

theorem unrolled_loops_correct:
  "score_documents scores boost = map (\<lambda>s. s * boost) scores \<and>
   dot_product a b =
     (if length a = length b then Ok (foldl (\<lambda>s (x, y). s + x * y) 0 (zip a b)) else Err Panic)"
  by (simp add: score_documents_eq dot_product_def dot_loop_eq)

end
