(* ===== verification/Posting_Lists.thy ===== *)
theory Posting_Lists
  imports Integer_Codec
begin

section \<open>Posting lists\<close>

text \<open>
  The model of \<^verbatim>\<open>src/index/posting.rs\<close>: a posting, the encoded posting list of a term and its
  accessors.  Indexing outside a vector panics, as in the source.  Decoded postings carry the
  document id truncated to 32 bits and the constant field norm that the code writes.
\<close>

record posting =
  doc_id :: doc_id
  term_freq :: u32
  positions :: "u32 list"
  field_norm :: fval

record posting_list =
  pl_doc_ids :: encoded_integer_block
  pl_term_freqs :: "u32 list"
  pl_positions :: "encoded_integer_block list"

definition posting_list_new :: "posting list \<Rightarrow> posting_list result" where
  "posting_list_new postings =
     and_then (encode (map (\<lambda>p. ucast (doc_id p)) postings) EncDelta) (\<lambda>encoded_ids.
     and_then (try_map (\<lambda>p. encode (positions p) EncVByte) postings) (\<lambda>positions.
       Ok \<lparr>pl_doc_ids = encoded_ids, pl_term_freqs = map term_freq postings,
           pl_positions = positions\<rparr>))"

definition decode_doc_ids :: "posting_list \<Rightarrow> u32 list result" where
  "decode_doc_ids self = decode (pl_doc_ids self)"

text \<open>The body that \<^verbatim>\<open>get_posting\<close> and each round of \<^verbatim>\<open>iter\<close> share, in the source's order of
  evaluation: the positions are decoded before the id and the frequency are indexed.\<close>

definition posting_at :: "posting_list \<Rightarrow> u32 list \<Rightarrow> nat \<Rightarrow> posting result" where
  "posting_at self doc_ids i =
     and_then (index (pl_positions self) i) (\<lambda>block.
     and_then (decode block) (\<lambda>positions.
     and_then (index doc_ids i) (\<lambda>d.
     and_then (index (pl_term_freqs self) i) (\<lambda>tf.
       Ok \<lparr>doc_id = ucast d, term_freq = tf, positions = positions, field_norm = Fin 1\<rparr>))))"

definition get_posting :: "posting_list \<Rightarrow> nat \<Rightarrow> posting result" where
  "get_posting self i = and_then (decode (pl_doc_ids self)) (\<lambda>doc_ids. posting_at self doc_ids i)"

definition doc_freq :: "posting_list \<Rightarrow> u32" where
  "doc_freq self = of_nat (length (pl_term_freqs self))"

definition total_freq :: "posting_list \<Rightarrow> u64" where
  "total_freq self = sum_list (map ucast (pl_term_freqs self))"

definition posting_list_is_empty :: "posting_list \<Rightarrow> bool" where
  "posting_list_is_empty self = (pl_term_freqs self = [])"

definition posting_list_len :: "posting_list \<Rightarrow> nat" where
  "posting_list_len self = length (pl_term_freqs self)"

definition posting_list_iter :: "posting_list \<Rightarrow> posting list result" where
  "posting_list_iter self =
     and_then (decode (pl_doc_ids self)) (\<lambda>doc_ids.
       try_map (posting_at self doc_ids) [0..<posting_list_len self])"

definition get_doc_id :: "posting_list \<Rightarrow> nat \<Rightarrow> doc_id result" where
  "get_doc_id self i =
     and_then (decode (pl_doc_ids self)) (\<lambda>doc_ids. and_then (index doc_ids i) (\<lambda>d. Ok (ucast d)))"

definition find_doc :: "posting_list \<Rightarrow> doc_id \<Rightarrow> nat option result" where
  "find_doc self target =
     and_then (decode (pl_doc_ids self)) (\<lambda>doc_ids. Ok (binary_search doc_ids (ucast target)))"

subsection \<open>What a posting list stores\<close>

text \<open>
  \<open>stored p\<close> is the posting as the list can give it back; \<open>represents pl ps\<close> says that every
  block of the list decodes to the corresponding part of \<open>ps\<close>.
\<close>

definition stored :: "posting \<Rightarrow> posting" where
  "stored p = \<lparr>doc_id = ucast (ucast (doc_id p) :: u32), term_freq = term_freq p,
               positions = positions p, field_norm = Fin 1\<rparr>"

definition represents :: "posting_list \<Rightarrow> posting list \<Rightarrow> bool" where
  "represents pl ps \<longleftrightarrow>
     decode (pl_doc_ids pl) = Ok (map (\<lambda>p. ucast (doc_id p)) ps) \<and>
     pl_term_freqs pl = map term_freq ps \<and>
     length (pl_positions pl) = length ps \<and>
     (\<forall>i < length ps. decode (pl_positions pl ! i) = Ok (positions (ps ! i)))"

lemma try_map_encode_positions:
  "\<exists>bs. try_map (\<lambda>p. encode (positions p) EncVByte) ps = Ok bs \<and> length bs = length ps \<and>
        (\<forall>i < length ps. decode (bs ! i) = Ok (positions (ps ! i)))"
proof (induction ps)
  case (Cons p ps)
  then obtain bs where bs: "try_map (\<lambda>p. encode (positions p) EncVByte) ps = Ok bs"
    "length bs = length ps" "\<forall>i < length ps. decode (bs ! i) = Ok (positions (ps ! i))"
    by blast
  obtain b where "encode (positions p) EncVByte = Ok b" "decode b = Ok (positions p)"
    using block.enc_total by blast
  with bs show ?case
    by (auto simp: nth_Cons split: nat.splits)
qed simp

lemma posting_list_new_represents: "\<exists>pl. posting_list_new ps = Ok pl \<and> represents pl ps"
proof -
  obtain b where "encode (map (\<lambda>p. ucast (doc_id p)) ps) EncDelta = Ok b"
    "decode b = Ok (map (\<lambda>p. ucast (doc_id p)) ps)"
    using block.enc_total by blast
  then show ?thesis
    using try_map_encode_positions [of ps] by (auto simp: posting_list_new_def represents_def)
qed

lemma posting_at_represents:
  "represents pl ps \<Longrightarrow> i < length ps \<Longrightarrow>
     posting_at pl (map (\<lambda>p. ucast (doc_id p)) ps) i = Ok (stored (ps ! i))"
  by (simp add: posting_at_def represents_def stored_def)

lemma get_posting_represents:
  "represents pl ps \<Longrightarrow>
     get_posting pl i = (if i < length ps then Ok (stored (ps ! i)) else Err Panic)"
  by (auto simp: get_posting_def posting_at_represents)
    (auto simp: represents_def posting_at_def index_def stored_def)

lemma posting_list_iter_represents:
  assumes "represents pl ps"
  shows "posting_list_iter pl = Ok (map stored ps)"
proof -
  have "try_map (posting_at pl (map (\<lambda>p. ucast (doc_id p)) ps)) [0..<length ps] =
      Ok (map (\<lambda>i. stored (ps ! i)) [0..<length ps])"
    using assms by (intro try_map_Ok) (simp add: posting_at_represents)
  also have "map (\<lambda>i. stored (ps ! i)) [0..<length ps] = map stored ps"
    by (rule nth_equalityI) simp_all
  finally show ?thesis
    using assms by (simp add: posting_list_iter_def represents_def posting_list_len_def)
qed


text \<open>
  In a posting list built from postings in strictly ascending order of their 32-bit document
  ids, \<^verbatim>\<open>find_doc\<close> returns the position of the posting of the target document, and nothing exactly
  when no posting has that id.
\<close>

theorem posting_list_find_doc:
  assumes "strict_sorted (map (\<lambda>p. ucast (doc_id p) :: u32) ps)" "posting_list_new ps = Ok pl"
  shows "\<exists>r. find_doc pl target = Ok r \<and>
           (\<forall>i. r = Some i \<longleftrightarrow>
              i < length ps \<and> (ucast (doc_id (ps ! i)) :: u32) = ucast target)"
proof -
  have "represents pl ps"
    using posting_list_new_represents [of ps] assms(2) by auto
  then show ?thesis
    using binary_search_correct [OF assms(1)]
    by (auto simp: find_doc_def represents_def cong: conj_cong)
qed

definition sample_postings :: "posting list" where
  "sample_postings =
     [\<lparr>doc_id = 3, term_freq = 1, positions = [4], field_norm = Fin 1\<rparr>,
      \<lparr>doc_id = 7, term_freq = 2, positions = [0, 300], field_norm = Fin 1\<rparr>]"

theorem posting_list_find_doc_witness:
  "\<exists>pl. posting_list_new sample_postings = Ok pl \<and> find_doc pl 7 = Ok (Some 1)"
proof -
  have "strict_sorted (map (\<lambda>p. ucast (doc_id p) :: u32) sample_postings)"
    by (simp add: sample_postings_def)
  moreover obtain pl where pl: "posting_list_new sample_postings = Ok pl"
    using posting_list_new_represents by blast
  ultimately obtain r where r: "find_doc pl 7 = Ok r"
    "\<forall>i. r = Some i \<longleftrightarrow> i < length sample_postings \<and>
           (ucast (doc_id (sample_postings ! i)) :: u32) = ucast (7::u64)"
    using posting_list_find_doc [of sample_postings pl 7] by blast
  have "r = Some 1"
    using r(2) [rule_format, of 1] by (simp add: sample_postings_def)
  with pl r(1) show ?thesis by simp
qed

end
