(* ===== verification/Skip_Lists.thy ===== *)
theory Skip_Lists
  imports Posting_Lists Floats
begin

section \<open>Skip lists\<close>

text \<open>
  The model of \<^verbatim>\<open>src/index/skiplist.rs\<close>.  The struct's fields are public, so a skip list is any
  value of the record; \<open>skip_list_wf\<close> is what \<^verbatim>\<open>build\<close> establishes.  The loop of \<^verbatim>\<open>intersect\<close> need
  not end on a list that was not built, so it is a partial function whose value is \<open>None\<close> when it
  does not return; on built lists it returns.

  The interval is \<^verbatim>\<open>(len as f32).sqrt().max(4.0) as usize\<close>, in single precision; the lemmas below
  only use that it is at least 4.
\<close>

definition skip_interval :: "nat \<Rightarrow> nat" where
  "skip_interval len = f_to_usize (f_max (f_sqrt (f_of_nat len)) (Fin 4))"

lemma skip_interval_ge: "4 \<le> skip_interval len"
  using f_to_usize_max [of 4] by (simp add: skip_interval_def)

lemma skip_interval_small:
  assumes "len \<le> 16"
  shows "skip_interval len = 4"
proof -
  have "f_max v (Fin 4) = Fin 4" if "v \<le> Fin 4" for v
    using that by (cases v) (simp_all add: max_def)
  with f_sqrt_le_4 [OF assms] show ?thesis by (simp add: skip_interval_def)
qed

lemma skip_interval_pos [simp]: "0 < skip_interval len"
  using skip_interval_ge [of len] by simp

record skip_entry =
  se_doc_id :: doc_id
  se_position :: nat
  se_skip_to :: "nat option"

record skip_list =
  sl_entries :: "skip_entry list"
  sl_doc_ids :: "u32 list"
  sl_skip_interval :: nat

function build_entries :: "u32 list \<Rightarrow> nat \<Rightarrow> nat \<Rightarrow> skip_entry list" where
  "build_entries doc_ids interval i =
     (if i < length doc_ids \<and> 0 < interval
      then \<lparr>se_doc_id = ucast (doc_ids ! i), se_position = i,
            se_skip_to = (if i + interval < length doc_ids then Some (i + interval) else None)\<rparr>
           # build_entries doc_ids interval (i + interval)
      else [])"
  by pat_completeness auto
termination
  by (relation "measure (\<lambda>(doc_ids, interval, i). length doc_ids - i)") auto

declare build_entries.simps [simp del]

definition skip_list_build :: "posting_list \<Rightarrow> skip_list result" where
  "skip_list_build pl =
     and_then (decode_doc_ids pl) (\<lambda>doc_ids.
       let interval = skip_interval (length doc_ids)
       in Ok \<lparr>sl_entries = build_entries doc_ids interval 0, sl_doc_ids = doc_ids,
              sl_skip_interval = interval\<rparr>)"

fun find_jump :: "u32 \<Rightarrow> nat \<Rightarrow> skip_entry list \<Rightarrow> nat" where
  "find_jump target pos [] = pos"
| "find_jump target pos (entry # entries) =
     (if ucast (se_doc_id entry) > target then pos
      else find_jump target (se_position entry) entries)"

function find_scan :: "u32 list \<Rightarrow> u32 \<Rightarrow> nat \<Rightarrow> nat option" where
  "find_scan doc_ids target i =
     (if i < length doc_ids
      then if doc_ids ! i = target then Some i
           else if doc_ids ! i > target then None
           else find_scan doc_ids target (i + 1)
      else None)"
  by pat_completeness auto
termination
  by (relation "measure (\<lambda>(doc_ids, target, i). length doc_ids - i)") auto

declare find_scan.simps [simp del]

definition skip_list_find :: "skip_list \<Rightarrow> doc_id \<Rightarrow> nat option" where
  "skip_list_find self target =
     (let target_u32 = ucast target
      in find_scan (sl_doc_ids self) target_u32 (find_jump target_u32 0 (sl_entries self)))"

fun skip_entry_ge :: "u32 \<Rightarrow> nat \<Rightarrow> skip_entry list \<Rightarrow> nat option" where
  "skip_entry_ge target from [] = None"
| "skip_entry_ge target from (entry # entries) =
     (if se_position entry < from then skip_entry_ge target from entries
      else if ucast (se_doc_id entry) \<ge> target then Some (se_position entry)
      else skip_entry_ge target from entries)"

function scan_ge :: "u32 list \<Rightarrow> u32 \<Rightarrow> nat \<Rightarrow> nat" where
  "scan_ge doc_ids target i =
     (if i < length doc_ids
      then if doc_ids ! i \<ge> target then i else scan_ge doc_ids target (i + 1)
      else length doc_ids)"
  by pat_completeness auto
termination
  by (relation "measure (\<lambda>(doc_ids, target, i). length doc_ids - i)") auto

declare scan_ge.simps [simp del]

definition skip_to_ge :: "skip_list \<Rightarrow> u32 \<Rightarrow> nat \<Rightarrow> nat" where
  "skip_to_ge self target from =
     (case skip_entry_ge target from (sl_entries self) of
        Some pos \<Rightarrow> pos
      | None \<Rightarrow> scan_ge (sl_doc_ids self) target from)"

partial_function (option) skip_intersect_loop ::
  "skip_list \<Rightarrow> skip_list \<Rightarrow> nat \<Rightarrow> nat \<Rightarrow> doc_id list \<Rightarrow> doc_id list option" where
  "skip_intersect_loop list1 list2 i j result =
     (if i < length (sl_doc_ids list1) \<and> j < length (sl_doc_ids list2)
      then let doc1 = sl_doc_ids list1 ! i; doc2 = sl_doc_ids list2 ! j
           in if doc1 = doc2
              then skip_intersect_loop list1 list2 (i + 1) (j + 1) (result @ [ucast doc1])
              else if doc1 < doc2
              then skip_intersect_loop list1 list2 (skip_to_ge list1 doc2 i) j result
              else skip_intersect_loop list1 list2 i (skip_to_ge list2 doc1 j) result
      else Some result)"

declare skip_intersect_loop.simps [code]

definition skip_list_intersect :: "skip_list \<Rightarrow> skip_list \<Rightarrow> doc_id list option" where
  "skip_list_intersect list1 list2 = skip_intersect_loop list1 list2 0 0 []"

fun intersect_remaining :: "doc_id list \<Rightarrow> skip_list list \<Rightarrow> doc_id list" where
  "intersect_remaining result [] = result"
| "intersect_remaining result (sl # sls) =
     (let result' = filter (\<lambda>d. skip_list_find sl d \<noteq> None) result
      in if result' = [] then result' else intersect_remaining result' sls)"

definition intersect_multiple :: "skip_list list \<Rightarrow> doc_id list option" where
  "intersect_multiple sls =
     (case sls of
        [] \<Rightarrow> Some []
      | [l] \<Rightarrow> Some (map ucast (sl_doc_ids l))
      | l1 # l2 # rest \<Rightarrow>
          map_option (\<lambda>result. intersect_remaining result rest) (skip_list_intersect l1 l2))"

subsection \<open>Well-formed skip lists\<close>

text \<open>
  The entries of a well-formed skip list lie inside the array, carry the id at their position, and
  ascend.
\<close>

definition skip_list_wf :: "skip_list \<Rightarrow> bool" where
  "skip_list_wf sl \<longleftrightarrow>
     strict_sorted (sl_doc_ids sl) \<and>
     (\<forall>e \<in> set (sl_entries sl).
        se_position e < length (sl_doc_ids sl) \<and>
        se_doc_id e = ucast (sl_doc_ids sl ! se_position e)) \<and>
     sorted_wrt (\<lambda>e e'. se_position e < se_position e') (sl_entries sl)"

lemma ucast_u32_u64_u32 [simp]: "(ucast (ucast (w::u32) :: u64) :: u32) = w"
  by (rule bit_word_eqI) (simp add: bit_simps)

lemma build_entries_wf:
  "(\<forall>e \<in> set (build_entries ds n i).
      i \<le> se_position e \<and> se_position e < length ds \<and> se_doc_id e = ucast (ds ! se_position e)) \<and>
   sorted_wrt (\<lambda>e e'. se_position e < se_position e') (build_entries ds n i)"
proof (induction ds n i rule: build_entries.induct)
  case (1 ds n i)
  then show ?case
    by (subst (1 2) build_entries.simps) fastforce
qed

lemma skip_list_build_wf:
  assumes "strict_sorted (map (\<lambda>p. ucast (doc_id p) :: u32) ps)" "posting_list_new ps = Ok pl"
  shows "\<exists>sl. skip_list_build pl = Ok sl \<and> skip_list_wf sl \<and>
              sl_doc_ids sl = map (\<lambda>p. ucast (doc_id p)) ps"
  using assms posting_list_new_represents [of ps] build_entries_wf
  by (force simp: skip_list_build_def decode_doc_ids_def represents_def skip_list_wf_def Let_def)

lemma find_scan_correct:
  assumes "strict_sorted ds" "\<forall>k < i. ds ! k < target"
  shows "find_scan ds target i = Some r \<longleftrightarrow> r < length ds \<and> ds ! r = target"
  using assms
proof (induction ds target i rule: find_scan.induct)
  case (1 ds target i)
  have less: "target < ds ! k" if "target < ds ! i" "i \<le> k" "k < length ds" for k
    using that strict_sorted_nth_less [OF "1.prems"(1), of i k]
    by (cases "i = k") (auto intro: order.strict_trans)
  show ?case
  proof (cases "i < length ds \<and> ds ! i < target")
    case True
    then have "\<forall>k < i + 1. ds ! k < target"
      using "1.prems"(2) by (auto simp: less_Suc_eq)
    moreover have "ds ! i \<noteq> target" "\<not> target < ds ! i" using True by auto
    ultimately show ?thesis
      using True "1.IH" "1.prems"(1) by (simp add: find_scan.simps [of ds target i])
  next
    case False
    then show ?thesis
      using "1.prems" less strict_sorted_nth_less [OF "1.prems"(1)]
      by (auto simp: find_scan.simps [of ds target i])
        (metis linorder_neqE_nat not_le order.irrefl less_le_trans)+
  qed
qed

lemma find_jump_before:
  assumes "strict_sorted ds"
    "\<forall>e \<in> set es. se_position e < length ds \<and> se_doc_id e = ucast (ds ! se_position e)"
    "\<forall>k < pos. ds ! k < target"
  shows "\<forall>k < find_jump target pos es. ds ! k < target"
  using assms(2,3)
proof (induction es arbitrary: pos)
  case (Cons e es)
  have "ds ! k < target"
    if "k < se_position e" "\<not> target < ucast (se_doc_id e)" for k
    using that Cons.prems(1) strict_sorted_nth_less [OF assms(1), of k "se_position e"]
    by (fastforce simp: not_less)
  then show ?case
    using Cons.IH [of "se_position e"] Cons.prems
    by (cases "target < ucast (se_doc_id e)") simp_all
qed simp

text \<open>
  On a skip list built from postings in strictly ascending order of their 32-bit ids,
  \<^verbatim>\<open>find\<close> returns the position of the target's id, and nothing exactly when it is absent, so the
  jump over the skip entries never passes the target.
\<close>

theorem skip_list_find_correct:
  assumes "strict_sorted (map (\<lambda>p. ucast (doc_id p) :: u32) ps)" "posting_list_new ps = Ok pl"
    "skip_list_build pl = Ok sl"
  shows "skip_list_find sl target = Some i \<longleftrightarrow>
           i < length ps \<and> (ucast (doc_id (ps ! i)) :: u32) = ucast target"
proof -
  from skip_list_build_wf [OF assms(1,2)] assms(3)
  have wf: "skip_list_wf sl" "sl_doc_ids sl = map (\<lambda>p. ucast (doc_id p)) ps"
    by auto
  have "skip_list_find sl target = Some i \<longleftrightarrow>
      i < length (sl_doc_ids sl) \<and> sl_doc_ids sl ! i = ucast target"
    unfolding skip_list_find_def Let_def
    using wf(1) by (intro find_scan_correct find_jump_before) (auto simp: skip_list_wf_def)
  with wf(2) show ?thesis by auto
qed

theorem skip_list_find_correct_witness:
  "\<exists>pl sl. posting_list_new sample_postings = Ok pl \<and> skip_list_build pl = Ok sl \<and>
           skip_list_find sl 7 = Some 1"
proof -
  have sorted: "strict_sorted (map (\<lambda>p. ucast (doc_id p) :: u32) sample_postings)"
    by (simp add: sample_postings_def)
  moreover obtain pl where pl: "posting_list_new sample_postings = Ok pl"
    using posting_list_new_represents by blast
  moreover obtain sl where sl: "skip_list_build pl = Ok sl"
    using skip_list_build_wf [OF sorted pl] by blast
  ultimately have "skip_list_find sl 7 = Some 1"
    using skip_list_find_correct [of sample_postings pl sl 7 1]
    by (simp add: sample_postings_def)
  with pl sl show ?thesis by blast
qed

subsection \<open>Intersection\<close>

lemma scan_ge_ge: "i \<le> length ds \<Longrightarrow> i \<le> scan_ge ds target i"
proof (induction ds target i rule: scan_ge.induct)
  case (1 ds target i)
  then show ?case by (auto simp: scan_ge.simps [of ds target i])
qed

lemma scan_ge_advances: "i < length ds \<Longrightarrow> ds ! i < target \<Longrightarrow> i < scan_ge ds target i"
  using scan_ge_ge [of "Suc i" ds target] by (simp add: scan_ge.simps [of ds target i])

lemma skip_entry_ge_Some:
  "skip_entry_ge target from es = Some pos \<Longrightarrow>
     \<exists>e \<in> set es. se_position e = pos \<and> from \<le> pos \<and> target \<le> ucast (se_doc_id e)"
  by (induction es) (auto split: if_splits)

lemma skip_to_ge_advances:
  assumes "skip_list_wf sl" "i < length (sl_doc_ids sl)" "sl_doc_ids sl ! i < target"
  shows "i < skip_to_ge sl target i"
proof (cases "skip_entry_ge target i (sl_entries sl)")
  case None
  with assms show ?thesis by (simp add: skip_to_ge_def scan_ge_advances)
next
  case (Some pos)
  then have "i \<le> pos" "target \<le> sl_doc_ids sl ! pos"
    using skip_entry_ge_Some [OF Some] assms(1) by (auto simp: skip_list_wf_def)
  then have "i \<noteq> pos" using assms(3) by auto
  with Some \<open>i \<le> pos\<close> show ?thesis by (simp add: skip_to_ge_def)
qed

text \<open>
  The invariant of the intersection loop: what has been collected is ascending, common to both
  lists and below everything still to come.
\<close>

definition collected :: "skip_list \<Rightarrow> skip_list \<Rightarrow> nat \<Rightarrow> nat \<Rightarrow> u32 list \<Rightarrow> bool" where
  "collected l1 l2 i j rs \<longleftrightarrow>
     strict_sorted rs \<and> set rs \<subseteq> set (sl_doc_ids l1) \<inter> set (sl_doc_ids l2) \<and>
     (\<forall>r \<in> set rs. (\<forall>k. i \<le> k \<and> k < length (sl_doc_ids l1) \<longrightarrow> r < sl_doc_ids l1 ! k) \<and>
                   (\<forall>k. j \<le> k \<and> k < length (sl_doc_ids l2) \<longrightarrow> r < sl_doc_ids l2 ! k))"

lemma collected_skip:
  "collected l1 l2 i j rs \<Longrightarrow> i \<le> i' \<Longrightarrow> j \<le> j' \<Longrightarrow> collected l1 l2 i' j' rs"
  by (auto simp: collected_def)

lemma collected_match:
  assumes "collected l1 l2 i j rs" "skip_list_wf l1" "skip_list_wf l2"
    "i < length (sl_doc_ids l1)" "j < length (sl_doc_ids l2)"
    "sl_doc_ids l1 ! i = sl_doc_ids l2 ! j"
  shows "collected l1 l2 (i + 1) (j + 1) (rs @ [sl_doc_ids l1 ! i])"
proof -
  have "sl_doc_ids l1 ! i < sl_doc_ids l1 ! k" if "i + 1 \<le> k" "k < length (sl_doc_ids l1)" for k
    using assms(2) that by (intro strict_sorted_nth_less) (auto simp: skip_list_wf_def)
  moreover have "sl_doc_ids l2 ! j < sl_doc_ids l2 ! k"
    if "j + 1 \<le> k" "k < length (sl_doc_ids l2)" for k
    using assms(3) that by (intro strict_sorted_nth_less) (auto simp: skip_list_wf_def)
  ultimately show ?thesis
    using assms(1,4-6) nth_mem [OF assms(4)] nth_mem [OF assms(5)]
    by (auto simp: collected_def sorted_wrt_append)
qed

lemma skip_intersect_loop_sound:
  assumes wf: "skip_list_wf l1" "skip_list_wf l2" and "collected l1 l2 i j rs"
  shows "\<exists>res. skip_intersect_loop l1 l2 i j (map ucast rs) = Some (map ucast res) \<and>
               strict_sorted res \<and> set res \<subseteq> set (sl_doc_ids l1) \<inter> set (sl_doc_ids l2)"
  using assms(3)
proof (induction "(length (sl_doc_ids l1) - i) + (length (sl_doc_ids l2) - j)"
    arbitrary: i j rs rule: less_induct)
  case less
  let ?n1 = "length (sl_doc_ids l1)" and ?n2 = "length (sl_doc_ids l2)"
  show ?case
  proof (cases "i < ?n1 \<and> j < ?n2")
    case False
    with less.prems show ?thesis
      by (auto simp: skip_intersect_loop.simps [of l1 l2 i j] collected_def)
  next
    case True
    consider (eq) "sl_doc_ids l1 ! i = sl_doc_ids l2 ! j"
      | (lt) "sl_doc_ids l1 ! i < sl_doc_ids l2 ! j" | (gt) "sl_doc_ids l2 ! j < sl_doc_ids l1 ! i"
      by fastforce
    then show ?thesis
    proof cases
      case eq
      have "(?n1 - (i + 1)) + (?n2 - (j + 1)) < (?n1 - i) + (?n2 - j)"
        using True by linarith
      from less.hyps [OF this collected_match [OF less.prems wf _ _ eq]] True eq show ?thesis
        by (simp add: skip_intersect_loop.simps [of l1 l2 i j])
    next
      case lt
      then have "i < skip_to_ge l1 (sl_doc_ids l2 ! j) i"
        using skip_to_ge_advances wf(1) True by blast
      then have "(?n1 - skip_to_ge l1 (sl_doc_ids l2 ! j) i) + (?n2 - j) < (?n1 - i) + (?n2 - j)"
        and "collected l1 l2 (skip_to_ge l1 (sl_doc_ids l2 ! j) i) (j) rs"
        using True collected_skip [OF less.prems] by (linarith, simp)
      from less.hyps [OF this] True lt show ?thesis
        by (auto simp: skip_intersect_loop.simps [of l1 l2 i j] Let_def)
    next
      case gt
      then have "j < skip_to_ge l2 (sl_doc_ids l1 ! i) j"
        using skip_to_ge_advances wf(2) True by blast
      then have "(?n1 - i) + (?n2 - skip_to_ge l2 (sl_doc_ids l1 ! i) j) < (?n1 - i) + (?n2 - j)"
        and "collected l1 l2 (i) (skip_to_ge l2 (sl_doc_ids l1 ! i) j) rs"
        using True collected_skip [OF less.prems] by (linarith, simp)
      from less.hyps [OF this] True gt show ?thesis
        by (auto simp: skip_intersect_loop.simps [of l1 l2 i j] Let_def)
    qed
  qed
qed

text \<open>
  Intersecting two well-formed skip lists always returns, and every id it returns, in strictly
  ascending order, is in both lists: the jumps never produce a false match.
\<close>

theorem skip_list_intersect_sound:
  assumes "skip_list_wf l1" "skip_list_wf l2"
  shows "\<exists>res. skip_list_intersect l1 l2 = Some (map ucast res) \<and> strict_sorted res \<and>
               set res \<subseteq> set (sl_doc_ids l1) \<inter> set (sl_doc_ids l2)"
  using skip_intersect_loop_sound [OF assms, of 0 0 "[]"]
  by (simp add: skip_list_intersect_def collected_def)

definition skip_list_of :: "u32 list \<Rightarrow> skip_list" where
  "skip_list_of ids =
     (let interval = skip_interval (length ids)
      in \<lparr>sl_entries = build_entries ids interval 0, sl_doc_ids = ids,
          sl_skip_interval = interval\<rparr>)"

lemma skip_list_build_eq:
  "posting_list_new ps = Ok pl \<Longrightarrow> skip_list_build pl = Ok (skip_list_of (map (\<lambda>p. ucast (doc_id p)) ps))"
  using posting_list_new_represents [of ps]
  by (auto simp: skip_list_build_def decode_doc_ids_def represents_def skip_list_of_def Let_def)

lemma skip_list_of_wf: "strict_sorted ids \<Longrightarrow> skip_list_wf (skip_list_of ids)"
  using build_entries_wf by (force simp: skip_list_of_def skip_list_wf_def Let_def)

theorem skip_list_intersect_sound_witness:
  "skip_list_wf (skip_list_of [1, 2]) \<and>
   (\<exists>res :: u32 list.
      skip_list_intersect (skip_list_of [1, 2]) (skip_list_of [2]) = Some (map ucast res) \<and>
      set res \<subseteq> {2})"
proof -
  have wf: "skip_list_wf (skip_list_of [1, 2])" "skip_list_wf (skip_list_of [2])"
    by (simp_all add: skip_list_of_wf)
  have "set (sl_doc_ids (skip_list_of [1, 2])) \<inter> set (sl_doc_ids (skip_list_of [2])) = {2}"
    by (simp add: skip_list_of_def Let_def)
  then show ?thesis
    using skip_list_intersect_sound [OF wf] wf(1) by auto
qed

text \<open>
  The intersection is not complete.  The lists that the code builds for the ids \<open>1..8\<close> and for
  the id \<open>3\<close> have the document 3 in common, both find it, and their intersection is empty:
  \<^verbatim>\<open>skip_to_ge\<close> goes to the first skip entry at or above the target and passes over the ids between
  two entries.
\<close>

theorem skip_list_intersect_misses:
  "skip_list_find (skip_list_of [1, 2, 3, 4, 5, 6, 7, 8]) 3 = Some 2 \<and>
   skip_list_find (skip_list_of [3]) 3 = Some 0 \<and>
   skip_list_intersect (skip_list_of [1, 2, 3, 4, 5, 6, 7, 8]) (skip_list_of [3]) = Some []"
  unfolding skip_list_of_def Let_def by (simp only: skip_interval_small list.size) code_simp

end
