(* ===== verification/Text.thy ===== *)
theory Text
  imports Prelude "HOL-Library.Sublist" "HOL-Library.List_Lexorder" "HOL-Library.Char_ord"
begin

section \<open>Rust strings\<close>

text \<open>
  A Rust \<^verbatim>\<open>String\<close> or \<^verbatim>\<open>&str\<close> is the list of its UTF-8 bytes, so \<^verbatim>\<open>len()\<close>, \<^verbatim>\<open>as_bytes()\<close>, equality,
  the ordering and every operation with an ASCII pattern are those of lists of bytes.  A \<^verbatim>\<open>char\<close> is
  the group of bytes that encodes it: a lead byte with the continuation bytes after it.
\<close>

definition is_continuation :: "char \<Rightarrow> bool" where
  "is_continuation c \<longleftrightarrow> 128 \<le> (of_char c :: nat) \<and> (of_char c :: nat) < 192"

function utf8_chars :: "string \<Rightarrow> string list" where
  "utf8_chars [] = []"
| "utf8_chars (c # cs) =
     (c # takeWhile is_continuation cs) # utf8_chars (dropWhile is_continuation cs)"
  by pat_completeness auto
termination
  by (relation "measure length") (auto simp: le_imp_less_Suc length_dropWhile_le)

lemma concat_utf8_chars [simp]: "concat (utf8_chars s) = s"
  by (induction s rule: utf8_chars.induct) simp_all

text \<open>Text without bytes above 127: every character is one byte.\<close>

definition is_ascii :: "string \<Rightarrow> bool" where
  "is_ascii s \<longleftrightarrow> (\<forall>c \<in> set s. (of_char c :: nat) < 128)"

lemma utf8_chars_ascii: "is_ascii s \<Longrightarrow> utf8_chars s = map (\<lambda>c. [c]) s"
proof (induction s)
  case (Cons c cs)
  then have "\<forall>d \<in> set cs. \<not> is_continuation d" by (auto simp: is_ascii_def is_continuation_def)
  then have "takeWhile is_continuation cs = []" "dropWhile is_continuation cs = cs"
    by (cases cs; simp)+
  with Cons show ?case by (simp add: is_ascii_def)
qed simp

subsection \<open>Searching and splitting\<close>

abbreviation starts_with :: "string \<Rightarrow> string \<Rightarrow> bool" where
  "starts_with s p \<equiv> prefix p s"

abbreviation ends_with :: "string \<Rightarrow> string \<Rightarrow> bool" where
  "ends_with s p \<equiv> suffix p s"

text \<open>\<^verbatim>\<open>s.find(p)\<close>: the first offset at which the pattern occurs.\<close>

fun str_find :: "string \<Rightarrow> string \<Rightarrow> nat option" where
  "str_find s p =
     (if prefix p s then Some 0
      else case s of [] \<Rightarrow> None | _ # s' \<Rightarrow> map_option Suc (str_find s' p))"

declare str_find.simps [simp del]

definition str_contains :: "string \<Rightarrow> string \<Rightarrow> bool" where
  "str_contains s p \<longleftrightarrow> str_find s p \<noteq> None"

text \<open>\<^verbatim>\<open>s.split(c)\<close> for an ASCII character: \<open>n\<close> separators give \<open>n + 1\<close> parts.\<close>

fun str_split :: "char \<Rightarrow> string \<Rightarrow> string list" where
  "str_split sep [] = [[]]"
| "str_split sep (c # cs) =
     (if c = sep then [] # str_split sep cs
      else case str_split sep cs of part # parts \<Rightarrow> (c # part) # parts | [] \<Rightarrow> [[c]])"

text \<open>\<^verbatim>\<open>s.replace(c, r)\<close> for an ASCII character \<open>c\<close>.\<close>

definition str_replace_char :: "char \<Rightarrow> string \<Rightarrow> string \<Rightarrow> string" where
  "str_replace_char c r s = concat (map (\<lambda>d. if d = c then r else [d]) s)"

text \<open>
  \<^verbatim>\<open>char::is_whitespace\<close>, Unicode's \<^verbatim>\<open>White_Space\<close>: the ASCII controls 9 to 13 and the space, and the
  UTF-8 encodings of U+0085, U+00A0, U+1680, U+2000 to U+200A, U+2028, U+2029, U+202F, U+205F
  and U+3000.
\<close>

definition char_code :: "string \<Rightarrow> nat list" where
  "char_code c = map of_char c"

definition is_whitespace :: "string \<Rightarrow> bool" where
  "is_whitespace c \<longleftrightarrow>
     (case char_code c of
        [b] \<Rightarrow> (9 \<le> b \<and> b \<le> 13) \<or> b = 32
      | [b1, b2] \<Rightarrow> b1 = 194 \<and> (b2 = 133 \<or> b2 = 160)
      | [b1, b2, b3] \<Rightarrow>
          (b1 = 225 \<and> b2 = 154 \<and> b3 = 128) \<or>
          (b1 = 226 \<and> b2 = 128 \<and> ((128 \<le> b3 \<and> b3 \<le> 138) \<or> b3 = 168 \<or> b3 = 169 \<or> b3 = 175)) \<or>
          (b1 = 226 \<and> b2 = 129 \<and> b3 = 159) \<or>
          (b1 = 227 \<and> b2 = 128 \<and> b3 = 128)
      | _ \<Rightarrow> False)"

fun group_words :: "string list \<Rightarrow> string \<Rightarrow> string list" where
  "group_words [] word = (if word = [] then [] else [word])"
| "group_words (c # cs) word =
     (if is_whitespace c
      then (if word = [] then group_words cs [] else word # group_words cs [])
      else group_words cs (word @ c))"

definition split_whitespace :: "string \<Rightarrow> string list" where
  "split_whitespace s = group_words (utf8_chars s) []"

definition str_trim :: "string \<Rightarrow> string" where
  "str_trim s =
     concat (rev (dropWhile is_whitespace (rev (dropWhile is_whitespace (utf8_chars s)))))"

lemma str_find_Some:
  "str_find s p = Some i \<Longrightarrow> i + length p \<le> length s \<and> take (length p) (drop i s) = p"
proof (induction s arbitrary: i)
  case Nil
  then show ?case by (auto simp: str_find.simps split: if_splits)
next
  case (Cons c s)
  show ?case
  proof (cases "prefix p (c # s)")
    case True
    then have "i = 0" using Cons.prems by (simp add: str_find.simps [of "c # s"])
    moreover have "take (length p) (c # s) = p" using True by (metis append_eq_conv_conj prefix_def)
    ultimately show ?thesis using prefix_length_le [OF True] by simp
  next
    case False
    with Cons show ?thesis by (auto simp: str_find.simps [of "c # s"])
  qed
qed

lemma str_contains_iff: "str_contains s p \<longleftrightarrow> sublist p s"
proof (induction s)
  case Nil
  then show ?case by (auto simp: str_contains_def str_find.simps)
next
  case (Cons c s)
  then show ?case
    by (auto simp: str_contains_def str_find.simps [of "c # s"] sublist_Cons_right)
qed

lemma str_split_nonempty [simp]: "str_split sep s \<noteq> []"
  by (induction s) (auto split: list.splits)

lemma length_str_split: "length (str_split sep s) = Suc (length (filter (\<lambda>c. c = sep) s))"
  by (induction s) (auto split: list.splits)

end
