(* ===== verification/Edit_Distance.thy ===== *)
theory Edit_Distance
  imports Text
begin

section \<open>Edit distance\<close>

text \<open>
  The model of \<^verbatim>\<open>levenshtein_distance\<close> (\<^verbatim>\<open>src/core/utils.rs\<close>), which fills a matrix over characters,
  and of \<^verbatim>\<open>FuzzyAutomaton\<close> (\<^verbatim>\<open>src/search/fuzzy.rs\<close>), whose fallback keeps two rows over bytes.
  Both are shown to compute the least cost of an alignment of the two sequences.  The automaton of
  the crate \<^verbatim>\<open>levenshtein_automata\<close> is a parameter.
\<close>

subsection \<open>The matrix\<close>

definition lev_cell :: "'c list \<Rightarrow> 'c list \<Rightarrow> nat list list \<Rightarrow> nat \<Rightarrow> nat \<Rightarrow> nat list list" where
  "lev_cell a b matrix i j =
     (let cost = (if a ! i = b ! j then 0 else 1);
          cell = min (min (matrix ! i ! (j + 1) + 1) (matrix ! (i + 1) ! j + 1)) (matrix ! i ! j + cost)
      in matrix[i + 1 := (matrix ! (i + 1))[j + 1 := cell]])"

definition lev_row :: "'c list \<Rightarrow> 'c list \<Rightarrow> nat list list \<Rightarrow> nat \<Rightarrow> nat list list" where
  "lev_row a b matrix i = foldl (\<lambda>m j. lev_cell a b m i j) matrix [0..<length b]"

definition lev_init :: "nat \<Rightarrow> nat \<Rightarrow> nat list list" where
  "lev_init len1 len2 =
     (let matrix = replicate (len1 + 1) (replicate (len2 + 1) 0);
          matrix = foldl (\<lambda>m i. m[i := (m ! i)[0 := i]]) matrix [0..<len1 + 1]
      in foldl (\<lambda>m j. m[0 := (m ! 0)[j := j]]) matrix [0..<len2 + 1])"

definition levenshtein_chars :: "'c list \<Rightarrow> 'c list \<Rightarrow> nat" where
  "levenshtein_chars a b =
     foldl (lev_row a b) (lev_init (length a) (length b)) [0..<length a] ! length a ! length b"

definition levenshtein_distance :: "string \<Rightarrow> string \<Rightarrow> nat" where
  "levenshtein_distance s1 s2 = levenshtein_chars (utf8_chars s1) (utf8_chars s2)"

subsection \<open>The two rows of the fallback\<close>

record 'd fuzzy_automaton =
  fa_term :: string
  fa_max_edit_distance :: u8
  fa_transpositions :: bool
  fa_dfa :: "'d option"

definition fuzzy_new :: "string \<Rightarrow> u8 \<Rightarrow> 'd fuzzy_automaton" where
  "fuzzy_new term_text max_edit_distance =
     \<lparr>fa_term = term_text, fa_max_edit_distance = max_edit_distance, fa_transpositions = True,
      fa_dfa = None\<rparr>"

definition fuzzy_cell :: "bool \<Rightarrow> string \<Rightarrow> string \<Rightarrow> nat \<Rightarrow> nat list \<Rightarrow> nat list \<Rightarrow> nat \<Rightarrow> nat list" where
  "fuzzy_cell transpositions a b i prev_row curr_row j =
     (let cost = (if a ! (i - 1) = b ! (j - 1) then 0 else 1);
          curr_row = curr_row[j := min (min (prev_row ! j + 1) (curr_row ! (j - 1) + 1))
                                       (prev_row ! (j - 1) + cost)]
      in if transpositions \<and> i > 1 \<and> j > 1 \<and> a ! (i - 1) = b ! (j - 2) \<and> a ! (i - 2) = b ! (j - 1)
         then curr_row[j := min (curr_row ! j) (prev_row ! (j - 1) + cost)]
         else curr_row)"

text \<open>One round of the outer loop: fill the current row, then swap the rows.\<close>

definition fuzzy_row ::
  "bool \<Rightarrow> string \<Rightarrow> string \<Rightarrow> nat list \<times> nat list \<Rightarrow> nat \<Rightarrow> nat list \<times> nat list" where
  "fuzzy_row transpositions a b rows i =
     (let (prev_row, curr_row) = rows;
          curr_row = foldl (fuzzy_cell transpositions a b i prev_row) (curr_row[0 := i]) [1..<length b + 1]
      in (curr_row, prev_row))"

definition edit_distance :: "'d fuzzy_automaton \<Rightarrow> string \<Rightarrow> nat" where
  "edit_distance self other =
     (let a = fa_term self; b = other
      in if a = [] then length b
         else if b = [] then length a
         else fst (foldl (fuzzy_row (fa_transpositions self) a b)
                     ([0..<length b + 1], replicate (length b + 1) 0) [1..<length a + 1]) ! length b)"

text \<open>
  The automaton of the crate: an initial state, a transition on bytes and the distance of a state,
  which is \<open>None\<close> when the crate reports only a lower bound.
\<close>

record ('d, 's) dfa_ops =
  dfa_build :: "u8 \<Rightarrow> bool \<Rightarrow> string \<Rightarrow> 'd"
  dfa_initial_state :: "'d \<Rightarrow> 's"
  dfa_transition :: "'d \<Rightarrow> 's \<Rightarrow> char \<Rightarrow> 's"
  dfa_distance :: "'d \<Rightarrow> 's \<Rightarrow> u8 option"

definition fuzzy_build :: "('d, 's) dfa_ops \<Rightarrow> 'd fuzzy_automaton \<Rightarrow> 'd fuzzy_automaton result" where
  "fuzzy_build ops self =
     Ok (self\<lparr>fa_dfa := Some (dfa_build ops (fa_max_edit_distance self) (fa_transpositions self)
                                (fa_term self))\<rparr>)"

definition fuzzy_matches :: "('d, 's) dfa_ops \<Rightarrow> 'd fuzzy_automaton \<Rightarrow> string \<Rightarrow> bool" where
  "fuzzy_matches ops self candidate =
     (case fa_dfa self of
        Some dfa \<Rightarrow>
          (case dfa_distance ops dfa (foldl (dfa_transition ops dfa) (dfa_initial_state ops dfa) candidate) of
             Some d \<Rightarrow> d \<le> fa_max_edit_distance self
           | None \<Rightarrow> False)
      | None \<Rightarrow> edit_distance self candidate \<le> unat (fa_max_edit_distance self))"

subsection \<open>Alignments\<close>

text \<open>
  \<open>aligns n xs ys\<close>: an alignment of cost \<open>n\<close>, built from deletions, insertions and pairs of
  characters, where a pair costs 1 when the characters differ.
\<close>

inductive aligns :: "nat \<Rightarrow> 'c list \<Rightarrow> 'c list \<Rightarrow> bool" where
  aligns_nil: "aligns 0 [] []"
| aligns_delete: "aligns n xs ys \<Longrightarrow> aligns (n + 1) (xs @ [x]) ys"
| aligns_insert: "aligns n xs ys \<Longrightarrow> aligns (n + 1) xs (ys @ [y])"
| aligns_pair: "aligns n xs ys \<Longrightarrow> aligns (n + (if x = y then 0 else 1)) (xs @ [x]) (ys @ [y])"

text \<open>The recurrence over prefixes that both programs evaluate.\<close>

fun ed :: "'c list \<Rightarrow> 'c list \<Rightarrow> nat \<Rightarrow> nat \<Rightarrow> nat" where
  "ed a b 0 j = j"
| "ed a b (Suc i) 0 = Suc i"
| "ed a b (Suc i) (Suc j) =
     min (min (ed a b i (Suc j) + 1) (ed a b (Suc i) j + 1))
         (ed a b i j + (if a ! i = b ! j then 0 else 1))"

lemma ed_0_right [simp]: "ed a b i 0 = i"
  by (cases i) simp_all

lemma aligns_nil_right: "aligns (length xs) xs []"
  by (induction xs rule: rev_induct) (auto intro: aligns_nil dest: aligns_delete)

lemma aligns_nil_left: "aligns (length ys) [] ys"
  by (induction ys rule: rev_induct) (auto intro: aligns_nil dest: aligns_insert)

lemma aligns_ed: "i \<le> length a \<Longrightarrow> j \<le> length b \<Longrightarrow> aligns (ed a b i j) (take i a) (take j b)"
proof (induction a b i j rule: ed.induct)
  case (1 a b j)
  then show ?case using aligns_nil_left [of "take j b"] by simp
next
  case (2 a b i)
  then show ?case using aligns_nil_right [of "take (Suc i) a"] by simp
next
  case (3 a b i j)
  let ?c = "if a ! i = b ! j then 0 else 1 :: nat"
  have "aligns (ed a b i (Suc j) + 1) (take (Suc i) a) (take (Suc j) b)"
    "aligns (ed a b (Suc i) j + 1) (take (Suc i) a) (take (Suc j) b)"
    "aligns (ed a b i j + ?c) (take (Suc i) a) (take (Suc j) b)"
    using 3 aligns_delete [of "ed a b i (Suc j)" "take i a" "take (Suc j) b" "a ! i"]
      aligns_insert [of "ed a b (Suc i) j" "take (Suc i) a" "take j b" "b ! j"]
      aligns_pair [of "ed a b i j" "take i a" "take j b" "a ! i" "b ! j"]
    by (simp_all add: take_Suc_conv_app_nth)
  then show ?case unfolding ed.simps min_def by (auto split: if_splits)
qed

lemma ed_least:
  "aligns n xs ys \<Longrightarrow> xs = take i a \<Longrightarrow> ys = take j b \<Longrightarrow> i \<le> length a \<Longrightarrow> j \<le> length b \<Longrightarrow> ed a b i j \<le> n"
proof (induction n xs ys arbitrary: i j rule: aligns.induct)
  case aligns_nil
  then show ?case by auto
next
  case (aligns_delete n xs ys x)
  then obtain i' where i': "i = Suc i'" by (cases i) auto
  then have "ed a b i' j \<le> n"
    using aligns_delete by (auto simp: take_Suc_conv_app_nth)
  then show ?case unfolding i' by (cases j) auto
next
  case (aligns_insert n xs ys y)
  then obtain j' where j': "j = Suc j'" by (cases j) auto
  then have "ed a b i j' \<le> n"
    using aligns_insert by (auto simp: take_Suc_conv_app_nth)
  then show ?case unfolding j' by (cases i) auto
next
  case (aligns_pair n xs ys x y)
  then obtain i' j' where ij: "i = Suc i'" "j = Suc j'" by (cases i; cases j) auto
  then have "ed a b i' j' \<le> n" "x = a ! i'" "y = b ! j'"
    using aligns_pair by (auto simp: take_Suc_conv_app_nth)
  then show ?case unfolding ij by auto
qed

subsection \<open>The matrix holds the recurrence\<close>

text \<open>
  \<open>filled a b m i k\<close>: rows up to \<open>i\<close>, the first column and the first \<open>k + 1\<close> cells of row
  \<open>i + 1\<close> hold the distances of the prefixes.
\<close>

definition filled :: "'c list \<Rightarrow> 'c list \<Rightarrow> nat list list \<Rightarrow> nat \<Rightarrow> nat \<Rightarrow> bool" where
  "filled a b m i k \<longleftrightarrow>
     length m = length a + 1 \<and> (\<forall>r \<le> length a. length (m ! r) = length b + 1) \<and>
     (\<forall>r \<le> length a. \<forall>c \<le> length b.
        r \<le> i \<or> c = 0 \<or> (r = i + 1 \<and> c \<le> k) \<longrightarrow> m ! r ! c = ed a b r c)"

lemma lev_cell_filled:
  assumes "filled a b m i k" "i < length a" "k < length b"
  shows "filled a b (lev_cell a b m i k) i (k + 1)"
proof -
  have known: "r \<le> i \<or> c = 0 \<or> (r = i + 1 \<and> c \<le> k) \<Longrightarrow> m ! r ! c = ed a b r c"
    if "r \<le> length a" "c \<le> length b" for r c
    using assms(1) that unfolding filled_def by blast
  have cells: "m ! i ! (k + 1) = ed a b i (k + 1)" "m ! (i + 1) ! k = ed a b (i + 1) k"
    "m ! i ! k = ed a b i k"
    using assms(2,3) by (intro known; simp)+
  have "lev_cell a b m i k = m[i + 1 := (m ! (i + 1))[k + 1 := ed a b (i + 1) (k + 1)]]"
    using cells by (simp add: lev_cell_def Let_def)
  with assms known [of "Suc i"] show ?thesis
    by (auto simp: filled_def nth_list_update le_Suc_eq simp del: ed.simps)
qed

lemma lev_row_filled:
  assumes "filled a b m i 0" "i < length a"
  shows "filled a b (lev_row a b m i) (i + 1) 0"
proof -
  have "k \<le> length b \<Longrightarrow> filled a b (foldl (\<lambda>m j. lev_cell a b m i j) m [0..<k]) i k" for k
  proof (induction k)
    case (Suc k)
    then show ?case using lev_cell_filled [of a b _ i k] assms(2) by simp
  qed (simp add: assms(1))
  from this [of "length b"] have "filled a b (lev_row a b m i) i (length b)"
    by (simp add: lev_row_def)
  then show ?thesis by (auto simp: filled_def le_Suc_eq)
qed

lemma lev_init_column:
  "k \<le> n \<Longrightarrow> foldl (\<lambda>m i. m[i := (m ! i)[0 := i]]) (replicate n (0 # row)) [0..<k] =
     map (\<lambda>i. i # row) [0..<k] @ replicate (n - k) (0 # row)"
proof (induction k)
  case (Suc k)
  then have "replicate (n - k) (0 # row) = (0 # row) # replicate (n - Suc k) (0 # row)"
    by (metis Suc_diff_Suc Suc_le_lessD replicate_Suc)
  with Suc show ?case by (simp add: nth_append list_update_append)
qed simp

lemma lev_init_row:
  "k \<le> n \<Longrightarrow> foldl (\<lambda>m j. m[0 := (m ! 0)[j := j]]) (replicate n 0 # m) [0..<k] =
     ([0..<k] @ replicate (n - k) 0) # m"
proof (induction k)
  case (Suc k)
  then have "replicate (n - k) (0::nat) = 0 # replicate (n - Suc k) 0"
    by (metis Suc_diff_Suc Suc_le_lessD replicate_Suc)
  with Suc show ?case by (simp add: list_update_append)
qed simp

lemma lev_init_filled: "filled a b (lev_init (length a) (length b)) 0 0"
proof -
  let ?row = "replicate (length b) (0::nat)"
  have "lev_init (length a) (length b) =
      [0..<length b + 1] # map (\<lambda>i. i # ?row) [1..<length a + 1]"
    using lev_init_column [of "length a + 1" "length a + 1" ?row]
      lev_init_row [of "length b + 1" "length b + 1" "map (\<lambda>i. i # ?row) [1..<length a + 1]"]
    by (simp add: lev_init_def Let_def upt_conv_Cons del: upt_Suc)
  then show ?thesis
    by (auto simp: filled_def nth_Cons less_Suc_eq_le Suc_le_eq simp del: upt_Suc split: nat.splits)
qed

lemma levenshtein_chars_ed: "levenshtein_chars a b = ed a b (length a) (length b)"
proof -
  have "k \<le> length a \<Longrightarrow>
      filled a b (foldl (lev_row a b) (lev_init (length a) (length b)) [0..<k]) k 0" for k
  proof (induction k)
    case (Suc k)
    then show ?case using lev_row_filled [of a b _ k] by simp
  qed (simp add: lev_init_filled)
  from this [of "length a"] show ?thesis by (simp add: levenshtein_chars_def filled_def)
qed

subsection \<open>The two rows hold the recurrence\<close>

lemma fuzzy_cell_eq:
  assumes "j < length cur"
  shows "fuzzy_cell t a b i prev cur j =
           cur[j := min (min (prev ! j + 1) (cur ! (j - 1) + 1))
                         (prev ! (j - 1) + (if a ! (i - 1) = b ! (j - 1) then 0 else 1))]"
  using assms by (simp add: fuzzy_cell_def Let_def)

lemma fuzzy_row_ed:
  assumes "prev = map (ed a b i) [0..<length b + 1]" "length cur = length b + 1"
  shows "fuzzy_row t a b (prev, cur) (Suc i) = (map (ed a b (Suc i)) [0..<length b + 1], prev)"
proof -
  let ?fill = "\<lambda>k. foldl (fuzzy_cell t a b (Suc i) prev) (cur[0 := Suc i]) [1..<k + 1]"
  have "k \<le> length b \<Longrightarrow> length (?fill k) = length b + 1 \<and>
      (\<forall>c \<le> k. ?fill k ! c = ed a b (Suc i) c)" for k
  proof (induction k)
    case 0
    then show ?case using assms(2) by simp
  next
    case (Suc k)
    then have "?fill k ! k = ed a b (Suc i) k" "length (?fill k) = length b + 1"
      "prev ! Suc k = ed a b i (Suc k)" "prev ! k = ed a b i k"
      using assms(1) by (simp_all add: nth_append del: upt_Suc)
    with Suc show ?case
      by (auto simp: fuzzy_cell_eq nth_list_update le_Suc_eq)
  qed
  from this [of "length b"] have "?fill (length b) = map (ed a b (Suc i)) [0..<length b + 1]"
    by (intro nth_equalityI) (auto simp del: upt_Suc)
  then show ?thesis by (simp add: fuzzy_row_def)
qed

lemma fuzzy_rows_ed:
  fixes a b k t
  defines "rows \<equiv> \<lambda>k. foldl (fuzzy_row t a b) ([0..<length b + 1], replicate (length b + 1) 0) [1..<k + 1]"
  shows "fst (rows k) = map (ed a b k) [0..<length b + 1] \<and> length (snd (rows k)) = length b + 1"
proof (induction k)
  case 0
  then show ?case by (auto simp: rows_def intro: nth_equalityI simp del: upt_Suc)
next
  case (Suc k)
  have "[1..<Suc k + 1] = [1..<k + 1] @ [Suc k]" by simp
  then have "rows (Suc k) = fuzzy_row t a b (fst (rows k), snd (rows k)) (Suc k)"
    unfolding rows_def by (simp only: foldl_append foldl.simps prod.collapse)
  with Suc show ?case
    using fuzzy_row_ed [of "fst (rows k)" a b k "snd (rows k)" t] by simp
qed

lemma edit_distance_ed:
  "edit_distance self other = ed (fa_term self) other (length (fa_term self)) (length other)"
proof (cases "fa_term self = [] \<or> other = []")
  case True
  then show ?thesis by (auto simp: edit_distance_def Let_def)
next
  case False
  then show ?thesis
    using fuzzy_rows_ed [of "fa_transpositions self" "fa_term self" other "length (fa_term self)"]
    by (simp add: edit_distance_def Let_def del: upt_Suc)
qed

lemma ed_alignment:
  "aligns (ed a b (length a) (length b)) a b \<and>
   ed a b (length a) (length b) = (LEAST n. aligns n a b)"
  using aligns_ed [of "length a" a "length b" b] ed_least [of _ a b "length a" a "length b" b]
  by (auto intro!: Least_equality [symmetric])

text \<open>
  C36: \<^verbatim>\<open>levenshtein_distance\<close> is the edit distance of the two character sequences: there is an
  alignment of that cost, and no alignment costs less.
\<close>

theorem levenshtein_distance_least:
  "aligns (levenshtein_distance s1 s2) (utf8_chars s1) (utf8_chars s2) \<and>
   levenshtein_distance s1 s2 = (LEAST n. aligns n (utf8_chars s1) (utf8_chars s2))"
  unfolding levenshtein_distance_def levenshtein_chars_ed by (rule ed_alignment)

text \<open>
  The fallback of the fuzzy automaton computes, on bytes, the same edit distance whether
  transpositions are allowed or not: swapping two neighbouring characters costs two edits.
\<close>

theorem fuzzy_edit_distance_plain:
  "aligns (edit_distance self other) (fa_term self) other \<and>
   edit_distance self other = (LEAST n. aligns n (fa_term self) other) \<and>
   edit_distance (self\<lparr>fa_transpositions := t\<rparr>) other = edit_distance self other \<and>
   edit_distance (fuzzy_new ''teh'' 1) ''the'' = 2"
proof -
  have "edit_distance (fuzzy_new ''teh'' 1) ''the'' = 2"
    by (simp add: edit_distance_ed fuzzy_new_def numeral_eq_Suc)
  moreover have "edit_distance (self\<lparr>fa_transpositions := t\<rparr>) other = edit_distance self other"
    by (simp add: edit_distance_ed)
  ultimately show ?thesis
    using ed_alignment [of "fa_term self" other] unfolding edit_distance_ed [of self] by blast
qed

end
