(* ===== verification/Analysis.thy ===== *)
theory Analysis
  imports Text
begin

section \<open>Text analysis\<close>

text \<open>
  The model of \<^verbatim>\<open>src/analysis\<close> and \<^verbatim>\<open>src/schema\<close>: tokens, the two tokenizers, the four token
  filters, the analyzer pipeline, the registry and the schema.  A \<^verbatim>\<open>Box<dyn Tokenizer>\<close> is its
  \<^verbatim>\<open>tokenize\<close> function and a \<^verbatim>\<open>Box<dyn TokenFilter>\<close> its \<^verbatim>\<open>filter\<close> function.  Lower-casing and word
  segmentation (Unicode tables) and the Snowball stemmer are the parameter \<open>text_ops\<close>.
\<close>

datatype token_type = Word | Number | Symbol | Punctuation | Whitespace

record token =
  tk_text :: string
  tk_position :: u32
  tk_offset :: nat
  tk_length :: nat
  tk_token_type :: token_type

definition token_new :: "string \<Rightarrow> u32 \<Rightarrow> nat \<Rightarrow> token" where
  "token_new s pos offset =
     \<lparr>tk_text = s, tk_position = pos, tk_offset = offset, tk_length = length s,
      tk_token_type = Word\<rparr>"

record text_ops =
  to_lowercase :: "string \<Rightarrow> string"
  unicode_words :: "string \<Rightarrow> string list"
  stem_english :: "string \<Rightarrow> string"

subsection \<open>Tokenizers\<close>

record standard_tokenizer =
  st_lowercase :: bool
  st_max_token_length :: nat

definition standard_tokenizer_default :: standard_tokenizer where
  "standard_tokenizer_default = \<lparr>st_lowercase = True, st_max_token_length = 255\<rparr>"

fun standard_loop ::
  "text_ops \<Rightarrow> standard_tokenizer \<Rightarrow> string list \<Rightarrow> u32 \<Rightarrow> nat \<Rightarrow> token list \<Rightarrow> token list" where
  "standard_loop ops self [] pos offset tokens = tokens"
| "standard_loop ops self (word # words) pos offset tokens =
     (if length word \<le> st_max_token_length self
      then standard_loop ops self words (pos + 1) (offset + length word)
             (tokens @ [token_new (if st_lowercase self then to_lowercase ops word else word)
                          pos offset])
      else standard_loop ops self words pos (offset + length word) tokens)"

definition standard_tokenize :: "text_ops \<Rightarrow> standard_tokenizer \<Rightarrow> string \<Rightarrow> token list" where
  "standard_tokenize ops self s =
     (let text_to_process = (if st_lowercase self then to_lowercase ops s else s)
      in standard_loop ops self (unicode_words ops text_to_process) 0 0 [])"

fun vietnamese_loop :: "string list \<Rightarrow> u32 \<Rightarrow> nat \<Rightarrow> token list \<Rightarrow> token list" where
  "vietnamese_loop [] pos offset tokens = tokens"
| "vietnamese_loop (word # words) pos offset tokens =
     vietnamese_loop words (pos + 1) (offset + length word + 1)
       (tokens @ [\<lparr>tk_text = word, tk_position = pos, tk_offset = offset,
                   tk_length = length word, tk_token_type = Word\<rparr>])"

definition vietnamese_tokenize :: "text_ops \<Rightarrow> string \<Rightarrow> token list" where
  "vietnamese_tokenize ops s = vietnamese_loop (unicode_words ops s) 0 0 []"

subsection \<open>Token filters\<close>

definition lowercase_filter :: "text_ops \<Rightarrow> token list \<Rightarrow> token list" where
  "lowercase_filter ops tokens = map (\<lambda>t. t\<lparr>tk_text := to_lowercase ops (tk_text t)\<rparr>) tokens"

definition stop_word_filter :: "string list \<Rightarrow> token list \<Rightarrow> token list" where
  "stop_word_filter stop_words tokens = filter (\<lambda>t. tk_text t \<notin> set stop_words) tokens"

definition english_stop_words :: "string list" where
  "english_stop_words =
     [''a'', ''an'', ''and'', ''are'', ''as'', ''at'', ''be'', ''by'', ''for'',
      ''from'', ''has'', ''he'', ''in'', ''is'', ''it'', ''its'', ''of'', ''on'',
      ''that'', ''the'', ''to'', ''was'', ''will'', ''with'']"

definition stemmer_filter :: "text_ops \<Rightarrow> token list \<Rightarrow> token list" where
  "stemmer_filter ops tokens = map (\<lambda>t. t\<lparr>tk_text := stem_english ops (tk_text t)\<rparr>) tokens"

text \<open>For one token: all windows of \<open>n\<close> characters, for every \<open>n\<close> between the two bounds.\<close>

definition ngrams_of :: "nat \<Rightarrow> nat \<Rightarrow> token \<Rightarrow> token list" where
  "ngrams_of min_gram max_gram t =
     (let chars = utf8_chars (tk_text t)
      in concat (map (\<lambda>n. map (\<lambda>i.
           \<lparr>tk_text = concat (take n (drop i chars)), tk_position = tk_position t,
            tk_offset = tk_offset t + i, tk_length = n, tk_token_type = tk_token_type t\<rparr>)
           [0..<(length chars - n) + 1])
         [min_gram..<min max_gram (length chars) + 1]))"

definition ngram_filter :: "nat \<Rightarrow> nat \<Rightarrow> token list \<Rightarrow> token list" where
  "ngram_filter min_gram max_gram tokens = concat (map (ngrams_of min_gram max_gram) tokens)"

subsection \<open>Analyzers and the registry\<close>

record analyzer =
  an_tokenizer :: "string \<Rightarrow> token list"
  an_filters :: "(token list \<Rightarrow> token list) list"
  an_name :: string

definition analyzer_new :: "string \<Rightarrow> (string \<Rightarrow> token list) \<Rightarrow> analyzer" where
  "analyzer_new name tokenizer = \<lparr>an_tokenizer = tokenizer, an_filters = [], an_name = name\<rparr>"

definition add_filter :: "analyzer \<Rightarrow> (token list \<Rightarrow> token list) \<Rightarrow> analyzer" where
  "add_filter self f = self\<lparr>an_filters := an_filters self @ [f]\<rparr>"

definition analyze :: "analyzer \<Rightarrow> string \<Rightarrow> token list" where
  "analyze self s = foldl (\<lambda>tokens f. f tokens) (an_tokenizer self s) (an_filters self)"

definition standard_english :: "text_ops \<Rightarrow> analyzer" where
  "standard_english ops =
     add_filter (add_filter (add_filter
       (analyzer_new ''standard_english'' (standard_tokenize ops standard_tokenizer_default))
       (lowercase_filter ops)) (stop_word_filter english_stop_words)) (stemmer_filter ops)"

definition vietnamese_search :: "text_ops \<Rightarrow> analyzer" where
  "vietnamese_search ops =
     add_filter (analyzer_new ''vietnamese_search'' (vietnamese_tokenize ops)) (lowercase_filter ops)"

type_synonym analyzer_registry = "string \<rightharpoonup> analyzer"

definition registry_register :: "analyzer_registry \<Rightarrow> string \<Rightarrow> analyzer \<Rightarrow> analyzer_registry" where
  "registry_register self name a = self(name \<mapsto> a)"

definition registry_new :: "text_ops \<Rightarrow> analyzer_registry" where
  "registry_new ops =
     registry_register (registry_register Map.empty ''standard'' (standard_english ops))
       ''vietnamese'' (vietnamese_search ops)"

definition registry_analyze :: "analyzer_registry \<Rightarrow> string \<Rightarrow> string \<Rightarrow> token list result" where
  "registry_analyze self analyzer_name s =
     (case self analyzer_name of
        Some a \<Rightarrow> Ok (analyze a s)
      | None \<Rightarrow> Err (Error NotFound (''Analyzer '' @ [CHR 0x27] @ analyzer_name @ [CHR 0x27] @ '' not found'')))"

subsection \<open>Schema\<close>

datatype field_type = TextField | NumberField | DateField | BooleanField

record field_definition =
  fd_name :: string
  fd_field_type :: field_type
  fd_indexed :: bool
  fd_stored :: bool
  fd_analyzer :: "string option"

record schema =
  sc_fields :: "field_definition list"
  sc_default_analyzer :: string

definition schema_new :: schema where
  "schema_new = \<lparr>sc_fields = [], sc_default_analyzer = ''standard''\<rparr>"

definition add_text_field :: "schema \<Rightarrow> string \<Rightarrow> string option \<Rightarrow> schema" where
  "add_text_field self name a =
     self\<lparr>sc_fields := sc_fields self @
       [\<lparr>fd_name = name, fd_field_type = TextField, fd_indexed = True, fd_stored = True,
         fd_analyzer = a\<rparr>]\<rparr>"

definition get_analyzer_for_field :: "schema \<Rightarrow> string \<Rightarrow> string option" where
  "get_analyzer_for_field self field_name =
     (case List.find (\<lambda>f. fd_name f = field_name) (sc_fields self) of
        Some f \<Rightarrow> fd_analyzer f
      | None \<Rightarrow> None)"

lemma get_analyzer_add_text_field:
  "get_analyzer_for_field (add_text_field sc name a) field =
     (if (\<exists>f \<in> set (sc_fields sc). fd_name f = field) \<or> field \<noteq> name
      then get_analyzer_for_field sc field else a)"
  by (auto simp: get_analyzer_for_field_def add_text_field_def find_append
      split: option.splits) (auto simp: find_None_iff find_Some_iff)

subsection \<open>The token filter contract\<close>

text \<open>
  What phrase queries rely on: a filter neither invents positions nor disturbs their order.
\<close>

locale token_filter =
  fixes f :: "token list \<Rightarrow> token list"
  assumes positions_subset: "set (map tk_position (f ts)) \<subseteq> set (map tk_position ts)"
    and positions_sorted:
      "sorted (map tk_position ts) \<Longrightarrow> sorted (map tk_position (f ts))"

text \<open>A filter that yields at most one token for each token keeps positions distinct as well.\<close>

locale one_to_one_filter = token_filter +
  assumes positions_strict:
    "strict_sorted (map tk_position ts) \<Longrightarrow> strict_sorted (map tk_position (f ts))"

lemma sorted_position_replicate_concat:
  "(\<And>t. t \<in> set ts \<Longrightarrow> \<forall>u \<in> set (g t). tk_position u = tk_position t) \<Longrightarrow>
   sorted (map tk_position ts) \<Longrightarrow> sorted (map tk_position (concat (map g ts)))"
proof (induction ts)
  case (Cons t ts)
  then have "map tk_position (g t) = replicate (length (g t)) (tk_position t)"
    by (intro replicate_eqI) auto
  with Cons show ?case by (fastforce simp: sorted_append)
qed simp

lemma ngrams_of_position: "u \<in> set (ngrams_of mn mx t) \<Longrightarrow> tk_position u = tk_position t"
  by (auto simp: ngrams_of_def Let_def)

interpretation lowercase: one_to_one_filter "lowercase_filter ops"
  by unfold_locales (simp_all add: lowercase_filter_def comp_def)

interpretation stemmer: one_to_one_filter "stemmer_filter ops"
  by unfold_locales (simp_all add: stemmer_filter_def comp_def)

interpretation stop_word: one_to_one_filter "stop_word_filter ws"
  by unfold_locales (auto simp: stop_word_filter_def sorted_wrt_map intro: sorted_wrt_filter)

interpretation ngram: token_filter "ngram_filter mn mx"
proof
  show "set (map tk_position (ngram_filter mn mx ts)) \<subseteq> set (map tk_position ts)" for ts
    by (auto simp: ngram_filter_def dest: ngrams_of_position)
  show "sorted (map tk_position (ngram_filter mn mx ts))" if "sorted (map tk_position ts)" for ts
    unfolding ngram_filter_def
    by (rule sorted_position_replicate_concat [OF _ that]) (auto dest: ngrams_of_position)
qed

lemma standard_loop_positions:
  "map tk_position (standard_loop ops self words p off ts) =
     map tk_position ts @
     map (\<lambda>k. p + of_nat k) [0..<length (filter (\<lambda>w. length w \<le> st_max_token_length self) words)]"
proof (induction ops self words p off ts rule: standard_loop.induct)
  case (2 ops self word words p off ts)
  have "map (\<lambda>k. p + of_nat k) [0..<Suc n] = p # map (\<lambda>k. p + 1 + of_nat k) [0..<n]" for n
    by (simp add: upt_conv_Cons map_Suc_upt [symmetric] comp_def algebra_simps del: upt_Suc)
  with 2 show ?case by (simp add: token_new_def del: upt_Suc)
qed simp

lemma strict_sorted_of_nat_u32:
  assumes "n \<le> 2 ^ 32"
  shows "strict_sorted (map (\<lambda>k. of_nat k :: u32) [0..<n])"
  unfolding sorted_wrt_iff_nth_less
  using assms by (auto simp: word_less_nat_alt unat_of_nat)

text \<open>
  The English analyzer gives the tokens of a text strictly ascending positions, all below the
  number of words, whatever words are dropped; and every token is the stem of a word that is not a
  stop word.
\<close>

theorem standard_english_tokens:
  assumes "length (unicode_words ops (to_lowercase ops s)) \<le> 2 ^ 32"
  shows "strict_sorted (map tk_position (analyze (standard_english ops) s)) \<and>
         unat ` tk_position ` set (analyze (standard_english ops) s)
           \<subseteq> {..<length (unicode_words ops (to_lowercase ops s))} \<and>
         tk_text ` set (analyze (standard_english ops) s)
           \<subseteq> stem_english ops ` (- set english_stop_words)"
proof -
  let ?words = "unicode_words ops (to_lowercase ops s)"
  let ?tokens = "standard_tokenize ops standard_tokenizer_default s"
  let ?n = "length (filter (\<lambda>w. length w \<le> 255) ?words)"
  have "?n \<le> length ?words" by simp
  have positions: "map tk_position ?tokens = map (\<lambda>k. of_nat k) [0..<?n]"
    by (simp add: standard_tokenize_def standard_loop_positions standard_tokenizer_default_def)
  have analyzed: "analyze (standard_english ops) s =
      stemmer_filter ops (stop_word_filter english_stop_words (lowercase_filter ops ?tokens))"
    by (simp add: analyze_def standard_english_def add_filter_def analyzer_new_def)
  have "strict_sorted (map tk_position (analyze (standard_english ops) s))"
    unfolding analyzed
    by (intro stemmer.positions_strict stop_word.positions_strict lowercase.positions_strict)
      (use strict_sorted_of_nat_u32 [of ?n] le_trans [OF \<open>?n \<le> length ?words\<close> assms] in
        \<open>simp only: positions\<close>)
  moreover have "unat ` tk_position ` set (analyze (standard_english ops) s) \<subseteq> {..<length ?words}"
  proof -
    have "set (map tk_position (analyze (standard_english ops) s)) \<subseteq> set (map tk_position ?tokens)"
      unfolding analyzed
      using stemmer.positions_subset stop_word.positions_subset lowercase.positions_subset by blast
    then have "tk_position ` set (analyze (standard_english ops) s) \<subseteq> of_nat ` {0..<?n}"
      unfolding positions by simp
    then have "unat ` tk_position ` set (analyze (standard_english ops) s)
        \<subseteq> unat ` (of_nat :: nat \<Rightarrow> u32) ` {0..<?n}"
      by (rule image_mono)
    also have "\<dots> \<subseteq> {..<length ?words}"
    proof -
      have "unat (of_nat k :: u32) < length ?words" if "k < ?n" for k
        unfolding unat_of_nat
        by (rule le_less_trans [OF mod_less_eq_dividend less_le_trans [OF that \<open>?n \<le> length ?words\<close>]])
      then show ?thesis by (auto simp del: unat_of_nat)
    qed
    finally show ?thesis .
  qed
  moreover have "tk_text ` set (analyze (standard_english ops) s)
      \<subseteq> stem_english ops ` (- set english_stop_words)"
    unfolding analyzed by (auto simp: stemmer_filter_def stop_word_filter_def)
  ultimately show ?thesis by blast
qed

text \<open>A concrete instance of the text operations, on ASCII words separated by white space.\<close>

definition plain_text_ops :: text_ops where
  "plain_text_ops = \<lparr>to_lowercase = (\<lambda>s. s), unicode_words = split_whitespace, stem_english = (\<lambda>s. s)\<rparr>"

theorem standard_english_tokens_witness:
  "map tk_text (analyze (standard_english plain_text_ops) ''the cat sat'') = [''cat'', ''sat''] \<and>
   strict_sorted (map tk_position (analyze (standard_english plain_text_ops) ''the cat sat''))"
proof -
  have "unicode_words plain_text_ops (to_lowercase plain_text_ops ''the cat sat'')
      = [''the'', ''cat'', ''sat'']"
    by code_simp
  then have "length (unicode_words plain_text_ops (to_lowercase plain_text_ops ''the cat sat''))
      \<le> 2 ^ 32"
    by simp
  from standard_english_tokens [OF this] show ?thesis by code_simp
qed

text \<open>
  The n-gram filter turns a token into exactly the windows of \<open>n\<close> consecutive characters for
  the admissible \<open>n\<close>: there are \<open>length - n + 1\<close> of each length, and every window lies inside the
  token.
\<close>

theorem ngrams_of_windows:
  "tk_text ` set (ngrams_of mn mx t) =
     {concat (take n (drop i (utf8_chars (tk_text t)))) | n i.
        mn \<le> n \<and> n \<le> mx \<and> i + n \<le> length (utf8_chars (tk_text t))} \<and>
   length (ngrams_of mn mx t) =
     (\<Sum>n = mn..min mx (length (utf8_chars (tk_text t))). length (utf8_chars (tk_text t)) - n + 1)"
proof
  let ?chars = "utf8_chars (tk_text t)"
  have "tk_text ` set (ngrams_of mn mx t) =
      (\<Union>n \<in> {mn..<min mx (length ?chars) + 1}.
         (\<lambda>i. concat (take n (drop i ?chars))) ` {0..<(length ?chars - n) + 1})"
    by (simp add: ngrams_of_def Let_def image_UN image_image del: upt_Suc)
  also have "\<dots> = {concat (take n (drop i ?chars)) | n i.
      n \<in> {mn..<min mx (length ?chars) + 1} \<and> i \<in> {0..<(length ?chars - n) + 1}}"
    by blast
  also have "\<dots> = {concat (take n (drop i ?chars)) | n i.
      mn \<le> n \<and> n \<le> mx \<and> i + n \<le> length ?chars}"
  proof -
    have "n \<in> {mn..<min mx (length ?chars) + 1} \<and> i \<in> {0..<(length ?chars - n) + 1} \<longleftrightarrow>
        mn \<le> n \<and> n \<le> mx \<and> i + n \<le> length ?chars" for n i
      by auto
    then show ?thesis by presburger
  qed
  finally show "tk_text ` set (ngrams_of mn mx t) =
     {concat (take n (drop i (utf8_chars (tk_text t)))) | n i.
        mn \<le> n \<and> n \<le> mx \<and> i + n \<le> length (utf8_chars (tk_text t))}" .
  show "length (ngrams_of mn mx t) =
     (\<Sum>n = mn..min mx (length (utf8_chars (tk_text t))). length (utf8_chars (tk_text t)) - n + 1)"
    by (simp add: ngrams_of_def Let_def length_concat comp_def interv_sum_list_conv_sum_set_nat
        atLeastLessThanSuc_atLeastAtMost del: upt_Suc)
qed

end
