(* ===== verification/Inverted_Index.thy ===== *)
theory Inverted_Index
  imports Skip_Lists Sorted_Ops Edit_Distance Analysis "HOL-Library.Multiset"
begin

section \<open>The inverted index\<close>

text \<open>
  The model of \<^verbatim>\<open>src/index/inverted.rs\<close> and \<^verbatim>\<open>src/search/prefix.rs\<close>.  A \<^verbatim>\<open>Term\<close> is a string.  The
  postings and skip lists are maps; the dictionary's \<^verbatim>\<open>term_map\<close>, which the code also iterates, is
  an association list whose order stands for the hash map's iteration order.  The order in which
  \<^verbatim>\<open>add_document\<close> visits the terms of a document is a parameter: any permutation.  The floating-point
  computations whose values the index only stores (field fnorm, inverse document frequency) are
  parameters.  The finite state transducer of the crate \<^verbatim>\<open>fst\<close> and the matcher of the crate
  \<^verbatim>\<open>regex\<close> are parameters.
\<close>

subsection \<open>Term dictionary\<close>

record term_info =
  ti_doc_freq :: u32
  ti_total_freq :: u64
  ti_idf :: fval
  ti_posting_offset :: u64
  ti_posting_size :: u32

record term_dictionary =
  td_term_infos :: "term_info list"
  td_term_map :: "(string \<times> nat) list"

definition dictionary_new :: term_dictionary where
  "dictionary_new = \<lparr>td_term_infos = [], td_term_map = []\<rparr>"

definition add_term :: "term_dictionary \<Rightarrow> string \<Rightarrow> u32 \<Rightarrow> term_dictionary result" where
  "add_term self t df =
     (case map_of (td_term_map self) t of
        Some i \<Rightarrow>
          and_then (index (td_term_infos self) i) (\<lambda>info.
            Ok (self\<lparr>td_term_infos := (td_term_infos self)[i := info\<lparr>ti_doc_freq := df\<rparr>]\<rparr>))
      | None \<Rightarrow>
          Ok \<lparr>td_term_infos = td_term_infos self @
                [\<lparr>ti_doc_freq = df, ti_total_freq = ucast df, ti_idf = Fin 0,
                  ti_posting_offset = 0, ti_posting_size = 0\<rparr>],
              td_term_map = td_term_map self @ [(t, length (td_term_infos self))]\<rparr>)"

text \<open>The precision of \<^verbatim>\<open>ln\<close> is not specified by the language; it is the parameter \<open>f_ln\<close>.\<close>

definition calculate_idf :: "(fval \<Rightarrow> fval) \<Rightarrow> term_dictionary \<Rightarrow> nat \<Rightarrow> term_dictionary" where
  "calculate_idf f_ln self total_docs =
     self\<lparr>td_term_infos :=
       map (\<lambda>i. i\<lparr>ti_idf := f_ln (f_div (f_add (f_of_nat total_docs) (Fin 1))
                                        (f_add (f_of_nat (unat (ti_doc_freq i))) (Fin 1)))\<rparr>)
         (td_term_infos self)\<rparr>"

definition get_term_info :: "term_dictionary \<Rightarrow> string \<Rightarrow> term_info option result" where
  "get_term_info self t =
     (case map_of (td_term_map self) t of
        None \<Rightarrow> Ok None
      | Some i \<Rightarrow> and_then (index (td_term_infos self) i) (\<lambda>info. Ok (Some info)))"

definition dictionary_len :: "term_dictionary \<Rightarrow> nat" where
  "dictionary_len self = length (td_term_infos self)"

definition dictionary_is_empty :: "term_dictionary \<Rightarrow> bool" where
  "dictionary_is_empty self \<longleftrightarrow> td_term_infos self = []"

definition term_count :: "term_dictionary \<Rightarrow> nat" where
  "term_count self = length (td_term_map self)"

subsection \<open>Prefix index\<close>

text \<open>The transducer of the crate: built from key-value pairs, streamed from the start or from a
  lower bound.\<close>

record 'm fst_ops =
  fst_default :: 'm
  fst_build :: "(string \<times> u64) list \<Rightarrow> 'm result"
  fst_stream :: "'m \<Rightarrow> string list"
  fst_range_ge :: "'m \<Rightarrow> string \<Rightarrow> string list"

record 'm prefix_index =
  pi_fst :: 'm
  pi_min_prefix_len :: nat
  pi_term_frequencies :: "string \<rightharpoonup> u32"

definition prefix_index_new :: "'m fst_ops \<Rightarrow> nat \<Rightarrow> 'm prefix_index" where
  "prefix_index_new ops min_prefix_len =
     \<lparr>pi_fst = fst_default ops, pi_min_prefix_len = min_prefix_len, pi_term_frequencies = Map.empty\<rparr>"

definition prefix_index_build ::
  "'m fst_ops \<Rightarrow> 'm prefix_index \<Rightarrow> (string \<times> u32) list \<Rightarrow> unit result \<times> 'm prefix_index" where
  "prefix_index_build ops self terms =
     (let self = self\<lparr>pi_term_frequencies := foldl (\<lambda>m (t, f). m(t \<mapsto> f)) (pi_term_frequencies self) terms\<rparr>;
          sorted_terms = sort_key fst terms
      in case fst_build ops (map (\<lambda>(t, f). (t, ucast f)) sorted_terms) of
           Inl e \<Rightarrow> (Err e, self)
         | Inr m \<Rightarrow> (Ok (), self\<lparr>pi_fst := m\<rparr>))"

definition search_prefix :: "'m fst_ops \<Rightarrow> 'm prefix_index \<Rightarrow> string \<Rightarrow> string list" where
  "search_prefix ops self p =
     (if length p < pi_min_prefix_len self then []
      else takeWhile (\<lambda>t. starts_with t p) (fst_range_ge ops (pi_fst self) p))"

fun wildcard_parts :: "string \<Rightarrow> nat \<Rightarrow> nat \<Rightarrow> string list \<Rightarrow> bool" where
  "wildcard_parts s last_index i [] = True"
| "wildcard_parts s last_index i (part # parts) =
     (if part = [] then wildcard_parts s last_index (i + 1) parts
      else if i = 0
      then starts_with s part \<and> wildcard_parts (drop (length part) s) last_index (i + 1) parts
      else if i = last_index
      then ends_with s part \<and> wildcard_parts s last_index (i + 1) parts
      else case str_find s part of
             Some idx \<Rightarrow> wildcard_parts (drop (idx + length part) s) last_index (i + 1) parts
           | None \<Rightarrow> False)"

definition matches_wildcard :: "string \<Rightarrow> string \<Rightarrow> bool" where
  "matches_wildcard s pattern =
     (let parts = str_split CHR ''*'' pattern in wildcard_parts s (length parts - 1) 0 parts)"

definition search_wildcard :: "'m fst_ops \<Rightarrow> 'm prefix_index \<Rightarrow> string \<Rightarrow> string list" where
  "search_wildcard ops self pattern =
     (let parts = str_split CHR ''*'' pattern
      in if length parts = 2 \<and> parts ! 1 = [] then search_prefix ops self (parts ! 0)
         else filter (\<lambda>t. matches_wildcard t pattern) (fst_stream ops (pi_fst self)))"

subsection \<open>The index\<close>

record 'm inverted_index =
  ix_dictionary :: term_dictionary
  ix_postings :: "string \<rightharpoonup> posting_list"
  ix_skip_lists :: "string \<rightharpoonup> skip_list"
  ix_doc_count :: nat
  ix_total_tokens :: nat
  ix_prefix_index :: "'m prefix_index option"

definition inverted_index_new :: "'m inverted_index" where
  "inverted_index_new =
     \<lparr>ix_dictionary = dictionary_new, ix_postings = Map.empty, ix_skip_lists = Map.empty,
      ix_doc_count = 0, ix_total_tokens = 0, ix_prefix_index = None\<rparr>"

definition build_prefix_index :: "'m fst_ops \<Rightarrow> 'm inverted_index \<Rightarrow> 'm inverted_index result" where
  "build_prefix_index ops self =
     and_then (try_map (\<lambda>(t, i).
         and_then (index (td_term_infos (ix_dictionary self)) i) (\<lambda>info. Ok (t, ti_doc_freq info)))
       (td_term_map (ix_dictionary self))) (\<lambda>terms_with_freq.
     case prefix_index_build ops (prefix_index_new ops 1) terms_with_freq of
       (Inl e, pidx) \<Rightarrow> Err e
     | (Inr _, pidx) \<Rightarrow> Ok (self\<lparr>ix_prefix_index := Some pidx\<rparr>))"

definition prefix_search :: "'m fst_ops \<Rightarrow> 'm inverted_index \<Rightarrow> string \<Rightarrow> string list result" where
  "prefix_search ops self p =
     (case ix_prefix_index self of
        Some pidx \<Rightarrow> Ok (search_prefix ops pidx p)
      | None \<Rightarrow> Err (Error InvalidState ''Prefix index not built''))"

text \<open>\<^verbatim>\<open>entry(term).or_insert_with(Vec::new).push(position)\<close>\<close>

fun push_position :: "string \<Rightarrow> u32 \<Rightarrow> (string \<times> u32 list) list \<Rightarrow> (string \<times> u32 list) list" where
  "push_position t pos [] = [(t, [pos])]"
| "push_position t pos ((k, ps) # entries) =
     (if k = t then (k, ps @ [pos]) # entries else (k, ps) # push_position t pos entries)"

definition group_tokens :: "token list \<Rightarrow> (string \<times> u32 list) list" where
  "group_tokens tokens = foldl (\<lambda>m tk. push_position (tk_text tk) (tk_position tk) m) [] tokens"

definition index_term ::
  "doc_id \<Rightarrow> fval \<Rightarrow> 'm inverted_index \<Rightarrow> string \<times> u32 list \<Rightarrow> 'm inverted_index result" where
  "index_term d fnorm self entry =
     (let (t, ps) = entry;
          posting = \<lparr>doc_id = d, term_freq = of_nat (length ps), positions = ps, field_norm = fnorm\<rparr>
      in and_then (case ix_postings self t of
                     Some existing \<Rightarrow> posting_list_iter existing
                   | None \<Rightarrow> Ok []) (\<lambda>all_postings.
         and_then (posting_list_new (sort_key doc_id (all_postings @ [posting]))) (\<lambda>pl.
         and_then (add_term (ix_dictionary self) t (doc_freq pl)) (\<lambda>dict.
         and_then (skip_list_build pl) (\<lambda>sl.
           Ok (self\<lparr>ix_postings := (ix_postings self)(t \<mapsto> pl), ix_dictionary := dict,
                    ix_skip_lists := (ix_skip_lists self)(t \<mapsto> sl)\<rparr>))))))"

fun index_terms ::
  "doc_id \<Rightarrow> fval \<Rightarrow> 'm inverted_index \<Rightarrow> (string \<times> u32 list) list \<Rightarrow> 'm inverted_index result" where
  "index_terms d fnorm self [] = Ok self"
| "index_terms d fnorm self (entry # entries) =
     and_then (index_term d fnorm self entry) (\<lambda>self'. index_terms d fnorm self' entries)"

text \<open>The field norm \<^verbatim>\<open>1.0 / (len as f32).sqrt()\<close>.\<close>

definition field_norm_of :: "nat \<Rightarrow> fval" where
  "field_norm_of len = f_div (Fin 1) (f_sqrt (f_of_nat len))"

lemma field_norm_of_1: "field_norm_of 1 = Fin 1"
  using f_sqrt_square [of 1 "2 ^ 150"] f_of_nat_small [of 1] is_f32_1
  by (simp add: field_norm_of_def) (simp add: is_f32_def)

type_synonym hash_order = "(string \<times> u32 list) list \<Rightarrow> (string \<times> u32 list) list"

definition add_document ::
  "hash_order \<Rightarrow> 'm inverted_index \<Rightarrow> doc_id \<Rightarrow> token list \<Rightarrow> 'm inverted_index result" where
  "add_document ord self d tokens =
     and_then (index_terms d (field_norm_of (length tokens)) self (ord (group_tokens tokens))) (\<lambda>self'.
       Ok (self'\<lparr>ix_doc_count := ix_doc_count self' + 1,
                 ix_total_tokens := ix_total_tokens self' + length tokens\<rparr>))"

text \<open>The ids of one posting list, as the boolean operations extract them.\<close>

definition list_doc_ids :: "posting_list \<Rightarrow> u32 list result" where
  "list_doc_ids pl = and_then (posting_list_iter pl) (\<lambda>ps. Ok (map (\<lambda>p. ucast (doc_id p)) ps))"

text \<open>The loop returns \<open>None\<close> when it meets a term without postings.\<close>

fun collect_all :: "'m inverted_index \<Rightarrow> string list \<Rightarrow> u32 list list option result" where
  "collect_all self [] = Ok (Some [])"
| "collect_all self (t # ts) =
     (case ix_postings self t of
        Some pl \<Rightarrow> and_then (list_doc_ids pl) (\<lambda>ids.
                     and_then (collect_all self ts) (\<lambda>r. Ok (map_option (\<lambda>arrays. ids # arrays) r)))
      | None \<Rightarrow> Ok None)"

fun intersect_arrays :: "u32 list \<Rightarrow> u32 list list \<Rightarrow> u32 list" where
  "intersect_arrays result [] = result"
| "intersect_arrays result (a # arrays) =
     (let result' = intersect_sorted result a
      in if result' = [] then result' else intersect_arrays result' arrays)"

definition intersect_terms :: "'m inverted_index \<Rightarrow> string list \<Rightarrow> doc_id list result" where
  "intersect_terms self terms =
     (if terms = [] then Ok []
      else and_then (collect_all self terms) (\<lambda>r.
        case r of
          None \<Rightarrow> Ok []
        | Some [] \<Rightarrow> Ok []
        | Some (a # arrays) \<Rightarrow> Ok (map ucast (intersect_arrays a arrays))))"

fun collect_found :: "'m inverted_index \<Rightarrow> string list \<Rightarrow> u32 list list result" where
  "collect_found self [] = Ok []"
| "collect_found self (t # ts) =
     (case ix_postings self t of
        Some pl \<Rightarrow> and_then (list_doc_ids pl) (\<lambda>ids.
                     and_then (collect_found self ts) (\<lambda>arrays. Ok (ids # arrays)))
      | None \<Rightarrow> collect_found self ts)"

definition union_terms :: "'m inverted_index \<Rightarrow> string list \<Rightarrow> doc_id list result" where
  "union_terms self terms =
     (if terms = [] then Ok []
      else and_then (collect_found self terms) (\<lambda>arrays.
        case arrays of
          [] \<Rightarrow> Ok []
        | a # rest \<Rightarrow> Ok (map ucast (foldl union_sorted a rest))))"

definition search_term :: "'m inverted_index \<Rightarrow> string \<Rightarrow> posting_list option" where
  "search_term self t = ix_postings self t"

text \<open>The regular expression crate: a compiled matcher, or none when the pattern is invalid.\<close>

type_synonym regex_engine = "string \<Rightarrow> (string \<Rightarrow> bool) option"

definition wildcard_search :: "regex_engine \<Rightarrow> 'm inverted_index \<Rightarrow> string \<Rightarrow> string list result" where
  "wildcard_search regex self pattern =
     (case regex (str_replace_char CHR ''?'' ''.'' (str_replace_char CHR ''*'' ''.*'' pattern)) of
        None \<Rightarrow> Err (Error InvalidInput ''Invalid wildcard'')
      | Some is_match \<Rightarrow> Ok (filter is_match (map fst (td_term_map (ix_dictionary self)))))"

text \<open>
  \<^verbatim>\<open>split_at\<close> panics inside a character; a prefix of the dictionary term that equals the query's
  prefix ends at a character boundary, so the second slice never panics.
\<close>

definition is_char_boundary :: "string \<Rightarrow> nat \<Rightarrow> bool" where
  "is_char_boundary s k \<longleftrightarrow> k \<le> length s \<and> (k < length s \<longrightarrow> \<not> is_continuation (s ! k))"

definition fuzzy_search :: "'m inverted_index \<Rightarrow> string \<Rightarrow> u8 \<Rightarrow> u8 \<Rightarrow> (string \<times> u8) list result" where
  "fuzzy_search self t max_distance prefix_length =
     (let split = 0 < prefix_length \<and> unat prefix_length \<le> length t
      in if split \<and> \<not> is_char_boundary t (unat prefix_length) then Err Panic
         else let k = (if split then unat prefix_length else 0);
                  p = take k t; s = drop k t;
                  candidates = filter (\<lambda>d. p = [] \<or> starts_with d p)
                                 (map fst (td_term_map (ix_dictionary self)));
                  scored = map (\<lambda>d. (d, levenshtein_distance s (drop (length p) d))) candidates;
                  matching = filter (\<lambda>(d, n). n \<le> unat max_distance) scored
              in Ok (sort_key snd (map (\<lambda>(d, n). (d, of_nat n)) matching)))"

subsection \<open>Document ids below 32 bits\<close>

text \<open>Posting lists keep 32 bits of an id; \<open>small_id d\<close> says that nothing is lost.\<close>

definition small_id :: "doc_id \<Rightarrow> bool" where
  "small_id d \<longleftrightarrow> unat d < 2 ^ 32"

lemma unat_ucast_u64 [simp]: "unat (ucast (w :: u32) :: u64) = unat w"
  using unat_u32_less [of w] by (simp add: unsigned_ucast_eq take_bit_nat_eq_self)

lemma small_id_iff: "small_id d \<longleftrightarrow> ucast (ucast d :: u32) = d"
proof
  assume "small_id d"
  then show "ucast (ucast d :: u32) = d"
    by (simp add: small_id_def word_unat_eq_iff unsigned_ucast_eq unsigned_take_bit_eq
        take_bit_nat_eq_self)
next
  assume "ucast (ucast d :: u32) = d"
  then have "unat d = unat (ucast d :: u32)" by (metis unat_ucast_u64)
  then show "small_id d" unfolding small_id_def using unat_u32_less by metis
qed

lemma small_id_ucast [simp]: "small_id (ucast (w :: u32))"
  by (simp add: small_id_iff)

lemma ucast_less_iff:
  "small_id a \<Longrightarrow> small_id b \<Longrightarrow> (ucast a :: u32) < ucast b \<longleftrightarrow> a < b"
  by (metis small_id_iff unat_ucast_u64 word_less_nat_alt)

lemma strict_sorted_ucast:
  assumes "strict_sorted (map doc_id ps)" "\<forall>p \<in> set ps. small_id (doc_id p)"
  shows "strict_sorted (map (\<lambda>p. ucast (doc_id p) :: u32) ps)"
  using assms by (induction ps) (auto simp: ucast_less_iff)

lemma stored_small: "small_id (doc_id p) \<Longrightarrow> doc_id (stored p) = doc_id p"
  by (simp add: stored_def small_id_iff)

subsection \<open>The invariant of the index\<close>

text \<open>
  Every posting list represents postings in strictly ascending order of small ids, and the skip
  list of a term is the one built from its postings.
\<close>

definition good_postings :: "posting list \<Rightarrow> bool" where
  "good_postings ps \<longleftrightarrow> strict_sorted (map doc_id ps) \<and> (\<forall>p \<in> set ps. small_id (doc_id p))"

definition postings_ok :: "'m inverted_index \<Rightarrow> bool" where
  "postings_ok ix \<longleftrightarrow>
     (\<forall>t pl. ix_postings ix t = Some pl \<longrightarrow>
        (\<exists>ps. represents pl ps \<and> good_postings ps \<and> ps \<noteq> [] \<and>
              ix_skip_lists ix t = Some (skip_list_of (map (\<lambda>p. ucast (doc_id p)) ps)))) \<and>
     dom (ix_skip_lists ix) = dom (ix_postings ix)"

text \<open>
  The dictionary has one entry, with its own statistics record, for every term with postings, and
  the record holds the number of postings.
\<close>

definition dictionary_ok :: "'m inverted_index \<Rightarrow> bool" where
  "dictionary_ok ix \<longleftrightarrow>
     (let tm = td_term_map (ix_dictionary ix); infos = td_term_infos (ix_dictionary ix)
      in distinct (map fst tm) \<and> map snd tm = [0..<length infos] \<and>
         fst ` set tm = dom (ix_postings ix) \<and>
         (\<forall>(t, i) \<in> set tm. \<forall>pl. ix_postings ix t = Some pl \<longrightarrow> ti_doc_freq (infos ! i) = doc_freq pl))"

definition index_ok :: "'m inverted_index \<Rightarrow> bool" where
  "index_ok ix \<longleftrightarrow> postings_ok ix \<and> dictionary_ok ix"

text \<open>The abstract view: the documents of a term.\<close>

definition term_docs :: "'m inverted_index \<Rightarrow> string \<Rightarrow> doc_id set" where
  "term_docs ix t =
     (case ix_postings ix t of
        None \<Rightarrow> {}
      | Some pl \<Rightarrow> (case posting_list_iter pl of Inr ps \<Rightarrow> doc_id ` set ps | Inl _ \<Rightarrow> {}))"

lemma stored_ids:
  assumes "good_postings ps"
  shows "map doc_id (map stored ps) = map doc_id ps"
    and "doc_id ` stored ` set ps = doc_id ` set ps"
proof -
  show *: "map doc_id (map stored ps) = map doc_id ps"
    using assms by (auto simp: good_postings_def stored_small)
  show "doc_id ` stored ` set ps = doc_id ` set ps"
    using arg_cong [OF *, of set] by (simp add: image_image)
qed

lemma term_docs_represents:
  assumes "ix_postings ix t = Some pl" "represents pl ps" "good_postings ps"
  shows "term_docs ix t = doc_id ` set ps"
  using assms stored_ids(2) [OF assms(3)] by (simp add: term_docs_def posting_list_iter_represents)

lemma distinct_map_sort_key: "distinct (map f (sort_key g xs)) \<longleftrightarrow> distinct (map f xs)"
  by (rule mset_eq_imp_distinct_iff) simp

lemma good_postings_insert:
  assumes "good_postings ps" "small_id (doc_id p)" "doc_id p \<notin> doc_id ` set ps"
  shows "good_postings (sort_key doc_id (map stored ps @ [p]))"
    and "doc_id ` set (sort_key doc_id (map stored ps @ [p])) = insert (doc_id p) (doc_id ` set ps)"
proof -
  let ?xs = "map stored ps @ [p]"
  have "distinct (map doc_id ?xs)"
    using assms(1,3) stored_ids [OF assms(1)] strict_sorted_iff [of "map doc_id ps"]
    by (simp add: good_postings_def del: map_map)
  then have "strict_sorted (map doc_id (sort_key doc_id ?xs))"
    by (simp add: strict_sorted_iff distinct_map_sort_key del: map_append)
  moreover have "\<forall>q \<in> set ?xs. small_id (doc_id q)"
    using assms(1,2) by (auto simp: good_postings_def stored_small)
  ultimately show "good_postings (sort_key doc_id ?xs)"
    by (simp add: good_postings_def)
  show "doc_id ` set (sort_key doc_id ?xs) = insert (doc_id p) (doc_id ` set ps)"
    using stored_ids(2) [OF assms(1)] by auto
qed

lemma dictionary_ok_index:
  assumes "dictionary_ok ix" "(t, i) \<in> set (td_term_map (ix_dictionary ix))"
  shows "i < length (td_term_infos (ix_dictionary ix))"
proof -
  have "i \<in> snd ` set (td_term_map (ix_dictionary ix))" using assms(2) by force
  also have "\<dots> = set [0..<length (td_term_infos (ix_dictionary ix))]"
    using assms(1) by (metis dictionary_ok_def set_map)
  finally show ?thesis by simp
qed

lemma add_term_ok:
  assumes "dictionary_ok ix"
  shows "\<exists>dict. add_term (ix_dictionary ix) t (doc_freq pl) = Ok dict \<and>
           dictionary_ok (ix\<lparr>ix_dictionary := dict, ix_postings := (ix_postings ix)(t \<mapsto> pl),
                             ix_skip_lists := sls\<rparr>)"
proof (cases "map_of (td_term_map (ix_dictionary ix)) t")
  case None
  then have "t \<notin> fst ` set (td_term_map (ix_dictionary ix))"
    by (simp add: map_of_eq_None_iff)
  moreover have "i < length (td_term_infos (ix_dictionary ix))"
    if "(u, i) \<in> set (td_term_map (ix_dictionary ix))" for u i
    using dictionary_ok_index [OF assms that] .
  ultimately show ?thesis
    using assms None by (auto simp: add_term_def dictionary_ok_def Let_def nth_append)
next
  case (Some i)
  let ?tm = "td_term_map (ix_dictionary ix)" and ?infos = "td_term_infos (ix_dictionary ix)"
  have mem: "(t, i) \<in> set ?tm" using Some by (rule map_of_SomeD)
  have i: "i < length ?infos" using dictionary_ok_index [OF assms mem] .
  have "distinct (map snd ?tm)" "distinct (map fst ?tm)"
    using assms by (simp_all add: dictionary_ok_def Let_def)
  then have other: "(u, j) \<in> set ?tm \<Longrightarrow> u = t \<longleftrightarrow> j = i" for u j
    using mem by (metis eq_key_imp_eq_value inj_on_def distinct_map fst_conv snd_conv)
  have tdom: "t \<in> dom (ix_postings ix)"
    using mem assms by (force simp: dictionary_ok_def Let_def)
  show ?thesis
    using Some i assms other tdom
    by (auto simp: add_term_def dictionary_ok_def Let_def insert_absorb nth_list_update split: if_splits)
qed

lemma index_term_ok:
  assumes "index_ok ix" "small_id d" "d \<notin> term_docs ix t"
  shows "\<exists>ix'. index_term d fnorm ix (t, ps) = Ok ix' \<and> index_ok ix' \<and>
               (\<forall>u. term_docs ix' u = (if u = t then insert d (term_docs ix t) else term_docs ix u))"
proof -
  let ?p = "\<lparr>doc_id = d, term_freq = of_nat (length ps), positions = ps, field_norm = fnorm\<rparr>"
  obtain old where old: "(case ix_postings ix t of Some pl \<Rightarrow> posting_list_iter pl | None \<Rightarrow> Ok [])
      = Ok (map stored old)" "good_postings old" "term_docs ix t = doc_id ` set old"
  proof (cases "ix_postings ix t")
    case None
    then show ?thesis using that [of "[]"] by (simp add: good_postings_def term_docs_def)
  next
    case (Some pl)
    then obtain qs where "represents pl qs" "good_postings qs"
      using assms(1) unfolding index_ok_def postings_ok_def by blast
    then show ?thesis
      using that [of qs] Some term_docs_represents [OF Some] by (simp add: posting_list_iter_represents)
  qed
  let ?new = "sort_key doc_id (map stored old @ [?p])"
  have new: "good_postings ?new" "doc_id ` set ?new = insert d (term_docs ix t)"
    using good_postings_insert [of old ?p] old(2,3) assms(2,3) by simp_all
  obtain pl where pl: "posting_list_new ?new = Ok pl" "represents pl ?new"
    using posting_list_new_represents by blast
  obtain dict where dict: "add_term (ix_dictionary ix) t (doc_freq pl) = Ok dict"
    "\<And>sls. dictionary_ok (ix\<lparr>ix_dictionary := dict, ix_postings := (ix_postings ix)(t \<mapsto> pl),
                             ix_skip_lists := sls\<rparr>)"
    using add_term_ok [of ix t pl] assms(1) unfolding index_ok_def by (metis Inr_inject)
  let ?sl = "skip_list_of (map (\<lambda>p. ucast (doc_id p)) ?new)"
  let ?ix' = "ix\<lparr>ix_postings := (ix_postings ix)(t \<mapsto> pl), ix_dictionary := dict,
                 ix_skip_lists := (ix_skip_lists ix)(t \<mapsto> ?sl)\<rparr>"
  have "index_term d fnorm ix (t, ps) = Ok ?ix'"
    using old(1) pl(1) dict(1) skip_list_build_eq [OF pl(1)] by (simp add: index_term_def)
  moreover have "length ?new \<noteq> 0"
    by (simp only: length_sort length_append) simp
  then have "?new \<noteq> []" by fastforce
  then have "postings_ok ?ix'"
    using assms(1) pl(2) new(1) by (auto simp: index_ok_def postings_ok_def)
  moreover have "dictionary_ok ?ix'"
    using dict(2) by (simp add: dictionary_ok_def)
  moreover have "term_docs ?ix' u = (if u = t then insert d (term_docs ix t) else term_docs ix u)" for u
    using term_docs_represents [of ?ix' t pl ?new] pl(2) new by (simp add: term_docs_def)
  ultimately show ?thesis by (auto simp: index_ok_def)
qed

lemma index_terms_ok:
  assumes "index_ok ix" "small_id d" "distinct (map fst entries)"
    "\<forall>t \<in> fst ` set entries. d \<notin> term_docs ix t"
  shows "\<exists>ix'. index_terms d fnorm ix entries = Ok ix' \<and> index_ok ix' \<and>
           (\<forall>u. term_docs ix' u = (if u \<in> fst ` set entries then insert d (term_docs ix u) else term_docs ix u))"
  using assms
proof (induction entries arbitrary: ix)
  case (Cons entry entries)
  obtain t ps where [simp]: "entry = (t, ps)" by (cases entry)
  obtain ix1 where ix1: "index_term d fnorm ix (t, ps) = Ok ix1" "index_ok ix1"
    "\<forall>u. term_docs ix1 u = (if u = t then insert d (term_docs ix t) else term_docs ix u)"
    using index_term_ok [of ix d t fnorm ps] Cons.prems by auto
  have "\<forall>u \<in> fst ` set entries. d \<notin> term_docs ix1 u"
    using Cons.prems ix1(3) by (auto simp: image_iff)
  from Cons.IH [OF ix1(2) Cons.prems(2) _ this] Cons.prems(3) obtain ix2 where
    "index_terms d fnorm ix1 entries = Ok ix2" "index_ok ix2"
    "\<forall>u. term_docs ix2 u = (if u \<in> fst ` set entries then insert d (term_docs ix1 u) else term_docs ix1 u)"
    by auto
  with ix1 show ?case by auto
qed simp

lemma push_position_keys: "fst ` set (push_position t pos m) = insert t (fst ` set m)"
  by (induction t pos m rule: push_position.induct) auto

lemma push_position_distinct:
  "distinct (map fst m) \<Longrightarrow> distinct (map fst (push_position t pos m))"
proof (induction t pos m rule: push_position.induct)
  case (2 t pos k ps m)
  then show ?case using push_position_keys [of t pos m] by auto
qed simp

lemma group_tokens_keys:
  "fst ` set (group_tokens tokens) = tk_text ` set tokens \<and> distinct (map fst (group_tokens tokens))"
proof -
  have "fst ` set (foldl (\<lambda>m tk. push_position (tk_text tk) (tk_position tk) m) m tokens) =
      fst ` set m \<union> tk_text ` set tokens \<and>
      (distinct (map fst m) \<longrightarrow>
       distinct (map fst (foldl (\<lambda>m tk. push_position (tk_text tk) (tk_position tk) m) m tokens)))"
    for m
    by (induction tokens arbitrary: m) (auto simp: push_position_keys push_position_distinct)
  then show ?thesis by (simp add: group_tokens_def)
qed

end
