(* ===== verification/Index_Search.thy ===== *)
theory Index_Search
  imports Inverted_Index
begin

section \<open>Searching the inverted index\<close>

text \<open>
  What the operations of the index mean together: indexing a collection of documents, boolean
  search over it, prefix search and fuzzy search.
\<close>

lemma index_terms_counts:
  "index_terms d fnorm ix entries = Ok ix' \<Longrightarrow>
     ix_doc_count ix' = ix_doc_count ix \<and> ix_total_tokens ix' = ix_total_tokens ix"
  by (induction entries arbitrary: ix) (fastforce simp: and_then_Ok_iff index_term_def Let_def)+

lemma add_document_ok:
  assumes "index_ok ix" "small_id d" "\<forall>t. d \<notin> term_docs ix t"
    "\<And>xs. mset (ord xs) = mset xs"
  shows "\<exists>ix'. add_document ord ix d tokens = Ok ix' \<and> index_ok ix' \<and>
           ix_doc_count ix' = ix_doc_count ix + 1 \<and>
           (\<forall>t. term_docs ix' t = term_docs ix t \<union> (if t \<in> tk_text ` set tokens then {d} else {}))"
proof -
  let ?entries = "ord (group_tokens tokens)"
  have "fst ` set ?entries = tk_text ` set tokens" "distinct (map fst ?entries)"
    using group_tokens_keys [of tokens] assms(4) [of "group_tokens tokens"]
    by (metis set_mset_mset, metis mset_eq_imp_distinct_iff mset_map)
  with index_terms_ok [OF assms(1,2), of ?entries "field_norm_of (length tokens)"] assms(3)
  obtain ix1 where ix1: "index_terms d (field_norm_of (length tokens)) ix ?entries = Ok ix1" "index_ok ix1"
    "\<forall>u. term_docs ix1 u = (if u \<in> tk_text ` set tokens then insert d (term_docs ix u) else term_docs ix u)"
    by auto
  then show ?thesis
    using index_terms_counts [OF ix1(1)]
    by (auto simp: add_document_def index_ok_def postings_ok_def dictionary_ok_def term_docs_def)
qed

subsection \<open>Indexing a collection\<close>

fun index_documents ::
  "hash_order \<Rightarrow> 'm inverted_index \<Rightarrow> (doc_id \<times> token list) list \<Rightarrow> 'm inverted_index result" where
  "index_documents ord ix [] = Ok ix"
| "index_documents ord ix ((d, tokens) # docs) =
     and_then (add_document ord ix d tokens) (\<lambda>ix'. index_documents ord ix' docs)"

definition docs_with :: "string \<Rightarrow> (doc_id \<times> token list) list \<Rightarrow> doc_id set" where
  "docs_with t docs = {d. \<exists>tokens. (d, tokens) \<in> set docs \<and> t \<in> tk_text ` set tokens}"

lemma index_ok_new: "index_ok inverted_index_new"
  by (simp add: index_ok_def postings_ok_def dictionary_ok_def inverted_index_new_def
      dictionary_new_def)

lemma term_docs_new: "term_docs inverted_index_new t = {}"
  by (simp add: term_docs_def inverted_index_new_def)

lemma index_documents_ok:
  assumes "index_ok ix" "distinct (map fst docs)" "\<forall>d \<in> fst ` set docs. small_id d \<and> (\<forall>t. d \<notin> term_docs ix t)"
    "\<And>xs. mset (ord xs) = mset xs"
  shows "\<exists>ix'. index_documents ord ix docs = Ok ix' \<and> index_ok ix' \<and>
           ix_doc_count ix' = ix_doc_count ix + length docs \<and>
           (\<forall>t. term_docs ix' t = term_docs ix t \<union> docs_with t docs)"
  using assms(1-3)
proof (induction docs arbitrary: ix)
  case Nil
  then show ?case by (simp add: docs_with_def)
next
  case (Cons doc docs)
  obtain d tokens where [simp]: "doc = (d, tokens)" by (cases doc)
  obtain ix1 where ix1: "add_document ord ix d tokens = Ok ix1" "index_ok ix1"
    "ix_doc_count ix1 = ix_doc_count ix + 1"
    "\<forall>t. term_docs ix1 t = term_docs ix t \<union> (if t \<in> tk_text ` set tokens then {d} else {})"
    using add_document_ok [of ix d ord tokens] Cons.prems assms(4) by auto
  have "\<forall>e \<in> fst ` set docs. small_id e \<and> (\<forall>t. e \<notin> term_docs ix1 t)"
    using Cons.prems ix1(4) by (auto simp: image_iff)
  from Cons.IH [OF ix1(2) _ this] Cons.prems(2) obtain ix2 where
    "index_documents ord ix1 docs = Ok ix2" "index_ok ix2"
    "ix_doc_count ix2 = ix_doc_count ix1 + length docs"
    "\<forall>t. term_docs ix2 t = term_docs ix1 t \<union> docs_with t docs"
    by auto
  moreover have "docs_with t (doc # docs) =
      (if t \<in> tk_text ` set tokens then {d} else {}) \<union> docs_with t docs" for t
    by (auto simp: docs_with_def)
  ultimately show ?case using ix1 by (auto simp: Un_assoc)
qed

subsection \<open>Boolean search\<close>

lemma list_doc_ids_ok:
  assumes "index_ok ix" "ix_postings ix t = Some pl"
  shows "\<exists>ids. list_doc_ids pl = Ok ids \<and> strict_sorted ids \<and> term_docs ix t = ucast ` set ids"
proof -
  obtain ps where ps: "represents pl ps" "good_postings ps"
    using assms unfolding index_ok_def postings_ok_def by blast
  have ids: "map (\<lambda>p. ucast (doc_id p)) (map stored ps) = map (\<lambda>p. ucast (doc_id p) :: u32) ps"
    by (simp add: stored_def)
  have "list_doc_ids pl = Ok (map (\<lambda>p. ucast (doc_id p)) ps)"
    using posting_list_iter_represents [OF ps(1)] ids by (simp add: list_doc_ids_def)
  moreover have "strict_sorted (map (\<lambda>p. ucast (doc_id p) :: u32) ps)"
    by (rule strict_sorted_ucast) (use ps(2) in \<open>auto simp: good_postings_def\<close>)
  moreover have "term_docs ix t = ucast ` set (map (\<lambda>p. ucast (doc_id p) :: u32) ps)"
    using term_docs_represents [OF assms(2) ps] ps(2)
    by (simp add: image_image good_postings_def small_id_iff)
  ultimately show ?thesis by blast
qed

lemma term_docs_None: "ix_postings ix t = None \<Longrightarrow> term_docs ix t = {}"
  by (simp add: term_docs_def)

lemma collect_all_ok:
  assumes "index_ok ix"
  shows "\<exists>r. collect_all ix ts = Ok r \<and>
           (case r of None \<Rightarrow> (\<exists>t \<in> set ts. term_docs ix t = {})
            | Some arrays \<Rightarrow> list_all2 (\<lambda>t a. strict_sorted a \<and> term_docs ix t = ucast ` set a) ts arrays)"
proof (induction ts)
  case (Cons t ts)
  then show ?case
    using list_doc_ids_ok [OF assms, of t] term_docs_None [of ix t]
    by (cases "ix_postings ix t") (fastforce split: option.splits)+
qed simp

lemma collect_found_ok:
  assumes "index_ok ix"
  shows "\<exists>arrays. collect_found ix ts = Ok arrays \<and> (\<forall>a \<in> set arrays. strict_sorted a) \<and>
           (\<Union>t \<in> set ts. term_docs ix t) = ucast ` (\<Union>a \<in> set arrays. set a)"
proof (induction ts)
  case (Cons t ts)
  then show ?case
    using list_doc_ids_ok [OF assms, of t] term_docs_None [of ix t]
    by (cases "ix_postings ix t") (fastforce simp: image_Un)+
qed simp

lemma intersect_arrays_eq:
  "strict_sorted a \<Longrightarrow> \<forall>b \<in> set bs. strict_sorted b \<Longrightarrow> intersect_arrays a bs = foldl intersect_sorted a bs"
proof (induction bs arbitrary: a)
  case (Cons b bs)
  have "foldl intersect_sorted [] bs = []"
    by (induction bs) (simp_all add: intersect_sorted_def)
  with Cons show ?case by (auto simp: Let_def simd.inter_sorted)
qed simp

lemma map_ucast_sorted:
  "strict_sorted (ids :: u32 list) \<Longrightarrow> map ucast ids = sorted_list_of_set ((ucast :: u32 \<Rightarrow> u64) ` set ids)"
proof (rule strict_sorted_set_unique)
  assume "strict_sorted ids"
  then show "strict_sorted (map (ucast :: u32 \<Rightarrow> u64) ids)"
    by (auto simp: sorted_wrt_map word_less_nat_alt elim: sorted_wrt_mono_rel [rotated])
qed simp_all

lemma inj_ucast_u32: "inj (ucast :: u32 \<Rightarrow> u64)"
  by (metis injI ucast_u32_u64_u32)

lemma list_all2_arrays:
  "list_all2 (\<lambda>t a. strict_sorted a \<and> D t = U a) ts as \<Longrightarrow>
     (\<forall>a \<in> set as. strict_sorted a) \<and> (\<Inter>t \<in> set ts. D t) = (\<Inter>a \<in> set as. U a)"
  by (induction rule: list_all2_induct) auto

lemma intersect_terms_ok:
  assumes "index_ok ix" "ts \<noteq> []"
  shows "intersect_terms ix ts = Ok (sorted_list_of_set (\<Inter>t \<in> set ts. term_docs ix t))"
proof -
  obtain r where r: "collect_all ix ts = Ok r"
    "case r of None \<Rightarrow> (\<exists>t \<in> set ts. term_docs ix t = {})
     | Some arrays \<Rightarrow> list_all2 (\<lambda>t a. strict_sorted a \<and> term_docs ix t = ucast ` set a) ts arrays"
    using collect_all_ok [OF assms(1)] by blast
  show ?thesis
  proof (cases r)
    case None
    then have "(\<Inter>t \<in> set ts. term_docs ix t) = {}" using r(2) by auto
    with None r(1) assms(2) show ?thesis by (simp add: intersect_terms_def)
  next
    case (Some arrays)
    then obtain a as where arrays: "arrays = a # as" using r(2) assms(2) by (cases arrays) auto
    have sorted: "strict_sorted a" "\<forall>b \<in> set as. strict_sorted b"
      using list_all2_arrays [of "term_docs ix" "\<lambda>a. ucast ` set a" ts arrays] r(2) Some arrays by auto
    have "(\<Inter>t \<in> set ts. term_docs ix t) = (\<Inter>b \<in> set arrays. ucast ` set b)"
      using list_all2_arrays [of "term_docs ix" "\<lambda>a. ucast ` set a" ts arrays] r(2) Some by simp
    also have "\<dots> = ucast ` (set a \<inter> (\<Inter>b \<in> set as. set b))"
      using arrays image_INT [of "ucast :: u32 \<Rightarrow> u64" UNIV "set arrays" set a] inj_ucast_u32 by simp
    finally show ?thesis
      using r(1) Some arrays assms(2) simd.foldl_inter [OF sorted]
        map_ucast_sorted [of "foldl intersect_sorted a as"]
      by (simp add: intersect_terms_def intersect_arrays_eq [OF sorted])
  qed
qed

lemma union_terms_ok:
  assumes "index_ok ix"
  shows "union_terms ix ts = Ok (sorted_list_of_set (\<Union>t \<in> set ts. term_docs ix t))"
proof (cases "ts = []")
  case False
  obtain arrays where arrays: "collect_found ix ts = Ok arrays" "\<forall>a \<in> set arrays. strict_sorted a"
    "(\<Union>t \<in> set ts. term_docs ix t) = ucast ` (\<Union>a \<in> set arrays. set a)"
    using collect_found_ok [OF assms, of ts] by (elim exE conjE)
  show ?thesis
  proof (cases arrays)
    case Nil
    with arrays False show ?thesis by (simp add: union_terms_def)
  next
    case (Cons a as)
    with arrays False simd.foldl_union [of a as] map_ucast_sorted [of "foldl union_sorted a as"]
    show ?thesis by (simp add: union_terms_def image_Un)
  qed
qed (simp add: union_terms_def)


lemma Inter_docs_with:
  "ts \<noteq> [] \<Longrightarrow> distinct (map fst docs) \<Longrightarrow>
     (\<Inter>t \<in> set ts. docs_with t docs) =
       {d. \<exists>tokens. (d, tokens) \<in> set docs \<and> set ts \<subseteq> tk_text ` set tokens}"
proof -
  assume "ts \<noteq> []" and dist: "distinct (map fst docs)"
  then obtain t0 where "t0 \<in> set ts" by (cases ts) auto
  show ?thesis
  proof (intro set_eqI iffI)
    fix d
    assume d: "d \<in> (\<Inter>t \<in> set ts. docs_with t docs)"
    then obtain tokens where tokens: "(d, tokens) \<in> set docs"
      using \<open>t0 \<in> set ts\<close> by (auto simp: docs_with_def)
    have "t \<in> tk_text ` set tokens" if "t \<in> set ts" for t
      using d that tokens eq_key_imp_eq_value [OF dist] by (fastforce simp: docs_with_def)
    with tokens show "d \<in> {d. \<exists>tokens. (d, tokens) \<in> set docs \<and> set ts \<subseteq> tk_text ` set tokens}"
      by blast
  qed (auto simp: docs_with_def)
qed

text \<open>
  C6: after indexing a collection of documents with distinct 32-bit ids, whatever order the hash
  maps are visited in, boolean search is exact: the intersection of terms returns, ascending, the
  documents whose tokens contain all of them, and the union those that contain at least one.
\<close>

theorem boolean_search_correct:
  assumes "distinct (map fst docs)" "\<forall>d \<in> fst ` set docs. small_id d"
    "\<And>xs. mset (ord xs) = mset xs"
  shows "\<exists>ix :: 'm inverted_index. index_documents ord inverted_index_new docs = Ok ix \<and>
           (\<forall>ts. ts \<noteq> [] \<longrightarrow> intersect_terms ix ts =
              Ok (sorted_list_of_set {d. \<exists>tokens. (d, tokens) \<in> set docs \<and> set ts \<subseteq> tk_text ` set tokens})) \<and>
           (\<forall>ts. union_terms ix ts =
              Ok (sorted_list_of_set {d. \<exists>tokens. (d, tokens) \<in> set docs \<and> set ts \<inter> tk_text ` set tokens \<noteq> {}}))"
proof -
  obtain ix :: "'m inverted_index" where
    ix: "index_documents ord inverted_index_new docs = Ok ix" "index_ok ix"
    "\<forall>t. term_docs ix t = docs_with t docs"
    using index_documents_ok [OF index_ok_new assms(1) _ assms(3)] assms(2)
    by (fastforce simp: term_docs_new)
  have "(\<Union>t \<in> set ts. docs_with t docs) =
      {d. \<exists>tokens. (d, tokens) \<in> set docs \<and> set ts \<inter> tk_text ` set tokens \<noteq> {}}" for ts
    by (auto simp: docs_with_def)
  then show ?thesis
    using ix intersect_terms_ok [OF ix(2)] union_terms_ok [OF ix(2)] Inter_docs_with [OF _ assms(1)]
    by simp
qed

lemma ids_filter: "{d. \<exists>tk. (d, tk) \<in> set docs \<and> P tk} = fst ` set (filter (\<lambda>(d, tk). P tk) docs)"
  by force

definition sample_docs :: "(doc_id \<times> token list) list" where
  "sample_docs = [(2, [token_new ''b'' 0 0]), (1, [token_new ''a'' 0 0, token_new ''b'' 1 2])]"

theorem boolean_search_correct_witness:
  "\<exists>ix :: unit inverted_index.
     index_documents id inverted_index_new sample_docs = Ok ix \<and>
     intersect_terms ix [''a'', ''b''] = Ok [1] \<and> union_terms ix [''a'', ''b''] = Ok [1, 2]"
proof -
  have "distinct (map fst sample_docs)" "\<forall>d \<in> fst ` set sample_docs. small_id d"
    by (simp_all add: sample_docs_def small_id_def)
  from boolean_search_correct [where ord = id and 'm = unit, OF this]
  obtain ix :: "unit inverted_index" where
    ix: "index_documents id inverted_index_new sample_docs = Ok ix"
    "intersect_terms ix [''a'', ''b''] = Ok (sorted_list_of_set
       {d. \<exists>tokens. (d, tokens) \<in> set sample_docs \<and> set [''a'', ''b''] \<subseteq> tk_text ` set tokens})"
    "union_terms ix [''a'', ''b''] = Ok (sorted_list_of_set
       {d. \<exists>tokens. (d, tokens) \<in> set sample_docs \<and> set [''a'', ''b''] \<inter> tk_text ` set tokens \<noteq> {}})"
    by auto
  moreover have "{d. \<exists>tokens. (d, tokens) \<in> set sample_docs \<and> set [''a'', ''b''] \<subseteq> tk_text ` set tokens} = {1}"
    "{d. \<exists>tokens. (d, tokens) \<in> set sample_docs \<and> set [''a'', ''b''] \<inter> tk_text ` set tokens \<noteq> {}} = {1, 2}"
    unfolding ids_filter by (simp_all add: sample_docs_def token_new_def insert_commute)
  moreover have "sorted_list_of_set {1, 2 :: doc_id} = [1, 2]"
    by (intro strict_sorted_set_unique) simp_all
  ultimately show ?thesis by auto
qed

lemma dictionary_doc_freq:
  assumes "index_ok ix"
  shows "\<exists>r. get_term_info (ix_dictionary ix) t = Ok r \<and>
           map_option ti_doc_freq r =
             (if term_docs ix t = {} then None else Some (of_nat (card (term_docs ix t))))"
proof (cases "map_of (td_term_map (ix_dictionary ix)) t")
  case None
  then have "t \<notin> dom (ix_postings ix)"
    using assms by (auto simp: index_ok_def dictionary_ok_def Let_def map_of_eq_None_iff)
  with None show ?thesis by (simp add: get_term_info_def term_docs_None domIff)
next
  case (Some i)
  then have mem: "(t, i) \<in> set (td_term_map (ix_dictionary ix))" by (rule map_of_SomeD)
  then obtain pl where pl: "ix_postings ix t = Some pl"
    using assms by (force simp: index_ok_def dictionary_ok_def Let_def)
  obtain ps where ps: "represents pl ps" "good_postings ps" "ps \<noteq> []"
    using assms pl unfolding index_ok_def postings_ok_def by blast
  have "card (term_docs ix t) = length ps"
    using term_docs_represents [OF pl ps(1,2)] ps(2) strict_sorted_iff [of "map doc_id ps"]
    by (metis distinct_card good_postings_def length_map set_map)
  moreover have "doc_freq pl = of_nat (length ps)" "term_docs ix t = doc_id ` set ps"
    using ps term_docs_represents [OF pl ps(1,2)] by (simp_all add: doc_freq_def represents_def)
  moreover have "ti_doc_freq (td_term_infos (ix_dictionary ix) ! i) = doc_freq pl"
    "i < length (td_term_infos (ix_dictionary ix))"
    using assms mem pl dictionary_ok_index [OF _ mem]
    by (auto simp: index_ok_def dictionary_ok_def Let_def)
  ultimately show ?thesis
    using Some ps(3) by (simp add: get_term_info_def)
qed



subsection \<open>Prefix search\<close>

text \<open>
  What the crate \<^verbatim>\<open>fst\<close> documents for a map built from keys in strictly ascending order: building
  succeeds, the stream gives the keys in order, and the range from a bound gives those at or above
  it.  The law is stated for one list of keys.
\<close>

definition fst_laws :: "'m fst_ops \<Rightarrow> (string \<times> u64) list \<Rightarrow> bool" where
  "fst_laws ops kvs \<longleftrightarrow>
     (case fst_build ops kvs of
        Inl _ \<Rightarrow> False
      | Inr m \<Rightarrow> fst_stream ops m = map fst kvs \<and>
                 (\<forall>p. fst_range_ge ops m p = filter (\<lambda>k. p \<le> k) (map fst kvs)))"

lemma prefix_le: "prefix p s \<Longrightarrow> p \<le> (s :: string)"
proof (induction p arbitrary: s)
  case (Cons c p)
  then show ?case by (cases s) auto
qed simp

lemma prefix_between:
  "p \<le> s \<Longrightarrow> s \<le> t \<Longrightarrow> prefix p t \<Longrightarrow> prefix p (s :: string)"
proof (induction p arbitrary: s t)
  case (Cons c p)
  then obtain t' where t: "t = c # t'" "prefix p t'" by (cases t) auto
  with Cons.prems obtain s' where "s = c # s'" by (cases s) auto
  with Cons t show ?case by auto
qed simp

lemma takeWhile_prefix_range:
  assumes "sorted keys"
  shows "takeWhile (\<lambda>t. prefix p t) (filter (\<lambda>k. p \<le> k) keys) = filter (\<lambda>t. prefix p t) (keys :: string list)"
  using assms
proof (induction keys)
  case (Cons k keys)
  show ?case
  proof (cases "p \<le> k \<and> \<not> prefix p k")
    case True
    then have "\<forall>t \<in> set keys. \<not> prefix p t" using Cons.prems prefix_between by auto
    with True show ?thesis by (simp add: filter_empty_conv)
  next
    case False
    with Cons show ?thesis using prefix_le [of p k] by auto
  qed
qed simp

text \<open>
  After building the prefix index from terms without duplicates, a prefix search with a
  long enough prefix returns, in ascending order, exactly the terms that start with it: stopping at
  the first term that does not start with the prefix loses nothing.
\<close>

theorem prefix_search_exact:
  assumes "distinct (map fst terms)"
    "fst_laws ops (map (\<lambda>(t, f). (t, ucast f)) (sort_key fst terms))"
    "min_len \<le> length p"
  shows "\<exists>pidx. prefix_index_build ops (prefix_index_new ops min_len) terms = (Ok (), pidx) \<and>
                search_prefix ops pidx p =
                  sorted_list_of_set {t \<in> fst ` set terms. starts_with t p}"
proof -
  let ?kvs = "map (\<lambda>(t, f). (t, ucast f)) (sort_key fst terms) :: (string \<times> u64) list"
  have keys: "map fst ?kvs = map fst (sort_key fst terms)"
    by (simp add: comp_def case_prod_unfold)
  obtain m where m: "fst_build ops ?kvs = Ok m"
    "fst_range_ge ops m p = filter (\<lambda>k. p \<le> k) (map fst ?kvs)"
    using assms(2) by (auto simp: fst_laws_def split: sum.splits)
  have sorted: "strict_sorted (map fst (sort_key fst terms))"
    using assms(1) by (simp add: strict_sorted_iff distinct_map_sort_key)
  have "filter (\<lambda>t. prefix p t) (map fst (sort_key fst terms)) =
      sorted_list_of_set {t \<in> fst ` set terms. starts_with t p}"
    using sorted by (intro strict_sorted_set_unique) (auto intro: sorted_wrt_filter)
  moreover have "takeWhile (\<lambda>t. prefix p t) (fst_range_ge ops m p) =
      filter (\<lambda>t. prefix p t) (map fst (sort_key fst terms))"
    unfolding m(2) keys by (rule takeWhile_prefix_range) (simp add: strict_sorted_imp_sorted sorted)
  ultimately show ?thesis
    using m(1) assms(3) by (simp add: prefix_index_build_def prefix_index_new_def search_prefix_def Let_def)
qed

definition list_fst :: "(string \<times> u64) list fst_ops" where
  "list_fst = \<lparr>fst_default = [], fst_build = Ok, fst_stream = map fst,
               fst_range_ge = (\<lambda>m p. filter (\<lambda>k. p \<le> k) (map fst m))\<rparr>"

theorem prefix_search_exact_witness:
  "\<exists>pidx. prefix_index_build list_fst (prefix_index_new list_fst 1)
            [(''get'', 1), (''go'', 2), (''a'', 1)] = (Ok (), pidx) \<and>
          set (search_prefix list_fst pidx ''g'') = {''get'', ''go''}"
proof -
  have "distinct (map fst [(''get'', 1::u32), (''go'', 2), (''a'', 1)])"
    "fst_laws list_fst (map (\<lambda>(t, f). (t, ucast f)) (sort_key fst [(''get'', 1::u32), (''go'', 2), (''a'', 1)]))"
    by (simp_all add: fst_laws_def list_fst_def)
  from prefix_search_exact [OF this, of 1 "''g''"] show ?thesis
    by (auto simp: prefix_def)
qed

subsection \<open>Fuzzy search\<close>

text \<open>
  Fuzzy search without a required prefix returns exactly the dictionary terms within the
  given edit distance of the query, each with its distance, in ascending order of distance.
\<close>

theorem fuzzy_search_exact:
  "\<exists>r. fuzzy_search ix q max_distance 0 = Ok r \<and>
       set (map fst r) = {t \<in> fst ` set (td_term_map (ix_dictionary ix)).
                           levenshtein_distance q t \<le> unat max_distance} \<and>
       sorted (map snd r) \<and>
       list_all (\<lambda>(t, n). unat n = levenshtein_distance q t) r"
proof -
  have "unat (of_nat n :: u8) = n" if "n \<le> unat max_distance" for n
  proof -
    have "unat max_distance < 2 ^ 8" by (rule order.strict_trans2 [OF unsigned_less]) simp
    with that show ?thesis by (simp add: unat_of_nat)
  qed
  note small = this
  let ?matching = "filter (\<lambda>(d, n). n \<le> unat max_distance)
      (map (\<lambda>d. (d, levenshtein_distance q d)) (map fst (td_term_map (ix_dictionary ix))))"
  let ?r = "sort_key snd (map (\<lambda>(d, n). (d, of_nat n :: u8)) ?matching)"
  have "fuzzy_search ix q max_distance 0 = Ok ?r"
    by (simp add: fuzzy_search_def Let_def)
  moreover have "sorted (map snd ?r)" by simp
  moreover have set_r: "set ?r = (\<lambda>t. (t, of_nat (levenshtein_distance q t))) `
      {t \<in> fst ` set (td_term_map (ix_dictionary ix)). levenshtein_distance q t \<le> unat max_distance}"
    by (force simp: image_iff)
  moreover have "list_all (\<lambda>(t, n). unat n = levenshtein_distance q t) ?r"
    using small unfolding list_all_iff set_r by auto
  moreover have "set (map fst ?r) = {t \<in> fst ` set (td_term_map (ix_dictionary ix)).
      levenshtein_distance q t \<le> unat max_distance}"
    unfolding set_map set_r image_image by simp
  ultimately show ?thesis by blast
qed

end
