(* ===== verification/Query.thy ===== *)
theory Query
  imports Text "HOL-Library.AList" "HOL-Library.Multiset"
begin

section \<open>Documents, queries and the query parser\<close>

text \<open>
  The model of \<^verbatim>\<open>src/core/types.rs\<close>, \<^verbatim>\<open>src/query/ast.rs\<close> and \<^verbatim>\<open>src/query/parser.rs\<close>.  A document's
  hash map of fields is an association list without duplicate keys.  A date is its distance in
  nanoseconds from the epoch.  Parsing a floating-point literal and an RFC 3339 date (crate
  \<^verbatim>\<open>chrono\<close>) are the parameter \<open>value_parsers\<close>.
\<close>

datatype field_value = FText string | FNumber fval | FDate int | FBoolean bool

fun field_value_eq :: "field_value \<Rightarrow> field_value \<Rightarrow> bool" where
  "field_value_eq (FNumber a) (FNumber b) = f_eq a b"
| "field_value_eq a b = (a = b)"

record document =
  d_id :: doc_id
  d_fields :: "(string \<times> field_value) list"

definition document_new :: "doc_id \<Rightarrow> document" where
  "document_new d = \<lparr>d_id = d, d_fields = []\<rparr>"

definition add_field :: "document \<Rightarrow> string \<Rightarrow> field_value \<Rightarrow> document" where
  "add_field self name v = self\<lparr>d_fields := AList.update name v (d_fields self)\<rparr>"

definition get_field :: "document \<Rightarrow> string \<Rightarrow> field_value option" where
  "get_field self name = map_of (d_fields self) name"

lemma get_add_field:
  "get_field (add_field doc name v) other = (if other = name then Some v else get_field doc other)"
  by (simp add: get_field_def add_field_def update_conv)

subsection \<open>Query syntax\<close>

record term_query =
  tq_field :: string
  tq_value :: string
  tq_boost :: "fval option"

record phrase_query =
  pq_field :: string
  pq_phrase :: "string list"
  pq_slop :: u32
  pq_boost :: "fval option"

record range_query =
  rq_field :: string
  rq_gt :: "field_value option"
  rq_gte :: "field_value option"
  rq_lt :: "field_value option"
  rq_lte :: "field_value option"
  rq_boost :: "fval option"

record prefix_query =
  fq_field :: string
  fq_prefix :: string
  fq_boost :: "fval option"

record wildcard_query =
  wq_field :: string
  wq_pattern :: string
  wq_boost :: "fval option"

record fuzzy_query =
  zq_field :: string
  zq_term :: string
  zq_max_edits :: "u8 option"
  zq_prefix_length :: "u8 option"
  zq_boost :: "fval option"

text \<open>\<^verbatim>\<open>BoolQuery\<close> contains queries, so its fields are those of the constructor \<open>Bool\<close>: the clauses
  must, should, must not and filter, the minimum number of should clauses, and the boost.\<close>

datatype query =
    Term term_query
  | Phrase phrase_query
  | Bool (bq_must: "query list") (bq_should: "query list") (bq_must_not: "query list")
      (bq_filter: "query list") (bq_minimum_should_match: "u32 option") (bq_boost: "fval option")
  | Range range_query
  | Prefix prefix_query
  | Wildcard wildcard_query
  | Fuzzy fuzzy_query
  | MatchAll

definition bool_query_new :: query where
  "bool_query_new = Bool [] [] [] [] None None"

subsection \<open>Parser\<close>

datatype boolean_operator = And | Or

record query_parser =
  qp_default_field :: string
  qp_default_operator :: boolean_operator
  qp_allow_wildcards :: bool
  qp_fuzzy_enabled :: bool

definition query_parser_new :: query_parser where
  "query_parser_new = \<lparr>qp_default_field = ''content'', qp_default_operator = Or,
     qp_allow_wildcards = True, qp_fuzzy_enabled = True\<rparr>"

record value_parsers =
  parse_f64 :: "string \<Rightarrow> fval option"
  parse_rfc3339 :: "string \<Rightarrow> int option"

text \<open>\<^verbatim>\<open>trim_start_matches\<close>, \<^verbatim>\<open>trim_end_matches\<close> and \<^verbatim>\<open>trim_matches\<close> with a set of ASCII characters.\<close>

definition trim_start_matches :: "(char \<Rightarrow> bool) \<Rightarrow> string \<Rightarrow> string" where
  "trim_start_matches P s = dropWhile P s"

definition trim_end_matches :: "(char \<Rightarrow> bool) \<Rightarrow> string \<Rightarrow> string" where
  "trim_end_matches P s = rev (dropWhile P (rev s))"

definition trim_matches :: "(char \<Rightarrow> bool) \<Rightarrow> string \<Rightarrow> string" where
  "trim_matches P s = trim_end_matches P (trim_start_matches P s)"

text \<open>\<^verbatim>\<open>s.split(pattern)\<close> for a non-empty string: the occurrences are found from left to right.\<close>

function str_split_str :: "string \<Rightarrow> string \<Rightarrow> string list" where
  "str_split_str pat s =
     (case str_find s pat of
        Some i \<Rightarrow> (if pat = [] then [s] else take i s # str_split_str pat (drop (i + length pat) s))
      | None \<Rightarrow> [s])"
  by pat_completeness auto
termination
  by (relation "measure (\<lambda>(pat, s). length s)") (auto dest!: str_find_Some simp: le_eq_less_or_eq intro!: diff_less)

declare str_split_str.simps [simp del]

text \<open>\<^verbatim>\<open>str::parse::<u8>\<close>: an optional plus sign, then decimal digits with a value of at most 255.\<close>

definition is_digit :: "char \<Rightarrow> bool" where
  "is_digit c \<longleftrightarrow> 48 \<le> (of_char c :: nat) \<and> (of_char c :: nat) \<le> 57"

definition digits_value :: "string \<Rightarrow> nat" where
  "digits_value ds = foldl (\<lambda>n c. 10 * n + (of_char c - 48)) 0 ds"

definition parse_u8 :: "string \<Rightarrow> nat option" where
  "parse_u8 s =
     (let ds = (case s of c # s' \<Rightarrow> if c = CHR ''+'' then s' else s | [] \<Rightarrow> [])
      in if ds \<noteq> [] \<and> list_all is_digit ds \<and> digits_value ds \<le> 255 then Some (digits_value ds) else None)"

definition parse_field_value :: "value_parsers \<Rightarrow> string \<Rightarrow> field_value" where
  "parse_field_value vp s =
     (case parse_f64 vp s of
        Some num \<Rightarrow> FNumber num
      | None \<Rightarrow> (case parse_rfc3339 vp s of Some date \<Rightarrow> FDate date | None \<Rightarrow> FText s))"

definition parse_range_query :: "value_parsers \<Rightarrow> string \<Rightarrow> string \<Rightarrow> query result" where
  "parse_range_query vp field s =
     (let inclusive_start = starts_with s ''['';
          inclusive_end = ends_with s '']'';
          inner = trim_end_matches (\<lambda>c. c = CHR '']'' \<or> c = CHR ''}'')
                    (trim_start_matches (\<lambda>c. c = CHR ''['' \<or> c = CHR ''{'') s);
          parts = str_split_str '' TO '' inner
      in if length parts \<noteq> 2 then Err (Error Parse ''Invalid range query'')
         else let start_val = parse_field_value vp (parts ! 0);
                  end_val = parse_field_value vp (parts ! 1)
              in Ok (Range
                   \<lparr>rq_field = field,
                    rq_gt = (if inclusive_start then None else Some start_val),
                    rq_gte = (if inclusive_start then Some start_val else None),
                    rq_lt = (if inclusive_end then None else Some end_val),
                    rq_lte = (if inclusive_end then Some end_val else None),
                    rq_boost = None\<rparr>))"

fun parse_boolean_loop ::
  "query_parser \<Rightarrow> boolean_operator \<Rightarrow> bool \<Rightarrow> string list \<Rightarrow> query list \<Rightarrow> query list \<Rightarrow> query list
     \<Rightarrow> query" where
  "parse_boolean_loop self current_op pending_not [] must should must_not =
     Bool must should must_not [] None None"
| "parse_boolean_loop self current_op pending_not (tok # toks) must should must_not =
     (if tok = ''AND'' then parse_boolean_loop self And pending_not toks must should must_not
      else if tok = ''OR'' then parse_boolean_loop self Or pending_not toks must should must_not
      else if tok = ''NOT'' then parse_boolean_loop self current_op True toks must should must_not
      else let q = Term \<lparr>tq_field = qp_default_field self, tq_value = tok, tq_boost = None\<rparr>
           in if pending_not
              then parse_boolean_loop self current_op False toks must should (must_not @ [q])
              else case current_op of
                     And \<Rightarrow> parse_boolean_loop self current_op pending_not toks (must @ [q]) should must_not
                   | Or \<Rightarrow> parse_boolean_loop self current_op pending_not toks must (should @ [q]) must_not)"

definition parse_boolean_query :: "query_parser \<Rightarrow> string list \<Rightarrow> query result" where
  "parse_boolean_query self toks =
     Ok (parse_boolean_loop self (qp_default_operator self) False toks [] [] [])"

definition parse_field_query ::
  "value_parsers \<Rightarrow> query_parser \<Rightarrow> string \<Rightarrow> string \<Rightarrow> query result" where
  "parse_field_query vp self field s =
     (if starts_with s ''['' \<or> starts_with s ''{'' then parse_range_query vp field s
      else if qp_allow_wildcards self \<and> ends_with s ''*''
              \<and> \<not> str_contains (take (length s - 1) s) ''*'' \<and> \<not> str_contains s ''?''
      then Ok (Prefix \<lparr>fq_field = field, fq_prefix = trim_end_matches (\<lambda>c. c = CHR ''*'') s,
                       fq_boost = None\<rparr>)
      else if qp_allow_wildcards self \<and> (str_contains s ''*'' \<or> str_contains s ''?'')
      then Ok (Wildcard \<lparr>wq_field = field, wq_pattern = s, wq_boost = None\<rparr>)
      else Ok (Term \<lparr>tq_field = field, tq_value = s, tq_boost = None\<rparr>))"

definition parse :: "value_parsers \<Rightarrow> query_parser \<Rightarrow> string \<Rightarrow> query result" where
  "parse vp self input =
     (let toks = split_whitespace input; quote = (\<lambda>c. c = CHR 0x22)
      in if toks = [] then Ok MatchAll
         else if starts_with input [CHR 0x22] \<and> ends_with input [CHR 0x22]
         then Ok (Phrase \<lparr>pq_field = qp_default_field self,
                          pq_phrase = split_whitespace (trim_matches quote input),
                          pq_slop = 0, pq_boost = None\<rparr>)
         else if ''AND'' \<in> set toks \<or> ''OR'' \<in> set toks \<or> ''NOT'' \<in> set toks
         then parse_boolean_query self toks
         else case str_find input '':'' of
           Some pos \<Rightarrow> parse_field_query vp self (take pos input) (drop (pos + 1) input)
         | None \<Rightarrow>
             (case (if qp_fuzzy_enabled self then str_find input ''~'' else None) of
                Some pos \<Rightarrow>
                  let distance_str = drop (pos + 1) input;
                      distance = (if distance_str = [] then 1
                                  else min (case parse_u8 distance_str of Some n \<Rightarrow> n | None \<Rightarrow> 2) 2)
                  in Ok (Fuzzy \<lparr>zq_field = qp_default_field self, zq_term = take pos input,
                                zq_max_edits = Some (of_nat distance), zq_prefix_length = None,
                                zq_boost = None\<rparr>)
              | None \<Rightarrow>
                  if qp_allow_wildcards self \<and> (str_contains input ''*'' \<or> str_contains input ''?'')
                  then Ok (Wildcard \<lparr>wq_field = qp_default_field self, wq_pattern = input, wq_boost = None\<rparr>)
                  else Ok (Term \<lparr>tq_field = qp_default_field self, tq_value = input, tq_boost = None\<rparr>)))"

subsection \<open>What the parser returns\<close>

definition is_operator :: "string \<Rightarrow> bool" where
  "is_operator tok \<longleftrightarrow> tok = ''AND'' \<or> tok = ''OR'' \<or> tok = ''NOT''"

definition term_clause :: "query_parser \<Rightarrow> string \<Rightarrow> query" where
  "term_clause self tok = Term \<lparr>tq_field = qp_default_field self, tq_value = tok, tq_boost = None\<rparr>"

lemma parse_boolean_loop_clauses:
  "\<exists>m s n. parse_boolean_loop self op neg toks (map (term_clause self) m0) (map (term_clause self) s0)
             (map (term_clause self) n0) =
           Bool (map (term_clause self) m) (map (term_clause self) s) (map (term_clause self) n) [] None None \<and>
         mset m + mset s + mset n =
           mset m0 + mset s0 + mset n0 + mset (filter (\<lambda>t. \<not> is_operator t) toks)"
proof (induction toks arbitrary: op neg m0 s0 n0)
  case Nil
  then show ?case by auto
next
  case (Cons tok toks)
  show ?case
  proof (cases "is_operator tok")
    case True
    then show ?thesis using Cons.IH by (auto simp: is_operator_def)
  next
    case False
    then have no: "tok \<noteq> ''AND''" "tok \<noteq> ''OR''" "tok \<noteq> ''NOT''" by (auto simp: is_operator_def)
    show ?thesis
      using False no Cons.IH [of op False m0 s0 "n0 @ [tok]"] Cons.IH [of And neg "m0 @ [tok]" s0 n0]
        Cons.IH [of Or neg m0 "s0 @ [tok]" n0]
      by (cases neg; cases op) (simp_all add: Let_def term_clause_def)
  qed
qed

text \<open>
  A query with boolean operators loses no word and invents none: its clauses are term queries
  on the default field, and the words of the must, should and must-not clauses together are the
  words of the input that are not operators.
\<close>

theorem parse_boolean_clauses:
  "\<exists>m s n. parse_boolean_query self toks =
             Ok (Bool (map (term_clause self) m) (map (term_clause self) s) (map (term_clause self) n) [] None None) \<and>
           mset (m @ s @ n) = mset (filter (\<lambda>t. \<not> is_operator t) toks)"
  using parse_boolean_loop_clauses [of self "qp_default_operator self" False toks "[]" "[]" "[]"]
  by (auto simp: parse_boolean_query_def add.assoc)

text \<open>
  Parsing fails in exactly one way: on \<open>field:[..\<close> or \<open>field:{..\<close> without exactly one range
  separator.  Every other input is a query.
\<close>

theorem parse_error_is_range:
  assumes "parse vp self input = Err e"
  shows "e = Error Parse ''Invalid range query'' \<and>
         (\<exists>pos. str_find input '':'' = Some pos \<and>
            (starts_with (drop (pos + 1) input) ''['' \<or> starts_with (drop (pos + 1) input) ''{''))"
  using assms
  by (auto simp: parse_def parse_field_query_def parse_range_query_def parse_boolean_query_def Let_def
      split: if_splits option.splits)

definition no_value_parsers :: value_parsers where
  "no_value_parsers = \<lparr>parse_f64 = (\<lambda>s. None), parse_rfc3339 = (\<lambda>s. None)\<rparr>"

theorem parse_error_is_range_witness:
  "parse no_value_parsers query_parser_new ''p:[1'' = Err (Error Parse ''Invalid range query'') \<and>
   starts_with (drop (1 + 1) ''p:[1'') ''[''"
proof -
  have "parse no_value_parsers query_parser_new ''p:[1'' = Err (Error Parse ''Invalid range query'')"
    by code_simp
  from parse_error_is_range [OF this] this show ?thesis by simp
qed

lemma str_find_char: "c \<notin> set f \<Longrightarrow> str_find (f @ c # v) [c] = Some (length f)"
  by (induction f) (auto simp: str_find.simps)

lemma str_contains_char: "str_contains s [c] \<longleftrightarrow> c \<in> set s"
  by (induction s) (auto simp: str_contains_def str_find.simps)

text \<open>How a field query is written.\<close>

definition show_field_query :: "string \<Rightarrow> string \<Rightarrow> string" where
  "show_field_query field v = field @ '':'' @ v"

definition plain_value :: "string \<Rightarrow> bool" where
  "plain_value v \<longleftrightarrow> CHR ''*'' \<notin> set v \<and> CHR ''?'' \<notin> set v \<and> \<not> starts_with v ''['' \<and> \<not> starts_with v ''{''"

text \<open>
  Printing and parsing field queries: a single word \<open>field:value\<close> without a colon or leading
  quote in the field is read back as the term query for a plain value, and as the prefix query for
  a plain value followed by a star.
\<close>

theorem parse_field_query_roundtrip:
  assumes "CHR '':'' \<notin> set field" "\<not> starts_with field [CHR 0x22]" "plain_value v"
    "split_whitespace (show_field_query field v) = [show_field_query field v]"
    "split_whitespace (show_field_query field (v @ ''*'')) = [show_field_query field (v @ ''*'')]"
  shows "parse vp query_parser_new (show_field_query field v) =
           Ok (Term \<lparr>tq_field = field, tq_value = v, tq_boost = None\<rparr>) \<and>
         parse vp query_parser_new (show_field_query field (v @ ''*'')) =
           Ok (Prefix \<lparr>fq_field = field, fq_prefix = v, fq_boost = None\<rparr>)"
proof -
  have start: "\<not> starts_with (show_field_query field w) [CHR 0x22]" for w
    using assms(2) by (cases field) (auto simp: show_field_query_def)
  have colon: "CHR '':'' \<in> set (show_field_query field w)" for w
    by (simp add: show_field_query_def)
  have no_op: "''AND'' \<noteq> show_field_query field w" "''OR'' \<noteq> show_field_query field w"
    "''NOT'' \<noteq> show_field_query field w" for w
    using colon [of w] by (fastforce dest: sym)+
  have find: "str_find (show_field_query field w) '':'' = Some (length field)" for w
    using str_find_char [OF assms(1), of w] by (simp add: show_field_query_def)
  have "trim_end_matches (\<lambda>c. c = CHR ''*'') (v @ ''*'') = v"
    using assms(3) by (cases v rule: rev_cases) (auto simp: trim_end_matches_def plain_value_def)
  moreover have "v @ ''*'' \<noteq> []" "\<not> starts_with (v @ ''*'') ''[''" "\<not> starts_with (v @ ''*'') ''{''"
    using assms(3) by (cases v; auto simp: plain_value_def)+
  ultimately show ?thesis
    using assms(3-5) start no_op find
    by (auto simp: parse_def parse_field_query_def Let_def query_parser_new_def str_contains_char
        plain_value_def show_field_query_def suffix_def)
qed

theorem parse_field_query_roundtrip_witness:
  "parse no_value_parsers query_parser_new ''title:pre*'' =
     Ok (Prefix \<lparr>fq_field = ''title'', fq_prefix = ''pre'', fq_boost = None\<rparr>)"
proof -
  have "CHR '':'' \<notin> set ''title''" "\<not> starts_with ''title'' [CHR 0x22]" "plain_value ''pre''"
    by (simp_all add: plain_value_def)
  moreover have "split_whitespace (show_field_query ''title'' ''pre'') = [show_field_query ''title'' ''pre'']"
    "split_whitespace (show_field_query ''title'' (''pre'' @ ''*'')) = [show_field_query ''title'' (''pre'' @ ''*'')]"
    by code_simp+
  ultimately show ?thesis
    using parse_field_query_roundtrip [of "''title''" "''pre''" no_value_parsers]
    by (simp add: show_field_query_def)
qed

end
