(* ===== verification/Matcher.thy ===== *)
theory Matcher
  imports Query Index_Search
begin

section \<open>Matching documents against queries\<close>

text \<open>
  The model of \<^verbatim>\<open>src/query/matcher.rs\<close>: one function per query variant and the dispatch of
  \<^verbatim>\<open>Query::accept\<close>.  The matcher reads the inverted index for phrases and the document for
  everything else.  Lower-casing, the Unicode class of alphanumeric characters and the regular
  expression crate are the parameters \<open>mx_lower\<close>, \<open>mx_alphanumeric\<close> and \<open>mx_regex\<close>.  Positions
  are 32-bit and their additions wrap around.
\<close>

record 'm match_context =
  mx_index :: "'m inverted_index"
  mx_lower :: "string \<Rightarrow> string"
  mx_alphanumeric :: "string \<Rightarrow> bool"
  mx_regex :: regex_engine

subsection \<open>Loops with early return\<close>

fun try_all :: "('a \<Rightarrow> bool result) \<Rightarrow> 'a list \<Rightarrow> bool result" where
  "try_all f [] = Ok True"
| "try_all f (x # xs) = and_then (f x) (\<lambda>b. if b then try_all f xs else Ok False)"

fun try_any :: "('a \<Rightarrow> bool result) \<Rightarrow> 'a list \<Rightarrow> bool result" where
  "try_any f [] = Ok False"
| "try_any f (x # xs) = and_then (f x) (\<lambda>b. if b then Ok True else try_any f xs)"

lemma try_all_cong [fundef_cong]:
  "xs = ys \<Longrightarrow> (\<And>x. x \<in> set ys \<Longrightarrow> f x = g x) \<Longrightarrow> try_all f xs = try_all g ys"
proof (induction ys arbitrary: xs)
  case (Cons y ys)
  then have "try_all f ys = try_all g ys" by simp
  with Cons.prems show ?case by (auto intro: and_then_cong)
qed simp

lemma try_any_cong [fundef_cong]:
  "xs = ys \<Longrightarrow> (\<And>x. x \<in> set ys \<Longrightarrow> f x = g x) \<Longrightarrow> try_any f xs = try_any g ys"
proof (induction ys arbitrary: xs)
  case (Cons y ys)
  then have "try_any f ys = try_any g ys" by simp
  with Cons.prems show ?case by (auto intro: and_then_cong)
qed simp

lemma try_all_Ok: "(\<And>x. x \<in> set xs \<Longrightarrow> f x = Ok (P x)) \<Longrightarrow> try_all f xs = Ok (\<forall>x \<in> set xs. P x)"
  by (induction xs) auto

lemma try_any_Ok: "(\<And>x. x \<in> set xs \<Longrightarrow> f x = Ok (P x)) \<Longrightarrow> try_any f xs = Ok (\<exists>x \<in> set xs. P x)"
  by (induction xs) auto

subsection \<open>Leaf queries\<close>

definition field_contains_text :: "'m match_context \<Rightarrow> document \<Rightarrow> string \<Rightarrow> string \<Rightarrow> bool" where
  "field_contains_text cx doc field s =
     (case get_field doc field of
        Some (FText t) \<Rightarrow> str_contains (mx_lower cx t) (mx_lower cx s)
      | _ \<Rightarrow> False)"

definition doc_contains_text :: "'m match_context \<Rightarrow> document \<Rightarrow> string \<Rightarrow> bool" where
  "doc_contains_text cx doc s =
     (let s_lower = mx_lower cx s
      in list_ex (\<lambda>(name, v). case v of FText t \<Rightarrow> str_contains (mx_lower cx t) s_lower | _ \<Rightarrow> False)
           (d_fields doc))"

definition visit_term :: "'m match_context \<Rightarrow> document \<Rightarrow> term_query \<Rightarrow> bool result" where
  "visit_term cx doc q =
     (if tq_field q = ''_all'' then Ok (doc_contains_text cx doc (tq_value q))
      else Ok (field_contains_text cx doc (tq_field q) (tq_value q)))"

text \<open>The inner loop returns the position after the last term, or nothing when a term is not
  found at the next position.\<close>

fun adjacent_from :: "u32 \<Rightarrow> u32 list list \<Rightarrow> bool" where
  "adjacent_from current_pos [] = True"
| "adjacent_from current_pos (ps # rest) =
     (let current_pos = current_pos + 1
      in current_pos \<in> set ps \<and> adjacent_from current_pos rest)"

definition check_adjacent_positions :: "u32 list list \<Rightarrow> bool" where
  "check_adjacent_positions term_positions =
     (case term_positions of
        [] \<Rightarrow> False
      | first # rest \<Rightarrow> list_ex (\<lambda>start. adjacent_from start rest) first)"

fun proximity_from :: "u32 \<Rightarrow> u32 \<Rightarrow> u32 list list \<Rightarrow> bool" where
  "proximity_from slop current_pos [] = True"
| "proximity_from slop current_pos (ps # rest) =
     (let min_pos = current_pos + 1; max_pos = current_pos + slop + 1
      in case List.find (\<lambda>p. p \<ge> min_pos \<and> p \<le> max_pos) ps of
           Some next_pos \<Rightarrow> proximity_from slop next_pos rest
         | None \<Rightarrow> False)"

definition check_proximity_positions :: "u32 list list \<Rightarrow> u32 \<Rightarrow> bool" where
  "check_proximity_positions term_positions slop =
     (case term_positions of
        [] \<Rightarrow> False
      | first # rest \<Rightarrow> list_ex (\<lambda>start. proximity_from slop start rest) first)"

fun phrase_positions ::
  "'m match_context \<Rightarrow> document \<Rightarrow> string list \<Rightarrow> u32 list list option result" where
  "phrase_positions cx doc [] = Ok (Some [])"
| "phrase_positions cx doc (t # ts) =
     (case search_term (mx_index cx) t of
        None \<Rightarrow> Ok None
      | Some pl \<Rightarrow>
          and_then (posting_list_iter pl) (\<lambda>ps.
            case List.find (\<lambda>p. doc_id p = d_id doc) ps of
              None \<Rightarrow> Ok None
            | Some p \<Rightarrow> and_then (phrase_positions cx doc ts) (\<lambda>r.
                          Ok (map_option (\<lambda>tps. positions p # tps) r))))"

definition visit_phrase :: "'m match_context \<Rightarrow> document \<Rightarrow> phrase_query \<Rightarrow> bool result" where
  "visit_phrase cx doc q =
     and_then (phrase_positions cx doc (pq_phrase q)) (\<lambda>r.
       case r of
         None \<Rightarrow> Ok False
       | Some tps \<Rightarrow> if pq_slop q = 0 then Ok (check_adjacent_positions tps)
                     else Ok (check_proximity_positions tps (pq_slop q)))"

text \<open>The four guards of the source; a bound that is not a number is ignored.\<close>

definition number_in_range :: "fval \<Rightarrow> range_query \<Rightarrow> bool" where
  "number_in_range num q \<longleftrightarrow>
     (case rq_gt q of Some (FNumber b) \<Rightarrow> \<not> f_le num b | _ \<Rightarrow> True) \<and>
     (case rq_gte q of Some (FNumber b) \<Rightarrow> \<not> f_lt num b | _ \<Rightarrow> True) \<and>
     (case rq_lt q of Some (FNumber b) \<Rightarrow> \<not> f_le b num | _ \<Rightarrow> True) \<and>
     (case rq_lte q of Some (FNumber b) \<Rightarrow> \<not> f_lt b num | _ \<Rightarrow> True)"

definition visit_range :: "document \<Rightarrow> range_query \<Rightarrow> bool result" where
  "visit_range doc q =
     (case get_field doc (rq_field q) of
        Some (FNumber num) \<Rightarrow> Ok (number_in_range num q)
      | Some (FDate date) \<Rightarrow> Ok True
      | _ \<Rightarrow> Ok False)"

definition visit_prefix :: "document \<Rightarrow> prefix_query \<Rightarrow> bool result" where
  "visit_prefix doc q =
     (case get_field doc (fq_field q) of
        Some (FText t) \<Rightarrow> Ok (list_ex (\<lambda>w. starts_with w (fq_prefix q)) (split_whitespace t))
      | _ \<Rightarrow> Ok False)"

definition visit_wildcard :: "'m match_context \<Rightarrow> document \<Rightarrow> wildcard_query \<Rightarrow> bool result" where
  "visit_wildcard cx doc q =
     (case get_field doc (wq_field q) of
        Some (FText t) \<Rightarrow>
          (case mx_regex cx (str_replace_char CHR ''?'' ''.'' (str_replace_char CHR ''*'' ''.*'' (wq_pattern q))) of
             Some is_match \<Rightarrow> Ok (is_match t)
           | None \<Rightarrow> Ok False)
      | _ \<Rightarrow> Ok False)"

definition trim_non_alphanumeric :: "'m match_context \<Rightarrow> string \<Rightarrow> string" where
  "trim_non_alphanumeric cx w =
     (let skip = (\<lambda>c. \<not> mx_alphanumeric cx c)
      in concat (rev (dropWhile skip (rev (dropWhile skip (utf8_chars w))))))"

definition visit_fuzzy :: "'m match_context \<Rightarrow> document \<Rightarrow> fuzzy_query \<Rightarrow> bool result" where
  "visit_fuzzy cx doc q =
     (case get_field doc (zq_field q) of
        Some (FText t) \<Rightarrow>
          let max_edits = unat (case zq_max_edits q of Some n \<Rightarrow> n | None \<Rightarrow> 2);
              query_term_lower = mx_lower cx (zq_term q);
              words = filter (\<lambda>w. w \<noteq> []) (map (trim_non_alphanumeric cx) (split_whitespace t))
          in Ok (list_ex (\<lambda>w. levenshtein_distance query_term_lower (mx_lower cx w) \<le> max_edits) words)
      | _ \<Rightarrow> Ok False)"

subsection \<open>Boolean queries and dispatch\<close>

fun matches :: "'m match_context \<Rightarrow> document \<Rightarrow> query \<Rightarrow> bool result" where
  "matches cx doc (Term q) = visit_term cx doc q"
| "matches cx doc (Phrase q) = visit_phrase cx doc q"
| "matches cx doc (Bool must should must_not filters msm boost) =
     and_then (try_all (\<lambda>q. matches cx doc q) must) (\<lambda>b. if \<not> b then Ok False else
     and_then (try_any (\<lambda>q. matches cx doc q) must_not) (\<lambda>b. if b then Ok False else
     and_then (if should \<noteq> [] then try_any (\<lambda>q. matches cx doc q) should else Ok True) (\<lambda>b.
       if \<not> b then Ok False else try_all (\<lambda>q. matches cx doc q) filters)))"
| "matches cx doc (Range q) = visit_range doc q"
| "matches cx doc (Prefix q) = visit_prefix doc q"
| "matches cx doc (Wildcard q) = visit_wildcard cx doc q"
| "matches cx doc (Fuzzy q) = visit_fuzzy cx doc q"
| "matches cx doc MatchAll = Ok True"

subsection \<open>What a boolean query means\<close>

definition satisfies :: "'m match_context \<Rightarrow> document \<Rightarrow> query \<Rightarrow> bool" where
  "satisfies cx doc q \<longleftrightarrow> matches cx doc q = Ok True"

lemma index_ok_iter:
  assumes "index_ok ix" "ix_postings ix t = Some pl"
  shows "\<exists>ps. posting_list_iter pl = Ok ps"
proof -
  obtain ps where "represents pl ps"
    using assms unfolding index_ok_def postings_ok_def by blast
  then show ?thesis using posting_list_iter_represents by blast
qed

lemma phrase_positions_total:
  assumes "index_ok (mx_index cx)"
  shows "\<exists>r. phrase_positions cx doc ts = Ok r"
proof (induction ts)
  case (Cons t ts)
  with index_ok_iter [OF assms, of t] show ?case
    by (fastforce simp: search_term_def split: option.splits)
qed simp

lemma leaf_total:
  "\<exists>b. visit_term cx doc tq = Ok b" "\<exists>b. visit_range doc rq = Ok b" "\<exists>b. visit_prefix doc fq = Ok b"
  "\<exists>b. visit_wildcard cx doc wq = Ok b" "\<exists>b. visit_fuzzy cx doc zq = Ok b"
  by (auto simp: visit_term_def visit_range_def visit_prefix_def visit_wildcard_def visit_fuzzy_def
      Let_def split: option.splits field_value.splits)

lemma matches_total:
  assumes "index_ok (mx_index cx)"
  shows "matches cx doc q = Ok (satisfies cx doc q)"
proof -
  have "\<exists>b. matches cx doc q = Ok b"
  proof (induction q)
    case (Phrase pq)
    then show ?case
      using phrase_positions_total [OF assms, of doc "pq_phrase pq"]
      by (auto simp: visit_phrase_def split: option.splits)
  next
    case (Bool must should must_not filters msm boost)
    have total: "matches cx doc q = Ok (satisfies cx doc q)"
      if "\<exists>b. matches cx doc q = Ok b" for q
      using that by (auto simp: satisfies_def)
    show ?case
      using try_all_Ok [of must "matches cx doc" "satisfies cx doc"]
        try_all_Ok [of filters "matches cx doc" "satisfies cx doc"]
        try_any_Ok [of should "matches cx doc" "satisfies cx doc"]
        try_any_Ok [of must_not "matches cx doc" "satisfies cx doc"] total Bool
      by (simp add: ex_bool_eq) blast
  qed (auto simp: leaf_total)
  then show ?thesis by (auto simp: satisfies_def)
qed

lemma satisfies_bool:
  assumes "index_ok (mx_index cx)"
  shows "satisfies cx doc (Bool must should must_not filters msm boost) \<longleftrightarrow>
           (\<forall>q \<in> set must. satisfies cx doc q) \<and> (\<forall>q \<in> set must_not. \<not> satisfies cx doc q) \<and>
           (should \<noteq> [] \<longrightarrow> (\<exists>q \<in> set should. satisfies cx doc q)) \<and> (\<forall>q \<in> set filters. satisfies cx doc q)"
proof -
  note all = try_all_Ok [of _ "matches cx doc" "satisfies cx doc", OF matches_total [OF assms]]
  note any = try_any_Ok [of _ "matches cx doc" "satisfies cx doc", OF matches_total [OF assms]]
  show ?thesis unfolding satisfies_def [of cx doc "Bool _ _ _ _ _ _"] by (simp add: all any)
qed

text \<open>
  C30: over an index that satisfies the index invariant, matching never fails, and a boolean query
  matches a document exactly when all must and filter clauses match, no must-not clause matches,
  and, if there are should clauses, at least one of them matches; the minimum number of should
  clauses that the query carries plays no part.
\<close>

theorem matches_bool_query:
  assumes "index_ok (mx_index cx)"
  shows "matches cx doc (Bool must should must_not filters msm boost) =
           Ok ((\<forall>q \<in> set must. satisfies cx doc q) \<and> (\<forall>q \<in> set must_not. \<not> satisfies cx doc q) \<and>
               (should \<noteq> [] \<longrightarrow> (\<exists>q \<in> set should. satisfies cx doc q)) \<and>
               (\<forall>q \<in> set filters. satisfies cx doc q))"
  unfolding matches_total [OF assms] satisfies_bool [OF assms] ..

definition empty_context :: "unit match_context" where
  "empty_context = \<lparr>mx_index = inverted_index_new, mx_lower = (\<lambda>s. s), mx_alphanumeric = (\<lambda>c. True),
     mx_regex = (\<lambda>p. None)\<rparr>"

theorem matches_bool_query_witness:
  "index_ok (mx_index empty_context) \<and>
   matches empty_context (document_new 1) (Bool [MatchAll] [] [MatchAll] [] None None) = Ok False"
  using matches_bool_query [of empty_context "document_new 1" "[MatchAll]" "[]" "[MatchAll]" "[]" None None]
  by (simp add: empty_context_def index_ok_new satisfies_def)

subsection \<open>Phrases\<close>

lemma adjacent_from_iff:
  "adjacent_from s rest \<longleftrightarrow> (\<forall>k < length rest. s + of_nat (Suc k) \<in> set (rest ! k))"
proof (induction s rest rule: adjacent_from.induct)
  case (2 s ps rest)
  have "(\<forall>k < length (ps # rest). s + of_nat (Suc k) \<in> set ((ps # rest) ! k)) \<longleftrightarrow>
      s + 1 \<in> set ps \<and> (\<forall>k < length rest. s + of_nat (Suc (Suc k)) \<in> set (rest ! k))"
    by (auto simp: nth_Cons less_Suc_eq_0_disj split: nat.splits)
  with 2 show ?case by (simp add: Let_def add.assoc)
qed simp

text \<open>
  The exact phrase test holds exactly when some position of the first term starts a run of
  consecutive positions, one for each term.
\<close>

theorem check_adjacent_positions_iff:
  "check_adjacent_positions tps \<longleftrightarrow>
     tps \<noteq> [] \<and> (\<exists>s. list_all (\<lambda>k. s + of_nat k \<in> set (tps ! k)) [0..<length tps])"
proof (cases tps)
  case (Cons first rest)
  have "list_all (\<lambda>k. s + of_nat k \<in> set (tps ! k)) [0..<length tps] \<longleftrightarrow>
      s \<in> set first \<and> (\<forall>k < length rest. s + of_nat (Suc k) \<in> set (rest ! k))" for s
    using Cons by (auto simp: list_all_iff nth_Cons less_Suc_eq_0_disj simp del: upt_Suc split: nat.splits)
  then show ?thesis
    unfolding Cons check_adjacent_positions_def list.case list_ex_iff adjacent_from_iff by blast
qed (simp add: check_adjacent_positions_def)

text \<open>
  The proximity test takes the first position in the window and never another one, so it
  misses phrases: with slop 1 the terms at 0, at 1 and 2, and at 4 are rejected although 0, 2, 4
  stays within the slop.
\<close>

theorem proximity_misses_match:
  "\<not> check_proximity_positions [[0], [1, 2], [4]] 1 \<and>
   check_proximity_positions [[0], [2], [4]] 1"
  by (simp add: check_proximity_positions_def)

end
