(* ===== verification/Planner.thy ===== *)
theory Planner
  imports Matcher
begin

section \<open>Query validation, planning and optimisation\<close>

text \<open>
  The model of \<^verbatim>\<open>src/query/types.rs\<close> (validator), \<^verbatim>\<open>src/query/planner.rs\<close>, \<^verbatim>\<open>src/query/optimizer.rs\<close>
  and of the query rewriting of \<^verbatim>\<open>src/search/executor.rs\<close>.  The validator and the planner implement
  the visitor, so each is a recursive function over queries.  A boxed optimisation rule is its
  \<^verbatim>\<open>optimize\<close> function.
\<close>

subsection \<open>Validation\<close>

record validation_config =
  vc_max_bool_clauses :: nat
  vc_max_query_depth :: nat
  vc_max_wildcard_terms :: nat
  vc_allow_leading_wildcard :: bool

definition validation_config_default :: validation_config where
  "validation_config_default = \<lparr>vc_max_bool_clauses = 1024, vc_max_query_depth = 10,
     vc_max_wildcard_terms = 1000, vc_allow_leading_wildcard = False\<rparr>"

text \<open>A loop that runs a fallible check on every element.\<close>

fun try_each :: "('a \<Rightarrow> unit result) \<Rightarrow> 'a list \<Rightarrow> unit result" where
  "try_each f [] = Ok ()"
| "try_each f (x # xs) = and_then (f x) (\<lambda>_. try_each f xs)"

lemma try_each_cong [fundef_cong]:
  "xs = ys \<Longrightarrow> (\<And>x. x \<in> set ys \<Longrightarrow> f x = g x) \<Longrightarrow> try_each f xs = try_each g ys"
proof (induction ys arbitrary: xs)
  case (Cons y ys)
  then have "try_each f ys = try_each g ys" by simp
  with Cons.prems show ?case by (auto intro: and_then_cong)
qed simp

lemma try_each_Ok_iff: "try_each f xs = Ok () \<longleftrightarrow> (\<forall>x \<in> set xs. f x = Ok ())"
  by (induction xs) (auto simp: and_then_Ok_iff)

lemma and_then_unit_iff: "and_then r (\<lambda>_. k) = Ok () \<longleftrightarrow> r = Ok () \<and> k = Ok ()"
  by (cases r) auto

fun validate_depth_recursive :: "validation_config \<Rightarrow> query \<Rightarrow> nat \<Rightarrow> unit result" where
  "validate_depth_recursive cfg q depth =
     (if depth > vc_max_query_depth cfg
      then Err (Error InvalidInput (''Query depth '' @ show_nat depth @ '' exceeds maximum '' @
                                    show_nat (vc_max_query_depth cfg)))
      else case q of
        Bool must should must_not filters msm boost \<Rightarrow>
          and_then (try_each (\<lambda>q. validate_depth_recursive cfg q (depth + 1)) must) (\<lambda>_.
          and_then (try_each (\<lambda>q. validate_depth_recursive cfg q (depth + 1)) should) (\<lambda>_.
            try_each (\<lambda>q. validate_depth_recursive cfg q (depth + 1)) must_not))
      | _ \<Rightarrow> Ok ())"

declare validate_depth_recursive.simps [simp del]

fun validate_clauses :: "validation_config \<Rightarrow> query \<Rightarrow> unit result" where
  "validate_clauses cfg (Bool must should must_not filters msm boost) =
     (let total_clauses = length must + length should + length must_not
      in if total_clauses > vc_max_bool_clauses cfg
         then Err (Error InvalidInput (''Boolean query has '' @ show_nat total_clauses @
                     '' clauses, max is '' @ show_nat (vc_max_bool_clauses cfg)))
         else try_each (validate_clauses cfg) (must @ should @ must_not))"
| "validate_clauses cfg q = Ok ()"

definition validate :: "validation_config \<Rightarrow> query \<Rightarrow> unit result" where
  "validate cfg q =
     and_then (validate_depth_recursive cfg q 0) (\<lambda>_.
     and_then (validate_clauses cfg q) (\<lambda>_. Ok ()))"

subsection \<open>Plans\<close>

datatype sort_order = Asc | Desc

datatype logical_plan =
    Scan string
  | IndexSeek string string
  | Filter query logical_plan
  | Sort string sort_order logical_plan
  | Limit nat logical_plan
  | Union "logical_plan list"
  | Intersection "logical_plan list"
  | Difference logical_plan logical_plan

fun plan_visit :: "query \<Rightarrow> logical_plan result" where
  "plan_visit (Term q) = Ok (IndexSeek (tq_field q) (tq_value q))"
| "plan_visit (Bool must should must_not filters msm boost) =
     (if must \<noteq> [] then and_then (try_map plan_visit must) (\<lambda>inputs. Ok (Intersection inputs))
      else if should \<noteq> [] then and_then (try_map plan_visit should) (\<lambda>inputs. Ok (Union inputs))
      else Ok (Scan ''content''))"
| "plan_visit q = Ok (Scan ''content'')"

definition plan :: "query \<Rightarrow> logical_plan" where
  "plan q = (case plan_visit q of Inr p \<Rightarrow> p | Inl _ \<Rightarrow> Scan ''content'')"

subsection \<open>Optimisation rules\<close>

definition filter_pushdown :: "logical_plan \<Rightarrow> logical_plan option" where
  "filter_pushdown p =
     (case p of
        Sort field order (Filter predicate inner) \<Rightarrow> Some (Filter predicate (Sort field order inner))
      | _ \<Rightarrow> None)"

definition limit_merge :: "logical_plan \<Rightarrow> logical_plan option" where
  "limit_merge p =
     (case p of
        Limit n (Limit inner_n inner_input) \<Rightarrow> Some (Limit (min n inner_n) inner_input)
      | _ \<Rightarrow> None)"

definition optimizer_rules :: "(logical_plan \<Rightarrow> logical_plan option) list" where
  "optimizer_rules = [filter_pushdown, limit_merge]"

definition optimize :: "logical_plan \<Rightarrow> logical_plan" where
  "optimize p =
     foldl (\<lambda>optimized rule. case rule optimized of Some p' \<Rightarrow> p' | None \<Rightarrow> optimized) p optimizer_rules"

subsection \<open>Rewriting a query through its plan\<close>

fun plan_to_query :: "logical_plan \<Rightarrow> query result" where
  "plan_to_query (IndexSeek field t) = Ok (Term \<lparr>tq_field = field, tq_value = t, tq_boost = None\<rparr>)"
| "plan_to_query (Filter predicate input) = Ok predicate"
| "plan_to_query (Union inputs) =
     and_then (try_map plan_to_query inputs) (\<lambda>should. Ok (Bool [] should [] [] (Some 1) None))"
| "plan_to_query (Intersection inputs) =
     and_then (try_map plan_to_query inputs) (\<lambda>must. Ok (Bool must [] [] [] None None))"
| "plan_to_query (Difference left right) =
     and_then (plan_to_query left) (\<lambda>left_query.
     and_then (plan_to_query right) (\<lambda>right_query.
       Ok (Bool [left_query] [] [right_query] [] None None)))"
| "plan_to_query (Limit n input) = plan_to_query input"
| "plan_to_query (Sort field order input) = plan_to_query input"
| "plan_to_query (Scan field) =
     Err (Error InvalidState ''Cannot safely convert LogicalPlan::Scan back into a specific query'')"

fun is_safe_to_optimize :: "query \<Rightarrow> bool" where
  "is_safe_to_optimize (Term q) = True"
| "is_safe_to_optimize (Bool must should must_not filters msm boost) =
     (must_not = [] \<and> filters = [] \<and> list_all is_safe_to_optimize must \<and>
      list_all is_safe_to_optimize should)"
| "is_safe_to_optimize MatchAll = True"
| "is_safe_to_optimize q = False"

definition optimize_query :: "query \<Rightarrow> query result" where
  "optimize_query q =
     (if \<not> is_safe_to_optimize q then Ok q
      else case plan_to_query (optimize (plan q)) of
             Inr optimized_query \<Rightarrow> Ok optimized_query
           | Inl _ \<Rightarrow> Ok q)"

subsection \<open>What validation checks\<close>

text \<open>The nesting depth and the largest clause count of the must, should and must-not clauses.\<close>

fun bool_depth :: "query \<Rightarrow> nat" where
  "bool_depth (Bool must should must_not filters msm boost) =
     foldr max (map (\<lambda>q. Suc (bool_depth q)) (must @ should @ must_not)) 0"
| "bool_depth q = 0"

fun max_clauses :: "query \<Rightarrow> nat" where
  "max_clauses (Bool must should must_not filters msm boost) =
     foldr max (map max_clauses (must @ should @ must_not)) (length must + length should + length must_not)"
| "max_clauses q = 0"

lemma foldr_max_le_iff: "foldr max xs n \<le> (m::nat) \<longleftrightarrow> (\<forall>x \<in> set xs. x \<le> m) \<and> n \<le> m"
  by (induction xs) auto

lemma foldr_max_Suc_le_iff:
  "d + foldr max (map (\<lambda>q. Suc (f q)) qs) 0 \<le> m \<longleftrightarrow> (\<forall>q \<in> set qs. d + Suc (f q) \<le> m) \<and> d \<le> m"
  by (induction qs) auto

lemma and_then_Ok_id: "and_then r Ok = r"
  by (cases r) simp_all

lemma validate_depth_iff:
  "validate_depth_recursive cfg q depth = Ok () \<longleftrightarrow> depth + bool_depth q \<le> vc_max_query_depth cfg"
proof (induction q arbitrary: depth)
  case (Bool must should must_not filters msm boost)
  have "validate_depth_recursive cfg (Bool must should must_not filters msm boost) depth = Ok () \<longleftrightarrow>
      depth \<le> vc_max_query_depth cfg \<and>
      (\<forall>q \<in> set (must @ should @ must_not). depth + Suc (bool_depth q) \<le> vc_max_query_depth cfg)"
    using Bool
    by (auto simp: validate_depth_recursive.simps [of cfg "Bool _ _ _ _ _ _"] try_each_Ok_iff
        and_then_unit_iff)
  also have "\<dots> \<longleftrightarrow> depth + bool_depth (Bool must should must_not filters msm boost) \<le> vc_max_query_depth cfg"
    unfolding bool_depth.simps foldr_max_Suc_le_iff by blast
  finally show ?case .
qed (simp_all add: validate_depth_recursive.simps)

lemma validate_clauses_iff:
  "validate_clauses cfg q = Ok () \<longleftrightarrow> max_clauses q \<le> vc_max_bool_clauses cfg"
  by (induction q) (auto simp: try_each_Ok_iff foldr_max_le_iff Let_def)

text \<open>
  A query is accepted exactly when the nesting of its must, should and must-not clauses is
  within the configured depth and no boolean query in them has more clauses than configured;
  filter clauses are neither counted nor entered.
\<close>

theorem validate_accepts_iff:
  "validate cfg q = Ok () \<longleftrightarrow>
     bool_depth q \<le> vc_max_query_depth cfg \<and> max_clauses q \<le> vc_max_bool_clauses cfg"
  by (simp add: validate_def and_then_unit_iff and_then_Ok_id validate_depth_iff
      validate_clauses_iff)

subsection \<open>The meaning of plans\<close>

text \<open>
  A plan evaluates to a list of documents, given the documents, the meaning of a predicate, the
  sort key of a field and the documents that a seek finds.
\<close>

record ('d, 'k) plan_env =
  pe_docs :: "'d list"
  pe_sat :: "query \<Rightarrow> 'd \<Rightarrow> bool"
  pe_key :: "string \<Rightarrow> 'd \<Rightarrow> 'k"
  pe_seek :: "string \<Rightarrow> string \<Rightarrow> 'd \<Rightarrow> bool"

fun eval_plan :: "('d, 'k::linorder) plan_env \<Rightarrow> logical_plan \<Rightarrow> 'd list" where
  "eval_plan e (Scan field) = pe_docs e"
| "eval_plan e (IndexSeek field t) = filter (pe_seek e field t) (pe_docs e)"
| "eval_plan e (Filter predicate input) = filter (pe_sat e predicate) (eval_plan e input)"
| "eval_plan e (Sort field order input) =
     (case order of
        Asc \<Rightarrow> sort_key (pe_key e field) (eval_plan e input)
      | Desc \<Rightarrow> rev (sort_key (pe_key e field) (rev (eval_plan e input))))"
| "eval_plan e (Limit n input) = take n (eval_plan e input)"
| "eval_plan e (Union inputs) =
     filter (\<lambda>d. list_ex (\<lambda>p. d \<in> set (eval_plan e p)) inputs) (pe_docs e)"
| "eval_plan e (Intersection inputs) =
     filter (\<lambda>d. list_all (\<lambda>p. d \<in> set (eval_plan e p)) inputs) (pe_docs e)"
| "eval_plan e (Difference left right) =
     filter (\<lambda>d. d \<notin> set (eval_plan e right)) (eval_plan e left)"

text \<open>The contract of \<^verbatim>\<open>OptimizationRule\<close>: a rewritten plan gives the same documents in the same
  order.\<close>

locale optimization_rule =
  fixes rule :: "logical_plan \<Rightarrow> logical_plan option"
    and e :: "('d, 'k::linorder) plan_env"
  assumes rule_eval: "rule p = Some p' \<Longrightarrow> eval_plan e p' = eval_plan e p"
begin

lemma apply_rule_eval: "eval_plan e (case rule p of Some p' \<Rightarrow> p' | None \<Rightarrow> p) = eval_plan e p"
  by (simp add: rule_eval split: option.split)

end

lemma filter_sort_key: "filter P (sort_key f xs) = sort_key f (filter P xs)"
  by (rule filter_sort)

interpretation pushdown: optimization_rule filter_pushdown e
  by unfold_locales
    (auto simp: filter_pushdown_def filter_sort rev_filter [symmetric]
      split: logical_plan.splits sort_order.splits)

interpretation merge: optimization_rule limit_merge e
  by unfold_locales (auto simp: limit_merge_def min.commute split: logical_plan.splits)

text \<open>
  The optimizer's two rules, applied in order, never change what a plan returns, not even the
  order of the documents, for any data, predicate and sort key.
\<close>

theorem optimize_preserves_plan: "eval_plan e (optimize p) = eval_plan e p"
  by (simp add: optimize_def optimizer_rules_def pushdown.apply_rule_eval merge.apply_rule_eval)

subsection \<open>Rewriting preserves matching\<close>

text \<open>No boolean query inside has both must and should clauses.\<close>

fun unmixed :: "query \<Rightarrow> bool" where
  "unmixed (Bool must should must_not filters msm boost) =
     ((must = [] \<or> should = []) \<and> list_all unmixed must \<and> list_all unmixed should)"
| "unmixed q = True"

lemma try_map_list_all2: "try_map f xs = Ok ys \<Longrightarrow> list_all2 (\<lambda>x y. f x = Ok y) xs ys"
  by (induction xs arbitrary: ys) (auto simp: and_then_Ok_iff)

lemma plan_visit_total: "\<exists>p. plan_visit q = Ok p"
proof (induction q)
  case (Bool must should must_not filters msm boost)
  have "\<exists>ps. try_map plan_visit qs = Ok ps" if "\<And>q. q \<in> set qs \<Longrightarrow> \<exists>p. plan_visit q = Ok p" for qs
    using that by (induction qs) (fastforce)+
  with Bool show ?case by (metis and_then_simps(1) plan_visit.simps(2))
qed simp_all

lemma optimize_plan: "optimize (plan q) = plan q"
  using plan_visit_total [of q]
  by (cases q) (auto simp: plan_def optimize_def optimizer_rules_def filter_pushdown_def limit_merge_def
      and_then_Ok_iff split: if_splits and_then_splits)

lemma try_all_list_all2:
  "list_all2 (\<lambda>x y. f x = f y) xs ys \<Longrightarrow> try_all f xs = try_all f ys"
  by (induction rule: list_all2_induct) (simp_all cong: if_cong)

lemma try_any_list_all2:
  "list_all2 (\<lambda>x y. f x = f y) xs ys \<Longrightarrow> try_any f xs = try_any f ys"
  by (induction rule: list_all2_induct) (simp_all cong: if_cong)

lemma rewritten_clauses:
  assumes "\<And>q p q'. q \<in> set qs \<Longrightarrow> plan_visit q = Ok p \<Longrightarrow> plan_to_query p = Ok q' \<Longrightarrow> f q' = f q"
    "try_map plan_visit qs = Ok ps" "try_map plan_to_query ps = Ok qs'"
  shows "list_all2 (\<lambda>x y. f x = f y) qs' qs"
  using assms
proof (induction qs arbitrary: ps qs')
  case (Cons q qs)
  then show ?case by (fastforce simp: and_then_Ok_iff)
qed simp

lemma plan_to_query_matches:
  "is_safe_to_optimize q \<Longrightarrow> unmixed q \<Longrightarrow> plan_visit q = Ok p \<Longrightarrow> plan_to_query p = Ok q' \<Longrightarrow>
     matches cx doc q' = matches cx doc q"
proof (induction q arbitrary: p q')
  case (Term tq)
  then show ?case by (auto simp: visit_term_def)
next
  case (Bool must should must_not filters msm boost)
  have safe: "must_not = []" "filters = []" "\<forall>q \<in> set must \<union> set should. is_safe_to_optimize q \<and> unmixed q"
    using Bool.prems(1,2) by (auto simp: list_all_iff)
  consider "must \<noteq> []" "should = []" | "must = []" "should \<noteq> []" | "must = []" "should = []"
    using Bool.prems(2) by auto
  then show ?case
  proof cases
    case 1
    then obtain ps qs' where rw: "try_map plan_visit must = Ok ps" "try_map plan_to_query ps = Ok qs'"
      "q' = Bool qs' [] [] [] None None"
      using Bool.prems(3,4) by (auto simp: and_then_Ok_iff)
    have "list_all2 (\<lambda>x y. matches cx doc x = matches cx doc y) qs' must"
      using Bool.IH(1) safe(3) by (intro rewritten_clauses [OF _ rw(1,2)]) blast
    with 1 safe rw(3) show ?thesis using try_all_list_all2 [of "matches cx doc"] by simp
  next
    case 2
    then obtain ps qs' where rw: "try_map plan_visit should = Ok ps" "try_map plan_to_query ps = Ok qs'"
      "q' = Bool [] qs' [] [] (Some 1) None"
      using Bool.prems(3,4) by (auto simp: and_then_Ok_iff)
    have "list_all2 (\<lambda>x y. matches cx doc x = matches cx doc y) qs' should"
      using Bool.IH(2) safe(3) by (intro rewritten_clauses [OF _ rw(1,2)]) blast
    moreover from this have "qs' \<noteq> []" using 2 by auto
    ultimately show ?thesis
      using 2 safe rw(3) try_any_list_all2 [of "matches cx doc"] by simp
  next
    case 3
    with Bool.prems(3,4) show ?thesis by auto
  qed
qed auto

lemma optimize_query_matches:
  assumes "unmixed q"
  shows "\<exists>q'. optimize_query q = Ok q' \<and> matches cx doc q' = matches cx doc q"
proof -
  obtain p where "plan_visit q = Ok p" using plan_visit_total by blast
  then have "optimize (plan q) = p" using optimize_plan [of q] by (simp add: plan_def)
  then show ?thesis
    using plan_to_query_matches [OF _ assms \<open>plan_visit q = Ok p\<close>]
    by (auto simp: optimize_query_def split: sum.split)
qed

text \<open>
  A query that mixes must and should clauses loses the should clauses; the rewritten query then
  matches more documents, and never fewer.
\<close>

lemma rewritten_pairs:
  assumes "try_map plan_visit qs = Ok ps" "try_map plan_to_query ps = Ok qs'"
  shows "\<forall>q' \<in> set qs'. \<exists>q \<in> set qs. \<exists>p. plan_visit q = Ok p \<and> plan_to_query p = Ok q'"
    "\<forall>q \<in> set qs. \<exists>q' \<in> set qs'. \<exists>p. plan_visit q = Ok p \<and> plan_to_query p = Ok q'"
  using assms by (induction qs arbitrary: ps qs') (fastforce simp: and_then_Ok_iff)+

lemma optimize_query_total: "\<exists>q'. optimize_query q = Ok q'"
  by (simp add: optimize_query_def split: sum.split)

lemma plan_to_query_satisfied:
  assumes "index_ok (mx_index cx)"
  shows "is_safe_to_optimize q \<Longrightarrow> plan_visit q = Ok p \<Longrightarrow> plan_to_query p = Ok q' \<Longrightarrow>
           satisfies cx doc q \<Longrightarrow> satisfies cx doc q'"
proof (induction q arbitrary: p q')
  case (Term tq)
  then show ?case by (auto simp: satisfies_def visit_term_def)
next
  case (Bool must should must_not filters msm boost)
  have kept: "satisfies cx doc y"
    if "x \<in> set must \<union> set should" "satisfies cx doc x" "plan_visit x = Ok p'" "plan_to_query p' = Ok y" for x y p'
    using that Bool.IH(1,2) [of x p' y] Bool.prems(1) by (auto simp: list_all_iff)
  note sat = Bool.prems(4) [unfolded satisfies_bool [OF assms]]
  consider "must \<noteq> []" | "must = []" "should \<noteq> []" | "must = []" "should = []" by blast
  then show ?case
  proof cases
    case 1
    then obtain ps qs' where rw: "try_map plan_visit must = Ok ps" "try_map plan_to_query ps = Ok qs'"
      "q' = Bool qs' [] [] [] None None"
      using Bool.prems(2,3) by (auto simp: and_then_Ok_iff)
    have "\<forall>y \<in> set qs'. satisfies cx doc y"
      using rewritten_pairs(1) [OF rw(1,2)] sat kept by blast
    then show ?thesis by (simp add: rw(3) satisfies_bool [OF assms])
  next
    case 2
    then obtain ps qs' where rw: "try_map plan_visit should = Ok ps" "try_map plan_to_query ps = Ok qs'"
      "q' = Bool [] qs' [] [] (Some 1) None"
      using Bool.prems(2,3) by (auto simp: and_then_Ok_iff)
    have "\<exists>y \<in> set qs'. satisfies cx doc y"
      using rewritten_pairs(2) [OF rw(1,2)] sat kept 2(2) by blast
    then show ?thesis by (simp add: rw(3) satisfies_bool [OF assms])
  next
    case 3
    with Bool.prems(2,3) show ?thesis by auto
  qed
qed auto

lemma optimize_query_satisfied:
  assumes "index_ok (mx_index cx)" "optimize_query q = Ok q'" "satisfies cx doc q"
  shows "satisfies cx doc q'"
proof -
  obtain p where p: "plan_visit q = Ok p" using plan_visit_total by blast
  then have "optimize (plan q) = p" using optimize_plan [of q] by (simp add: plan_def)
  with assms(2,3) show ?thesis
    using plan_to_query_satisfied [OF assms(1) _ p] by (auto simp: optimize_query_def split: if_splits sum.splits)
qed

text \<open>
  C31: rewriting a query through its plan never fails and never changes which documents match,
  errors included, provided no boolean query inside it combines must with should clauses.
\<close>

theorem optimize_query_preserves_matching:
  assumes "unmixed q"
  shows "\<exists>q'. optimize_query q = Ok q' \<and> matches cx doc q' = matches cx doc q"
  by (rule optimize_query_matches [OF assms])

definition term_on :: "string \<Rightarrow> query" where
  "term_on w = Term \<lparr>tq_field = ''content'', tq_value = w, tq_boost = None\<rparr>"

theorem optimize_query_preserves_matching_witness:
  "unmixed (Bool [] [term_on ''a'', term_on ''b''] [] [] None None) \<and>
   (\<exists>q'. optimize_query (Bool [] [term_on ''a'', term_on ''b''] [] [] None None) = Ok q' \<and>
         matches empty_context (document_new 1) q' = Ok False)"
proof -
  have u: "unmixed (Bool [] [term_on ''a'', term_on ''b''] [] [] None None)"
    by (simp add: term_on_def)
  moreover have "matches empty_context (document_new 1)
      (Bool [] [term_on ''a'', term_on ''b''] [] [] None None) = Ok False"
    by (simp add: term_on_def visit_term_def field_contains_text_def document_new_def get_field_def)
  ultimately show ?thesis
    using optimize_query_preserves_matching [OF u, of empty_context "document_new 1"] by metis
qed

text \<open>
  With both kinds of clauses the rewriting drops the should clauses: a document with \<open>a\<close> and
  without \<open>b\<close> does not match the query that must have \<open>a\<close> and should have \<open>b\<close>, but it matches the
  rewritten query, which the executor runs instead.
\<close>

theorem optimize_query_drops_should:
  "matches empty_context (add_field (document_new 1) ''content'' (FText ''a''))
     (Bool [term_on ''a''] [term_on ''b''] [] [] None None) = Ok False \<and>
   optimize_query (Bool [term_on ''a''] [term_on ''b''] [] [] None None) =
     Ok (Bool [term_on ''a''] [] [] [] None None) \<and>
   matches empty_context (add_field (document_new 1) ''content'' (FText ''a''))
     (Bool [term_on ''a''] [] [] [] None None) = Ok True"
  by (simp add: optimize_query_def plan_def optimize_def optimizer_rules_def filter_pushdown_def
      limit_merge_def term_on_def visit_term_def field_contains_text_def get_add_field
      str_contains_def str_find.simps empty_context_def)

text \<open>
  A query like \<open>rust AND programming\<close>, read with the default operator, has its first word as a should
  clause, and the rewriting drops it.
\<close>

theorem and_query_drops_first_word:
  "parse_boolean_query query_parser_new [''rust'', ''AND'', ''programming''] =
     Ok (Bool [term_on ''programming''] [term_on ''rust''] [] [] None None) \<and>
   optimize_query (Bool [term_on ''programming''] [term_on ''rust''] [] [] None None) =
     Ok (Bool [term_on ''programming''] [] [] [] None None)"
  by (simp add: parse_boolean_query_def query_parser_new_def term_on_def optimize_query_def plan_def optimize_def
      optimizer_rules_def filter_pushdown_def limit_merge_def)

text \<open>The rewriting of a term query loses its boost.\<close>

theorem optimize_query_drops_boost: "optimize_query (Term tq) = Ok (Term (tq\<lparr>tq_boost := None\<rparr>))"
  by (simp add: optimize_query_def plan_def optimize_def optimizer_rules_def filter_pushdown_def limit_merge_def)

end
