(* ===== verification/Top_K.thy ===== *)
theory Top_K
  imports Query
begin

section \<open>Collecting the best results\<close>

text \<open>
  The model of \<^verbatim>\<open>src/search/results.rs\<close> and \<^verbatim>\<open>src/search/collector.rs\<close>.  Scored documents are compared
  by score in reverse, so the greatest element of the \<^verbatim>\<open>BinaryHeap\<close> is one with the least score.
  The heap is the list of its elements; \<open>heap_top\<close> is the element that \<^verbatim>\<open>peek\<close> returns and that
  \<^verbatim>\<open>pop\<close> removes.  Among equal scores the standard library does not say which element that is, and
  no lemma depends on it.
\<close>

datatype score_explanation =
  ScoreExplanation (ex_value: fval) (ex_description: string) (ex_details: "score_explanation list")

record scored_document =
  sd_doc_id :: doc_id
  sd_score :: fval
  sd_document :: "document option"
  sd_explanation :: "score_explanation option"

record search_results =
  sr_hits :: "scored_document list"
  sr_total_hits :: nat
  sr_max_score :: fval

datatype collect_decision = Continue | Terminate

subsection \<open>The heap\<close>

fun heap_top :: "scored_document list \<Rightarrow> scored_document option" where
  "heap_top [] = None"
| "heap_top (d # ds) =
     (case heap_top ds of
        None \<Rightarrow> Some d
      | Some e \<Rightarrow> Some (if sd_score e < sd_score d then e else d))"

definition heap_push :: "scored_document list \<Rightarrow> scored_document \<Rightarrow> scored_document list" where
  "heap_push heap d = d # heap"

definition heap_pop :: "scored_document list \<Rightarrow> scored_document list" where
  "heap_pop heap = (case heap_top heap of None \<Rightarrow> heap | Some d \<Rightarrow> remove1 d heap)"

subsection \<open>The collector\<close>

record top_k_collector =
  tk_heap :: "scored_document list"
  tk_k :: nat
  tk_min_score :: fval
  tk_total_collected :: nat

definition top_k_new :: "nat \<Rightarrow> top_k_collector" where
  "top_k_new k = \<lparr>tk_heap = [], tk_k = k, tk_min_score = Fin 0, tk_total_collected = 0\<rparr>"

definition collect :: "top_k_collector \<Rightarrow> scored_document \<Rightarrow> top_k_collector" where
  "collect self d =
     (let self = self\<lparr>tk_total_collected := tk_total_collected self + 1\<rparr>
      in if f_lt (tk_min_score self) (sd_score d) \<or> length (tk_heap self) < tk_k self
         then let self = self\<lparr>tk_heap := heap_push (tk_heap self) d\<rparr>
              in if length (tk_heap self) > tk_k self
                 then let self = self\<lparr>tk_heap := heap_pop (tk_heap self)\<rparr>
                      in case heap_top (tk_heap self) of
                           Some min_doc \<Rightarrow> self\<lparr>tk_min_score := sd_score min_doc\<rparr>
                         | None \<Rightarrow> self
                 else self
         else self)"

text \<open>\<^verbatim>\<open>sort_by(|a, b| b.score.partial_cmp(&a.score).unwrap())\<close>: a stable sort by descending score that
  panics when it compares a NaN, as it does with two or more elements.\<close>

definition sort_descending :: "scored_document list \<Rightarrow> scored_document list result" where
  "sort_descending ds =
     (if 2 \<le> length ds \<and> NaN \<in> sd_score ` set ds then Err Panic
      else Ok (rev (sort_key sd_score (rev ds))))"

definition get_results :: "top_k_collector \<Rightarrow> scored_document list result" where
  "get_results self = sort_descending (tk_heap self)"

definition max_score :: "top_k_collector \<Rightarrow> fval" where
  "max_score self = (case heap_top (tk_heap self) of Some d \<Rightarrow> sd_score d | None \<Rightarrow> Fin 0)"

text \<open>The collector as a \<^verbatim>\<open>Collector\<close> of the pipeline: the same step, and it never stops the scan.\<close>

definition collect_matched :: "top_k_collector \<Rightarrow> scored_document \<Rightarrow> top_k_collector \<times> collect_decision" where
  "collect_matched self d = (collect self d, Continue)"

definition into_results :: "top_k_collector \<Rightarrow> search_results result" where
  "into_results self =
     and_then (sort_descending (tk_heap self)) (\<lambda>hits.
       Ok \<lparr>sr_hits = hits, sr_total_hits = tk_total_collected self, sr_max_score = max_score self\<rparr>)"

definition collect_all_docs :: "nat \<Rightarrow> scored_document list \<Rightarrow> top_k_collector" where
  "collect_all_docs k ds = foldl collect (top_k_new k) ds"

subsection \<open>The heap keeps a least score on top\<close>

lemma heap_top_None [simp]: "heap_top h = None \<longleftrightarrow> h = []"
  by (cases h) (auto split: option.splits)

lemma heap_top_least: "heap_top h = Some d \<Longrightarrow> d \<in> set h \<and> (\<forall>e \<in> set h. sd_score d \<le> sd_score e)"
proof (induction h arbitrary: d)
  case (Cons e h)
  then show ?case
    by (cases "heap_top h") (fastforce split: if_splits)+
qed simp

text \<open>
  The contract of a priority queue with a least element on top, which is all that the collector
  uses of the standard library's heap.
\<close>

locale least_heap =
  fixes push :: "'h \<Rightarrow> 'e \<Rightarrow> 'h" and pop :: "'h \<Rightarrow> 'h" and top :: "'h \<Rightarrow> 'e option"
    and elems :: "'h \<Rightarrow> 'e multiset" and key :: "'e \<Rightarrow> 'k::linorder"
  assumes push_elems: "elems (push h e) = add_mset e (elems h)"
    and top_None: "top h = None \<longleftrightarrow> elems h = {#}"
    and top_least: "top h = Some e \<Longrightarrow> e \<in># elems h \<and> (\<forall>x \<in># elems h. key e \<le> key x)"
    and pop_elems: "top h = Some e \<Longrightarrow> elems (pop h) = elems h - {#e#}"
begin

lemma push_pop:
  "\<exists>e. top (push h d) = Some e \<and> add_mset e (elems (pop (push h d))) = add_mset d (elems h) \<and>
       (\<forall>x \<in># elems (pop (push h d)). key e \<le> key x)"
proof -
  obtain e where e: "top (push h d) = Some e"
    using top_None [of "push h d"] by (auto simp: push_elems)
  have least: "e \<in># elems (push h d)" "\<forall>x \<in># elems (push h d). key e \<le> key x"
    using top_least [OF e] by simp_all
  have "add_mset e (elems (pop (push h d))) = add_mset d (elems h)"
    using least(1) by (simp only: pop_elems [OF e] insert_DiffM push_elems)
  moreover have "\<forall>x \<in># elems (pop (push h d)). key e \<le> key x"
    using least(2) by (simp add: pop_elems [OF e] in_diffD)
  ultimately show ?thesis using e by blast
qed

end

interpretation heap: least_heap heap_push heap_pop heap_top mset sd_score
  by unfold_locales (auto simp: heap_push_def heap_pop_def dest: heap_top_least)

subsection \<open>The collector keeps the best\<close>

text \<open>
  After any number of documents: the heap and the documents dropped so far are all documents seen,
  every dropped score is at most every kept score and at most the threshold, the threshold is at
  most every kept score, and nothing is dropped before the heap is full.
\<close>

definition kept_best :: "top_k_collector \<Rightarrow> scored_document list \<Rightarrow> scored_document multiset \<Rightarrow> bool" where
  "kept_best c ds dropped \<longleftrightarrow>
     mset ds = mset (tk_heap c) + dropped \<and>
     (\<forall>x \<in># dropped. \<forall>h \<in> set (tk_heap c). sd_score x \<le> sd_score h) \<and>
     (\<forall>x \<in># dropped. tk_k c = 0 \<or> sd_score x \<le> tk_min_score c) \<and>
     (\<forall>h \<in> set (tk_heap c). tk_min_score c \<le> sd_score h) \<and>
     (dropped = {#} \<or> length (tk_heap c) = tk_k c) \<and> length (tk_heap c) \<le> tk_k c \<and>
     (length (tk_heap c) < tk_k c \<longrightarrow> tk_min_score c = Fin 0) \<and>
     tk_min_score c \<noteq> NaN \<and> tk_total_collected c = length ds"

definition proper_score :: "scored_document \<Rightarrow> bool" where
  "proper_score d \<longleftrightarrow> Fin 0 \<le> sd_score d"

lemma proper_score_not_NaN: "proper_score d \<Longrightarrow> sd_score d \<noteq> NaN"
  by (auto simp: proper_score_def less_eq_fval_def)

lemma collect_room:
  assumes "kept_best c ds dropped" "proper_score d" "length (tk_heap c) < tk_k c"
  shows "kept_best (collect c d) (ds @ [d]) dropped" "tk_k (collect c d) = tk_k c"
  using assms
  by (auto simp: kept_best_def collect_def heap_push_def Let_def proper_score_def)

lemma collect_reject:
  assumes "kept_best c ds dropped" "proper_score d" "length (tk_heap c) = tk_k c"
    "\<not> f_lt (tk_min_score c) (sd_score d)"
  shows "kept_best (collect c d) (ds @ [d]) (add_mset d dropped)" "tk_k (collect c d) = tk_k c"
proof -
  have "sd_score d \<le> tk_min_score c"
    using assms proper_score_not_NaN [OF assms(2)] by (auto simp: f_lt_def kept_best_def)
  then show "kept_best (collect c d) (ds @ [d]) (add_mset d dropped)"
    using assms by (fastforce simp: kept_best_def collect_def Let_def)
  show "tk_k (collect c d) = tk_k c"
    using assms by (simp add: collect_def Let_def)
qed

lemma collect_replace:
  assumes "kept_best c ds dropped" "proper_score d" "\<forall>h \<in> set (tk_heap c). proper_score h"
    "length (tk_heap c) = tk_k c" "f_lt (tk_min_score c) (sd_score d)"
  shows "\<exists>e. kept_best (collect c d) (ds @ [d]) (add_mset e dropped)" "tk_k (collect c d) = tk_k c"
proof -
  obtain e where e: "heap_top (heap_push (tk_heap c) d) = Some e"
    "add_mset e (mset (heap_pop (heap_push (tk_heap c) d))) = add_mset d (mset (tk_heap c))"
    "\<forall>x \<in># mset (heap_pop (heap_push (tk_heap c) d)). sd_score e \<le> sd_score x"
    using heap.push_pop by blast
  define h where "h = heap_pop (heap_push (tk_heap c) d)"
  define m where "m = (case heap_top h of Some x \<Rightarrow> sd_score x | None \<Rightarrow> tk_min_score c)"
  have elems: "add_mset e (mset h) = add_mset d (mset (tk_heap c))" and e_least: "\<forall>x \<in> set h. sd_score e \<le> sd_score x"
    using e(2,3) by (simp_all add: h_def)
  have len: "length h = tk_k c"
    using arg_cong [OF elems, of size] assms(4) by simp
  have mem: "x \<in> set h \<Longrightarrow> x = d \<or> x \<in> set (tk_heap c)" for x
    using elems by (metis add_mset_remove_trivial insertE insert_iff set_mset_add_mset_insert set_mset_mset)
  have collected: "collect c d = c\<lparr>tk_total_collected := tk_total_collected c + 1, tk_heap := h, tk_min_score := m\<rparr>"
    using assms(4,5) by (simp add: collect_def Let_def h_def m_def heap_push_def split: option.splits)
  have dropped_le: "sd_score x \<le> sd_score y" if "x \<in># add_mset e dropped" "y \<in> set h" for x y
  proof (cases "x \<in># dropped")
    case True
    have "tk_k c \<noteq> 0" using len that(2) by (cases h) auto
    with True have "sd_score x \<le> tk_min_score c" "\<forall>z \<in> set (tk_heap c). sd_score x \<le> sd_score z"
      using assms(1) by (auto simp: kept_best_def)
    with mem [OF that(2)] assms(5) show ?thesis by (auto simp: f_lt_def)
  next
    case False
    with that e_least show ?thesis by auto
  qed
  have m_least: "\<forall>y \<in> set h. m \<le> sd_score y"
    unfolding m_def using heap_top_least [of h] by (auto split: option.splits)
  have "\<forall>y \<in> set h. sd_score y \<noteq> NaN" "tk_min_score c \<noteq> NaN"
    using mem assms(1-3) proper_score_not_NaN by (blast, simp add: kept_best_def)
  then have "m \<noteq> NaN"
    unfolding m_def using heap_top_least [of h] by (cases "heap_top h") auto
  moreover have "sd_score x \<le> m" if x: "x \<in># add_mset e dropped" and k: "tk_k c \<noteq> 0" for x
  proof (cases "heap_top h")
    case None
    then show ?thesis using len k by simp
  next
    case (Some y)
    then show ?thesis using heap_top_least [of h y] dropped_le [OF x] by (simp add: m_def)
  qed
  moreover have "mset (ds @ [d]) = mset h + add_mset e dropped"
    using assms(1) elems by (simp add: kept_best_def)
  ultimately have "kept_best (collect c d) (ds @ [d]) (add_mset e dropped)"
    unfolding kept_best_def collected
    using assms(1) len dropped_le m_least by (auto simp: kept_best_def)
  then show "\<exists>e. kept_best (collect c d) (ds @ [d]) (add_mset e dropped)" ..
  show "tk_k (collect c d) = tk_k c" by (simp add: collected)
qed

lemma collect_kept_best:
  assumes "kept_best c ds dropped" "proper_score d" "\<forall>x \<in> set ds. proper_score x"
  shows "(\<exists>dropped'. kept_best (collect c d) (ds @ [d]) dropped') \<and> tk_k (collect c d) = tk_k c"
proof -
  have "mset ds = mset (tk_heap c) + dropped" using assms(1) by (simp add: kept_best_def)
  then have "set (tk_heap c) \<subseteq> set ds" by (metis mset_subset_eq_add_left set_mset_mono set_mset_mset)
  then have proper: "\<forall>h \<in> set (tk_heap c). proper_score h" using assms(3) by auto
  consider "length (tk_heap c) < tk_k c" | "length (tk_heap c) = tk_k c" "f_lt (tk_min_score c) (sd_score d)"
    | "length (tk_heap c) = tk_k c" "\<not> f_lt (tk_min_score c) (sd_score d)"
    using assms(1) by (fastforce simp: kept_best_def)
  then show ?thesis
    using collect_room [OF assms(1,2)] collect_replace [OF assms(1,2) proper]
      collect_reject [OF assms(1,2)]
    by cases blast+
qed

lemma collect_all_kept_best:
  "\<forall>x \<in> set ds. proper_score x \<Longrightarrow>
     (\<exists>dropped. kept_best (collect_all_docs k ds) ds dropped) \<and> tk_k (collect_all_docs k ds) = k"
proof (induction ds rule: rev_induct)
  case Nil
  then show ?case by (simp add: collect_all_docs_def top_k_new_def kept_best_def)
next
  case (snoc d ds)
  then obtain dropped where "kept_best (collect_all_docs k ds) ds dropped" "tk_k (collect_all_docs k ds) = k"
    by auto
  with collect_kept_best [of "collect_all_docs k ds" ds dropped d] snoc.prems show ?case
    by (simp add: collect_all_docs_def)
qed

lemma take_rev_sort:
  assumes "mset xs = mset ys + mset zs" "\<forall>z \<in> set zs. \<forall>y \<in> set ys. z \<le> (y :: 'a::linorder)"
  shows "take (length ys) (rev (sort xs)) = rev (sort ys)"
proof -
  have "sort xs = sort zs @ sort ys"
    using assms by (intro properties_for_sort) (auto simp: sorted_append)
  then show ?thesis by simp
qed

lemma collect_all_best:
  assumes "\<forall>d \<in> set ds. Fin 0 \<le> sd_score d"
  shows "\<exists>r. into_results (collect_all_docs k ds) = Ok r \<and> mset (sr_hits r) \<subseteq># mset ds \<and>
             map sd_score (sr_hits r) = take k (rev (sort (map sd_score ds))) \<and>
             sr_total_hits r = length ds"
proof -
  let ?c = "collect_all_docs k ds"
  have proper: "\<forall>x \<in> set ds. proper_score x" using assms by (simp add: proper_score_def)
  then obtain dropped where best: "kept_best ?c ds dropped" "tk_k ?c = k"
    using collect_all_kept_best by blast
  obtain zs where zs: "dropped = mset zs" by (metis ex_mset)
  have split: "mset ds = mset (tk_heap ?c) + mset zs" using best(1) zs by (simp add: kept_best_def)
  then have "set (tk_heap ?c) \<subseteq> set ds" by (metis mset_subset_eq_add_left set_mset_mono set_mset_mset)
  then have "NaN \<notin> sd_score ` set (tk_heap ?c)" using proper proper_score_not_NaN by force
  then have hits: "sort_descending (tk_heap ?c) = Ok (rev (sort_key sd_score (rev (tk_heap ?c))))"
    by (simp add: sort_descending_def)
  have "mset (map sd_score ds) = mset (map sd_score (tk_heap ?c)) + mset (map sd_score zs)"
    using split by (metis image_mset_union mset_map)
  moreover have "\<forall>z \<in> set (map sd_score zs). \<forall>y \<in> set (map sd_score (tk_heap ?c)). z \<le> y"
    using best(1) zs by (auto simp: kept_best_def)
  ultimately have "take (length (tk_heap ?c)) (rev (sort (map sd_score ds))) = rev (sort (map sd_score (tk_heap ?c)))"
    using take_rev_sort by (metis length_map)
  moreover have "take (length (tk_heap ?c)) (rev (sort (map sd_score ds))) = take k (rev (sort (map sd_score ds)))"
  proof (cases "dropped = {#}")
    case True
    then have "length (tk_heap ?c) = length ds" using split zs by (metis add.right_neutral size_mset)
    moreover have "length (tk_heap ?c) \<le> k" using best by (simp add: kept_best_def)
    ultimately show ?thesis by simp
  next
    case False
    then show ?thesis using best by (simp add: kept_best_def)
  qed
  moreover have "map sd_score (sort_key sd_score (rev (tk_heap ?c))) = sort (map sd_score (tk_heap ?c))"
    by (rule properties_for_sort [symmetric]) simp_all
  ultimately show ?thesis
    using hits split best(1) by (simp add: into_results_def rev_map [symmetric] kept_best_def)
qed

text \<open>
  The collector returns the best \<open>k\<close> documents: for scores that are not negative and not NaN,
  the hits are documents that were collected, ordered by descending score, their scores are the
  \<open>k\<close> highest scores of all collected documents, and the number of all collected documents is
  reported.
\<close>

theorem top_k_best:
  assumes "\<forall>d \<in> set ds. Fin 0 \<le> sd_score d"
  shows "\<exists>r. into_results (collect_all_docs k ds) = Ok r \<and> mset (sr_hits r) \<subseteq># mset ds \<and>
             map sd_score (sr_hits r) = take k (rev (sort (map sd_score ds))) \<and>
             sr_total_hits r = length ds"
  by (rule collect_all_best [OF assms])

definition scored :: "u64 \<Rightarrow> rat \<Rightarrow> scored_document" where
  "scored d q = \<lparr>sd_doc_id = d, sd_score = Fin q, sd_document = None, sd_explanation = None\<rparr>"

theorem top_k_best_witness:
  "\<exists>r. into_results (collect_all_docs 2 [scored 1 3, scored 2 1, scored 3 2]) = Ok r \<and>
       map sd_score (sr_hits r) = [Fin 3, Fin 2] \<and> sr_total_hits r = 3"
proof -
  have "\<forall>d \<in> set [scored 1 3, scored 2 1, scored 3 2]. Fin 0 \<le> sd_score d"
    by (simp add: scored_def less_eq_fval_def)
  moreover have "take 2 (rev (sort (map sd_score [scored 1 3, scored 2 1, scored 3 2]))) = [Fin 3, Fin 2]"
    by (simp add: scored_def less_eq_fval_def)
  ultimately show ?thesis
    using top_k_best [of "[scored 1 3, scored 2 1, scored 3 2]" 2] by auto
qed

text \<open>
  The \<^verbatim>\<open>max_score\<close> that the results report is the least score among the hits, not the greatest:
  the top of the heap is the document that would be dropped next.
\<close>

theorem max_score_is_least:
  "max_score c = (if tk_heap c = [] then Fin 0 else Min (sd_score ` set (tk_heap c)))"
proof (cases "heap_top (tk_heap c)")
  case (Some d)
  then have "Min (sd_score ` set (tk_heap c)) = sd_score d"
    using heap_top_least [OF Some] by (intro Min_eqI) auto
  with Some show ?thesis by (auto simp: max_score_def)
qed (simp add: max_score_def)

end
