(* ===== verification/Segment_Files.thy ===== *)
theory Segment_Files
  imports Matcher Top_K
begin

section \<open>Segment files\<close>

text \<open>
  The model of \<^verbatim>\<open>src/storage/segment.rs\<close>, \<^verbatim>\<open>segment_writer.rs\<close>, \<^verbatim>\<open>segment_reader.rs\<close>, \<^verbatim>\<open>layout.rs\<close>,
  \<^verbatim>\<open>disk_segment_store.rs\<close>, \<^verbatim>\<open>disk_segment_opener.rs\<close> and of the segment scan of
  \<^verbatim>\<open>src/query/matcher.rs\<close>, at the level of bytes.

  The disk is a map from paths to contents; a write always succeeds and opening a missing file
  fails.  A fresh \<^verbatim>\<open>SegmentId\<close> (a random UUID) is the next number of a counter.  An open handle of a
  finished segment file is its content, since a finished file is never written again.  The pooled
  buffers of \<^verbatim>\<open>write_document\<close> are cleared before use, so their content does not matter here.  Time
  stamps are left out.  The crates \<^verbatim>\<open>bincode\<close> and \<^verbatim>\<open>crc32fast\<close> are the parameter \<open>codec\<close>, with the
  compressors of \<^verbatim>\<open>CompressedBlock\<close>.
\<close>

subsection \<open>Data\<close>

type_synonym segment_id = nat

record segment_metadata =
  sm_size_bytes :: nat
  sm_min_doc_id :: doc_id
  sm_max_doc_id :: doc_id

record segment =
  sg_id :: segment_id
  sg_doc_count :: u32
  sg_metadata :: segment_metadata

datatype header_compression = HNone | HLz4 | HZstd | HSnappy

record segment_header =
  sh_version :: u32
  sh_doc_count :: u32
  sh_checksum :: u32
  sh_compression :: header_compression

definition header_version :: u32 where
  "header_version = 1"

definition header_size :: nat where
  "header_size = 24"

definition segment_header_new :: "u32 \<Rightarrow> segment_header" where
  "segment_header_new doc_count =
     \<lparr>sh_version = header_version, sh_doc_count = doc_count, sh_checksum = 0, sh_compression = HNone\<rparr>"

text \<open>The file names of \<^verbatim>\<open>StorageLayout\<close>.\<close>

datatype path = SegmentPath segment_id | IndexPath segment_id | WalPath u64 | CheckpointPath

record world =
  w_files :: "path \<rightharpoonup> byte_vec"
  w_next_id :: segment_id

definition segment_id_new :: "world \<Rightarrow> segment_id \<times> world" where
  "segment_id_new w = (w_next_id w, w\<lparr>w_next_id := w_next_id w + 1\<rparr>)"

definition write_file :: "world \<Rightarrow> path \<Rightarrow> byte_vec \<Rightarrow> world" where
  "write_file w p bs = w\<lparr>w_files := (w_files w)(p \<mapsto> bs)\<rparr>"

definition file_content :: "world \<Rightarrow> path \<Rightarrow> byte_vec" where
  "file_content w p = (case w_files w p of Some bs \<Rightarrow> bs | None \<Rightarrow> [])"

definition append_file :: "world \<Rightarrow> path \<Rightarrow> byte_vec \<Rightarrow> world" where
  "append_file w p bs = write_file w p (file_content w p @ bs)"

text \<open>Writing at the start of a file replaces as many bytes as are written.\<close>

definition overwrite_start :: "world \<Rightarrow> path \<Rightarrow> byte_vec \<Rightarrow> world" where
  "overwrite_start w p bs = write_file w p (bs @ drop (length bs) (file_content w p))"

record codec =
  ser_header :: "segment_header \<Rightarrow> byte_vec"
  de_header_from :: "byte_vec \<Rightarrow> (segment_header \<times> byte_vec) result"
  ser_block :: "compressed_block \<Rightarrow> byte_vec"
  de_block :: "byte_vec \<Rightarrow> compressed_block result"
  ser_doc :: "document \<Rightarrow> byte_vec"
  de_doc :: "byte_vec \<Rightarrow> document result"
  ser_index :: "(string \<times> posting list) list \<Rightarrow> byte_vec"
  crc32 :: "byte_vec \<Rightarrow> u32"
  codec_compressors :: compressors

subsection \<open>Writing a segment\<close>

record segment_writer =
  sw_segment :: segment
  sw_buffer :: byte_vec
  sw_hashed :: byte_vec
  sw_inverted_index :: "(string \<times> posting list) list"
  sw_compression :: compression_type

definition sw_path :: "segment_writer \<Rightarrow> path" where
  "sw_path sw = SegmentPath (sg_id (sw_segment sw))"

definition segment_writer_new ::
  "codec \<Rightarrow> world \<Rightarrow> segment_id \<Rightarrow> compression_type \<Rightarrow> segment_writer \<times> world" where
  "segment_writer_new cd w i compression =
     (\<lparr>sw_segment = \<lparr>sg_id = i, sg_doc_count = 0,
         sg_metadata = \<lparr>sm_size_bytes = 0, sm_min_doc_id = - 1, sm_max_doc_id = 0\<rparr>\<rparr>,
       sw_buffer = [], sw_hashed = [], sw_inverted_index = [], sw_compression = compression\<rparr>,
      write_file w (SegmentPath i) (ser_header cd (segment_header_new 0)))"

fun push_posting :: "string \<Rightarrow> posting \<Rightarrow> (string \<times> posting list) list \<Rightarrow> (string \<times> posting list) list" where
  "push_posting t p [] = [(t, [p])]"
| "push_posting t p ((k, ps) # entries) =
     (if k = t then (k, ps @ [p]) # entries else (k, ps) # push_posting t p entries)"

definition add_index_entry :: "segment_writer \<Rightarrow> string \<Rightarrow> posting \<Rightarrow> segment_writer" where
  "add_index_entry self t p = self\<lparr>sw_inverted_index := push_posting t p (sw_inverted_index self)\<rparr>"

definition sw_flush :: "world \<Rightarrow> segment_writer \<Rightarrow> segment_writer \<times> world" where
  "sw_flush w self =
     (if sw_buffer self \<noteq> []
      then (self\<lparr>sw_hashed := sw_hashed self @ sw_buffer self, sw_buffer := []\<rparr>,
            append_file w (sw_path self) (sw_buffer self))
      else (self, w))"

definition note_document :: "segment \<Rightarrow> document \<Rightarrow> segment" where
  "note_document s d =
     s\<lparr>sg_doc_count := sg_doc_count s + 1,
       sg_metadata := (sg_metadata s)\<lparr>sm_min_doc_id := min (sm_min_doc_id (sg_metadata s)) (d_id d),
                                      sm_max_doc_id := max (sm_max_doc_id (sg_metadata s)) (d_id d)\<rparr>\<rparr>"

definition write_document ::
  "codec \<Rightarrow> world \<Rightarrow> segment_writer \<Rightarrow> document \<Rightarrow> (u64 \<times> segment_writer \<times> world) result" where
  "write_document cd w self doc =
     and_then (compress (codec_compressors cd) (ser_doc cd doc) (sw_compression self)) (\<lambda>compressed.
       let block_data = ser_block cd compressed;
           len = of_nat (length block_data) :: u32;
           offset = of_nat (length (sw_buffer self)) :: u64;
           self = self\<lparr>sw_buffer := sw_buffer self @ to_le_bytes_u32 len @ block_data,
                       sw_segment := note_document (sw_segment self) doc\<rparr>;
           (self, w) = (if length (sw_buffer self) > 1024 * 1024 then sw_flush w self else (self, w))
       in Ok (offset, self, w))"

definition segment_header_compression :: "compression_type \<Rightarrow> header_compression" where
  "segment_header_compression c =
     (case c of CompNone \<Rightarrow> HNone | LZ4 \<Rightarrow> HLz4 | Zstd \<Rightarrow> HZstd | Snappy \<Rightarrow> HSnappy)"

definition write_inverted_index :: "codec \<Rightarrow> world \<Rightarrow> segment_writer \<Rightarrow> unit result \<times> world" where
  "write_inverted_index cd w self =
     (let w = write_file w (IndexPath (sg_id (sw_segment self))) [];
          sorted_index = map (\<lambda>(t, ps). (t, sort_key doc_id ps)) (sw_inverted_index self)
      in case compress (codec_compressors cd) (ser_index cd sorted_index) (sw_compression self) of
           Inl e \<Rightarrow> (Inl e, w)
         | Inr compressed \<Rightarrow>
             (Ok (), write_file w (IndexPath (sg_id (sw_segment self))) (ser_block cd compressed)))"

definition sw_finish :: "codec \<Rightarrow> world \<Rightarrow> segment_writer \<Rightarrow> segment result \<times> world" where
  "sw_finish cd w self =
     (let (self, w) = sw_flush w self;
          header = (segment_header_new (sg_doc_count (sw_segment self)))
                     \<lparr>sh_checksum := crc32 cd (sw_hashed self),
                      sh_compression := segment_header_compression (sw_compression self)\<rparr>;
          w = overwrite_start w (sw_path self) (ser_header cd header);
          s = (sw_segment self)\<lparr>sg_metadata := (sg_metadata (sw_segment self))
                \<lparr>sm_size_bytes := length (file_content w (sw_path self))\<rparr>\<rparr>;
          (r, w) = (if sw_inverted_index self \<noteq> [] then write_inverted_index cd w self else (Ok (), w))
      in (and_then r (\<lambda>_. Ok s), w))"

subsection \<open>Reading a segment\<close>

record segment_reader =
  rd_segment_id :: segment_id
  rd_header :: segment_header
  rd_file :: byte_vec

definition read_exact :: "nat \<Rightarrow> byte_vec \<Rightarrow> (byte_vec \<times> byte_vec) option" where
  "read_exact n bs = (if n \<le> length bs then Some (take n bs, drop n bs) else None)"

definition io_eof :: error where
  "io_eof = Error Io ''failed to fill whole buffer''"

definition segment_open :: "codec \<Rightarrow> world \<Rightarrow> segment_id \<Rightarrow> segment_reader result" where
  "segment_open cd w i =
     (case w_files w (SegmentPath i) of
        None \<Rightarrow> Err (Error Io ''No such file or directory'')
      | Some file \<Rightarrow>
          (case de_header_from cd file of
             Inl e \<Rightarrow> Err (Error Parse ''Failed to read header'')
           | Inr (header, rest) \<Rightarrow>
               if sh_version header \<noteq> header_version
               then Err (Error InvalidArgument ''Incompatible segment version'')
               else Ok \<lparr>rd_segment_id = i, rd_header = header, rd_file = file\<rparr>))"

text \<open>
  Reading one record from the current position: nothing at the end of the file, otherwise the
  document with the remaining bytes, or the error of one of the decoding steps.
\<close>

definition read_body :: "codec \<Rightarrow> nat \<Rightarrow> byte_vec \<Rightarrow> (document \<times> byte_vec) result" where
  "read_body cd len bs =
     (case read_exact len bs of
        None \<Rightarrow> Err io_eof
      | Some (block_buf, rest) \<Rightarrow>
          and_then (de_block cd block_buf) (\<lambda>block.
          and_then (decompress (codec_compressors cd) block) (\<lambda>decompressed.
          and_then (de_doc cd decompressed) (\<lambda>doc. Ok (doc, rest)))))"

definition read_record :: "codec \<Rightarrow> byte_vec \<Rightarrow> (document \<times> byte_vec) result option" where
  "read_record cd bs =
     (case read_exact 4 bs of
        None \<Rightarrow> None
      | Some (len_buf, rest) \<Rightarrow>
          Some (read_body cd (unat (from_le_bytes_u32 (len_buf ! 0) (len_buf ! 1) (len_buf ! 2) (len_buf ! 3)))
                  rest))"

text \<open>The scan of \<^verbatim>\<open>SegmentSearch::search\<close>, from the end of the header.\<close>

fun search_loop ::
  "codec \<Rightarrow> 'm match_context \<Rightarrow> query \<Rightarrow> nat \<Rightarrow> byte_vec \<Rightarrow> scored_document list
     \<Rightarrow> scored_document list result" where
  "search_loop cd cx q 0 bs results = Ok results"
| "search_loop cd cx q (Suc n) bs results =
     (case read_record cd bs of
        None \<Rightarrow> Ok results
      | Some r \<Rightarrow>
          and_then r (\<lambda>(doc, rest).
          and_then (matches cx doc q) (\<lambda>b.
            search_loop cd cx q n rest
              (if b then results @ [\<lparr>sd_doc_id = d_id doc, sd_score = Fin 1, sd_document = Some doc,
                                     sd_explanation = None\<rparr>]
               else results))))"

definition segment_search ::
  "codec \<Rightarrow> 'm match_context \<Rightarrow> segment_reader \<Rightarrow> query \<Rightarrow> scored_document list result" where
  "segment_search cd cx self q =
     and_then (de_header_from cd (rd_file self)) (\<lambda>(header, rest).
       search_loop cd cx q (unat (sh_doc_count (rd_header self))) rest [])"

text \<open>
  The lazy iterator, which seeks to the constant header size: the items it yields until it is
  exhausted.  An error item does not end the iteration.
\<close>

fun iter_loop :: "codec \<Rightarrow> nat \<Rightarrow> byte_vec \<Rightarrow> document result list" where
  "iter_loop cd 0 bs = []"
| "iter_loop cd (Suc n) bs =
     (case read_record cd bs of
        None \<Rightarrow> []
      | Some (Inr (doc, rest)) \<Rightarrow> Ok doc # iter_loop cd n rest
      | Some (Inl e) \<Rightarrow>
          Err e # iter_loop cd n
            (drop (4 + unat (from_le_bytes_u32 (bs ! 0) (bs ! 1) (bs ! 2) (bs ! 3))) bs))"

definition iter_documents :: "codec \<Rightarrow> segment_reader \<Rightarrow> document result list" where
  "iter_documents cd self =
     iter_loop cd (unat (sh_doc_count (rd_header self))) (drop header_size (rd_file self))"

fun get_loop :: "codec \<Rightarrow> doc_id \<Rightarrow> nat \<Rightarrow> byte_vec \<Rightarrow> document option result" where
  "get_loop cd d 0 bs = Ok None"
| "get_loop cd d (Suc n) bs =
     (case read_record cd bs of
        None \<Rightarrow> Err io_eof
      | Some r \<Rightarrow>
          and_then r (\<lambda>(doc, rest). if d_id doc = d then Ok (Some doc) else get_loop cd d n rest))"

definition get_document :: "codec \<Rightarrow> segment_reader \<Rightarrow> doc_id \<Rightarrow> document option result" where
  "get_document cd self d =
     get_loop cd d (unat (sh_doc_count (rd_header self))) (drop header_size (rd_file self))"

text \<open>\<^verbatim>\<open>DiskSegmentStore::iter_documents\<close>: the items of the iterator without deleted documents.\<close>

definition store_iter_documents ::
  "codec \<Rightarrow> world \<Rightarrow> segment \<Rightarrow> u32 set \<Rightarrow> document result list result" where
  "store_iter_documents cd w s deleted =
     and_then (segment_open cd w (sg_id s)) (\<lambda>reader.
       Ok (filter (\<lambda>item. case item of Inr doc \<Rightarrow> ucast (d_id doc) \<notin> deleted | Inl _ \<Rightarrow> True)
             (iter_documents cd reader)))"

subsection \<open>The serialisation contract\<close>

text \<open>
  What the code relies on in \<^verbatim>\<open>bincode\<close> and the compressors, for the documents of one segment: a
  header has a fixed size and is read back from the front of the bytes that follow; a document, its
  compressed block and the block's bytes are read back; and the block's length fits the 32-bit
  length prefix.
\<close>

definition document_laws :: "codec \<Rightarrow> compression_type \<Rightarrow> document \<Rightarrow> bool" where
  "document_laws cd c d \<longleftrightarrow>
     (case compress (codec_compressors cd) (ser_doc cd d) c of
        Inl _ \<Rightarrow> False
      | Inr b \<Rightarrow>
          decompress (codec_compressors cd) b = Ok (ser_doc cd d) \<and>
          de_block cd (ser_block cd b) = Ok b \<and> de_doc cd (ser_doc cd d) = Ok d \<and>
          length (ser_block cd b) < 2 ^ 32)"

definition header_laws :: "codec \<Rightarrow> bool" where
  "header_laws cd \<longleftrightarrow>
     (\<forall>h rest. de_header_from cd (ser_header cd h @ rest) = Ok (h, rest)) \<and>
     (\<forall>h h'. length (ser_header cd h) = length (ser_header cd h'))"

definition record_bytes :: "codec \<Rightarrow> compression_type \<Rightarrow> document \<Rightarrow> byte_vec" where
  "record_bytes cd c d =
     (case compress (codec_compressors cd) (ser_doc cd d) c of
        Inl _ \<Rightarrow> []
      | Inr b \<Rightarrow> to_le_bytes_u32 (of_nat (length (ser_block cd b))) @ ser_block cd b)"

lemma read_exact_4: "read_exact 4 ([a, b, c, d] @ bs) = Some ([a, b, c, d], bs)"
  by (simp add: read_exact_def)

lemma read_record_bytes:
  assumes "document_laws cd c d"
  shows "read_record cd (record_bytes cd c d @ rest) = Some (Ok (d, rest))"
proof -
  obtain b where b: "compress (codec_compressors cd) (ser_doc cd d) c = Ok b"
    "decompress (codec_compressors cd) b = Ok (ser_doc cd d)" "de_block cd (ser_block cd b) = Ok b"
    "de_doc cd (ser_doc cd d) = Ok d" "length (ser_block cd b) < 2 ^ 32"
    using assms by (auto simp: document_laws_def split: sum.splits)
  define n where "n = (of_nat (length (ser_block cd b)) :: u32)"
  have n: "unat n = length (ser_block cd b)"
    using b(5) by (simp add: n_def unat_of_nat)
  have bytes: "record_bytes cd c d @ rest =
      [ucast n, ucast (drop_bit 8 n), ucast (drop_bit 16 n), ucast (drop_bit 24 n)] @ ser_block cd b @ rest"
    by (simp add: record_bytes_def b(1) n_def to_le_bytes_u32_def)
  have "read_record cd (record_bytes cd c d @ rest) = Some (read_body cd (unat n) (ser_block cd b @ rest))"
    unfolding bytes read_record_def read_exact_4 by simp
  also have "read_body cd (unat n) (ser_block cd b @ rest) = Ok (d, rest)"
    by (simp add: n read_body_def read_exact_def b)
  finally show ?thesis .
qed

subsection \<open>The writer's invariant\<close>

text \<open>
  After writing \<open>docs\<close>, the file holds the placeholder header and then, together with the buffer,
  the records of the documents; the hashed bytes are those already in the file.
\<close>

definition writer_holds :: "codec \<Rightarrow> world \<Rightarrow> segment_writer \<Rightarrow> document list \<Rightarrow> bool" where
  "writer_holds cd w sw docs \<longleftrightarrow>
     w_files w (sw_path sw) = Some (ser_header cd (segment_header_new 0) @ sw_hashed sw) \<and>
     sw_hashed sw @ sw_buffer sw = concat (map (record_bytes cd (sw_compression sw)) docs) \<and>
     sg_doc_count (sw_segment sw) = of_nat (length docs)"

lemma writer_holds_new:
  "segment_writer_new cd w i c = (sw, w') \<Longrightarrow>
     writer_holds cd w' sw [] \<and> sw_compression sw = c \<and> sg_id (sw_segment sw) = i \<and>
     sw_inverted_index sw = []"
  by (auto simp: segment_writer_new_def writer_holds_def sw_path_def write_file_def)

lemma writer_holds_flush:
  "writer_holds cd w sw docs \<Longrightarrow> sw_flush w sw = (sw', w') \<Longrightarrow>
     writer_holds cd w' sw' docs \<and> sw_buffer sw' = [] \<and> sw_compression sw' = sw_compression sw \<and>
     sw_segment sw' = sw_segment sw \<and> sw_inverted_index sw' = sw_inverted_index sw"
  by (auto simp: sw_flush_def writer_holds_def sw_path_def append_file_def write_file_def
      file_content_def split: if_splits)

lemma write_document_holds:
  assumes "writer_holds cd w sw docs" "document_laws cd (sw_compression sw) d"
  shows "\<exists>off sw' w'. write_document cd w sw d = Ok (off, sw', w') \<and> writer_holds cd w' sw' (docs @ [d]) \<and>
           sw_compression sw' = sw_compression sw \<and> sg_id (sw_segment sw') = sg_id (sw_segment sw) \<and>
           sw_inverted_index sw' = sw_inverted_index sw"
proof -
  obtain b where b: "compress (codec_compressors cd) (ser_doc cd d) (sw_compression sw) = Ok b"
    using assms(2) by (auto simp: document_laws_def split: sum.splits)
  define sw1 where "sw1 = sw\<lparr>sw_buffer := sw_buffer sw @ to_le_bytes_u32 (of_nat (length (ser_block cd b))) @ ser_block cd b,
      sw_segment := note_document (sw_segment sw) d\<rparr>"
  have sw1: "writer_holds cd w sw1 (docs @ [d])"
    using assms(1) b by (simp add: writer_holds_def sw1_def sw_path_def note_document_def record_bytes_def)
  have same: "sw_compression sw1 = sw_compression sw" "sg_id (sw_segment sw1) = sg_id (sw_segment sw)"
    "sw_inverted_index sw1 = sw_inverted_index sw"
    by (simp_all add: sw1_def note_document_def)
  have written: "write_document cd w sw d =
      (case if length (sw_buffer sw1) > 1024 * 1024 then sw_flush w sw1 else (sw1, w) of
         (sw', w') \<Rightarrow> Ok (of_nat (length (sw_buffer sw)), sw', w'))"
    unfolding write_document_def b and_then_simps Let_def sw1_def ..
  show ?thesis
  proof (cases "length (sw_buffer sw1) > 1024 * 1024")
    case True
    obtain sw2 w2 where fl: "sw_flush w sw1 = (sw2, w2)" by fastforce
    with True written writer_holds_flush [OF sw1 fl] same show ?thesis by auto
  next
    case False
    with written sw1 same show ?thesis by auto
  qed
qed

fun write_documents :: "codec \<Rightarrow> world \<Rightarrow> segment_writer \<Rightarrow> document list \<Rightarrow> (segment_writer \<times> world) result" where
  "write_documents cd w sw [] = Ok (sw, w)"
| "write_documents cd w sw (d # ds) =
     and_then (write_document cd w sw d) (\<lambda>(off, sw', w'). write_documents cd w' sw' ds)"

lemma write_documents_holds:
  assumes "writer_holds cd w sw docs" "\<forall>d \<in> set ds. document_laws cd (sw_compression sw) d"
  shows "\<exists>sw' w'. write_documents cd w sw ds = Ok (sw', w') \<and> writer_holds cd w' sw' (docs @ ds) \<and>
           sw_compression sw' = sw_compression sw \<and> sg_id (sw_segment sw') = sg_id (sw_segment sw) \<and>
           sw_inverted_index sw' = sw_inverted_index sw"
  using assms
proof (induction ds arbitrary: w sw docs)
  case (Cons d ds)
  then obtain off sw1 w1 where step: "write_document cd w sw d = Ok (off, sw1, w1)"
    "writer_holds cd w1 sw1 (docs @ [d])" "sw_compression sw1 = sw_compression sw"
    "sg_id (sw_segment sw1) = sg_id (sw_segment sw)" "sw_inverted_index sw1 = sw_inverted_index sw"
    using write_document_holds [of cd w sw docs d] by auto
  with Cons.IH [OF step(2)] Cons.prems(2) show ?case by auto
qed simp

text \<open>What a finished segment file looks like.\<close>

definition segment_file_holds :: "codec \<Rightarrow> world \<Rightarrow> segment_id \<Rightarrow> compression_type \<Rightarrow> document list \<Rightarrow> bool" where
  "segment_file_holds cd w i c docs \<longleftrightarrow>
     (\<exists>h. w_files w (SegmentPath i) = Some (ser_header cd h @ concat (map (record_bytes cd c) docs)) \<and>
          sh_version h = header_version \<and> sh_doc_count h = of_nat (length docs))"

lemma sw_finish_holds:
  assumes "writer_holds cd w sw docs" "header_laws cd" "sw_inverted_index sw = []"
  shows "\<exists>s w'. sw_finish cd w sw = (Ok s, w') \<and> sg_id s = sg_id (sw_segment sw) \<and>
           sg_doc_count s = of_nat (length docs) \<and>
           segment_file_holds cd w' (sg_id s) (sw_compression sw) docs"
proof -
  obtain sw1 w1 where fl: "sw_flush w sw = (sw1, w1)" by fastforce
  note holds = writer_holds_flush [OF assms(1) fl]
  define h where "h = (segment_header_new (sg_doc_count (sw_segment sw1)))\<lparr>sh_checksum := crc32 cd (sw_hashed sw1),
      sh_compression := segment_header_compression (sw_compression sw1)\<rparr>"
  have content: "file_content w1 (sw_path sw1) = ser_header cd (segment_header_new 0) @ sw_hashed sw1"
    using holds by (simp add: writer_holds_def file_content_def)
  have "length (ser_header cd h) = length (ser_header cd (segment_header_new 0))"
    using assms(2) unfolding header_laws_def by blast
  then have w2: "overwrite_start w1 (sw_path sw1) (ser_header cd h) =
      write_file w1 (sw_path sw1) (ser_header cd h @ sw_hashed sw1)"
    by (simp add: overwrite_start_def content)
  have same: "sw_segment sw1 = sw_segment sw" "sw_inverted_index sw1 = []" "sg_doc_count (sw_segment sw) = of_nat (length docs)"
    using holds assms by (auto simp: writer_holds_def)
  obtain m where "sw_finish cd w sw =
      (Ok ((sw_segment sw)\<lparr>sg_metadata := m\<rparr>), write_file w1 (sw_path sw1) (ser_header cd h @ sw_hashed sw1))"
    unfolding sw_finish_def fl Let_def prod.case h_def [symmetric] w2 using same by simp
  moreover have "sh_version h = header_version" "sh_doc_count h = of_nat (length docs)"
    using holds by (auto simp: h_def segment_header_new_def writer_holds_def)
  moreover have "sw_hashed sw1 = concat (map (record_bytes cd (sw_compression sw)) docs)"
    using holds by (auto simp: writer_holds_def)
  ultimately show ?thesis
    using same by (auto simp: segment_file_holds_def write_file_def sw_path_def)
qed

subsection \<open>Reading back\<close>

definition hit :: "document \<Rightarrow> scored_document" where
  "hit d = \<lparr>sd_doc_id = d_id d, sd_score = Fin 1, sd_document = Some d, sd_explanation = None\<rparr>"

lemma search_loop_records:
  assumes "\<forall>d \<in> set docs. document_laws cd c d \<and> matches cx d q = Ok (P d)"
  shows "search_loop cd cx q (length docs) (concat (map (record_bytes cd c) docs) @ rest) acc =
           Ok (acc @ map hit (filter P docs))"
  using assms
  by (induction docs arbitrary: acc) (simp_all add: read_record_bytes hit_def)

lemma segment_open_holds:
  assumes "segment_file_holds cd w i c docs" "header_laws cd" "length docs < 2 ^ 32"
  shows "\<exists>rd h. segment_open cd w i = Ok rd \<and> rd_segment_id rd = i \<and>
           unat (sh_doc_count (rd_header rd)) = length docs \<and>
           rd_file rd = ser_header cd h @ concat (map (record_bytes cd c) docs) \<and>
           de_header_from cd (rd_file rd) = Ok (h, concat (map (record_bytes cd c) docs))"
  using assms by (auto simp: segment_file_holds_def segment_open_def header_laws_def unat_of_nat)

lemma segment_search_holds:
  assumes "segment_file_holds cd w i c docs" "header_laws cd" "length docs < 2 ^ 32"
    "\<forall>d \<in> set docs. document_laws cd c d \<and> matches cx d q = Ok (P d)" "segment_open cd w i = Ok rd"
  shows "segment_search cd cx rd q = Ok (map hit (filter P docs))"
  using segment_open_holds [OF assms(1-3)] assms(5) search_loop_records [OF assms(4), of "[]" "[]"]
  by (auto simp: segment_search_def)

text \<open>The life of a segment: a fresh id, a writer, the documents, the final header.\<close>

definition write_segment ::
  "codec \<Rightarrow> world \<Rightarrow> compression_type \<Rightarrow> document list \<Rightarrow> segment result \<times> world" where
  "write_segment cd w c docs =
     (let (i, w) = segment_id_new w;
          (sw, w) = segment_writer_new cd w i c
      in case write_documents cd w sw docs of
           Inl e \<Rightarrow> (Inl e, w)
         | Inr (sw, w) \<Rightarrow> sw_finish cd w sw)"

lemma write_segment_holds:
  assumes "header_laws cd" "\<forall>d \<in> set docs. document_laws cd c d"
  shows "\<exists>s w'. write_segment cd w c docs = (Ok s, w') \<and> sg_id s = w_next_id w \<and>
           sg_doc_count s = of_nat (length docs) \<and> segment_file_holds cd w' (sg_id s) c docs"
proof -
  obtain i w1 where i: "segment_id_new w = (i, w1)" "i = w_next_id w" by (simp add: segment_id_new_def)
  obtain sw w2 where sw: "segment_writer_new cd w1 i c = (sw, w2)" by fastforce
  note new = writer_holds_new [OF sw]
  obtain sw' w3 where ws: "write_documents cd w2 sw docs = Ok (sw', w3)" "writer_holds cd w3 sw' docs"
    "sw_compression sw' = c" "sg_id (sw_segment sw') = i" "sw_inverted_index sw' = []"
    using write_documents_holds [of cd w2 sw "[]" docs] new assms(2) by auto
  show ?thesis
    using sw_finish_holds [OF ws(2) assms(1) ws(5)] ws i sw
    by (auto simp: write_segment_def)
qed

text \<open>
  C7: writing documents to a new segment and searching the finished file returns, for every query,
  exactly the documents that match it, unchanged and in the order they were written, with every
  compression: the header that is written last over the placeholder disturbs no document, and
  flushing the buffer in between loses nothing.  It relies on the documented behaviour of the
  serialisation and compression libraries for these documents.
\<close>

theorem segment_roundtrip:
  assumes "header_laws cd" "\<forall>d \<in> set docs. document_laws cd c d" "length docs < 2 ^ 32"
    "index_ok (mx_index cx)"
  shows "\<exists>s w' rd. write_segment cd w c docs = (Ok s, w') \<and> unat (sg_doc_count s) = length docs \<and>
           segment_open cd w' (sg_id s) = Ok rd \<and>
           (\<forall>q. segment_search cd cx rd q = Ok (map hit (filter (\<lambda>d. satisfies cx d q) docs)))"
proof -
  obtain s w' where s: "write_segment cd w c docs = (Ok s, w')" "sg_doc_count s = of_nat (length docs)"
    "segment_file_holds cd w' (sg_id s) c docs"
    using write_segment_holds [OF assms(1,2)] by blast
  then obtain rd where rd: "segment_open cd w' (sg_id s) = Ok rd"
    using segment_open_holds [OF s(3) assms(1,3)] by blast
  have laws: "\<forall>d \<in> set docs. document_laws cd c d \<and> matches cx d q = Ok (satisfies cx d q)" for q
    using assms(2,4) matches_total by blast
  have "segment_search cd cx rd q = Ok (map hit (filter (\<lambda>d. satisfies cx d q) docs))" for q
    by (rule segment_search_holds [OF s(3) assms(1,3) laws rd])
  moreover have "unat (sg_doc_count s) = length docs"
    using s(2) assms(3) by (simp add: unat_of_nat)
  ultimately show ?thesis
    using s(1) rd by blast
qed

subsection \<open>Access through the fixed header size\<close>

text \<open>
  The layout that \<^verbatim>\<open>bincode\<close> documents: a header of four 32-bit numbers takes sixteen bytes, a block
  starts with the length of its data as a 64-bit number, low half first, and no block can be read
  from no bytes.
\<close>

definition bincode_layout :: "codec \<Rightarrow> bool" where
  "bincode_layout cd \<longleftrightarrow>
     (\<forall>h. length (ser_header cd h) = 16) \<and>
     (\<forall>b. length (ser_block cd b) < 2 ^ 32 \<longrightarrow>
        (\<exists>low tail. length low = 4 \<and> ser_block cd b = low @ [0, 0, 0, 0] @ tail)) \<and>
     isl (de_block cd [])"

lemma header_size_misread:
  assumes "bincode_layout cd" "header_laws cd" "\<forall>d \<in> set docs. document_laws cd c d"
    "length docs < 2 ^ 32" "docs \<noteq> []"
    "segment_file_holds cd w i c docs" "segment_open cd w i = Ok rd"
  shows "(\<exists>e. get_document cd rd d = Err e) \<and> (\<exists>e items. iter_documents cd rd = Err e # items)"
proof -
  obtain h where rd: "unat (sh_doc_count (rd_header rd)) = length docs"
    "rd_file rd = ser_header cd h @ concat (map (record_bytes cd c) docs)"
    using segment_open_holds [OF assms(6,2,4)] assms(7) by auto
  obtain d0 ds where docs: "docs = d0 # ds" using assms(5) by (cases docs) auto
  obtain b where b: "compress (codec_compressors cd) (ser_doc cd d0) c = Ok b"
    "length (ser_block cd b) < 2 ^ 32"
    using assms(3) docs by (auto simp: document_laws_def split: sum.splits)
  obtain low tail where block: "length low = 4" "ser_block cd b = low @ [0, 0, 0, 0] @ tail"
    using assms(1) b(2) unfolding bincode_layout_def by blast
  obtain e where e: "de_block cd [] = Err e"
    using assms(1) by (auto simp: bincode_layout_def isl_def)
  have "length (ser_header cd h) = 16" using assms(1) by (simp add: bincode_layout_def)
  then have pos: "drop header_size (rd_file rd) = [0, 0, 0, 0] @ tail @ concat (map (record_bytes cd c) ds)"
    using block by (simp add: rd(2) docs record_bytes_def b(1) header_size_def)
  have "from_le_bytes_u32 0 0 0 0 = 0" by (simp add: from_le_bytes_u32_def)
  then have "read_record cd (drop header_size (rd_file rd)) = Some (Err e)"
    unfolding pos read_record_def read_exact_4 by (simp add: read_body_def read_exact_def e)
  then show ?thesis
    unfolding get_document_def iter_documents_def rd(1) docs by simp
qed

text \<open>
  With that layout the iterator and the lookup by id fail on every segment that has a
  document: they skip 24 bytes where the header has 16, read the length of the first record from
  the middle of it, and get an error instead of a document.  Compaction and merging, which iterate,
  cannot read any segment.
\<close>

theorem fixed_header_size_misreads:
  assumes "bincode_layout cd" "header_laws cd" "\<forall>d \<in> set docs. document_laws cd c d"
    "length docs < 2 ^ 32" "docs \<noteq> []"
    "segment_file_holds cd w i c docs" "segment_open cd w i = Ok rd"
  shows "(\<exists>e. get_document cd rd d = Err e) \<and> (\<exists>e items. iter_documents cd rd = Err e # items)"
  by (rule header_size_misread [OF assms])

subsection \<open>A concrete codec\<close>

text \<open>
  A small instance of the parameter in the layout of \<^verbatim>\<open>bincode\<close>, for documents without fields, with
  uncompressed blocks: it shows that the laws can hold.
\<close>

definition compression_tag :: "header_compression \<Rightarrow> u32" where
  "compression_tag c = (case c of HNone \<Rightarrow> 0 | HLz4 \<Rightarrow> 1 | HZstd \<Rightarrow> 2 | HSnappy \<Rightarrow> 3)"

definition tag_compression :: "u32 \<Rightarrow> header_compression" where
  "tag_compression n = (if n = 0 then HNone else if n = 1 then HLz4 else if n = 2 then HZstd else HSnappy)"

fun read_u32 :: "byte_vec \<Rightarrow> (u32 \<times> byte_vec) result" where
  "read_u32 (b0 # b1 # b2 # b3 # rest) = Ok (from_le_bytes_u32 b0 b1 b2 b3, rest)"
| "read_u32 bs = Err io_eof"

lemma read_u32_to_le [simp]: "read_u32 (to_le_bytes_u32 v @ rest) = Ok (v, rest)"
  by (simp add: to_le_bytes_u32_def)

lemma tag_compression_tag [simp]: "tag_compression (compression_tag c) = c"
  by (cases c) (simp_all add: tag_compression_def compression_tag_def)

definition plain_codec :: codec where
  "plain_codec =
     \<lparr>ser_header = (\<lambda>h. to_le_bytes_u32 (sh_version h) @ to_le_bytes_u32 (sh_doc_count h) @
         to_le_bytes_u32 (sh_checksum h) @ to_le_bytes_u32 (compression_tag (sh_compression h))),
      de_header_from = (\<lambda>bs.
         and_then (read_u32 bs) (\<lambda>(v, bs). and_then (read_u32 bs) (\<lambda>(n, bs).
         and_then (read_u32 bs) (\<lambda>(k, bs). and_then (read_u32 bs) (\<lambda>(c, bs).
           Ok (\<lparr>sh_version = v, sh_doc_count = n, sh_checksum = k, sh_compression = tag_compression c\<rparr>, bs)))))),
      ser_block = (\<lambda>b. to_le_bytes_u32 (of_nat (length (cb_data b))) @ [0, 0, 0, 0] @ cb_data b),
      de_block = (\<lambda>bs. if length bs < 8 then Err io_eof
         else Ok \<lparr>cb_data = drop 8 bs, cb_original_size = length (drop 8 bs), cb_compression = CompNone\<rparr>),
      ser_doc = (\<lambda>d. to_le_bytes_u32 (ucast (d_id d))),
      de_doc = (\<lambda>bs. and_then (read_u32 bs) (\<lambda>(v, rest). Ok (document_new (ucast v)))),
      ser_index = (\<lambda>ix. []), crc32 = (\<lambda>bs. 0), codec_compressors = store_only\<rparr>"

lemma plain_codec_header_laws: "header_laws plain_codec"
  by (simp add: header_laws_def plain_codec_def)

lemma plain_codec_document_laws:
  "small_id i \<Longrightarrow> document_laws plain_codec CompNone (document_new i)"
  using read_u32_to_le [of _ "[]"]
  by (simp add: document_laws_def plain_codec_def compress_def decompress_def document_new_def small_id_iff)

lemma plain_codec_layout: "bincode_layout plain_codec"
  by (auto simp: bincode_layout_def plain_codec_def intro!: exI)

definition empty_world :: world where
  "empty_world = \<lparr>w_files = Map.empty, w_next_id = 0\<rparr>"

theorem segment_roundtrip_witness:
  "\<exists>s w' rd. write_segment plain_codec empty_world CompNone [document_new 4, document_new 5] = (Ok s, w') \<and>
     segment_open plain_codec w' (sg_id s) = Ok rd \<and>
     segment_search plain_codec empty_context rd MatchAll = Ok [hit (document_new 4), hit (document_new 5)]"
proof -
  have "\<forall>d \<in> set [document_new 4, document_new 5]. document_laws plain_codec CompNone d"
    by (simp add: plain_codec_document_laws small_id_def)
  moreover have "index_ok (mx_index empty_context)" by (simp add: empty_context_def index_ok_new)
  ultimately show ?thesis
    using segment_roundtrip [OF plain_codec_header_laws, of "[document_new 4, document_new 5]" CompNone
        empty_context empty_world]
    by (fastforce simp: satisfies_def)
qed

theorem fixed_header_size_misreads_witness:
  "\<exists>s w' rd e. write_segment plain_codec empty_world CompNone [document_new 4] = (Ok s, w') \<and>
     segment_open plain_codec w' (sg_id s) = Ok rd \<and> get_document plain_codec rd 4 = Err e"
proof -
  have laws: "\<forall>d \<in> set [document_new 4]. document_laws plain_codec CompNone d"
    by (simp add: plain_codec_document_laws small_id_def)
  obtain s w' where s: "write_segment plain_codec empty_world CompNone [document_new 4] = (Ok s, w')"
    "segment_file_holds plain_codec w' (sg_id s) CompNone [document_new 4]"
    using write_segment_holds [OF plain_codec_header_laws laws] by blast
  then obtain rd where rd: "segment_open plain_codec w' (sg_id s) = Ok rd"
    using segment_open_holds [OF s(2) plain_codec_header_laws] by auto
  then show ?thesis
    using fixed_header_size_misreads [OF plain_codec_layout plain_codec_header_laws laws _ _ s(2) rd, of 4] s(1)
    by auto
qed

end
