(* ===== verification/Mvcc.thy ===== *)
theory Mvcc
  imports Segment_Files
begin

section \<open>Multi-version concurrency control\<close>

text \<open>
  The model of \<^verbatim>\<open>src/mvcc/controller.rs\<close>.  The \<^verbatim>\<open>BTreeMap\<close> of versions is an association list in
  ascending order of its keys.  \<open>mv_pins v\<close> counts the live clones of the snapshot of version \<open>v\<close>
  outside the map, so a lease's strong count is one more; the lease map has the same keys as the
  version map and is not kept separately.  The set of deleted documents is the set of 32-bit values
  of the roaring bitmap.  Time stamps are left out.
\<close>

record snapshot =
  sn_version :: u64
  sn_segments :: "segment list"
  sn_doc_count :: nat
  sn_deleted_docs :: "u32 set"

definition snapshot_default :: snapshot where
  "snapshot_default = \<lparr>sn_version = 0, sn_segments = [], sn_doc_count = 0, sn_deleted_docs = {}\<rparr>"

datatype isolation_level = ReadCommitted | RepeatableRead | Serializable

record mvcc =
  mv_versions :: "(u64 \<times> snapshot) list"
  mv_pins :: "u64 \<Rightarrow> nat"
  mv_active_txns :: "u64 set"
  mv_current_version :: u64
  mv_max_versions :: nat

definition mvcc_new :: mvcc where
  "mvcc_new = \<lparr>mv_versions = [], mv_pins = (\<lambda>v. 0), mv_active_txns = {}, mv_current_version = 0,
     mv_max_versions = 100\<rparr>"

fun btree_insert :: "u64 \<Rightarrow> 'v \<Rightarrow> (u64 \<times> 'v) list \<Rightarrow> (u64 \<times> 'v) list" where
  "btree_insert k v [] = [(k, v)]"
| "btree_insert k v ((k', v') # kvs) =
     (if k < k' then (k, v) # (k', v') # kvs
      else if k = k' then (k, v) # kvs
      else (k', v') # btree_insert k v kvs)"

text \<open>One pass of the eviction loop removes the first version that is neither the latest nor
  pinned.\<close>

fun evict_one :: "u64 \<Rightarrow> (u64 \<Rightarrow> nat) \<Rightarrow> (u64 \<times> snapshot) list \<Rightarrow> (u64 \<times> snapshot) list option" where
  "evict_one latest pins [] = None"
| "evict_one latest pins ((v, s) # versions) =
     (if v = latest \<or> pins v + 1 > 1 then map_option (\<lambda>vs. (v, s) # vs) (evict_one latest pins versions)
      else Some versions)"

lemma evict_one_length: "evict_one latest pins vs = Some vs' \<Longrightarrow> length vs = Suc (length vs')"
  by (induction vs arbitrary: vs') (auto split: if_splits)

function gc_loop :: "nat \<Rightarrow> u64 \<Rightarrow> (u64 \<Rightarrow> nat) \<Rightarrow> (u64 \<times> snapshot) list \<Rightarrow> (u64 \<times> snapshot) list" where
  "gc_loop max_versions latest pins versions =
     (if length versions > max_versions
      then case evict_one latest pins versions of
             Some versions' \<Rightarrow> gc_loop max_versions latest pins versions'
           | None \<Rightarrow> versions
      else versions)"
  by pat_completeness auto
termination
  by (relation "measure (\<lambda>(m, l, p, vs). length vs)") (auto dest: evict_one_length)

declare gc_loop.simps [simp del]

definition saturating_pred :: "u64 \<Rightarrow> u64" where
  "saturating_pred v = (if v = 0 then 0 else v - 1)"

definition gc_old_versions_leased :: "mvcc \<Rightarrow> mvcc" where
  "gc_old_versions_leased self =
     self\<lparr>mv_versions := gc_loop (mv_max_versions self) (saturating_pred (mv_current_version self))
            (mv_pins self) (mv_versions self)\<rparr>"

definition mvcc_gc :: "mvcc \<Rightarrow> mvcc" where
  "mvcc_gc self = gc_old_versions_leased self"

definition create_snapshot_with_deletes ::
  "mvcc \<Rightarrow> segment list \<Rightarrow> u32 set \<Rightarrow> snapshot \<times> mvcc" where
  "create_snapshot_with_deletes self segments deleted_docs =
     (let version = mv_current_version self;
          self = self\<lparr>mv_current_version := version + 1\<rparr>;
          s = \<lparr>sn_version = version, sn_segments = segments,
               sn_doc_count = sum_list (map (\<lambda>g. unat (sg_doc_count g)) segments),
               sn_deleted_docs = deleted_docs\<rparr>;
          self = self\<lparr>mv_versions := btree_insert version s (mv_versions self)\<rparr>
      in (s, gc_old_versions_leased self))"

definition create_snapshot :: "mvcc \<Rightarrow> segment list \<Rightarrow> snapshot \<times> mvcc" where
  "create_snapshot self segments = create_snapshot_with_deletes self segments {}"

definition current_snapshot :: "mvcc \<Rightarrow> snapshot" where
  "current_snapshot self =
     (let current = mv_current_version self;
          snapshot_version = (if current > 0 then current - 1 else 0)
      in case map_of (mv_versions self) snapshot_version of Some s \<Rightarrow> s | None \<Rightarrow> snapshot_default)"

datatype mvcc_operation = MvAddDocument document | MvDeleteDocument doc_id | MvUpdateDocument doc_id document

record mvcc_transaction =
  mt_id :: u64
  mt_snapshot :: snapshot
  mt_operations :: "mvcc_operation list"
  mt_isolation_level :: isolation_level

definition mvcc_begin_transaction :: "mvcc \<Rightarrow> isolation_level \<Rightarrow> mvcc_transaction \<times> mvcc" where
  "mvcc_begin_transaction self isolation =
     (\<lparr>mt_id = mv_current_version self, mt_snapshot = current_snapshot self, mt_operations = [],
       mt_isolation_level = isolation\<rparr>,
      self\<lparr>mv_active_txns := insert (mv_current_version self) (mv_active_txns self)\<rparr>)"

definition mvcc_commit_transaction :: "mvcc \<Rightarrow> mvcc_transaction \<Rightarrow> unit result \<times> mvcc" where
  "mvcc_commit_transaction self tx = (Ok (), self\<lparr>mv_active_txns := mv_active_txns self - {mt_id tx}\<rparr>)"

text \<open>Cloning a snapshot out of the map and dropping the clone.\<close>

definition pin :: "mvcc \<Rightarrow> u64 \<Rightarrow> mvcc" where
  "pin self v = self\<lparr>mv_pins := (mv_pins self)(v := mv_pins self v + 1)\<rparr>"

definition unpin :: "mvcc \<Rightarrow> u64 \<Rightarrow> mvcc" where
  "unpin self v = self\<lparr>mv_pins := (mv_pins self)(v := mv_pins self v - 1)\<rparr>"

subsection \<open>Garbage collection\<close>

abbreviation lookup :: "mvcc \<Rightarrow> u64 \<Rightarrow> snapshot option" where
  "lookup m v \<equiv> map_of (mv_versions m) v"

lemma evict_one_subset: "evict_one l p vs = Some vs' \<Longrightarrow> set vs' \<subseteq> set vs"
  by (induction vs arbitrary: vs') (fastforce split: if_splits)+

lemma evict_one_sorted:
  "evict_one l p vs = Some vs' \<Longrightarrow> strict_sorted (map fst vs) \<Longrightarrow> strict_sorted (map fst vs')"
proof (induction vs arbitrary: vs')
  case (Cons a vs)
  then show ?case
    using evict_one_subset [of l p vs] by (cases a) (fastforce split: if_splits)
qed simp

lemma evict_one_keeps:
  "evict_one l p vs = Some vs' \<Longrightarrow> v = l \<or> p v > 0 \<Longrightarrow> map_of vs' v = map_of vs v"
  by (induction vs arbitrary: vs') (auto split: if_splits)

lemma evict_one_None: "evict_one l p vs = None \<Longrightarrow> \<forall>v \<in> fst ` set vs. v = l \<or> p v > 0"
  by (induction vs) (fastforce split: if_splits)+

lemma gc_loop_facts:
  "set (gc_loop n l p vs) \<subseteq> set vs \<and>
   (strict_sorted (map fst vs) \<longrightarrow> strict_sorted (map fst (gc_loop n l p vs))) \<and>
   (\<forall>v. v = l \<or> p v > 0 \<longrightarrow> map_of (gc_loop n l p vs) v = map_of vs v) \<and>
   (length (gc_loop n l p vs) \<le> n \<or> (\<forall>v \<in> fst ` set (gc_loop n l p vs). v = l \<or> p v > 0))"
proof (induction n l p vs rule: gc_loop.induct)
  case (1 n l p vs)
  show ?case
  proof (cases "length vs > n")
    case True
    show ?thesis
    proof (cases "evict_one l p vs")
      case None
      then show ?thesis using True evict_one_None [OF None] by (simp add: gc_loop.simps [of n l p vs])
    next
      case (Some vs')
      then have "gc_loop n l p vs = gc_loop n l p vs'" using True by (simp add: gc_loop.simps [of n l p vs])
      then show ?thesis
        using 1 [OF True Some] evict_one_subset [OF Some] evict_one_sorted [OF Some] evict_one_keeps [OF Some]
        by auto
    qed
  qed (simp add: gc_loop.simps [of n l p vs])
qed

lemma btree_insert_lookup: "map_of (btree_insert k v kvs) k' = (if k' = k then Some v else map_of kvs k')"
proof (induction k v kvs rule: btree_insert.induct)
  case (2 k v k1 v1 kvs)
  then show ?case by auto
qed simp

lemma btree_insert_set: "set (btree_insert k v kvs) \<subseteq> insert (k, v) (set kvs)"
  by (induction k v kvs rule: btree_insert.induct) auto

lemma btree_insert_keys: "fst ` set (btree_insert k v kvs) = insert k (fst ` set kvs)"
  by (induction k v kvs rule: btree_insert.induct) auto

lemma btree_insert_sorted:
  "strict_sorted (map fst kvs) \<Longrightarrow> strict_sorted (map fst (btree_insert k v kvs))"
proof (induction k v kvs rule: btree_insert.induct)
  case (2 k v k' v' kvs)
  then show ?case
    using btree_insert_keys [of k v kvs] by (auto simp: image_iff)
qed simp

subsection \<open>The controller's invariant\<close>

text \<open>
  Versions ascend, are below the counter, carry their own number, and the latest one is present.
\<close>

definition mvcc_wf :: "mvcc \<Rightarrow> bool" where
  "mvcc_wf m \<longleftrightarrow>
     strict_sorted (map fst (mv_versions m)) \<and>
     (\<forall>(v, s) \<in> set (mv_versions m). v < mv_current_version m \<and> sn_version s = v) \<and>
     (mv_current_version m \<noteq> 0 \<longrightarrow> lookup m (mv_current_version m - 1) \<noteq> None)"

lemma mvcc_wf_new: "mvcc_wf mvcc_new"
  by (simp add: mvcc_wf_def mvcc_new_def)

lemma gc_wf: "mvcc_wf m \<Longrightarrow> mvcc_wf (gc_old_versions_leased m)"
  using gc_loop_facts [of "mv_max_versions m" "saturating_pred (mv_current_version m)" "mv_pins m" "mv_versions m"]
  by (fastforce simp: mvcc_wf_def gc_old_versions_leased_def saturating_pred_def)

text \<open>Below the greatest 64-bit number the counter advances without wrapping.\<close>

lemma u64_succ:
  fixes c :: u64
  assumes "c \<noteq> - 1"
  shows "c + 1 \<noteq> 0" "unat (c + 1) = Suc (unat c)" "c < c + 1"
proof -
  show nz: "c + 1 \<noteq> 0" using assms by (metis add_eq_0_iff2)
  then show u: "unat (c + 1) = Suc (unat c)" using unatSuc [of c] by (simp add: add.commute)
  then show "c < c + 1" by (simp add: word_less_nat_alt)
qed

lemma create_wf:
  assumes "mvcc_wf m" "mv_current_version m \<noteq> - 1" "create_snapshot_with_deletes m segs dels = (s, m')"
  shows "mvcc_wf m' \<and> current_snapshot m' = s \<and> sn_segments s = segs \<and> sn_deleted_docs s = dels \<and>
         sn_version s = mv_current_version m \<and> mv_current_version m' = mv_current_version m + 1 \<and>
         mv_pins m' = mv_pins m \<and> mv_max_versions m' = mv_max_versions m \<and>
         (\<forall>v. mv_pins m v > 0 \<longrightarrow> v < mv_current_version m \<longrightarrow> lookup m' v = lookup m v)"
proof -
  let ?c = "mv_current_version m"
  define m1 where "m1 = m\<lparr>mv_current_version := ?c + 1, mv_versions := btree_insert ?c s (mv_versions m)\<rparr>"
  have m': "m' = gc_old_versions_leased m1" and s: "sn_version s = ?c" "sn_segments s = segs" "sn_deleted_docs s = dels"
    using assms(3) by (auto simp: create_snapshot_with_deletes_def Let_def m1_def)
  have c1: "?c < ?c + 1" and nz: "?c + 1 \<noteq> 0" using u64_succ [OF assms(2)] by simp_all
  have "\<forall>(v, s') \<in> set (btree_insert ?c s (mv_versions m)). v < ?c + 1 \<and> sn_version s' = v"
    using btree_insert_set [of ?c s "mv_versions m"] assms(1) c1 s(1) order.strict_trans [OF _ c1]
    by (fastforce simp: mvcc_wf_def)
  then have "mvcc_wf m1"
    using assms(1) by (simp add: mvcc_wf_def m1_def btree_insert_sorted btree_insert_lookup)
  then have "mvcc_wf m'" using gc_wf m' by simp
  moreover have "mv_current_version m' = ?c + 1" "mv_pins m' = mv_pins m" "mv_max_versions m' = mv_max_versions m"
    by (simp_all add: m' gc_old_versions_leased_def m1_def)
  moreover have keep: "lookup m' v = lookup m1 v" if "v = ?c \<or> mv_pins m v > 0" for v
    using gc_loop_facts [of "mv_max_versions m1" "saturating_pred (?c + 1)" "mv_pins m1" "mv_versions m1"] that nz
    by (auto simp: m' gc_old_versions_leased_def m1_def saturating_pred_def)
  moreover have "current_snapshot m' = s"
    using keep [of ?c] nz \<open>mv_current_version m' = ?c + 1\<close>
    by (simp add: current_snapshot_def Let_def m1_def btree_insert_lookup word_neq_0_conv [symmetric])
  ultimately show ?thesis using s by (auto simp: m1_def btree_insert_lookup)
qed

text \<open>
  Publishing a snapshot makes it the current one, with exactly the given segments and deleted
  documents, under a version number never used before, and keeps the controller's invariant; the
  snapshots that some reader still holds stay available unchanged.
\<close>

theorem create_snapshot_publishes:
  assumes "mvcc_wf m" "mv_current_version m \<noteq> - 1" "create_snapshot_with_deletes m segs dels = (s, m')"
  shows "mvcc_wf m' \<and> current_snapshot m' = s \<and> sn_segments s = segs \<and> sn_deleted_docs s = dels \<and>
         lookup m (sn_version s) = None \<and>
         (\<forall>v. mv_pins m v > 0 \<and> lookup m v \<noteq> None \<longrightarrow> lookup m' v = lookup m v)"
proof -
  have below: "v < mv_current_version m" if "lookup m v \<noteq> None" for v
    using that assms(1) by (auto simp: mvcc_wf_def dest: map_of_SomeD)
  then have "lookup m (mv_current_version m) = None" by blast
  with create_wf [OF assms] below show ?thesis by simp
qed

theorem create_snapshot_publishes_witness:
  "mvcc_wf mvcc_new \<and>
   sn_deleted_docs (current_snapshot (snd (create_snapshot_with_deletes mvcc_new [] {7}))) = {7}"
proof -
  obtain s m' where c: "create_snapshot_with_deletes mvcc_new [] {7} = (s, m')" by fastforce
  have "mv_current_version mvcc_new \<noteq> - 1" by (simp add: mvcc_new_def)
  from create_snapshot_publishes [OF mvcc_wf_new this c] c mvcc_wf_new show ?thesis by simp
qed

subsection \<open>Runs of the controller\<close>

datatype mvcc_event =
    EvPublish "segment list" "u32 set"
  | EvGc
  | EvPin u64
  | EvUnpin u64
  | EvBegin isolation_level
  | EvCommit mvcc_transaction

fun mvcc_apply :: "mvcc \<Rightarrow> mvcc_event \<Rightarrow> mvcc" where
  "mvcc_apply m (EvPublish segs dels) = snd (create_snapshot_with_deletes m segs dels)"
| "mvcc_apply m EvGc = mvcc_gc m"
| "mvcc_apply m (EvPin v) = pin m v"
| "mvcc_apply m (EvUnpin v) = unpin m v"
| "mvcc_apply m (EvBegin i) = snd (mvcc_begin_transaction m i)"
| "mvcc_apply m (EvCommit tx) = snd (mvcc_commit_transaction m tx)"

definition count_publish :: "mvcc_event list \<Rightarrow> nat" where
  "count_publish es = length (filter (\<lambda>e. case e of EvPublish _ _ \<Rightarrow> True | _ \<Rightarrow> False) es)"

lemma mvcc_apply_pinned:
  assumes "mvcc_wf m" "mv_current_version m \<noteq> - 1" "mv_pins m v > 0" "lookup m v = Some s"
  shows "mvcc_wf (mvcc_apply m e) \<and> lookup (mvcc_apply m e) v = Some s \<and>
         mv_pins (mvcc_apply m e) v \<ge> mv_pins m v - (if e = EvUnpin v then 1 else 0) \<and>
         unat (mv_current_version (mvcc_apply m e)) = unat (mv_current_version m) + count_publish [e]"
proof (cases e)
  case (EvPublish segs dels)
  obtain s' m' where c: "create_snapshot_with_deletes m segs dels = (s', m')" by fastforce
  have "v < mv_current_version m" using assms(1,4) by (auto simp: mvcc_wf_def dest: map_of_SomeD)
  then show ?thesis
    using create_wf [OF assms(1,2) c] c assms EvPublish
      u64_succ(2) [OF assms(2)] by (simp add: count_publish_def)
next
  case EvGc
  then show ?thesis
    using gc_wf [OF assms(1)] assms
      gc_loop_facts [of "mv_max_versions m" "saturating_pred (mv_current_version m)" "mv_pins m" "mv_versions m"]
    by (auto simp: mvcc_gc_def gc_old_versions_leased_def count_publish_def)
qed (use assms in \<open>auto simp: pin_def unpin_def mvcc_wf_def mvcc_begin_transaction_def mvcc_commit_transaction_def
      count_publish_def\<close>)

text \<open>
  C8: snapshot isolation of a reader: whatever happens to the controller, in any order (publishing,
  garbage collection, other readers coming and going, transactions), a version that is held more
  often than it is released in the run is still there at the end, with the same content.
\<close>

theorem pinned_snapshot_survives:
  assumes "mvcc_wf m" "lookup m v = Some s"
    "length (filter (\<lambda>e. e = EvUnpin v) es) < mv_pins m v"
    "unat (mv_current_version m) + count_publish es < 2 ^ 64 - 1"
  shows "lookup (foldl mvcc_apply m es) v = Some s"
  using assms
proof (induction es arbitrary: m)
  case (Cons e es)
  have "mv_current_version m \<noteq> - 1"
    using Cons.prems(4) by (auto simp: unsigned_minus_1_eq_mask mask_eq_exp_minus_1)
  then have step: "mvcc_wf (mvcc_apply m e) \<and> lookup (mvcc_apply m e) v = Some s \<and>
      mv_pins (mvcc_apply m e) v \<ge> mv_pins m v - (if e = EvUnpin v then 1 else 0) \<and>
      unat (mv_current_version (mvcc_apply m e)) = unat (mv_current_version m) + count_publish [e]"
    using mvcc_apply_pinned [of m v s e] Cons.prems by simp
  have "count_publish (e # es) = count_publish [e] + count_publish es"
    by (simp add: count_publish_def)
  with step Cons.IH [of "mvcc_apply m e"] Cons.prems show ?case
    by (auto split: if_splits)
qed simp

definition one_pinned :: mvcc where
  "one_pinned = pin (snd (create_snapshot_with_deletes mvcc_new [] {7})) 0"

definition first_snapshot :: snapshot where
  "first_snapshot = \<lparr>sn_version = 0, sn_segments = [], sn_doc_count = 0, sn_deleted_docs = {7}\<rparr>"

lemma one_pinned_eq:
  "one_pinned = \<lparr>mv_versions = [(0, first_snapshot)], mv_pins = (\<lambda>v. 0)(0 := 1), mv_active_txns = {},
     mv_current_version = 1, mv_max_versions = 100\<rparr>"
  by (simp add: one_pinned_def pin_def create_snapshot_with_deletes_def Let_def mvcc_new_def
      gc_old_versions_leased_def gc_loop.simps first_snapshot_def)

theorem pinned_snapshot_survives_witness:
  "lookup (foldl mvcc_apply one_pinned [EvPublish [] {}, EvGc, EvUnpin 1]) 0 = Some first_snapshot"
proof (rule pinned_snapshot_survives)
  show "mvcc_wf one_pinned" by (simp add: one_pinned_eq mvcc_wf_def first_snapshot_def)
  show "lookup one_pinned 0 = Some first_snapshot" by (simp add: one_pinned_eq)
  show "length (filter (\<lambda>e. e = EvUnpin 0) [EvPublish [] {}, EvGc, EvUnpin 1]) < mv_pins one_pinned 0"
    by (simp add: one_pinned_eq)
  show "unat (mv_current_version one_pinned) + count_publish [EvPublish [] {}, EvGc, EvUnpin 1] < 2 ^ 64 - 1"
    by (simp add: one_pinned_eq count_publish_def)
qed

text \<open>
  C37: garbage collection bounds the number of versions: afterwards there are at most the configured
  number, or every version left is the latest one or held by a reader; it removes no other.
\<close>

theorem gc_bounds_versions:
  "(length (mv_versions (mvcc_gc m)) \<le> mv_max_versions m \<or>
    fst ` set (mv_versions (mvcc_gc m)) \<subseteq>
      insert (saturating_pred (mv_current_version m)) {v. mv_pins m v > 0}) \<and>
   set (mv_versions (mvcc_gc m)) \<subseteq> set (mv_versions m)"
  using gc_loop_facts [of "mv_max_versions m" "saturating_pred (mv_current_version m)" "mv_pins m" "mv_versions m"]
  by (auto simp: mvcc_gc_def gc_old_versions_leased_def)

end
