(* ===== verification/Merge_Policy.thy ===== *)
theory Merge_Policy
  imports Mvcc
begin

section \<open>Merge policies\<close>

text \<open>
  The model of \<^verbatim>\<open>src/storage/merge_policy.rs\<close> and of the merger of \<^verbatim>\<open>src/parallel/merger.rs\<close>.  The
  size tier of a segment is computed with \<^verbatim>\<open>log10\<close> on floats, whose precision Rust leaves open: the function
  is a parameter.  So is the iteration order of the hash map of groups.
\<close>

subsection \<open>The tiered policy\<close>

record tiered_merge_policy =
  tp_max_segments_per_tier :: nat
  tp_max_segment_size_mb :: nat
  tp_min_segments_to_merge :: nat
  tp_max_segments_to_merge :: nat

definition tiered_default :: tiered_merge_policy where
  "tiered_default = \<lparr>tp_max_segments_per_tier = 10, tp_max_segment_size_mb = 512,
     tp_min_segments_to_merge = 2, tp_max_segments_to_merge = 10\<rparr>"

abbreviation size_bytes :: "segment \<Rightarrow> nat" where
  "size_bytes s \<equiv> sm_size_bytes (sg_metadata s)"

definition tiered_should_merge :: "tiered_merge_policy \<Rightarrow> segment list \<Rightarrow> bool" where
  "tiered_should_merge self segments =
     (if length segments > tp_max_segments_per_tier self then True
      else length (filter (\<lambda>s. size_bytes s < 10 * 1024 * 1024) segments) \<ge> tp_min_segments_to_merge self)"

fun tiered_select_loop ::
  "tiered_merge_policy \<Rightarrow> nat \<Rightarrow> segment list \<Rightarrow> segment list \<Rightarrow> nat \<Rightarrow> segment list" where
  "tiered_select_loop self max_merge_size [] selected current_size = selected"
| "tiered_select_loop self max_merge_size (s # ss) selected current_size =
     (if size_bytes s > max_merge_size div 2
      then tiered_select_loop self max_merge_size ss selected current_size
      else if current_size + size_bytes s > max_merge_size then selected
      else let selected = selected @ [s];
               current_size = current_size + size_bytes s
           in if length selected \<ge> tp_max_segments_to_merge self then selected
              else tiered_select_loop self max_merge_size ss selected current_size)"

definition tiered_select :: "tiered_merge_policy \<Rightarrow> segment list \<Rightarrow> segment list" where
  "tiered_select self segments =
     (let sorted_segments = sort_key size_bytes segments;
          max_merge_size = tp_max_segment_size_mb self * 1024 * 1024;
          selected = tiered_select_loop self max_merge_size sorted_segments [] 0
      in if length selected < tp_min_segments_to_merge self then [] else selected)"

subsection \<open>The log-structured policy\<close>

fun add_to_tier :: "nat \<Rightarrow> 'a \<Rightarrow> 'a list list \<Rightarrow> 'a list list" where
  "add_to_tier 0 s [] = [[s]]"
| "add_to_tier 0 s (t # ts) = (t @ [s]) # ts"
| "add_to_tier (Suc i) s [] = [] # add_to_tier i s []"
| "add_to_tier (Suc i) s (t # ts) = t # add_to_tier i s ts"

definition group_tiers :: "(nat \<Rightarrow> nat) \<Rightarrow> segment list \<Rightarrow> segment list list" where
  "group_tiers tier_index segments =
     foldl (\<lambda>tiers s. add_to_tier (tier_index (size_bytes s)) s tiers) [] segments"

record log_structured_merge_policy =
  lp_size_ratio :: fval
  lp_min_merge_size_mb :: nat

definition log_structured_default :: log_structured_merge_policy where
  "log_structured_default = \<lparr>lp_size_ratio = Fin 10, lp_min_merge_size_mb = 1\<rparr>"

definition tier_index :: "(fval \<Rightarrow> fval) \<Rightarrow> log_structured_merge_policy \<Rightarrow> nat \<Rightarrow> nat" where
  "tier_index log10 self bytes =
     (let min_size = lp_min_merge_size_mb self * 1024 * 1024
      in f_to_usize (f_div (log10 (f_div (f_of_nat bytes) (f_of_nat min_size))) (log10 (lp_size_ratio self))))"

definition log_structured_should_merge ::
  "(fval \<Rightarrow> fval) \<Rightarrow> log_structured_merge_policy \<Rightarrow> segment list \<Rightarrow> bool" where
  "log_structured_should_merge log10 self segments \<longleftrightarrow>
     list_ex (\<lambda>tier. length tier \<ge> 4) (group_tiers (tier_index log10 self) segments)"

definition log_structured_select ::
  "(fval \<Rightarrow> fval) \<Rightarrow> log_structured_merge_policy \<Rightarrow> segment list \<Rightarrow> segment list" where
  "log_structured_select log10 self segments =
     (case find (\<lambda>tier. length tier \<ge> 4) (group_tiers (tier_index log10 self) segments) of
        Some tier \<Rightarrow> tier | None \<Rightarrow> [])"

subsection \<open>The segment merger\<close>

record merger_policy =
  mp_max_segments_per_tier :: nat
  mp_max_segment_size :: nat
  mp_merge_factor :: nat

fun group_by_tier :: "nat \<Rightarrow> segment \<Rightarrow> (nat \<times> segment list) list \<Rightarrow> (nat \<times> segment list) list" where
  "group_by_tier t s [] = [(t, [s])]"
| "group_by_tier t s ((t', ss) # groups) =
     (if t' = t then (t', ss @ [s]) # groups else (t', ss) # group_by_tier t s groups)"

definition select_merges ::
  "((nat \<times> segment list) list \<Rightarrow> (nat \<times> segment list) list) \<Rightarrow> (fval \<Rightarrow> fval) \<Rightarrow> merger_policy
     \<Rightarrow> segment list \<Rightarrow> segment_id list list" where
  "select_merges hash_order log10 self segments =
     (let groups = foldl (\<lambda>gs s. group_by_tier (f_to_usize (log10 (d_of_nat (size_bytes s)))) s gs) [] segments
      in map (\<lambda>(t, ss). map sg_id (take (mp_merge_factor self) ss))
           (filter (\<lambda>(t, ss). length ss \<ge> mp_merge_factor self) (hash_order groups)))"

definition merger_merge :: "world \<Rightarrow> segment list \<Rightarrow> segment \<times> world" where
  "merger_merge w segments =
     (let (i, w) = segment_id_new w
      in (\<lparr>sg_id = i, sg_doc_count = sum_list (map sg_doc_count segments),
           sg_metadata = \<lparr>sm_size_bytes = sum_list (map size_bytes segments),
             sm_min_doc_id = (case segments of [] \<Rightarrow> 0 | _ \<Rightarrow> Min (set (map (sm_min_doc_id \<circ> sg_metadata) segments))),
             sm_max_doc_id = (case segments of [] \<Rightarrow> 0 | _ \<Rightarrow> Max (set (map (sm_max_doc_id \<circ> sg_metadata) segments)))\<rparr>\<rparr>,
          w))"

subsection \<open>The interface of a policy\<close>

text \<open>
  The trait \<^verbatim>\<open>MergePolicy\<close>: what is selected are segments of the list, each at most as often as it
  is there.  Merging relies on this: the segments that stay and the selected ones are all segments.
\<close>

locale merge_policy =
  fixes select :: "segment list \<Rightarrow> segment list"
  assumes select_mset: "mset (select segments) \<subseteq># mset segments"
begin

lemma select_subset: "set (select segments) \<subseteq> set segments"
  using set_mset_mono [OF select_mset] by simp

lemma select_distinct:
  assumes "distinct (map sg_id segments)"
  shows "distinct (map sg_id (select segments))"
proof -
  have le: "count (mset (map sg_id (select segments))) a \<le> count (mset (map sg_id segments)) a" for a
    using mset_subset_eq_count [OF image_mset_subseteq_mono [OF select_mset, of sg_id]] by simp
  have "count (mset (map sg_id segments)) a \<le> 1" for a
    using assms unfolding distinct_count_atmost_1 by simp
  with le have "count (mset (map sg_id (select segments))) a \<le> 1" for a by (meson le_trans)
  then show ?thesis
    unfolding distinct_count_atmost_1 by (metis (no_types) One_nat_def count_mset_0_iff le_0_eq le_Suc_eq)
qed

end

lemma tiered_select_loop_mset:
  "mset (tiered_select_loop self m ss sel cur) \<subseteq># mset sel + mset ss"
proof (induction self m ss sel cur rule: tiered_select_loop.induct)
  case (2 self m s ss sel cur)
  have drop: "mset xs \<subseteq># mset sel + mset ss \<Longrightarrow> mset xs \<subseteq># mset sel + mset (s # ss)" for xs
    by (simp add: subseteq_mset_def le_SucI)
  show ?case
  proof (cases "size_bytes s > m div 2")
    case True
    with "2.IH"(1) drop show ?thesis by simp
  next
    case False
    with "2.IH"(2) show ?thesis by (auto simp: Let_def)
  qed
qed simp

lemma tiered_select_loop_bounds:
  assumes "length sel < max 1 (tp_max_segments_to_merge self)" "cur = sum_list (map size_bytes sel)" "cur \<le> m"
  shows "length (tiered_select_loop self m ss sel cur) \<le> max 1 (tp_max_segments_to_merge self) \<and>
         sum_list (map size_bytes (tiered_select_loop self m ss sel cur)) \<le> m"
  using assms
proof (induction self m ss sel cur rule: tiered_select_loop.induct)
  case (2 self m s ss sel cur)
  show ?case
  proof (cases "size_bytes s > m div 2 \<or> cur + size_bytes s > m")
    case True
    then show ?thesis using 2 by auto
  next
    case False
    then show ?thesis using 2 by (auto simp: Let_def)
  qed
qed auto

interpretation tiered: merge_policy "tiered_select self"
  by unfold_locales
    (use tiered_select_loop_mset [of self _ "sort_key size_bytes _" "[]" 0] in \<open>simp add: tiered_select_def Let_def\<close>)

text \<open>
  What the tiered policy selects for a merge are segments of the list, none twice; together they
  stay within the maximal segment size, they are no more than the maximal number, and they are at
  least the minimal number or none at all.
\<close>

theorem tiered_select_bounds:
  "set (tiered_select self segments) \<subseteq> set segments \<and>
   mset (tiered_select self segments) \<subseteq># mset segments \<and>
   sum_list (map size_bytes (tiered_select self segments)) \<le> tp_max_segment_size_mb self * 1024 * 1024 \<and>
   length (tiered_select self segments) \<le> max 1 (tp_max_segments_to_merge self) \<and>
   (tiered_select self segments = [] \<or> tp_min_segments_to_merge self \<le> length (tiered_select self segments))"
  using tiered.select_subset [of self segments] tiered.select_mset [of self segments]
    tiered_select_loop_bounds [of "[]" self 0 "tp_max_segment_size_mb self * 1024 * 1024" "sort_key size_bytes segments"]
  by (auto simp: tiered_select_def Let_def)

fun tier_at :: "nat \<Rightarrow> 'a list list \<Rightarrow> 'a list" where
  "tier_at j [] = []"
| "tier_at 0 (t # ts) = t"
| "tier_at (Suc j) (t # ts) = tier_at j ts"

lemma tier_at_nth: "j < length ts \<Longrightarrow> tier_at j ts = ts ! j"
  by (induction j ts rule: tier_at.induct) auto

lemma tier_at_add: "tier_at j (add_to_tier i s ts) = tier_at j ts @ (if j = i then [s] else [])"
proof (induction i s ts arbitrary: j rule: add_to_tier.induct)
  case (1 s)
  then show ?case by (cases j) auto
next
  case (2 s t ts)
  then show ?case by (cases j) auto
next
  case (3 i s)
  then show ?case by (cases j) auto
next
  case (4 i s t ts)
  then show ?case by (cases j) auto
qed

text \<open>A tier holds the segments of that tier, in the order of the list.\<close>

lemma group_tiers_at: "tier_at j (group_tiers f segments) = filter (\<lambda>s. f (size_bytes s) = j) segments"
proof (induction segments rule: rev_induct)
  case (snoc s segments)
  have "group_tiers f (segments @ [s]) = add_to_tier (f (size_bytes s)) s (group_tiers f segments)"
    by (simp add: group_tiers_def)
  then show ?case by (simp add: tier_at_add snoc)
qed (simp add: group_tiers_def)

lemma log_structured_select_cases:
  "(log_structured_select lg p segments = [] \<and> \<not> log_structured_should_merge lg p segments) \<or>
   (\<exists>i. log_structured_select lg p segments = filter (\<lambda>s. tier_index lg p (size_bytes s) = i) segments \<and>
        4 \<le> length (log_structured_select lg p segments) \<and> log_structured_should_merge lg p segments)"
proof (cases "find (\<lambda>tier. length tier \<ge> 4) (group_tiers (tier_index lg p) segments)")
  case None
  then have "\<not> log_structured_should_merge lg p segments"
    by (auto simp: log_structured_should_merge_def find_None_iff list_ex_iff)
  with None show ?thesis by (simp add: log_structured_select_def)
next
  case (Some tier)
  then obtain i where i: "i < length (group_tiers (tier_index lg p) segments)" "tier = group_tiers (tier_index lg p) segments ! i" "length tier \<ge> 4"
    by (auto simp: find_Some_iff)
  then have "tier = filter (\<lambda>s. tier_index lg p (size_bytes s) = i) segments"
    using group_tiers_at [of i "tier_index lg p" segments] tier_at_nth [OF i(1)] by simp
  moreover have "log_structured_should_merge lg p segments"
    using i by (auto simp: log_structured_should_merge_def list_ex_iff intro!: bexI [of _ tier])
  moreover have "log_structured_select lg p segments = tier"
    using Some by (simp add: log_structured_select_def)
  ultimately show ?thesis using i(3) by (intro disjI2 exI [of _ i]) simp
qed

interpretation log_structured: merge_policy "log_structured_select lg p"
proof unfold_locales
  fix segments :: "segment list"
  show "mset (log_structured_select lg p segments) \<subseteq># mset segments"
    using log_structured_select_cases [of lg p segments] by (auto simp: multiset_filter_subset)
qed

text \<open>
  the log-structured policy asks for a merge exactly when it can select one, and what it selects
  is a whole tier, in the order of the list, of at least four segments.
\<close>

theorem log_structured_select_tier:
  "(log_structured_should_merge lg p segments \<longleftrightarrow> log_structured_select lg p segments \<noteq> []) \<and>
   (log_structured_select lg p segments = [] \<or>
    (4 \<le> length (log_structured_select lg p segments) \<and>
     log_structured_select lg p segments =
       filter (\<lambda>s. tier_index lg p (size_bytes s) = tier_index lg p (size_bytes (hd (log_structured_select lg p segments)))) segments))"
proof -
  have "filter (\<lambda>s. tier_index lg p (size_bytes s) = i) segments =
      filter (\<lambda>s. tier_index lg p (size_bytes s) = tier_index lg p (size_bytes (hd (filter (\<lambda>s. tier_index lg p (size_bytes s) = i) segments)))) segments"
    if "filter (\<lambda>s. tier_index lg p (size_bytes s) = i) segments \<noteq> []" for i
  proof -
    have "hd (filter (\<lambda>s. tier_index lg p (size_bytes s) = i) segments) \<in> set (filter (\<lambda>s. tier_index lg p (size_bytes s) = i) segments)"
      using that by (rule hd_in_set)
    then show ?thesis by simp
  qed
  then show ?thesis
    using log_structured_select_cases [of lg p segments] by fastforce
qed

end
