(* ===== verification/Wal.thy ===== *)
theory Wal
  imports Mvcc Planner
begin

section \<open>The write-ahead log\<close>

text \<open>
  The model of \<^verbatim>\<open>src/storage/wal.rs\<close>, \<^verbatim>\<open>src/writer/disk_wal.rs\<close>, \<^verbatim>\<open>src/storage/checkpoint.rs\<close> and of
  \<^verbatim>\<open>operations_after_last_commit\<close> of \<^verbatim>\<open>src/core/engine.rs\<close>.

  A log file is the concatenation of its records, each a 32-bit little-endian length and the
  serialised entry.  A file handle carries the path and whether it was opened for reading, since
  reading a handle that was not is an error of the operating system.  Writes always succeed;
  \<open>wl_synced\<close> is the length up to which the file is known to be on the disk after \<^verbatim>\<open>sync_all\<close>.  Time
  stamps are left out.  The directory listing that \<^verbatim>\<open>find_wal_files\<close> reads is an argument.
\<close>

subsection \<open>Data\<close>

datatype sync_mode = Immediate | Batch | SyncNone

datatype operation = AddDocument document | UpdateDocument document | DeleteDocument doc_id | Commit

record wal_entry =
  we_sequence :: u64
  we_operation :: operation

record wal =
  wl_file :: path
  wl_readable :: bool
  wl_position :: u64
  wl_sync_mode :: sync_mode
  wl_sequence :: u64
  wl_synced :: nat

record checkpoint =
  cp_wal_position :: u64
  cp_segments :: "segment_id list"
  cp_doc_count :: nat

record wal_codec =
  ser_entry :: "wal_entry \<Rightarrow> byte_vec"
  de_entry :: "byte_vec \<Rightarrow> wal_entry result"
  ser_checkpoint :: "checkpoint \<Rightarrow> byte_vec"
  de_checkpoint :: "byte_vec \<Rightarrow> checkpoint result"

subsection \<open>Appending\<close>

definition create_file :: "world \<Rightarrow> path \<Rightarrow> world" where
  "create_file w p = (case w_files w p of None \<Rightarrow> write_file w p [] | Some _ \<Rightarrow> w)"

definition wal_open :: "world \<Rightarrow> u64 \<Rightarrow> wal \<times> world" where
  "wal_open w sequence =
     (\<lparr>wl_file = WalPath sequence, wl_readable = False, wl_position = 0, wl_sync_mode = Batch,
       wl_sequence = sequence, wl_synced = 0\<rparr>,
      create_file w (WalPath sequence))"

definition wal_sync :: "world \<Rightarrow> wal \<Rightarrow> wal" where
  "wal_sync w self = self\<lparr>wl_synced := length (file_content w (wl_file self))\<rparr>"

definition wal_append :: "wal_codec \<Rightarrow> world \<Rightarrow> wal \<Rightarrow> operation \<Rightarrow> wal \<times> world" where
  "wal_append wc w self op =
     (let entry = \<lparr>we_sequence = wl_sequence self, we_operation = op\<rparr>;
          data = ser_entry wc entry;
          len = of_nat (length data) :: u32;
          w = append_file w (wl_file self) (to_le_bytes_u32 len);
          w = append_file w (wl_file self) data;
          self = self\<lparr>wl_sequence := wl_sequence self + 1,
                      wl_position := wl_position self + (4 + of_nat (length data))\<rparr>;
          self = (case wl_sync_mode self of
                    Immediate \<Rightarrow> wal_sync w self
                  | Batch \<Rightarrow> if wl_position self mod (1024 * 1024) = 0 then wal_sync w self else self
                  | SyncNone \<Rightarrow> self)
      in (self, w))"

definition wal_rotate :: "world \<Rightarrow> wal \<Rightarrow> wal \<times> world" where
  "wal_rotate w self = wal_open w (wl_sequence (wal_sync w self))"

subsection \<open>Reading\<close>

definition le_length :: "byte_vec \<Rightarrow> nat" where
  "le_length b = unat (from_le_bytes_u32 (b ! 0) (b ! 1) (b ! 2) (b ! 3))"

function read_entries_loop :: "wal_codec \<Rightarrow> byte_vec \<Rightarrow> wal_entry list \<Rightarrow> wal_entry list result" where
  "read_entries_loop wc bs entries =
     (case read_exact 4 bs of
        None \<Rightarrow> Ok entries
      | Some (len_buf, rest) \<Rightarrow>
          if le_length len_buf > 10000000
          then Err (Error InvalidInput ''WAL entry too large, possibly corrupted'')
          else case read_exact (le_length len_buf) rest of
                 None \<Rightarrow> Err io_eof
               | Some (data, rest') \<Rightarrow>
                   (case de_entry wc data of
                      Inr entry \<Rightarrow> read_entries_loop wc rest' (entries @ [entry])
                    | Inl e \<Rightarrow> read_entries_loop wc rest' entries))"
  by pat_completeness auto
termination
  by (relation "measure (\<lambda>(wc, bs, es). length bs)") (auto simp: read_exact_def split: if_splits)

declare read_entries_loop.simps [simp del]

definition wal_read_entries :: "wal_codec \<Rightarrow> world \<Rightarrow> wal \<Rightarrow> (wal_entry list \<times> wal) result" where
  "wal_read_entries wc w self =
     (if \<not> wl_readable self then Err (Error Io ''Failed to read WAL: Bad file descriptor'')
      else and_then (read_entries_loop wc (file_content w (wl_file self)) []) (\<lambda>entries.
             Ok (entries, self\<lparr>wl_position := of_nat (length (file_content w (wl_file self)))\<rparr>)))"

text \<open>
  The names of the log files.  \<^verbatim>\<open>extension()\<close> and \<^verbatim>\<open>file_stem()\<close> split the name at its last dot, unless
  that is its first character.
\<close>

definition pad_8 :: "string \<Rightarrow> string" where
  "pad_8 s = replicate (8 - length s) (CHR ''0'') @ s"

definition wal_file_name :: "u64 \<Rightarrow> string" where
  "wal_file_name sequence = ''wal_'' @ pad_8 (show_nat (unat sequence)) @ ''.log''"

definition stem_and_extension :: "string \<Rightarrow> string \<times> string option" where
  "stem_and_extension name =
     (let extension = rev (takeWhile (\<lambda>c. c \<noteq> CHR ''.'') (rev name));
          before = take (length name - length extension) name
      in if length before \<le> 1 then (name, None) else (butlast before, Some extension))"

definition parse_u64 :: "string \<Rightarrow> u64 option" where
  "parse_u64 s =
     (let ds = (case s of c # s' \<Rightarrow> if c = CHR ''+'' then s' else s | [] \<Rightarrow> [])
      in if ds \<noteq> [] \<and> list_all is_digit ds \<and> digits_value ds < 2 ^ 64 then Some (of_nat (digits_value ds))
         else None)"

definition wal_sequence_of :: "string \<Rightarrow> u64 option" where
  "wal_sequence_of name =
     (case stem_and_extension name of
        (stem, extension) \<Rightarrow>
          if extension = Some ''log'' \<and> starts_with stem ''wal_'' then parse_u64 (drop 4 stem) else None)"

definition find_wal_files :: "string list \<Rightarrow> u64 list" where
  "find_wal_files listing = sort (List.map_filter wal_sequence_of listing)"

definition operations_after_last_commit :: "wal_entry list \<Rightarrow> operation list" where
  "operations_after_last_commit entries =
     (let start = (case find (\<lambda>i. we_operation (entries ! i) = Commit) (rev [0..<length entries]) of
                     Some i \<Rightarrow> i + 1 | None \<Rightarrow> 0)
      in map we_operation (drop start entries))"

subsection \<open>Checkpoints\<close>

definition checkpoint_load :: "wal_codec \<Rightarrow> world \<Rightarrow> checkpoint option result" where
  "checkpoint_load wc w =
     (case w_files w CheckpointPath of
        None \<Rightarrow> Ok None
      | Some data \<Rightarrow> and_then (de_checkpoint wc data) (\<lambda>c. Ok (Some c)))"

definition checkpoint_save :: "wal_codec \<Rightarrow> world \<Rightarrow> checkpoint \<Rightarrow> world" where
  "checkpoint_save wc w c = write_file w CheckpointPath (ser_checkpoint wc c)"

record recovery_manager =
  rm_wal :: wal
  rm_checkpoint :: "checkpoint option"

definition load_checkpoint :: "wal_codec \<Rightarrow> world \<Rightarrow> checkpoint option result" where
  "load_checkpoint wc w =
     (case w_files w CheckpointPath of
        None \<Rightarrow> Ok None
      | Some data \<Rightarrow> and_then (de_checkpoint wc data) (\<lambda>c. Ok (Some c)))"

definition recovery_manager_new :: "wal_codec \<Rightarrow> world \<Rightarrow> (recovery_manager \<times> world) result" where
  "recovery_manager_new wc w =
     and_then (load_checkpoint wc w) (\<lambda>c.
       let wal_sequence = (case c of Some c' \<Rightarrow> cp_wal_position c' | None \<Rightarrow> 0);
           (log, w) = wal_open w wal_sequence
       in Ok (\<lparr>rm_wal = log, rm_checkpoint = c\<rparr>, w))"

function replay_loop :: "wal_codec \<Rightarrow> byte_vec \<Rightarrow> operation list \<Rightarrow> operation list result" where
  "replay_loop wc bs operations =
     (case read_exact 4 bs of
        None \<Rightarrow> Ok operations
      | Some (len_buf, rest) \<Rightarrow>
          (case read_exact (le_length len_buf) rest of
             None \<Rightarrow> Err io_eof
           | Some (entry_buf, rest') \<Rightarrow>
               and_then (de_entry wc entry_buf) (\<lambda>entry.
                 replay_loop wc rest' (operations @ [we_operation entry]))))"
  by pat_completeness auto
termination
  by (relation "measure (\<lambda>(wc, bs, es). length bs)") (auto simp: read_exact_def split: if_splits)

declare replay_loop.simps [simp del]

definition replay_wal_from :: "wal_codec \<Rightarrow> world \<Rightarrow> u64 \<Rightarrow> operation list result" where
  "replay_wal_from wc w pos =
     (case w_files w (WalPath pos) of
        None \<Rightarrow> Err (Error Io ''No such file or directory'')
      | Some file \<Rightarrow> replay_loop wc file [])"

definition recovery_recover :: "wal_codec \<Rightarrow> world \<Rightarrow> recovery_manager \<Rightarrow> operation list result" where
  "recovery_recover wc w self =
     (case rm_checkpoint self of
        Some c \<Rightarrow> replay_wal_from wc w (cp_wal_position c)
      | None \<Rightarrow> Ok [])"

definition create_checkpoint ::
  "wal_codec \<Rightarrow> world \<Rightarrow> recovery_manager \<Rightarrow> segment_id list \<Rightarrow> recovery_manager \<times> world" where
  "create_checkpoint wc w self segments =
     (let c = \<lparr>cp_wal_position = wl_sequence (rm_wal self), cp_segments = segments, cp_doc_count = 0\<rparr>
      in (self\<lparr>rm_checkpoint := Some c\<rparr>, checkpoint_save wc w c))"

subsection \<open>What the log holds\<close>

text \<open>
  What the code relies on in \<^verbatim>\<open>bincode\<close> for one operation: its entry is read back, and it is below
  the size limit of the reader.
\<close>

definition op_laws :: "wal_codec \<Rightarrow> operation \<Rightarrow> bool" where
  "op_laws wc op \<longleftrightarrow>
     (\<forall>s. de_entry wc (ser_entry wc \<lparr>we_sequence = s, we_operation = op\<rparr>) =
            Ok \<lparr>we_sequence = s, we_operation = op\<rparr> \<and>
          length (ser_entry wc \<lparr>we_sequence = s, we_operation = op\<rparr>) \<le> 10000000)"

definition wal_frame :: "wal_codec \<Rightarrow> wal_entry \<Rightarrow> byte_vec" where
  "wal_frame wc e = to_le_bytes_u32 (of_nat (length (ser_entry wc e))) @ ser_entry wc e"

definition wal_holds :: "wal_codec \<Rightarrow> world \<Rightarrow> wal \<Rightarrow> wal_entry list \<Rightarrow> bool" where
  "wal_holds wc w self es \<longleftrightarrow>
     w_files w (wl_file self) = Some (concat (map (wal_frame wc) es)) \<and>
     list_all (\<lambda>e. op_laws wc (we_operation e)) es"

fun numbered :: "u64 \<Rightarrow> operation list \<Rightarrow> wal_entry list" where
  "numbered s [] = []"
| "numbered s (op # ops) = \<lparr>we_sequence = s, we_operation = op\<rparr> # numbered (s + 1) ops"

lemma numbered_append: "numbered s (ops @ [op]) = numbered s ops @ [\<lparr>we_sequence = s + of_nat (length ops), we_operation = op\<rparr>]"
  by (induction ops arbitrary: s) (simp_all add: add.assoc)

lemma map_operation_numbered [simp]: "map we_operation (numbered s ops) = ops"
  by (induction ops arbitrary: s) simp_all

lemma le_length_to_le [simp]: "le_length (to_le_bytes_u32 n) = unat n"
  by (simp add: le_length_def to_le_bytes_u32_def numeral_2_eq_2 numeral_3_eq_3)

lemma op_lawsD:
  assumes "op_laws wc (we_operation e)"
  shows "de_entry wc (ser_entry wc e) = Ok e" "length (ser_entry wc e) \<le> 10000000"
    "unat (of_nat (length (ser_entry wc e)) :: u32) = length (ser_entry wc e)"
proof -
  have "e = \<lparr>we_sequence = we_sequence e, we_operation = we_operation e\<rparr>" by simp
  then show *: "de_entry wc (ser_entry wc e) = Ok e" "length (ser_entry wc e) \<le> 10000000"
    using assms unfolding op_laws_def by metis+
  then show "unat (of_nat (length (ser_entry wc e)) :: u32) = length (ser_entry wc e)"
    by (simp add: unat_of_nat)
qed

lemma read_exact_append: "length xs = n \<Longrightarrow> read_exact n (xs @ ys) = Some (xs, ys)"
  by (auto simp: read_exact_def)

lemma read_entries_loop_frame:
  assumes "op_laws wc (we_operation e)"
  shows "read_entries_loop wc (wal_frame wc e @ bs) acc = read_entries_loop wc bs (acc @ [e])"
  using op_lawsD [OF assms]
  by (subst read_entries_loop.simps) (simp add: wal_frame_def read_exact_append)

lemma replay_loop_frame:
  assumes "op_laws wc (we_operation e)"
  shows "replay_loop wc (wal_frame wc e @ bs) acc = replay_loop wc bs (acc @ [we_operation e])"
  using op_lawsD [OF assms]
  by (subst replay_loop.simps) (simp add: wal_frame_def read_exact_append)

lemma read_entries_loop_frames:
  "list_all (\<lambda>e. op_laws wc (we_operation e)) es \<Longrightarrow>
     read_entries_loop wc (concat (map (wal_frame wc) es) @ bs) acc = read_entries_loop wc bs (acc @ es)"
  by (induction es arbitrary: acc) (simp_all add: read_entries_loop_frame)

lemma replay_loop_frames:
  "list_all (\<lambda>e. op_laws wc (we_operation e)) es \<Longrightarrow>
     replay_loop wc (concat (map (wal_frame wc) es) @ bs) acc = replay_loop wc bs (acc @ map we_operation es)"
  by (induction es arbitrary: acc) (simp_all add: replay_loop_frame)

lemma read_loops_Nil [simp]: "read_entries_loop wc [] acc = Ok acc" "replay_loop wc [] ops = Ok ops"
  by (simp_all add: read_entries_loop.simps replay_loop.simps read_exact_def)

lemma wal_holds_read:
  assumes "wal_holds wc w self es"
  shows "read_entries_loop wc (file_content w (wl_file self)) [] = Ok es"
    "replay_loop wc (file_content w (wl_file self)) [] = Ok (map we_operation es)"
  using assms read_entries_loop_frames [of wc es "[]" "[]"] replay_loop_frames [of wc es "[]" "[]"]
  by (simp_all add: wal_holds_def file_content_def)

lemma wal_append_fields:
  "wl_file (fst (wal_append wc w self op)) = wl_file self"
  "wl_sequence (fst (wal_append wc w self op)) = wl_sequence self + 1"
  "wl_readable (fst (wal_append wc w self op)) = wl_readable self"
  by (simp_all add: wal_append_def Let_def wal_sync_def split: sync_mode.splits)

lemma wal_append_files:
  "w_files (snd (wal_append wc w self op)) =
     (w_files w)(wl_file self \<mapsto>
        file_content w (wl_file self) @ wal_frame wc \<lparr>we_sequence = wl_sequence self, we_operation = op\<rparr>)"
  by (simp add: wal_append_def Let_def append_file_def write_file_def file_content_def wal_frame_def)

lemma wal_append_holds:
  assumes "wal_holds wc w self es" "op_laws wc op"
  shows "wal_holds wc (snd (wal_append wc w self op)) (fst (wal_append wc w self op))
           (es @ [\<lparr>we_sequence = wl_sequence self, we_operation = op\<rparr>])"
  using assms by (simp add: wal_holds_def wal_append_fields wal_append_files file_content_def)

lemma wal_open_holds:
  "w_files w (WalPath s) = None \<Longrightarrow> wal_holds wc (snd (wal_open w s)) (fst (wal_open w s)) []"
  by (simp add: wal_holds_def wal_open_def create_file_def write_file_def)

subsection \<open>The interface of a log\<close>

text \<open>
  The port \<^verbatim>\<open>WriteAheadLog\<close> of \<^verbatim>\<open>src/writer/wal_backend.rs\<close>: appending adds the operation at the end
  of what the log gives back and counts the sequence number up.
\<close>

locale write_ahead_log =
  fixes ok :: "'s \<Rightarrow> bool" and allowed :: "'s \<Rightarrow> 'op \<Rightarrow> bool"
    and append :: "'s \<Rightarrow> 'op \<Rightarrow> 's" and logged :: "'s \<Rightarrow> 'op list" and sequence :: "'s \<Rightarrow> u64"
  assumes append_ok: "ok s \<Longrightarrow> allowed s op \<Longrightarrow> ok (append s op)"
    and append_logged: "ok s \<Longrightarrow> allowed s op \<Longrightarrow> logged (append s op) = logged s @ [op]"
    and append_sequence: "sequence (append s op) = sequence s + 1"
    and append_allowed: "allowed (append s op) = allowed s"
begin

lemma append_all:
  "ok s \<Longrightarrow> \<forall>op \<in> set ops. allowed s op \<Longrightarrow>
     ok (foldl append s ops) \<and> logged (foldl append s ops) = logged s @ ops \<and>
     sequence (foldl append s ops) = sequence s + of_nat (length ops)"
proof (induction ops arbitrary: s)
  case (Cons op ops)
  then have "ok (append s op)" "\<forall>op' \<in> set ops. allowed (append s op) op'"
    by (simp_all add: append_ok append_allowed)
  from Cons.IH [OF this] Cons.prems show ?case
    by (simp add: append_logged append_sequence add.assoc)
qed simp

end

type_synonym log_state = "wal_codec \<times> wal \<times> world"

definition disk_append :: "log_state \<Rightarrow> operation \<Rightarrow> log_state" where
  "disk_append s op = (case s of (wc, self, w) \<Rightarrow> (wc, wal_append wc w self op))"

definition disk_logged :: "log_state \<Rightarrow> operation list" where
  "disk_logged s =
     (case s of (wc, self, w) \<Rightarrow>
        case replay_loop wc (file_content w (wl_file self)) [] of Inr ops \<Rightarrow> ops | Inl _ \<Rightarrow> [])"

definition disk_ok :: "log_state \<Rightarrow> bool" where
  "disk_ok s \<longleftrightarrow> (case s of (wc, self, w) \<Rightarrow> \<exists>es. wal_holds wc w self es)"

interpretation disk_wal: write_ahead_log disk_ok "\<lambda>(wc, self, w). op_laws wc" disk_append disk_logged
  "\<lambda>(wc, self, w). wl_sequence self"
proof unfold_locales
  fix s :: log_state and op
  obtain wc self w where s: "s = (wc, self, w)" by (cases s)
  assume "disk_ok s" "(case s of (wc, self, w) \<Rightarrow> op_laws wc) op"
  then obtain es where es: "wal_holds wc w self es" "op_laws wc op" by (auto simp: s disk_ok_def)
  note after = wal_append_holds [OF es]
  obtain self' w' where app: "wal_append wc w self op = (self', w')" by fastforce
  from after show "disk_ok (disk_append s op)" by (auto simp: s disk_ok_def disk_append_def app)
  from after show "disk_logged (disk_append s op) = disk_logged s @ [op]"
    by (simp add: s disk_append_def disk_logged_def app wal_holds_read [OF es(1)] wal_holds_read)
next
  fix s :: log_state and op
  obtain wc self w where s: "s = (wc, self, w)" by (cases s)
  obtain self' w' where app: "wal_append wc w self op = (self', w')" by fastforce
  show "(case disk_append s op of (wc, self, w) \<Rightarrow> wl_sequence self) =
        (case s of (wc, self, w) \<Rightarrow> wl_sequence self) + 1"
    using wal_append_fields(2) [of wc w self op] by (simp add: s disk_append_def app)
  show "(case disk_append s op of (wc, self, w) \<Rightarrow> op_laws wc) = (case s of (wc, self, w) \<Rightarrow> op_laws wc)"
    by (simp add: s disk_append_def app)
qed

definition wal_append_all :: "wal_codec \<Rightarrow> wal \<times> world \<Rightarrow> operation list \<Rightarrow> wal \<times> world" where
  "wal_append_all wc s ops = foldl (\<lambda>(self, w) op. wal_append wc w self op) s ops"

lemma wal_append_all_snoc:
  "wal_append_all wc s (ops @ [op]) = (case wal_append_all wc s ops of (self, w) \<Rightarrow> wal_append wc w self op)"
  by (simp add: wal_append_all_def split: prod.splits)

lemma wal_append_all_Nil [simp]: "wal_append_all wc s [] = s"
  by (simp add: wal_append_all_def)

lemma wal_append_all_disk: "foldl disk_append (wc, s) ops = (wc, wal_append_all wc s ops)"
  by (induction ops arbitrary: s) (simp_all add: wal_append_all_def disk_append_def split: prod.splits)

lemma wal_append_all_fields:
  "wl_file (fst (wal_append_all wc s ops)) = wl_file (fst s) \<and>
   wl_readable (fst (wal_append_all wc s ops)) = wl_readable (fst s) \<and>
   wl_sequence (fst (wal_append_all wc s ops)) = wl_sequence (fst s) + of_nat (length ops)"
  by (induction ops rule: rev_induct)
    (auto simp: wal_append_all_snoc wal_append_fields add.assoc split: prod.splits)

lemma wal_append_all_other_files:
  "p \<noteq> wl_file (fst s) \<Longrightarrow> w_files (snd (wal_append_all wc s ops)) p = w_files (snd s) p"
proof (induction ops rule: rev_induct)
  case (snoc op ops)
  then show ?case
    using wal_append_all_fields [of wc s ops]
    by (auto simp: wal_append_all_snoc wal_append_files split: prod.splits)
qed simp

lemma wal_append_all_holds:
  assumes "wal_holds wc (snd s) (fst s) []" "\<forall>op \<in> set ops. op_laws wc op"
  shows "wal_holds wc (snd (wal_append_all wc s ops)) (fst (wal_append_all wc s ops))
           (numbered (wl_sequence (fst s)) ops)"
  using assms
proof (induction ops rule: rev_induct)
  case (snoc op ops)
  then show ?case
    using wal_append_holds [of wc "snd (wal_append_all wc s ops)" "fst (wal_append_all wc s ops)" _ op]
      wal_append_all_fields [of wc s ops]
    by (auto simp: wal_append_all_snoc numbered_append split: prod.splits)
qed simp

subsection \<open>Reading back\<close>

text \<open>
  C13: whatever is appended to a new log file is replayed in order: \<^verbatim>\<open>replay_wal_from\<close> of the recovery
  manager, which opens the file for reading, gives exactly the operations, and the log's own number
  is advanced by as many.  The log's own \<^verbatim>\<open>read_entries\<close> cannot read them, since \<^verbatim>\<open>WAL::open\<close> opens the
  file for appending only, and fails; on a handle that can be read it would give the operations with
  consecutive sequence numbers.
\<close>

theorem wal_roundtrip:
  assumes "w_files w (WalPath s) = None" "\<forall>op \<in> set ops. op_laws wc op"
    and "wal_append_all wc (wal_open w s) ops = (self, w')"
  shows "replay_wal_from wc w' s = Ok ops \<and> wl_sequence self = s + of_nat (length ops) \<and>
         (\<exists>msg. wal_read_entries wc w' self = Err (Error Io msg)) \<and>
         (\<exists>self'. wal_read_entries wc w' (self\<lparr>wl_readable := True\<rparr>) = Ok (numbered s ops, self'))"
proof -
  have opened: "wl_file (fst (wal_open w s)) = WalPath s" "wl_sequence (fst (wal_open w s)) = s"
    "\<not> wl_readable (fst (wal_open w s))"
    by (simp_all add: wal_open_def)
  have start: "disk_ok (wc, wal_open w s)" "disk_logged (wc, wal_open w s) = []"
    using wal_open_holds [OF assms(1), of wc] wal_holds_read(2) [OF wal_open_holds [OF assms(1), of wc]]
    by (auto simp: disk_ok_def disk_logged_def split: prod.splits)
  have self: "wl_file self = WalPath s" "\<not> wl_readable self" using wal_append_all_fields [of wc "wal_open w s" ops] opened assms(3) by simp_all
  note logged = disk_wal.append_all [OF start(1), of ops, unfolded wal_append_all_disk assms(3) start(2)]
  have holds: "wal_holds wc w' self (numbered s ops)"
    using wal_append_all_holds [OF wal_open_holds [OF assms(1), of wc] assms(2)] assms(3) opened by simp
  have "disk_logged (wc, self, w') = ops" "wl_sequence self = s + of_nat (length ops)"
    using logged assms(2) opened by (auto split: prod.splits)
  moreover have "replay_wal_from wc w' s = Ok ops"
    using \<open>disk_logged (wc, self, w') = ops\<close> holds wal_holds_read(2) [OF holds]
    by (simp add: replay_wal_from_def disk_logged_def wal_holds_def self file_content_def)
  moreover have "read_entries_loop wc (file_content w' (WalPath s)) [] = Ok (numbered s ops)"
    using wal_holds_read(1) [OF holds] by (simp add: self)
  ultimately show ?thesis by (simp add: wal_read_entries_def self)
qed

text \<open>
  C39: a torn last record.  If a crash leaves only the first \<open>n\<close> bytes of the last record, the reader
  gives the complete entries when not even the length was written, and otherwise fails as a whole:
  the entries before the torn record are not recovered.
\<close>

theorem wal_torn_tail:
  assumes "list_all (op_laws wc) ops" "op_laws wc op"
    and "e = \<lparr>we_sequence = s + of_nat (length ops), we_operation = op\<rparr>"
  shows "read_entries_loop wc (concat (map (wal_frame wc) (numbered s ops)) @ take n (wal_frame wc e)) [] =
           (if n < 4 then Ok (numbered s ops)
            else if n < length (wal_frame wc e) then Err io_eof
            else Ok (numbered s (ops @ [op])))"
proof -
  have laws: "list_all (\<lambda>e. op_laws wc (we_operation e)) (numbered t ops)" for t
    using assms(1) by (induction ops arbitrary: t) simp_all
  have e: "op_laws wc (we_operation e)" using assms(2,3) by simp
  note len = op_lawsD [OF e]
  have last: "read_entries_loop wc (take n (wal_frame wc e)) acc =
      (if n < 4 then Ok acc else if n < length (wal_frame wc e) then Err io_eof else Ok (acc @ [e]))" for acc
  proof (cases "n < length (wal_frame wc e)")
    case True
    then show ?thesis
      using len(2,3)
      by (subst read_entries_loop.simps) (auto simp: read_exact_def wal_frame_def split: option.splits)
  next
    case False
    have "length (wal_frame wc e) \<ge> 4" by (simp add: wal_frame_def)
    with False show ?thesis using read_entries_loop_frame [OF e, of "[]" acc] by simp
  qed
  show ?thesis
    by (simp add: read_entries_loop_frames [OF laws] last numbered_append assms(3) [symmetric])
qed

text \<open>A minimal serialisation of deletions and commits, to show that the laws can hold.\<close>

definition u64_bytes :: "u64 \<Rightarrow> byte_vec" where
  "u64_bytes v = to_le_bytes_u32 (ucast v) @ to_le_bytes_u32 (ucast (drop_bit 32 v))"

definition read_u64 :: "byte_vec \<Rightarrow> (u64 \<times> byte_vec) result" where
  "read_u64 bs = and_then (read_u32 bs) (\<lambda>(lo, bs). and_then (read_u32 bs) (\<lambda>(hi, bs).
     Ok (or (ucast lo) (push_bit 32 (ucast hi)), bs)))"

lemma read_u64_bytes [simp]: "read_u64 (u64_bytes v @ bs) = Ok (v, bs)"
proof -
  have "or (ucast (ucast v :: u32)) (push_bit 32 (ucast (ucast (drop_bit 32 v) :: u32))) = v"
    by (rule bit_word_eqI) (auto simp: bit_simps)
  then show ?thesis by (simp add: read_u64_def u64_bytes_def)
qed

definition plain_wal_codec :: wal_codec where
  "plain_wal_codec =
     \<lparr>ser_entry = (\<lambda>e. u64_bytes (we_sequence e) @
         (case we_operation e of DeleteDocument d \<Rightarrow> u64_bytes d | _ \<Rightarrow> [])),
      de_entry = (\<lambda>bs. and_then (read_u64 bs) (\<lambda>(s, rest).
         if rest = [] then Ok \<lparr>we_sequence = s, we_operation = Commit\<rparr>
         else and_then (read_u64 rest) (\<lambda>(d, _). Ok \<lparr>we_sequence = s, we_operation = DeleteDocument d\<rparr>))),
      ser_checkpoint = (\<lambda>c. u64_bytes (cp_wal_position c)),
      de_checkpoint = (\<lambda>bs. and_then (read_u64 bs) (\<lambda>(p, rest).
         Ok \<lparr>cp_wal_position = p, cp_segments = [], cp_doc_count = 0\<rparr>))\<rparr>"

lemma u64_bytes_simps [simp]: "length (u64_bytes v) = 8" "u64_bytes v \<noteq> []"
  by (simp_all add: u64_bytes_def to_le_bytes_u32_def)

lemma plain_wal_codec_laws: "op_laws plain_wal_codec (DeleteDocument d)" "op_laws plain_wal_codec Commit"
  using read_u64_bytes [of _ "[]"]
  by (simp_all add: op_laws_def plain_wal_codec_def)

theorem wal_roundtrip_witness:
  "\<exists>self w'. wal_append_all plain_wal_codec (wal_open empty_world 3) [DeleteDocument 7, Commit] = (self, w') \<and>
     replay_wal_from plain_wal_codec w' 3 = Ok [DeleteDocument 7, Commit]"
proof -
  obtain self w' where run: "wal_append_all plain_wal_codec (wal_open empty_world 3) [DeleteDocument 7, Commit] = (self, w')"
    by fastforce
  then show ?thesis
    using wal_roundtrip [OF _ _ run] by (simp add: empty_world_def plain_wal_codec_laws)
qed

theorem wal_torn_tail_witness:
  "read_entries_loop plain_wal_codec
     (concat (map (wal_frame plain_wal_codec) (numbered 0 [DeleteDocument 7])) @
      take 5 (wal_frame plain_wal_codec \<lparr>we_sequence = 0 + of_nat (length [DeleteDocument 7]), we_operation = Commit\<rparr>)) [] =
   Err io_eof"
proof -
  have "length (wal_frame plain_wal_codec \<lparr>we_sequence = t, we_operation = Commit\<rparr>) = 12" for t
    by (simp add: wal_frame_def plain_wal_codec_def)
  then show ?thesis
    using wal_torn_tail [of plain_wal_codec "[DeleteDocument 7]" Commit _ 0 5, OF _ _ refl]
    by (simp add: plain_wal_codec_laws)
qed

subsection \<open>File names\<close>

lemma digits_value_append: "digits_value (ds @ [c]) = 10 * digits_value ds + (of_char c - 48)"
  by (simp add: digits_value_def)

lemma digits_value_zeros: "digits_value (replicate n (CHR ''0'') @ ds) = digits_value ds"
proof -
  have "foldl (\<lambda>n c. 10 * n + (of_char c - 48)) (0::nat) (replicate n (CHR ''0'')) = 0"
    by (induction n) simp_all
  then show ?thesis by (simp add: digits_value_def)
qed

lemma digit_char: "n < 10 \<Longrightarrow> of_char (char_of (48 + n) :: char) = 48 + (n :: nat)"
  by simp

lemma show_nat_digits: "show_nat n \<noteq> [] \<and> list_all is_digit (show_nat n) \<and> digits_value (show_nat n) = n"
proof (induction n rule: show_nat.induct)
  case (1 n)
  show ?case
  proof (cases "n < 10")
    case True
    then show ?thesis by (simp add: show_nat.simps [of n] is_digit_def digits_value_def)
  next
    case False
    with 1 show ?thesis
      by (simp add: show_nat.simps [of n] is_digit_def digits_value_append)
  qed
qed

lemma is_digit_not_special: "is_digit c \<Longrightarrow> c \<noteq> CHR ''.'' \<and> c \<noteq> CHR ''+''"
  by (auto simp: is_digit_def)

lemma pad_8_digits: "list_all is_digit (pad_8 (show_nat n))" "pad_8 (show_nat n) \<noteq> []"
  "digits_value (pad_8 (show_nat n)) = n"
  using show_nat_digits [of n] by (auto simp: pad_8_def digits_value_zeros list_all_iff is_digit_def)

lemma parse_u64_digits:
  assumes "list_all is_digit ds" "ds \<noteq> []" "digits_value ds < 2 ^ 64"
  shows "parse_u64 ds = Some (of_nat (digits_value ds))"
  using assms is_digit_not_special by (cases ds) (auto simp: parse_u64_def)

lemma stem_and_extension_log:
  assumes "list_all is_digit ds"
  shows "stem_and_extension (''wal_'' @ ds @ ''.log'') = (''wal_'' @ ds, Some ''log'')"
  by (simp add: stem_and_extension_def butlast_append)

lemma wal_sequence_of_file_name [simp]: "wal_sequence_of (wal_file_name s) = Some s"
proof -
  have "wal_sequence_of (wal_file_name s) = parse_u64 (pad_8 (show_nat (unat s)))"
    unfolding wal_sequence_of_def wal_file_name_def
    using stem_and_extension_log [OF pad_8_digits(1) [of "unat s"]] by simp
  then show ?thesis
    using parse_u64_digits [OF pad_8_digits(1,2), of "unat s"] unat_u64_less [of s] by (simp add: pad_8_digits)
qed

text \<open>
  the names of log files are read back: whatever the order of the directory listing, the log
  numbers found are exactly those the files were named after, in ascending order.
\<close>

theorem find_wal_files_roundtrip:
  "find_wal_files (map wal_file_name sequences) = sort sequences"
proof -
  have "List.map_filter wal_sequence_of (map wal_file_name sequences) = sequences"
    by (induction sequences) (simp_all add: map_filter_simps)
  then show ?thesis by (simp add: find_wal_files_def)
qed

subsection \<open>The tail after the last commit\<close>

lemma find_rev_upt_last:
  "P n \<Longrightarrow> \<forall>i. n < i \<longrightarrow> i < m \<longrightarrow> \<not> P i \<Longrightarrow> n < m \<Longrightarrow> find P (rev [0..<m]) = Some n"
proof (induction m)
  case (Suc m)
  show ?case
  proof (cases "n = m")
    case True
    then show ?thesis using Suc.prems by simp
  next
    case False
    then have "\<not> P m" "n < m" using Suc.prems by auto
    with Suc show ?thesis by simp
  qed
qed simp

lemma last_commit_tails:
  assumes "Commit \<notin> set tail"
  shows "operations_after_last_commit (numbered s (ops @ [Commit] @ tail)) = tail \<and>
         operations_after_last_commit (numbered s tail) = tail"
proof -
  have len: "length (numbered s xs) = length xs" for s xs by (induction xs arbitrary: s) simp_all
  have nth: "i < length xs \<Longrightarrow> we_operation (numbered s xs ! i) = xs ! i" for i xs
    by (metis len map_operation_numbered nth_map)
  have "find (\<lambda>i. we_operation (numbered s (ops @ [Commit] @ tail) ! i) = Commit)
      (rev [0..<length (numbered s (ops @ [Commit] @ tail))]) = Some (length ops)"
  proof (rule find_rev_upt_last)
    show "\<forall>i. length ops < i \<longrightarrow> i < length (numbered s (ops @ [Commit] @ tail)) \<longrightarrow>
        we_operation (numbered s (ops @ [Commit] @ tail) ! i) \<noteq> Commit"
    proof (intro allI impI)
      fix i assume i: "length ops < i" "i < length (numbered s (ops @ [Commit] @ tail))"
      then have "we_operation (numbered s (ops @ [Commit] @ tail) ! i) = tail ! (i - Suc (length ops))"
        by (simp add: nth len nth_append)
      moreover have "tail ! (i - Suc (length ops)) \<in> set tail" using i by (simp add: len)
      ultimately show "we_operation (numbered s (ops @ [Commit] @ tail) ! i) \<noteq> Commit" using assms by auto
    qed
  qed (simp_all add: nth len nth_append)
  moreover have "find (\<lambda>i. we_operation (numbered s tail ! i) = Commit) (rev [0..<length (numbered s tail)]) = None"
    using assms by (auto simp: find_None_iff nth len in_set_conv_nth)
  ultimately show ?thesis
    by (simp add: operations_after_last_commit_def drop_map [symmetric])
qed

lemma last_commit_tail:
  "Commit \<notin> set tail \<Longrightarrow> operations_after_last_commit (numbered s (ops @ [Commit] @ tail)) = tail"
  using last_commit_tails by blast

text \<open>
  recovery replays exactly the operations after the last commit, all of them and in order; with
  no commit in the log, it replays every operation.
\<close>

theorem operations_after_last_commit_tail:
  assumes "Commit \<notin> set tail"
  shows "operations_after_last_commit (numbered s (ops @ [Commit] @ tail)) = tail \<and>
         operations_after_last_commit (numbered s tail) = tail"
  by (rule last_commit_tails [OF assms])

theorem operations_after_last_commit_tail_witness:
  "operations_after_last_commit (numbered 5 ([DeleteDocument 1] @ [Commit] @ [DeleteDocument 2])) = [DeleteDocument 2]"
  using operations_after_last_commit_tail [of "[DeleteDocument 2]" 5 "[DeleteDocument 1]"] by simp

subsection \<open>Recovery from a checkpoint\<close>

text \<open>
  a checkpoint hides what is logged after it.  The checkpoint stores the log's sequence number
  and recovery opens the log file of that number, but the log goes on in the file it was opened
  with; so unless it is rotated, recovery gives back nothing.
\<close>

theorem checkpoint_forgets_later_operations:
  assumes "0 < length ops" "length ops < 2 ^ 64" "w_files w (WalPath (of_nat (length ops))) = None"
    and "recovery_manager_new wc w = Ok (rm, w0)" "rm_checkpoint rm = None"
    and "wal_append_all wc (rm_wal rm, w0) ops = (lg, w1)"
    and "create_checkpoint wc w1 (rm\<lparr>rm_wal := lg\<rparr>) segments = (rm', w2)"
    and "\<forall>c. rm_checkpoint rm' = Some c \<longrightarrow> de_checkpoint wc (ser_checkpoint wc c) = Ok c"
    and "wal_append_all wc (lg, w2) later = (lg', w3)"
  shows "\<exists>rm'' w4. recovery_manager_new wc w3 = Ok (rm'', w4) \<and> recovery_recover wc w4 rm'' = Ok []"
proof -
  define n where "n = (of_nat (length ops) :: u64)"
  have "unat n = length ops" using assms(2) by (simp add: n_def unat_of_nat)
  then have n: "n \<noteq> 0" using assms(1) by auto
  have rm: "rm_wal rm = fst (wal_open w 0)" "w0 = snd (wal_open w 0)"
    using assms(4,5) by (auto simp: recovery_manager_new_def Let_def and_then_Ok_iff wal_open_def)
  then have lg: "wl_file lg = WalPath 0" "wl_sequence lg = n"
    using wal_append_all_fields [of wc "(rm_wal rm, w0)" ops] assms(6) by (simp_all add: wal_open_def n_def)
  have "w_files w1 (WalPath n) = w_files w0 (WalPath n)"
    using wal_append_all_other_files [of "WalPath n" "(rm_wal rm, w0)" wc ops] n assms(6) rm
    by (simp add: wal_open_def)
  then have w1: "w_files w1 (WalPath n) = None"
    using assms(3) n by (simp add: rm wal_open_def create_file_def write_file_def n_def split: option.splits)
  define c where "c = \<lparr>cp_wal_position = n, cp_segments = segments, cp_doc_count = 0\<rparr>"
  have cp: "w2 = checkpoint_save wc w1 c" "de_checkpoint wc (ser_checkpoint wc c) = Ok c"
    using assms(7,8) by (auto simp: create_checkpoint_def Let_def c_def lg)
  have w3: "w_files w3 p = w_files w2 p" if "p \<noteq> WalPath 0" for p
    using wal_append_all_other_files [of p "(lg, w2)" wc later] that lg(1) assms(9) by simp
  have "load_checkpoint wc w3 = Ok (Some c)"
    using w3 [of CheckpointPath] by (simp add: load_checkpoint_def cp checkpoint_save_def write_file_def)
  moreover have "w_files w3 (WalPath n) = None"
    using w3 [of "WalPath n"] n w1 by (simp add: cp(1) checkpoint_save_def write_file_def)
  ultimately show ?thesis
    by (simp add: recovery_manager_new_def recovery_recover_def replay_wal_from_def wal_open_def
        create_file_def write_file_def c_def)
qed

theorem checkpoint_forgets_later_operations_witness:
  "\<exists>rm w0 lg w1 rm' w2 lg' w3 rm'' w4.
     recovery_manager_new plain_wal_codec empty_world = Ok (rm, w0) \<and>
     wal_append_all plain_wal_codec (rm_wal rm, w0) [Commit] = (lg, w1) \<and>
     create_checkpoint plain_wal_codec w1 (rm\<lparr>rm_wal := lg\<rparr>) [] = (rm', w2) \<and>
     wal_append_all plain_wal_codec (lg, w2) [DeleteDocument 7] = (lg', w3) \<and>
     recovery_manager_new plain_wal_codec w3 = Ok (rm'', w4) \<and> recovery_recover plain_wal_codec w4 rm'' = Ok []"
proof -
  obtain rm w0 where rm: "recovery_manager_new plain_wal_codec empty_world = Ok (rm, w0)" "rm_checkpoint rm = None"
    by (auto simp: recovery_manager_new_def load_checkpoint_def empty_world_def wal_open_def)
  obtain lg w1 where lg: "wal_append_all plain_wal_codec (rm_wal rm, w0) [Commit] = (lg, w1)" by fastforce
  obtain rm' w2 where cp: "create_checkpoint plain_wal_codec w1 (rm\<lparr>rm_wal := lg\<rparr>) [] = (rm', w2)" by fastforce
  obtain lg' w3 where later: "wal_append_all plain_wal_codec (lg, w2) [DeleteDocument 7] = (lg', w3)" by fastforce
  have "\<forall>c. rm_checkpoint rm' = Some c \<longrightarrow>
      de_checkpoint plain_wal_codec (ser_checkpoint plain_wal_codec c) = Ok c"
    using cp read_u64_bytes [of _ "[]"] by (auto simp: create_checkpoint_def plain_wal_codec_def Let_def)
  then have "\<exists>rm'' w4. recovery_manager_new plain_wal_codec w3 = Ok (rm'', w4) \<and>
      recovery_recover plain_wal_codec w4 rm'' = Ok []"
    using checkpoint_forgets_later_operations [OF _ _ _ rm lg cp _ later] by (simp add: empty_world_def)
  with rm lg cp later show ?thesis by blast
qed

end
