(* ===== verification/Indexer.thy ===== *)
theory Indexer
  imports Index_Search Query
begin

section \<open>The parallel indexer\<close>

text \<open>
  The model of \<^verbatim>\<open>src/parallel/indexer.rs\<close>.  \<^verbatim>\<open>rayon\<close>'s parallel iterators collect their results in the
  order of the input, so a batch is a plain map; that this is so for every schedule of the tasks is
  shown for the indexer with its progress counter.  The log output is left out.  Analysing a document never fails.  The iteration order of the hash maps is the argument
  \<open>ord\<close>.
\<close>

record indexed_doc =
  xd_doc_id :: doc_id
  xd_terms :: "string list"
  xd_tokens :: "token list"

definition field_tokens :: "analyzer \<Rightarrow> string \<times> field_value \<Rightarrow> token list" where
  "field_tokens an entry = (case snd entry of FText t \<Rightarrow> analyze an t | _ \<Rightarrow> [])"

definition index_document :: "analyzer \<Rightarrow> document \<Rightarrow> indexed_doc result" where
  "index_document an doc =
     (let all_tokens = concat (map (field_tokens an) (d_fields doc))
      in Ok \<lparr>xd_doc_id = d_id doc, xd_terms = map tk_text all_tokens, xd_tokens = all_tokens\<rparr>)"

definition index_batch :: "analyzer \<Rightarrow> document list \<Rightarrow> indexed_doc list result" where
  "index_batch an documents =
     Ok (List.map_filter (\<lambda>doc. case index_document an doc of Inr x \<Rightarrow> Some x | Inl _ \<Rightarrow> None) documents)"

text \<open>Grouping the terms of one document by their index in the list.\<close>

definition group_positions :: "string list \<Rightarrow> (string \<times> u32 list) list" where
  "group_positions ts = foldl (\<lambda>m (pos, t). push_position t (of_nat pos) m) [] (List.enumerate 0 ts)"

fun push_entry :: "'k \<Rightarrow> 'v \<Rightarrow> ('k \<times> 'v list) list \<Rightarrow> ('k \<times> 'v list) list" where
  "push_entry k v [] = [(k, [v])]"
| "push_entry k v ((k', vs) # entries) =
     (if k' = k then (k', vs @ [v]) # entries else (k', vs) # push_entry k v entries)"

definition document_posting :: "doc_id \<Rightarrow> nat \<Rightarrow> u32 list \<Rightarrow> posting" where
  "document_posting d n ps =
     \<lparr>doc_id = d, term_freq = of_nat (length ps), positions = ps, field_norm = field_norm_of n\<rparr>"

definition add_indexed_doc ::
  "hash_order \<Rightarrow> (string \<times> posting list) list \<Rightarrow> indexed_doc \<Rightarrow> (string \<times> posting list) list" where
  "add_indexed_doc ord inverted x =
     foldl (\<lambda>m (t, ps). push_entry t (document_posting (xd_doc_id x) (length (xd_terms x)) ps) m)
       inverted (ord (group_positions (xd_terms x)))"

definition build_inverted_index ::
  "hash_order \<Rightarrow> analyzer \<Rightarrow> document list \<Rightarrow> (string \<times> posting list) list result" where
  "build_inverted_index ord an documents =
     and_then (index_batch an documents) (\<lambda>indexed_docs.
       let inverted = foldl (add_indexed_doc ord) [] indexed_docs
       in Ok (map (\<lambda>(t, ps). (t, sort_key doc_id ps)) inverted))"

subsection \<open>The tasks of a batch\<close>

text \<open>
  The indexer with its counter.  The tasks of a batch run in any order, here \<open>schedule\<close>; each puts its
  result in the place of its document and counts itself, and the results are collected chunk by chunk.
\<close>

record parallel_indexer =
  pi_workers :: nat
  pi_batch_size :: nat
  pi_progress :: u64

definition parallel_indexer_new :: "nat \<Rightarrow> parallel_indexer" where
  "parallel_indexer_new workers = \<lparr>pi_workers = workers, pi_batch_size = 1000, pi_progress = 0\<rparr>"

definition get_progress :: "parallel_indexer \<Rightarrow> u64" where
  "get_progress self = pi_progress self"

function par_chunks :: "nat \<Rightarrow> 'a list \<Rightarrow> 'a list list" where
  "par_chunks n xs = (if n = 0 \<or> xs = [] then [] else take n xs # par_chunks n (drop n xs))"
  by pat_completeness auto
termination
  by (relation "measure (\<lambda>(n, xs). length xs)") auto

declare par_chunks.simps [simp del]

definition run_task ::
  "analyzer \<Rightarrow> document list \<Rightarrow> indexed_doc result option list \<times> parallel_indexer \<Rightarrow> nat
     \<Rightarrow> indexed_doc result option list \<times> parallel_indexer" where
  "run_task an docs st i =
     (case st of (slots, self) \<Rightarrow> (slots[i := Some (index_document an (docs ! i))], self\<lparr>pi_progress := pi_progress self + 1\<rparr>))"

definition kept :: "indexed_doc result option \<Rightarrow> indexed_doc option" where
  "kept slot = (case slot of Some (Inr x) \<Rightarrow> Some x | _ \<Rightarrow> None)"

definition pi_index_batch ::
  "analyzer \<Rightarrow> nat list \<Rightarrow> parallel_indexer \<Rightarrow> document list \<Rightarrow> indexed_doc list result \<times> parallel_indexer" where
  "pi_index_batch an schedule self documents =
     (let self = self\<lparr>pi_progress := 0\<rparr>
      in if pi_batch_size self = 0 then (Err Panic, self)
         else case foldl (run_task an documents) (replicate (length documents) None, self) schedule of
                (slots, self) \<Rightarrow> (Ok (concat (map (List.map_filter kept) (par_chunks (pi_batch_size self) slots))), self))"

lemma concat_chunks: "0 < n \<Longrightarrow> concat (map (List.map_filter f) (par_chunks n xs)) = List.map_filter f xs"
proof (induction n xs rule: par_chunks.induct)
  case (1 n xs)
  then show ?case
  proof (cases "xs = []")
    case False
    have "List.map_filter f xs = List.map_filter f (take n xs) @ List.map_filter f (drop n xs)"
      by (subst append_take_drop_id [of n xs, symmetric]) (simp only: List.map_filter_def map_append filter_append)
    with 1 False show ?thesis by (simp add: par_chunks.simps [of n xs])
  qed (simp add: par_chunks.simps map_filter_simps)
qed

lemma run_tasks:
  "foldl (run_task an docs) (slots, self) schedule =
     (map (\<lambda>i. if i \<in> set schedule then Some (index_document an (docs ! i)) else slots ! i) [0..<length slots],
      self\<lparr>pi_progress := pi_progress self + of_nat (length schedule)\<rparr>)"
proof (induction schedule arbitrary: slots self)
  case Nil
  show ?case by (simp add: map_nth)
next
  case (Cons j js)
  have "foldl (run_task an docs) (slots, self) (j # js) =
      foldl (run_task an docs) (slots[j := Some (index_document an (docs ! j))], self\<lparr>pi_progress := pi_progress self + 1\<rparr>) js"
    by (simp add: run_task_def)
  also have "\<dots> = (map (\<lambda>i. if i \<in> set (j # js) then Some (index_document an (docs ! i)) else slots ! i) [0..<length slots],
      self\<lparr>pi_progress := pi_progress self + of_nat (length (j # js))\<rparr>)"
    unfolding Cons.IH by (simp add: nth_list_update add.assoc)
  finally show ?case .
qed

text \<open>
  Whatever order the workers take the tasks in, the batch is the map over its documents and the counter
  ends at their number.
\<close>

theorem parallel_index_batch_is_map:
  assumes "mset schedule = mset [0..<length docs]" "0 < pi_batch_size self"
  shows "pi_index_batch an schedule self docs = (index_batch an docs, self\<lparr>pi_progress := of_nat (length docs)\<rparr>)"
proof -
  have sched: "set schedule = {0..<length docs}" "length schedule = length docs"
    using mset_eq_setD [OF assms(1)] mset_eq_length [OF assms(1)] by simp_all
  have slots: "map (\<lambda>i. if i \<in> set schedule then Some (index_document an (docs ! i))
        else replicate (length docs) None ! i) [0..<length (replicate (length docs) None)] =
      map (\<lambda>d. Some (index_document an d)) docs"
    by (rule nth_equalityI) (simp_all add: sched(1))
  have tasks: "foldl (run_task an docs) (replicate (length docs) None, self\<lparr>pi_progress := 0\<rparr>) schedule =
      (map (\<lambda>d. Some (index_document an d)) docs, self\<lparr>pi_progress := of_nat (length docs)\<rparr>)"
    unfolding run_tasks slots sched(2) by simp
  have "List.map_filter kept (map (\<lambda>d. Some (index_document an d)) docs) =
      List.map_filter (\<lambda>doc. case index_document an doc of Inr x \<Rightarrow> Some x | Inl _ \<Rightarrow> None) docs"
    by (induction docs) (simp_all add: map_filter_simps kept_def split: sum.splits)
  then show ?thesis using assms(2) concat_chunks [OF assms(2), of kept]
    by (simp add: pi_index_batch_def index_batch_def tasks Let_def)
qed

subsection \<open>The inverted index of a batch\<close>

definition terms_of :: "analyzer \<Rightarrow> document \<Rightarrow> string list" where
  "terms_of an d = map tk_text (concat (map (field_tokens an) (d_fields d)))"

lemma index_document_Ok:
  "index_document an d =
     Ok \<lparr>xd_doc_id = d_id d, xd_terms = terms_of an d,
         xd_tokens = concat (map (field_tokens an) (d_fields d))\<rparr>"
  by (simp add: index_document_def terms_of_def Let_def)

lemma index_batch_Ok:
  "index_batch an docs =
     Ok (map (\<lambda>d. \<lparr>xd_doc_id = d_id d, xd_terms = terms_of an d,
                   xd_tokens = concat (map (field_tokens an) (d_fields d))\<rparr>) docs)"
  by (induction docs) (simp_all add: index_batch_def index_document_Ok map_filter_simps)

definition occurrences :: "string \<Rightarrow> string list \<Rightarrow> u32 list" where
  "occurrences t ts = map (\<lambda>i. of_nat i) (filter (\<lambda>i. ts ! i = t) [0..<length ts])"

lemma occurrences_snoc: "occurrences t (ts @ [u]) = occurrences t ts @ (if u = t then [of_nat (length ts)] else [])"
proof -
  have "filter (\<lambda>i. (ts @ [u]) ! i = t) [0..<length ts] = filter (\<lambda>i. ts ! i = t) [0..<length ts]"
    by (rule filter_cong) (auto simp: nth_append)
  then show ?thesis by (simp add: occurrences_def)
qed

lemma occurrences_empty: "occurrences t ts = [] \<longleftrightarrow> t \<notin> set ts"
  by (auto simp: occurrences_def filter_empty_conv in_set_conv_nth)

text \<open>A grouped list as a total function: missing keys have the empty list.\<close>

definition entries_of :: "('k \<times> 'v list) list \<Rightarrow> 'k \<Rightarrow> 'v list" where
  "entries_of m k = (case map_of m k of Some vs \<Rightarrow> vs | None \<Rightarrow> [])"

definition grouped :: "('k \<times> 'v list) list \<Rightarrow> bool" where
  "grouped m \<longleftrightarrow> distinct (map fst m) \<and> (\<forall>(k, vs) \<in> set m. vs \<noteq> [])"

lemma entries_of_Nil [simp]: "entries_of [] k = []"
  by (simp add: entries_of_def)

lemma push_entry_entries: "entries_of (push_entry k v m) k' = entries_of m k' @ (if k' = k then [v] else [])"
  by (induction k v m rule: push_entry.induct) (auto simp: entries_of_def)

lemma push_entry_keys: "fst ` set (push_entry k v m) = insert k (fst ` set m)"
  by (induction k v m rule: push_entry.induct) auto

lemma push_entry_grouped: "grouped m \<Longrightarrow> grouped (push_entry k v m)"
proof (induction k v m rule: push_entry.induct)
  case (2 k v k' vs entries)
  then show ?case using push_entry_keys [of k v entries] by (auto simp: grouped_def)
qed (simp add: grouped_def)

lemma push_position_entry: "push_position t p m = push_entry t p m"
  by (induction t p m rule: push_position.induct) auto

lemma group_positions_snoc:
  "group_positions (ts @ [t]) = push_entry t (of_nat (length ts)) (group_positions ts)"
  by (simp add: group_positions_def enumerate_append_eq push_position_entry)

lemma group_positions_entries:
  "grouped (group_positions ts) \<and> entries_of (group_positions ts) t = occurrences t ts"
proof (induction ts rule: rev_induct)
  case (snoc u ts)
  then show ?case
    by (auto simp: group_positions_snoc push_entry_grouped push_entry_entries occurrences_snoc)
qed (simp add: group_positions_def grouped_def occurrences_def)

text \<open>Reordering a grouped list does not change what it says.\<close>

lemma grouped_mset: "mset m' = mset m \<Longrightarrow> grouped m \<Longrightarrow> grouped m' \<and> entries_of m' = entries_of m"
proof (intro conjI ext)
  assume m: "mset m' = mset m" "grouped m"
  then have "mset (map fst m') = mset (map fst m)" by simp
  then have d: "distinct (map fst m')" using m(2) by (metis grouped_def mset_eq_imp_distinct_iff)
  then show "grouped m'" using m by (simp add: grouped_def mset_eq_setD [OF m(1)])
  fix k
  have "map_of m' = map_of m"
    using d m by (intro map_of_inject_set [THEN iffD2]) (auto simp: grouped_def mset_eq_setD [OF m(1)])
  then show "entries_of m' k = entries_of m k" by (simp add: entries_of_def)
qed

lemma foldl_push_entry:
  assumes "distinct (map fst es)"
  shows "entries_of (foldl (\<lambda>m (t, ps). push_entry t (f ps) m) m es) k =
           entries_of m k @ (case map_of es k of Some ps \<Rightarrow> [f ps] | None \<Rightarrow> [])"
  using assms
proof (induction es arbitrary: m)
  case (Cons e es)
  obtain t ps where e: "e = (t, ps)" by (cases e)
  have "map_of es t = None" using Cons.prems by (simp add: e map_of_eq_None_iff)
  with Cons show ?case by (simp add: e push_entry_entries)
qed simp

lemma add_indexed_doc_entries:
  assumes "\<And>m. mset (ord m) = mset m"
  shows "entries_of (add_indexed_doc ord m x) t =
           entries_of m t @
           (if t \<in> set (xd_terms x)
            then [document_posting (xd_doc_id x) (length (xd_terms x)) (occurrences t (xd_terms x))] else [])"
proof -
  let ?g = "group_positions (xd_terms x)"
  have g: "grouped (ord ?g)" "entries_of (ord ?g) t = occurrences t (xd_terms x)"
    using grouped_mset [OF assms, of ?g] group_positions_entries [of "xd_terms x" t] by auto
  then have "distinct (map fst (ord ?g))" by (simp add: grouped_def)
  note added = foldl_push_entry [OF this, of "document_posting (xd_doc_id x) (length (xd_terms x))" m t]
  show ?thesis
  proof (cases "map_of (ord ?g) t")
    case None
    then have "t \<notin> set (xd_terms x)" using g(2) by (simp add: entries_of_def flip: occurrences_empty)
    with None added show ?thesis by (simp add: add_indexed_doc_def)
  next
    case (Some ps)
    then have "ps \<noteq> []" using g(1) by (auto simp: grouped_def dest: map_of_SomeD)
    moreover have "ps = occurrences t (xd_terms x)" using Some g(2) by (simp add: entries_of_def)
    ultimately have "t \<in> set (xd_terms x)" using occurrences_empty by blast
    with Some added \<open>ps = _\<close> show ?thesis by (simp add: add_indexed_doc_def)
  qed
qed

text \<open>
  C29: the inverted index of a batch, whatever the iteration order of the hash maps: the postings of a
  term are those of exactly the documents that contain it, in the order of their ids, each with the
  positions at which the term occurs, their number, and the norm of the document's length.
\<close>

theorem build_inverted_index_correct:
  assumes "\<And>m. mset (ord m) = mset m"
  shows "\<exists>inverted. build_inverted_index ord an docs = Ok inverted \<and>
           (\<forall>t. entries_of inverted t =
                sort_key doc_id (map (\<lambda>d. document_posting (d_id d) (length (terms_of an d))
                                            (occurrences t (terms_of an d)))
                  (filter (\<lambda>d. t \<in> set (terms_of an d)) docs)))"
proof -
  let ?x = "\<lambda>d. \<lparr>xd_doc_id = d_id d, xd_terms = terms_of an d, xd_tokens = concat (map (field_tokens an) (d_fields d))\<rparr>"
  let ?p = "\<lambda>t d. document_posting (d_id d) (length (terms_of an d)) (occurrences t (terms_of an d))"
  have folded: "entries_of (foldl (add_indexed_doc ord) [] (map ?x docs)) t =
      map (?p t) (filter (\<lambda>d. t \<in> set (terms_of an d)) docs)" for t
    by (induction docs rule: rev_induct) (simp_all add: add_indexed_doc_entries [OF assms])
  have sorted: "entries_of (map (\<lambda>(t, ps). (t, sort_key doc_id ps)) m) t = sort_key doc_id (entries_of m t)" for m t
    by (induction m) (auto simp: entries_of_def)
  show ?thesis
    by (simp add: build_inverted_index_def index_batch_Ok sorted folded)
qed

theorem build_inverted_index_correct_witness:
  "\<exists>inverted. build_inverted_index rev (analyzer_new ''a'' (\<lambda>s. [token_new s 0 0]))
      [\<lparr>d_id = 2, d_fields = [(''f'', FText ''x'')]\<rparr>, \<lparr>d_id = 1, d_fields = [(''f'', FText ''x'')]\<rparr>] = Ok inverted \<and>
     map doc_id (entries_of inverted ''x'') = [1, 2]"
proof -
  let ?an = "analyzer_new ''a'' (\<lambda>s. [token_new s 0 0])"
  let ?docs = "[\<lparr>d_id = 2, d_fields = [(''f'', FText ''x'')]\<rparr>, \<lparr>d_id = 1, d_fields = [(''f'', FText ''x'')]\<rparr>]"
  have order: "mset (rev m) = mset m" for m :: "(string \<times> u32 list) list" by simp
  obtain inverted where inv: "build_inverted_index rev ?an ?docs = Ok inverted"
    "entries_of inverted ''x'' =
       sort_key doc_id (map (\<lambda>d. document_posting (d_id d) (length (terms_of ?an d))
                                   (occurrences ''x'' (terms_of ?an d)))
         (filter (\<lambda>d. ''x'' \<in> set (terms_of ?an d)) ?docs))"
    using build_inverted_index_correct [of rev ?an ?docs, OF order] by blast
  have "terms_of ?an \<lparr>d_id = i, d_fields = [(''f'', FText ''x'')]\<rparr> = [''x'']" for i
    by (simp add: terms_of_def field_tokens_def analyze_def analyzer_new_def token_new_def)
  then have "map doc_id (entries_of inverted ''x'') = [1, 2]"
    by (simp add: inv(2) document_posting_def word_le_nat_alt)
  then show ?thesis using inv(1) by (intro exI [of _ inverted] conjI)
qed

end
