(* ===== verification/Index_Writer.thy ===== *)
theory Index_Writer
  imports Wal Merge_Policy Indexer
begin

section \<open>The index writer\<close>

text \<open>
  The model of \<^verbatim>\<open>src/writer/index_writer.rs\<close> and of \<^verbatim>\<open>SearchEngine::recover\<close> of
  \<^verbatim>\<open>src/core/engine.rs\<close>.

  The writer's record holds the shared MVCC controller and the disk it works on.  An operation
  returns its result with the writer as it is then, also when it fails half way.  The mutex
  serialises the operations, so each is one step; a background merge is a step of its own: \<open>flush\<close>
  records the segments of the thread it spawns in \<open>iw_merges\<close>, and \<open>run_merge\<close> lets one of the
  threads run.  The memory pool plays no part in these operations.  What belongs to libraries is
  collected in the record \<open>env\<close>.
\<close>

subsection \<open>State\<close>

datatype merge_policy_type = Tiered | LogStructured

record env =
  ev_codec :: codec
  ev_wal_codec :: wal_codec
  ev_hash_order :: hash_order
  ev_log10 :: "fval \<Rightarrow> fval"

record index_writer =
  iw_segment_writer :: segment_writer
  iw_wal :: wal
  iw_batch_size :: nat
  iw_compression :: compression_type
  iw_analyzer :: analyzer
  iw_merge_policy :: merge_policy_type
  iw_mvcc :: mvcc
  iw_world :: world
  iw_merges :: "segment list list"

definition should_merge :: "env \<Rightarrow> merge_policy_type \<Rightarrow> segment list \<Rightarrow> bool" where
  "should_merge ev p segments =
     (case p of Tiered \<Rightarrow> tiered_should_merge tiered_default segments
      | LogStructured \<Rightarrow> log_structured_should_merge (ev_log10 ev) log_structured_default segments)"

definition select_segments_to_merge :: "env \<Rightarrow> merge_policy_type \<Rightarrow> segment list \<Rightarrow> segment list" where
  "select_segments_to_merge ev p segments =
     (case p of Tiered \<Rightarrow> tiered_select tiered_default segments
      | LogStructured \<Rightarrow> log_structured_select (ev_log10 ev) log_structured_default segments)"

definition new_segment_writer :: "env \<Rightarrow> world \<Rightarrow> compression_type \<Rightarrow> segment_writer \<times> world" where
  "new_segment_writer ev w compression =
     (let (i, w) = segment_id_new w in segment_writer_new (ev_codec ev) w i compression)"

definition new_with_merge_policy ::
  "env \<Rightarrow> world \<Rightarrow> mvcc \<Rightarrow> analyzer \<Rightarrow> merge_policy_type \<Rightarrow> compression_type \<Rightarrow> index_writer" where
  "new_with_merge_policy ev w m an p compression =
     (let (sw, w) = new_segment_writer ev w compression;
          (lg, w) = wal_open w 0
      in \<lparr>iw_segment_writer = sw, iw_wal = lg, iw_batch_size = 1000, iw_compression = compression,
          iw_analyzer = an, iw_merge_policy = p, iw_mvcc = m, iw_world = w, iw_merges = []\<rparr>)"

definition index_writer_new :: "env \<Rightarrow> world \<Rightarrow> mvcc \<Rightarrow> analyzer \<Rightarrow> index_writer" where
  "index_writer_new ev w m an = new_with_merge_policy ev w m an Tiered LZ4"

subsection \<open>Steps shared by the operations\<close>

definition log_operation :: "env \<Rightarrow> index_writer \<Rightarrow> operation \<Rightarrow> index_writer" where
  "log_operation ev self op =
     (let (lg, w) = wal_append (ev_wal_codec ev) (iw_world self) (iw_wal self) op
      in self\<lparr>iw_wal := lg, iw_world := w\<rparr>)"

definition sync_log :: "index_writer \<Rightarrow> index_writer" where
  "sync_log self = self\<lparr>iw_wal := wal_sync (iw_world self) (iw_wal self)\<rparr>"

text \<open>A new segment writer takes the place of the current one, which is then finished.\<close>

definition finish_segment :: "env \<Rightarrow> index_writer \<Rightarrow> segment result \<times> index_writer" where
  "finish_segment ev self =
     (let old_writer = iw_segment_writer self;
          (new_writer, w) = new_segment_writer ev (iw_world self) (iw_compression self);
          (r, w) = sw_finish (ev_codec ev) w old_writer
      in (r, self\<lparr>iw_segment_writer := new_writer, iw_world := w\<rparr>))"

definition publish :: "index_writer \<Rightarrow> segment list \<Rightarrow> index_writer" where
  "publish self segments = self\<lparr>iw_mvcc := snd (create_snapshot (iw_mvcc self) segments)\<rparr>"

definition with_segment :: "index_writer \<Rightarrow> segment \<Rightarrow> segment list" where
  "with_segment self s = sn_segments (current_snapshot (iw_mvcc self)) @ [s]"

definition store_document :: "env \<Rightarrow> index_writer \<Rightarrow> document \<Rightarrow> unit result \<times> index_writer" where
  "store_document ev self doc =
     (case write_document (ev_codec ev) (iw_world self) (iw_segment_writer self) doc of
        Inl e \<Rightarrow> (Inl e, self)
      | Inr (off, sw, w) \<Rightarrow> (Ok (), self\<lparr>iw_segment_writer := sw, iw_world := w\<rparr>))"

definition index_entries :: "env \<Rightarrow> segment_writer \<Rightarrow> indexed_doc list \<Rightarrow> document \<Rightarrow> segment_writer" where
  "index_entries ev sw indexed_docs doc =
     (case indexed_docs of
        [] \<Rightarrow> sw
      | indexed_doc # _ \<Rightarrow>
          foldl (\<lambda>sw (t, ps). add_index_entry sw t
                   (document_posting (d_id doc) (length (xd_terms indexed_doc)) ps))
            sw (ev_hash_order ev (group_positions (map tk_text (xd_tokens indexed_doc)))))"

definition batch_is_full :: "index_writer \<Rightarrow> bool" where
  "batch_is_full self \<longleftrightarrow> sg_doc_count (sw_segment (iw_segment_writer self)) \<ge> of_nat (iw_batch_size self)"

subsection \<open>Adding documents\<close>

definition add_document_internal ::
  "env \<Rightarrow> index_writer \<Rightarrow> document \<Rightarrow> bool \<Rightarrow> unit result \<times> index_writer" where
  "add_document_internal ev self doc write_wal =
     (case index_batch (iw_analyzer self) [doc] of
        Inl e \<Rightarrow> (Inl e, self)
      | Inr indexed_docs \<Rightarrow>
          (let self = (if write_wal then log_operation ev self (AddDocument doc) else self)
           in case store_document ev self doc of
                (Inl e, self) \<Rightarrow> (Inl e, self)
              | (Inr _, self) \<Rightarrow>
                  (let self = self\<lparr>iw_segment_writer := index_entries ev (iw_segment_writer self) indexed_docs doc\<rparr>
                   in if batch_is_full self
                      then case finish_segment ev self of
                             (Inl e, self) \<Rightarrow> (Inl e, self)
                           | (Inr s, self) \<Rightarrow>
                               (Ok (), if sg_doc_count s > 0 then publish self (with_segment self s) else self)
                      else (Ok (), self))))"

definition iw_add_document :: "env \<Rightarrow> index_writer \<Rightarrow> document \<Rightarrow> unit result \<times> index_writer" where
  "iw_add_document ev self doc = add_document_internal ev self doc True"

fun add_batch_loop ::
  "env \<Rightarrow> index_writer \<Rightarrow> (document \<times> indexed_doc) list \<Rightarrow> unit result \<times> index_writer" where
  "add_batch_loop ev self [] = (Ok (), self)"
| "add_batch_loop ev self ((doc, indexed_doc) # rest) =
     (if xd_doc_id indexed_doc \<noteq> d_id doc
      then (Err (Error InvalidState ''Indexed document id does not match source document id''), self)
      else case store_document ev (log_operation ev self (AddDocument doc)) doc of
             (Inl e, self) \<Rightarrow> (Inl e, self)
           | (Inr _, self) \<Rightarrow>
               (if batch_is_full self
                then case finish_segment ev self of
                       (Inl e, self) \<Rightarrow> (Inl e, self)
                     | (Inr s, self) \<Rightarrow> add_batch_loop ev (publish self (with_segment self s)) rest
                else add_batch_loop ev self rest))"

fun add_each :: "env \<Rightarrow> index_writer \<Rightarrow> document list \<Rightarrow> unit result \<times> index_writer" where
  "add_each ev self [] = (Ok (), self)"
| "add_each ev self (doc # docs) =
     (case iw_add_document ev self doc of
        (Inl e, self) \<Rightarrow> (Inl e, self)
      | (Inr _, self) \<Rightarrow> add_each ev self docs)"

definition add_documents_batch :: "env \<Rightarrow> index_writer \<Rightarrow> document list \<Rightarrow> unit result \<times> index_writer" where
  "add_documents_batch ev self docs =
     (if length docs > 100
      then case index_batch (iw_analyzer self) docs of
             Inl e \<Rightarrow> (Inl e, self)
           | Inr indexed_docs \<Rightarrow>
               if length indexed_docs \<noteq> length docs
               then (Err (Error InvalidState ''Indexed document count does not match input batch size''), self)
               else add_batch_loop ev self (zip docs indexed_docs)
      else add_each ev self docs)"

subsection \<open>Flushing, merging, committing\<close>

definition merge_segments_async :: "env \<Rightarrow> index_writer \<Rightarrow> segment list \<Rightarrow> index_writer" where
  "merge_segments_async ev self segments =
     (let segments_to_merge = select_segments_to_merge ev (iw_merge_policy self) segments
      in if segments_to_merge = [] then self
         else self\<lparr>iw_merges := iw_merges self @ [segments_to_merge]\<rparr>)"

definition iw_flush :: "env \<Rightarrow> index_writer \<Rightarrow> unit result \<times> index_writer" where
  "iw_flush ev self =
     (case finish_segment ev self of
        (Inl e, self) \<Rightarrow> (Inl e, self)
      | (Inr s, self) \<Rightarrow>
          (Ok (),
           if sg_doc_count s > 0
           then let segments = with_segment self s;
                    self = (if should_merge ev (iw_merge_policy self) segments
                            then merge_segments_async ev self segments else self)
                in publish self segments
           else self))"

fun copy_documents ::
  "env \<Rightarrow> u32 set \<Rightarrow> document result list \<Rightarrow> segment_writer \<Rightarrow> world
     \<Rightarrow> segment_writer result \<times> world" where
  "copy_documents ev deleted [] sw w = (Ok sw, w)"
| "copy_documents ev deleted (item # items) sw w =
     (case item of
        Inl e \<Rightarrow> (Inl e, w)
      | Inr doc \<Rightarrow>
          if ucast (d_id doc) \<in> deleted then copy_documents ev deleted items sw w
          else case write_document (ev_codec ev) w sw doc of
                 Inl e \<Rightarrow> (Inl e, w)
               | Inr (off, sw, w) \<Rightarrow> copy_documents ev deleted items sw w)"

fun merge_copy ::
  "env \<Rightarrow> u32 set \<Rightarrow> segment list \<Rightarrow> segment_writer \<Rightarrow> world \<Rightarrow> segment_writer result \<times> world" where
  "merge_copy ev deleted [] sw w = (Ok sw, w)"
| "merge_copy ev deleted (s # ss) sw w =
     (case segment_open (ev_codec ev) w (sg_id s) of
        Inl e \<Rightarrow> (Inl e, w)
      | Inr reader \<Rightarrow>
          (case copy_documents ev deleted (iter_documents (ev_codec ev) reader) sw w of
             (Inl e, w) \<Rightarrow> (Inl e, w)
           | (Inr sw, w) \<Rightarrow> merge_copy ev deleted ss sw w))"

definition merge_segments_impl ::
  "env \<Rightarrow> mvcc \<Rightarrow> world \<Rightarrow> segment list \<Rightarrow> compression_type \<Rightarrow> unit result \<times> mvcc \<times> world" where
  "merge_segments_impl ev m w segments_to_merge compression =
     (let (sw, w) = new_segment_writer ev w compression
      in case merge_copy ev (sn_deleted_docs (current_snapshot m)) segments_to_merge sw w of
           (Inl e, w) \<Rightarrow> (Inl e, m, w)
         | (Inr sw, w) \<Rightarrow>
             (case sw_finish (ev_codec ev) w sw of
                (Inl e, w) \<Rightarrow> (Inl e, m, w)
              | (Inr merged, w) \<Rightarrow>
                  (let new_segments = filter (\<lambda>s. \<not> list_ex (\<lambda>t. sg_id t = sg_id s) segments_to_merge)
                                        (sn_segments (current_snapshot m)) @ [merged]
                   in (Ok (), snd (create_snapshot m new_segments), w))))"

definition run_merge :: "env \<Rightarrow> nat \<Rightarrow> index_writer \<Rightarrow> index_writer" where
  "run_merge ev k self =
     (if k < length (iw_merges self)
      then case merge_segments_impl ev (iw_mvcc self) (iw_world self) (iw_merges self ! k) (iw_compression self) of
             (r, m, w) \<Rightarrow> self\<lparr>iw_mvcc := m, iw_world := w,
                               iw_merges := take k (iw_merges self) @ drop (Suc k) (iw_merges self)\<rparr>
      else self)"

definition iw_commit :: "env \<Rightarrow> index_writer \<Rightarrow> unit result \<times> index_writer" where
  "iw_commit ev self =
     (case iw_flush ev self of
        (Inl e, self) \<Rightarrow> (Inl e, self)
      | (Inr _, self) \<Rightarrow> (Ok (), sync_log (log_operation ev self Commit)))"

subsection \<open>Deleting and compacting\<close>

definition delete_document_internal :: "env \<Rightarrow> index_writer \<Rightarrow> doc_id \<Rightarrow> bool \<Rightarrow> unit result \<times> index_writer" where
  "delete_document_internal ev self d write_wal =
     (let self = (if write_wal then log_operation ev self (DeleteDocument d) else self);
          s = current_snapshot (iw_mvcc self);
          deleted_docs = insert (ucast d) (sn_deleted_docs s)
      in (Ok (), self\<lparr>iw_mvcc := snd (create_snapshot_with_deletes (iw_mvcc self) (sn_segments s) deleted_docs)\<rparr>))"

definition delete_document :: "env \<Rightarrow> index_writer \<Rightarrow> doc_id \<Rightarrow> unit result \<times> index_writer" where
  "delete_document ev self d = delete_document_internal ev self d True"

fun compact_segments ::
  "env \<Rightarrow> compression_type \<Rightarrow> u32 set \<Rightarrow> segment list \<Rightarrow> segment list \<Rightarrow> world \<Rightarrow> segment list result \<times> world" where
  "compact_segments ev c deleted [] new_segments w = (Ok new_segments, w)"
| "compact_segments ev c deleted (s # ss) new_segments w =
     (if deleted = {} then compact_segments ev c deleted ss (new_segments @ [s]) w
      else let (sw, w) = new_segment_writer ev w c
           in case segment_open (ev_codec ev) w (sg_id s) of
                Inl e \<Rightarrow> (Inl e, w)
              | Inr reader \<Rightarrow>
                  (case copy_documents ev deleted (iter_documents (ev_codec ev) reader) sw w of
                     (Inl e, w) \<Rightarrow> (Inl e, w)
                   | (Inr sw, w) \<Rightarrow>
                       (case sw_finish (ev_codec ev) w sw of
                          (Inl e, w) \<Rightarrow> (Inl e, w)
                        | (Inr s', w) \<Rightarrow> compact_segments ev c deleted ss (new_segments @ [s']) w)))"

definition compact :: "env \<Rightarrow> index_writer \<Rightarrow> unit result \<times> index_writer" where
  "compact ev self =
     (let s = current_snapshot (iw_mvcc self)
      in if sn_deleted_docs s = {} then (Ok (), self)
         else case compact_segments ev (iw_compression self) (sn_deleted_docs s) (sn_segments s) [] (iw_world self) of
                (Inl e, w) \<Rightarrow> (Inl e, self\<lparr>iw_world := w\<rparr>)
              | (Inr new_segments, w) \<Rightarrow>
                  (let self = self\<lparr>iw_world := w,
                                   iw_mvcc := snd (create_snapshot_with_deletes (iw_mvcc self) new_segments {})\<rparr>
                   in (Ok (), sync_log (log_operation ev self Commit))))"

subsection \<open>Recovery\<close>

definition apply_recovered_operation :: "env \<Rightarrow> index_writer \<Rightarrow> operation \<Rightarrow> unit result \<times> index_writer" where
  "apply_recovered_operation ev self op =
     (case op of
        AddDocument doc \<Rightarrow> add_document_internal ev self doc False
      | UpdateDocument doc \<Rightarrow> add_document_internal ev self doc False
      | DeleteDocument d \<Rightarrow> delete_document_internal ev self d False
      | Commit \<Rightarrow> iw_flush ev self)"

fun recover_operations :: "env \<Rightarrow> operation list \<Rightarrow> index_writer \<Rightarrow> nat \<Rightarrow> index_writer \<times> nat" where
  "recover_operations ev [] self n = (self, n)"
| "recover_operations ev (op # ops) self n =
     (case apply_recovered_operation ev self op of
        (Inr _, self) \<Rightarrow> recover_operations ev ops self (n + 1)
      | (Inl e, self) \<Rightarrow> recover_operations ev ops self n)"

fun recover_files :: "env \<Rightarrow> u64 list \<Rightarrow> index_writer \<Rightarrow> nat \<Rightarrow> nat result \<times> index_writer" where
  "recover_files ev [] self n = (Ok n, self)"
| "recover_files ev (sequence # sequences) self n =
     (let (lg, w) = wal_open (iw_world self) sequence;
          self = self\<lparr>iw_world := w\<rparr>
      in case wal_read_entries (ev_wal_codec ev) w lg of
           Inl e \<Rightarrow> (Inl e, self)
         | Inr (entries, lg) \<Rightarrow>
             (case recover_operations ev (operations_after_last_commit entries) self n of
                (self, n) \<Rightarrow> recover_files ev sequences self n))"

definition recover :: "env \<Rightarrow> string list \<Rightarrow> index_writer \<Rightarrow> unit result \<times> index_writer" where
  "recover ev listing self =
     (let wal_sequences = find_wal_files listing
      in if wal_sequences = [] then (Ok (), self)
         else case recover_files ev wal_sequences self 0 of
                (Inl e, self) \<Rightarrow> (Inl e, self)
              | (Inr n, self) \<Rightarrow> if n > 0 then iw_commit ev self else (Ok (), self))"

subsection \<open>What the operations leave alone\<close>

text \<open>\<open>untouched ps w w'\<close>: the step from \<open>w\<close> to \<open>w'\<close> changes no file outside \<open>ps\<close> and forgets no id.\<close>

definition untouched :: "path set \<Rightarrow> world \<Rightarrow> world \<Rightarrow> bool" where
  "untouched ps w w' \<longleftrightarrow> (\<forall>p. p \<notin> ps \<longrightarrow> w_files w' p = w_files w p) \<and> w_next_id w \<le> w_next_id w'"

lemma untouched_refl [simp, intro]: "untouched ps w w"
  by (simp add: untouched_def)

lemma untouched_trans: "untouched ps w w' \<Longrightarrow> untouched qs w' w'' \<Longrightarrow> untouched (ps \<union> qs) w w''"
  by (auto simp: untouched_def)

lemma untouched_mono: "untouched ps w w' \<Longrightarrow> ps \<subseteq> qs \<Longrightarrow> untouched qs w w'"
  by (auto simp: untouched_def)

lemma untouched_write: "untouched {p} w (write_file w p bs)" "untouched {p} w (append_file w p bs)"
  "untouched {p} w (overwrite_start w p bs)"
  by (auto simp: untouched_def write_file_def append_file_def overwrite_start_def)

lemma sw_flush_untouched: "sw_flush w sw = (sw', w') \<Longrightarrow> untouched {sw_path sw} w w'"
  by (auto simp: sw_flush_def untouched_write split: if_splits)

lemma write_document_untouched:
  assumes "write_document cd w sw d = Ok (off, sw', w')"
  shows "untouched {sw_path sw} w w'"
proof -
  obtain b where b: "compress (codec_compressors cd) (ser_doc cd d) (sw_compression sw) = Ok b"
    using assms by (auto simp: write_document_def and_then_Ok_iff)
  define sw1 where "sw1 = sw\<lparr>sw_buffer := sw_buffer sw @ to_le_bytes_u32 (of_nat (length (ser_block cd b))) @ ser_block cd b,
      sw_segment := note_document (sw_segment sw) d\<rparr>"
  have path: "sw_path sw1 = sw_path sw" by (simp add: sw_path_def sw1_def note_document_def)
  have "(if length (sw_buffer sw1) > 1024 * 1024 then sw_flush w sw1 else (sw1, w)) = (sw', w')"
    using assms unfolding write_document_def b and_then_simps Let_def sw1_def
    by (simp split: prod.splits)
  then show ?thesis
    using sw_flush_untouched [of w sw1 sw' w'] unfolding path by (auto split: if_splits)
qed

lemma new_segment_writer_facts:
  assumes "new_segment_writer ev w c = (sw, w')"
  shows "writer_holds (ev_codec ev) w' sw []" "sw_compression sw = c" "sg_id (sw_segment sw) = w_next_id w"
    "w_next_id w' = w_next_id w + 1" "untouched {SegmentPath (w_next_id w)} w w'" "sw_inverted_index sw = []"
proof -
  obtain i w1 where i: "segment_id_new w = (i, w1)" "i = w_next_id w" "w_next_id w1 = w_next_id w + 1"
    "w_files w1 = w_files w"
    by (rule that [of "w_next_id w" "w\<lparr>w_next_id := w_next_id w + 1\<rparr>"]) (simp_all add: segment_id_new_def)
  have sw: "segment_writer_new (ev_codec ev) w1 i c = (sw, w')"
    using assms by (simp add: new_segment_writer_def i(1))
  show "writer_holds (ev_codec ev) w' sw []" "sw_compression sw = c" "sg_id (sw_segment sw) = w_next_id w"
    "sw_inverted_index sw = []"
    using writer_holds_new [OF sw] i by auto
  show "w_next_id w' = w_next_id w + 1" "untouched {SegmentPath (w_next_id w)} w w'"
    using sw i by (auto simp: segment_writer_new_def write_file_def untouched_def)
qed

text \<open>
  What the writer needs of the libraries besides the laws of the documents: the header laws, and
  that compressing does not fail.  (The compressors refuse only inputs of more than about two
  gigabytes; an index of that size is outside the model, like running out of memory.)
\<close>

definition env_laws :: "env \<Rightarrow> compression_type \<Rightarrow> bool" where
  "env_laws ev c \<longleftrightarrow>
     header_laws (ev_codec ev) \<and> (\<forall>bs. \<not> isl (compress (codec_compressors (ev_codec ev)) bs c))"

lemma env_laws_compress: "env_laws ev c \<Longrightarrow> \<exists>b. compress (codec_compressors (ev_codec ev)) bs c = Ok b"
  by (metis env_laws_def sum.collapse(2))

lemma write_inverted_index_Ok:
  assumes "env_laws ev (sw_compression sw)"
  shows "\<exists>w'. write_inverted_index (ev_codec ev) w sw = (Ok (), w') \<and> untouched {IndexPath (sg_id (sw_segment sw))} w w'"
proof -
  obtain b where "compress (codec_compressors (ev_codec ev))
      (ser_index (ev_codec ev) (map (\<lambda>(t, ps). (t, sort_key doc_id ps)) (sw_inverted_index sw))) (sw_compression sw) = Ok b"
    using env_laws_compress [OF assms] by blast
  then show ?thesis
    by (simp add: write_inverted_index_def Let_def) (auto simp: untouched_def write_file_def)
qed

lemma sw_finish_indexed:
  assumes "writer_holds (ev_codec ev) w sw docs" "env_laws ev (sw_compression sw)"
  shows "\<exists>s w'. sw_finish (ev_codec ev) w sw = (Ok s, w') \<and> sg_id s = sg_id (sw_segment sw) \<and>
           sg_doc_count s = of_nat (length docs) \<and>
           segment_file_holds (ev_codec ev) w' (sg_id s) (sw_compression sw) docs \<and>
           untouched {SegmentPath (sg_id s), IndexPath (sg_id s)} w w'"
proof -
  let ?cd = "ev_codec ev"
  define sw0 where "sw0 = sw\<lparr>sw_inverted_index := []\<rparr>"
  obtain sw1 w1 where fl: "sw_flush w sw = (sw1, w1)" by fastforce
  have path: "sw_path sw = SegmentPath (sg_id (sw_segment sw))" "sw_path sw1 = sw_path sw"
    "sw_segment sw1 = sw_segment sw" "sw_compression sw1 = sw_compression sw"
    using fl by (auto simp: sw_path_def sw_flush_def split: if_splits)
  have fl0: "sw_flush w sw0 = (sw1\<lparr>sw_inverted_index := []\<rparr>, w1)"
    using fl by (auto simp: sw_flush_def sw0_def sw_path_def split: if_splits)
  have "writer_holds ?cd w sw0 docs" "header_laws ?cd" "sw_inverted_index sw0 = []"
    using assms by (auto simp: sw0_def writer_holds_def sw_path_def env_laws_def)
  from sw_finish_holds [OF this] obtain s w2 where s: "sw_finish ?cd w sw0 = (Ok s, w2)"
    "sg_id s = sg_id (sw_segment sw)" "sg_doc_count s = of_nat (length docs)"
    "segment_file_holds ?cd w2 (sg_id s) (sw_compression sw) docs"
    by (auto simp: sw0_def)
  have fin: "sw_finish ?cd w sw =
      (case if sw_inverted_index sw1 \<noteq> [] then write_inverted_index ?cd w2 sw1 else (Ok (), w2) of
         (r, w') \<Rightarrow> (and_then r (\<lambda>_. Ok s), w'))"
    using s(1) unfolding sw_finish_def fl fl0 Let_def prod.case by (auto simp: sw_path_def split: prod.splits)
  obtain w3 where w3: "write_inverted_index ?cd w2 sw1 = (Ok (), w3)" "untouched {IndexPath (sg_id s)} w2 w3"
    using write_inverted_index_Ok [of ev sw1 w2] assms(2) path s(2) by auto
  have "untouched {sw_path sw} w w2"
    using s(1) untouched_trans [OF sw_flush_untouched [OF fl] untouched_write(3), of "sw_path sw"] path(2)
    unfolding sw_finish_def fl0 Let_def prod.case by (auto simp: sw_path_def)
  then have w2: "untouched {SegmentPath (sg_id s)} w w2" using path s(2) by simp
  show ?thesis
  proof (cases "sw_inverted_index sw1 \<noteq> []")
    case True
    have "segment_file_holds ?cd w3 (sg_id s) (sw_compression sw) docs"
      using s(4) w3(2) by (simp add: segment_file_holds_def untouched_def)
    moreover have "untouched {SegmentPath (sg_id s), IndexPath (sg_id s)} w w3"
      using untouched_trans [OF w2 w3(2)] by (simp add: insert_commute)
    ultimately show ?thesis using True fin w3 s by auto
  next
    case False
    then show ?thesis using fin s untouched_mono [OF w2] by auto
  qed
qed

lemma segment_file_holds_untouched:
  "segment_file_holds cd w i c docs \<Longrightarrow> untouched ps w w' \<Longrightarrow> SegmentPath i \<notin> ps \<Longrightarrow>
     segment_file_holds cd w' i c docs"
  by (auto simp: segment_file_holds_def untouched_def)

lemma writer_holds_untouched:
  "writer_holds cd w sw docs \<Longrightarrow> untouched ps w w' \<Longrightarrow> sw_path sw \<notin> ps \<Longrightarrow> writer_holds cd w' sw docs"
  by (auto simp: writer_holds_def untouched_def)

subsection \<open>The specification of a writer\<close>

text \<open>
  Abstractly a writer keeps the documents of the published segments, the documents that wait for the
  next flush, and the 32-bit ids that count as deleted.
\<close>

record writer_spec =
  sp_published :: "document list list"
  sp_buffer :: "document list"
  sp_deleted :: "u32 set"

datatype command = AddCommand document | DeleteCommand doc_id | FlushCommand | CommitCommand

definition spec_flush :: "writer_spec \<Rightarrow> writer_spec" where
  "spec_flush sp =
     (if sp_buffer sp = [] then sp
      else \<lparr>sp_published = sp_published sp @ [sp_buffer sp], sp_buffer = [], sp_deleted = {}\<rparr>)"

definition spec_add :: "nat \<Rightarrow> writer_spec \<Rightarrow> document \<Rightarrow> writer_spec" where
  "spec_add n sp d =
     (let sp' = sp\<lparr>sp_buffer := sp_buffer sp @ [d]\<rparr>
      in if length (sp_buffer sp') \<ge> n then spec_flush sp' else sp')"

fun spec_step :: "nat \<Rightarrow> writer_spec \<Rightarrow> command \<Rightarrow> writer_spec" where
  "spec_step n sp (AddCommand d) = spec_add n sp d"
| "spec_step n sp (DeleteCommand i) = sp\<lparr>sp_deleted := insert (ucast i) (sp_deleted sp)\<rparr>"
| "spec_step n sp FlushCommand = spec_flush sp"
| "spec_step n sp CommitCommand = spec_flush sp"

fun writer_step :: "env \<Rightarrow> index_writer \<Rightarrow> command \<Rightarrow> unit result \<times> index_writer" where
  "writer_step ev self (AddCommand d) = iw_add_document ev self d"
| "writer_step ev self (DeleteCommand i) = delete_document ev self i"
| "writer_step ev self FlushCommand = iw_flush ev self"
| "writer_step ev self CommitCommand = iw_commit ev self"

fun writer_run :: "env \<Rightarrow> index_writer \<Rightarrow> command list \<Rightarrow> unit result \<times> index_writer" where
  "writer_run ev self [] = (Ok (), self)"
| "writer_run ev self (c # cs) =
     (case writer_step ev self c of
        (Inl e, self) \<Rightarrow> (Inl e, self)
      | (Inr _, self) \<Rightarrow> writer_run ev self cs)"

lemma writer_run_append:
  "writer_run ev self (xs @ ys) =
     (case writer_run ev self xs of (Inl e, self) \<Rightarrow> (Inl e, self) | (Inr _, self) \<Rightarrow> writer_run ev self ys)"
  by (induction xs arbitrary: self) (auto split: prod.splits sum.splits)

definition segments_hold :: "env \<Rightarrow> compression_type \<Rightarrow> world \<Rightarrow> segment_id \<Rightarrow> segment list \<Rightarrow> document list list \<Rightarrow> bool" where
  "segments_hold ev c w i segs docss \<longleftrightarrow>
     list_all2 (\<lambda>s docs. segment_file_holds (ev_codec ev) w (sg_id s) c docs \<and>
                         sg_id s < w_next_id w \<and> sg_id s \<noteq> i) segs docss"

definition writer_core :: "env \<Rightarrow> index_writer \<Rightarrow> writer_spec \<Rightarrow> bool" where
  "writer_core ev self sp \<longleftrightarrow>
     writer_holds (ev_codec ev) (iw_world self) (iw_segment_writer self) (sp_buffer sp) \<and>
     sw_compression (iw_segment_writer self) = iw_compression self \<and>
     sg_id (sw_segment (iw_segment_writer self)) < w_next_id (iw_world self) \<and>
     mvcc_wf (iw_mvcc self) \<and>
     segments_hold ev (iw_compression self) (iw_world self) (sg_id (sw_segment (iw_segment_writer self)))
       (sn_segments (current_snapshot (iw_mvcc self))) (sp_published sp) \<and>
     sn_deleted_docs (current_snapshot (iw_mvcc self)) = sp_deleted sp \<and>
     (\<exists>n. wl_file (iw_wal self) = WalPath n)"

definition writer_rep :: "env \<Rightarrow> index_writer \<Rightarrow> writer_spec \<Rightarrow> bool" where
  "writer_rep ev self sp \<longleftrightarrow> writer_core ev self sp \<and> length (sp_buffer sp) < max 1 (iw_batch_size self)"

lemma segments_hold_untouched:
  assumes "segments_hold ev c w i segs docss" "untouched ps w w'"
    "\<And>j. j < w_next_id w \<Longrightarrow> j \<noteq> i \<Longrightarrow> SegmentPath j \<notin> ps" "i' \<ge> w_next_id w \<or> i' = i"
  shows "segments_hold ev c w' i' segs docss"
  using assms(1) unfolding segments_hold_def
proof (rule list_all2_mono)
  fix s docs
  assume s: "segment_file_holds (ev_codec ev) w (sg_id s) c docs \<and> sg_id s < w_next_id w \<and> sg_id s \<noteq> i"
  then show "segment_file_holds (ev_codec ev) w' (sg_id s) c docs \<and> sg_id s < w_next_id w' \<and> sg_id s \<noteq> i'"
    using assms(2-4) segment_file_holds_untouched [OF _ assms(2), of "ev_codec ev" "sg_id s" c docs]
    by (auto simp: untouched_def)
qed

text \<open>Logging touches only the log file.\<close>

lemma log_operation_untouched:
  assumes "wl_file (iw_wal self) = WalPath n"
  shows "untouched {WalPath n} (iw_world self) (iw_world (log_operation ev self op))"
    "iw_segment_writer (log_operation ev self op) = iw_segment_writer self"
    "iw_mvcc (log_operation ev self op) = iw_mvcc self" "iw_compression (log_operation ev self op) = iw_compression self"
    "iw_batch_size (log_operation ev self op) = iw_batch_size self"
    "iw_analyzer (log_operation ev self op) = iw_analyzer self"
    "wl_file (iw_wal (log_operation ev self op)) = WalPath n"
  using wal_append_fields [of "ev_wal_codec ev" "iw_world self" "iw_wal self" op]
    wal_append_files [of "ev_wal_codec ev" "iw_world self" "iw_wal self" op] assms
  by (auto simp: log_operation_def Let_def untouched_def wal_append_def append_file_def write_file_def
      split: prod.splits)

lemma log_operation_core:
  assumes "writer_core ev self sp"
  shows "writer_core ev (log_operation ev self op) sp"
proof -
  obtain n where n: "wl_file (iw_wal self) = WalPath n" using assms by (auto simp: writer_core_def)
  note same = log_operation_untouched [OF n, of ev op]
  have "writer_holds (ev_codec ev) (iw_world (log_operation ev self op)) (iw_segment_writer self) (sp_buffer sp)"
    using assms writer_holds_untouched [OF _ same(1)] by (auto simp: writer_core_def sw_path_def)
  moreover have "segments_hold ev (iw_compression self) (iw_world (log_operation ev self op))
      (sg_id (sw_segment (iw_segment_writer self))) (sn_segments (current_snapshot (iw_mvcc self))) (sp_published sp)"
    using assms segments_hold_untouched [OF _ same(1)] by (auto simp: writer_core_def)
  ultimately show ?thesis
    using assms same by (auto simp: writer_core_def untouched_def)
qed

lemma sync_log_core: "writer_core ev self sp \<Longrightarrow> writer_core ev (sync_log self) sp"
  by (auto simp: writer_core_def sync_log_def wal_sync_def)

lemma index_entries_fields:
  "sw_segment (index_entries ev sw xs d) = sw_segment sw" "sw_buffer (index_entries ev sw xs d) = sw_buffer sw"
  "sw_hashed (index_entries ev sw xs d) = sw_hashed sw" "sw_compression (index_entries ev sw xs d) = sw_compression sw"
proof -
  have "sw_segment (foldl (\<lambda>sw (t, ps). add_index_entry sw t (f ps)) sw es) = sw_segment sw \<and>
      sw_buffer (foldl (\<lambda>sw (t, ps). add_index_entry sw t (f ps)) sw es) = sw_buffer sw \<and>
      sw_hashed (foldl (\<lambda>sw (t, ps). add_index_entry sw t (f ps)) sw es) = sw_hashed sw \<and>
      sw_compression (foldl (\<lambda>sw (t, ps). add_index_entry sw t (f ps)) sw es) = sw_compression sw"
    for f and es :: "(string \<times> u32 list) list"
    by (induction es arbitrary: sw) (auto simp: add_index_entry_def)
  then show "sw_segment (index_entries ev sw xs d) = sw_segment sw" "sw_buffer (index_entries ev sw xs d) = sw_buffer sw"
    "sw_hashed (index_entries ev sw xs d) = sw_hashed sw" "sw_compression (index_entries ev sw xs d) = sw_compression sw"
    by (cases xs; simp add: index_entries_def)+
qed

lemma writer_holds_index_entries:
  "writer_holds cd w sw docs \<Longrightarrow> writer_holds cd w (index_entries ev sw xs d) docs"
  by (simp add: writer_holds_def sw_path_def index_entries_fields)



text \<open>Storing a document adds it to the buffer.\<close>

lemma store_document_core:
  assumes "writer_core ev self sp" "document_laws (ev_codec ev) (iw_compression self) d"
  shows "\<exists>self'. store_document ev self d = (Ok (), self') \<and>
           writer_core ev self' (sp\<lparr>sp_buffer := sp_buffer sp @ [d]\<rparr>) \<and>
           (\<exists>sw w. self' = self\<lparr>iw_segment_writer := sw, iw_world := w\<rparr>)"
proof -
  have pre: "writer_holds (ev_codec ev) (iw_world self) (iw_segment_writer self) (sp_buffer sp)"
    "document_laws (ev_codec ev) (sw_compression (iw_segment_writer self)) d"
    using assms by (auto simp: writer_core_def)
  obtain off sw w where
    wd: "write_document (ev_codec ev) (iw_world self) (iw_segment_writer self) d = Ok (off, sw, w)"
    "writer_holds (ev_codec ev) w sw (sp_buffer sp @ [d])" "sw_compression sw = iw_compression self"
    "sg_id (sw_segment sw) = sg_id (sw_segment (iw_segment_writer self))"
    using write_document_holds [OF pre] assms by (auto simp: writer_core_def)
  note same = write_document_untouched [OF wd(1)]
  have "segments_hold ev (iw_compression self) w (sg_id (sw_segment sw))
      (sn_segments (current_snapshot (iw_mvcc self))) (sp_published sp)"
    using assms(1) wd(4) segments_hold_untouched [OF _ same, of ev "iw_compression self"]
    by (auto simp: writer_core_def sw_path_def)
  then have "writer_core ev (self\<lparr>iw_segment_writer := sw, iw_world := w\<rparr>) (sp\<lparr>sp_buffer := sp_buffer sp @ [d]\<rparr>)"
    using assms(1) wd same by (auto simp: writer_core_def untouched_def)
  with wd(1) show ?thesis by (auto simp: store_document_def)
qed

lemma index_entries_core:
  "writer_core ev self sp \<Longrightarrow>
     writer_core ev (self\<lparr>iw_segment_writer := index_entries ev (iw_segment_writer self) xs d\<rparr>) sp"
  by (simp add: writer_core_def writer_holds_index_entries index_entries_fields)

text \<open>Finishing the segment leaves an empty writer and a file with the buffered documents.\<close>

lemma finish_segment_core:
  assumes "writer_core ev self sp" "env_laws ev (iw_compression self)"
  shows "\<exists>s self'. finish_segment ev self = (Ok s, self') \<and> sg_doc_count s = of_nat (length (sp_buffer sp)) \<and>
           writer_core ev self' (sp\<lparr>sp_buffer := []\<rparr>) \<and>
           segments_hold ev (iw_compression self) (iw_world self') (sg_id (sw_segment (iw_segment_writer self')))
             (with_segment self' s) (sp_published sp @ [sp_buffer sp]) \<and>
           (\<exists>sw w. self' = self\<lparr>iw_segment_writer := sw, iw_world := w\<rparr>)"
proof -
  let ?cd = "ev_codec ev" and ?c = "iw_compression self" and ?old = "iw_segment_writer self"
  let ?segs = "sn_segments (current_snapshot (iw_mvcc self))"
  obtain new w1 where new: "new_segment_writer ev (iw_world self) ?c = (new, w1)" by fastforce
  note nw = new_segment_writer_facts [OF new]
  have core: "writer_holds ?cd (iw_world self) ?old (sp_buffer sp)" "sw_compression ?old = ?c"
    "sg_id (sw_segment ?old) < w_next_id (iw_world self)"
    "segments_hold ev ?c (iw_world self) (sg_id (sw_segment ?old)) ?segs (sp_published sp)"
    using assms(1) by (auto simp: writer_core_def)
  have old: "writer_holds ?cd w1 ?old (sp_buffer sp)"
    using writer_holds_untouched [OF core(1) nw(5)] core(3) by (auto simp: sw_path_def)
  obtain s w2 where s: "sw_finish ?cd w1 ?old = (Ok s, w2)" "sg_id s = sg_id (sw_segment ?old)"
    "sg_doc_count s = of_nat (length (sp_buffer sp))" "segment_file_holds ?cd w2 (sg_id s) ?c (sp_buffer sp)"
    "untouched {SegmentPath (sg_id s), IndexPath (sg_id s)} w1 w2"
    using sw_finish_indexed [OF old] core(2) assms(2) by auto
  define self' where "self' = self\<lparr>iw_segment_writer := new, iw_world := w2\<rparr>"
  have fin: "finish_segment ev self = (Ok s, self')"
    by (simp add: finish_segment_def new s(1) self'_def)
  have newid: "sg_id (sw_segment new) = w_next_id (iw_world self)" "w_next_id w2 \<ge> w_next_id (iw_world self) + 1"
    using nw(3,4) s(5) by (auto simp: untouched_def)
  have both: "untouched {SegmentPath (w_next_id (iw_world self)), SegmentPath (sg_id s), IndexPath (sg_id s)} (iw_world self) w2"
    by (rule untouched_mono [OF untouched_trans [OF nw(5) s(5)]]) auto
  have segs: "segments_hold ev ?c w2 (sg_id (sw_segment new)) ?segs (sp_published sp)"
    using segments_hold_untouched [OF core(4) both, of "sg_id (sw_segment new)"] newid(1) s(2) by auto
  have "writer_holds ?cd w2 new []"
    using writer_holds_untouched [OF nw(1) s(5)] core(3) newid(1) s(2) by (auto simp: sw_path_def)
  then have "writer_core ev self' (sp\<lparr>sp_buffer := []\<rparr>)"
    using assms(1) segs nw(2) newid by (auto simp: writer_core_def self'_def)
  moreover have "segments_hold ev ?c w2 (sg_id (sw_segment new)) (?segs @ [s]) (sp_published sp @ [sp_buffer sp])"
    using segs s(2,4) core(3) newid unfolding segments_hold_def by (intro list_all2_appendI) auto
  ultimately show ?thesis
    using fin s(3) by (auto simp: self'_def with_segment_def)
qed

text \<open>Publishing the finished segment forgets the deleted documents.\<close>

lemma publish_core:
  assumes "writer_core ev self (sp\<lparr>sp_buffer := []\<rparr>)" "mv_current_version (iw_mvcc self) \<noteq> - 1"
    "segments_hold ev (iw_compression self) (iw_world self) (sg_id (sw_segment (iw_segment_writer self))) segs docss"
  shows "writer_core ev (publish self segs) \<lparr>sp_published = docss, sp_buffer = [], sp_deleted = {}\<rparr>"
    "mv_current_version (iw_mvcc (publish self segs)) = mv_current_version (iw_mvcc self) + 1"
proof -
  obtain s m where c: "create_snapshot_with_deletes (iw_mvcc self) segs {} = (s, m)" by fastforce
  have "mvcc_wf (iw_mvcc self)" using assms(1) by (simp add: writer_core_def)
  from create_wf [OF this assms(2) c] assms c
  show "writer_core ev (publish self segs) \<lparr>sp_published = docss, sp_buffer = [], sp_deleted = {}\<rparr>"
    "mv_current_version (iw_mvcc (publish self segs)) = mv_current_version (iw_mvcc self) + 1"
    by (auto simp: publish_def create_snapshot_def writer_core_def)
qed

subsection \<open>Refinement\<close>

abbreviation version :: "index_writer \<Rightarrow> u64" where
  "version self \<equiv> mv_current_version (iw_mvcc self)"

text \<open>One command takes a state that represents \<open>sp\<close> to one that represents the command's result,
  keeps the configuration, and publishes at most one version.\<close>

definition refines_step :: "env \<Rightarrow> index_writer \<Rightarrow> unit result \<times> index_writer \<Rightarrow> writer_spec \<Rightarrow> bool" where
  "refines_step ev self r sp \<longleftrightarrow>
     fst r = Ok () \<and> writer_rep ev (snd r) sp \<and> iw_batch_size (snd r) = iw_batch_size self \<and>
     iw_compression (snd r) = iw_compression self \<and> (version (snd r) = version self \<or> version (snd r) = version self + 1)"

lemma finish_and_publish:
  assumes "writer_core ev self sp" "env_laws ev (iw_compression self)" "version self \<noteq> - 1"
    "length (sp_buffer sp) < 2 ^ 32"
  shows "\<exists>s self'. finish_segment ev self = (Ok s, self') \<and> (sg_doc_count s > 0 \<longleftrightarrow> sp_buffer sp \<noteq> []) \<and>
           iw_batch_size self' = iw_batch_size self \<and> iw_compression self' = iw_compression self \<and>
           version self' = version self \<and> iw_merge_policy self' = iw_merge_policy self \<and>
           writer_core ev self' (sp\<lparr>sp_buffer := []\<rparr>) \<and>
           (\<forall>ms. writer_core ev (publish (self'\<lparr>iw_merges := ms\<rparr>) (with_segment self' s))
                   \<lparr>sp_published = sp_published sp @ [sp_buffer sp], sp_buffer = [], sp_deleted = {}\<rparr> \<and>
                 version (publish (self'\<lparr>iw_merges := ms\<rparr>) (with_segment self' s)) = version self + 1)"
proof -
  obtain s self' where fin: "finish_segment ev self = (Ok s, self')" "sg_doc_count s = of_nat (length (sp_buffer sp))"
    "writer_core ev self' (sp\<lparr>sp_buffer := []\<rparr>)"
    "segments_hold ev (iw_compression self) (iw_world self') (sg_id (sw_segment (iw_segment_writer self')))
       (with_segment self' s) (sp_published sp @ [sp_buffer sp])"
    "\<exists>sw w. self' = self\<lparr>iw_segment_writer := sw, iw_world := w\<rparr>"
    using finish_segment_core [OF assms(1,2)] by blast
  have same: "iw_batch_size self' = iw_batch_size self" "iw_compression self' = iw_compression self"
    "version self' = version self" "iw_merge_policy self' = iw_merge_policy self"
    using fin(5) by auto
  have count: "sg_doc_count s > 0 \<longleftrightarrow> sp_buffer sp \<noteq> []"
    using assms(4) by (simp add: fin(2) word_less_nat_alt unat_of_nat)
  have pub: "writer_core ev (publish (self'\<lparr>iw_merges := ms\<rparr>) (with_segment self' s))
      \<lparr>sp_published = sp_published sp @ [sp_buffer sp], sp_buffer = [], sp_deleted = {}\<rparr>"
    "version (publish (self'\<lparr>iw_merges := ms\<rparr>) (with_segment self' s)) = version self + 1" for ms
    using publish_core [of ev "self'\<lparr>iw_merges := ms\<rparr>" sp "with_segment self' s" "sp_published sp @ [sp_buffer sp]"]
      fin(3,4) assms(3) same by (auto simp: writer_core_def)
  show ?thesis using fin(1,3) same count pub by blast
qed

lemma publish_fields [simp]:
  "iw_batch_size (publish self segs) = iw_batch_size self" "iw_compression (publish self segs) = iw_compression self"
  by (simp_all add: publish_def)

lemma flush_refines:
  assumes "writer_rep ev self sp" "env_laws ev (iw_compression self)" "version self \<noteq> - 1" "iw_batch_size self < 2 ^ 32"
  shows "refines_step ev self (iw_flush ev self) (spec_flush sp)"
proof -
  have core: "writer_core ev self sp" and len: "length (sp_buffer sp) < 2 ^ 32"
    using assms(1,4) by (auto simp: writer_rep_def)
  from finish_and_publish [OF core assms(2,3) len] obtain s self' where
    fin: "finish_segment ev self = (Ok s, self')" "sg_doc_count s > 0 \<longleftrightarrow> sp_buffer sp \<noteq> []"
    "iw_batch_size self' = iw_batch_size self" "iw_compression self' = iw_compression self" "version self' = version self"
    "writer_core ev self' (sp\<lparr>sp_buffer := []\<rparr>)"
    and pub: "\<And>ms. writer_core ev (publish (self'\<lparr>iw_merges := ms\<rparr>) (with_segment self' s))
                   \<lparr>sp_published = sp_published sp @ [sp_buffer sp], sp_buffer = [], sp_deleted = {}\<rparr> \<and>
                 version (publish (self'\<lparr>iw_merges := ms\<rparr>) (with_segment self' s)) = version self + 1"
    by blast
  define segs where "segs = with_segment self' s"
  obtain ms where ms: "(if should_merge ev (iw_merge_policy self') segs then merge_segments_async ev self' segs else self') =
      self'\<lparr>iw_merges := ms\<rparr>"
    by (cases "should_merge ev (iw_merge_policy self') segs \<and> select_segments_to_merge ev (iw_merge_policy self') segs \<noteq> []")
      (auto simp: merge_segments_async_def Let_def intro: that [of "iw_merges self'"])
  have flush: "iw_flush ev self = (Ok (), if sp_buffer sp \<noteq> [] then publish (self'\<lparr>iw_merges := ms\<rparr>) segs else self')"
    unfolding iw_flush_def fin(1) prod.case sum.case fin(2) Let_def segs_def [symmetric] ms by simp
  show ?thesis
  proof (cases "sp_buffer sp = []")
    case True
    then have "sp\<lparr>sp_buffer := []\<rparr> = sp" by (cases sp) simp
    with fin(6) have "writer_core ev self' sp" by (simp only:)
    then show ?thesis using True fin flush assms(1) by (simp add: refines_step_def spec_flush_def writer_rep_def)
  next
    case False
    then show ?thesis using fin flush pub [of ms]
      by (simp add: refines_step_def spec_flush_def writer_rep_def segs_def)
  qed
qed

lemma log_operation_same:
  "iw_mvcc (log_operation ev self op) = iw_mvcc self" "iw_compression (log_operation ev self op) = iw_compression self"
  "iw_batch_size (log_operation ev self op) = iw_batch_size self" "iw_analyzer (log_operation ev self op) = iw_analyzer self"
  by (simp_all add: log_operation_def split: prod.splits)

text \<open>After a document is stored, a full segment is finished and published.\<close>

lemma stored_refines:
  assumes "writer_rep ev self sp" "env_laws ev (iw_compression self)" "version self \<noteq> - 1" "iw_batch_size self < 2 ^ 32"
    and core2: "writer_core ev self2 (sp\<lparr>sp_buffer := sp_buffer sp @ [d]\<rparr>)"
    and same2: "iw_compression self2 = iw_compression self" "iw_batch_size self2 = iw_batch_size self" "version self2 = version self"
  shows "if batch_is_full self2
         then \<exists>s self'. finish_segment ev self2 = (Ok s, self') \<and> sg_doc_count s > 0 \<and>
                refines_step ev self (Ok (), publish self' (with_segment self' s)) (spec_add (iw_batch_size self) sp d)
         else refines_step ev self (Ok (), self2) (spec_add (iw_batch_size self) sp d)"
proof -
  let ?sp = "sp\<lparr>sp_buffer := sp_buffer sp @ [d]\<rparr>"
  have len: "length (sp_buffer ?sp) < 2 ^ 32" "length (sp_buffer ?sp) \<le> max 1 (iw_batch_size self)"
    using assms(1,4) by (auto simp: writer_rep_def max_def split: if_splits)
  have "sg_doc_count (sw_segment (iw_segment_writer self2)) = of_nat (length (sp_buffer ?sp))"
    using core2 by (simp add: writer_core_def writer_holds_def)
  then have full: "batch_is_full self2 \<longleftrightarrow> length (sp_buffer ?sp) \<ge> iw_batch_size self"
    using len(1) assms(4) same2(2) by (simp only: batch_is_full_def word_le_nat_alt unat_of_nat) simp
  show ?thesis
  proof (cases "batch_is_full self2")
    case True
    have "env_laws ev (iw_compression self2)" "version self2 \<noteq> - 1" using assms(2,3) same2 by simp_all
    from finish_and_publish [OF core2 this len(1)] obtain s self' where
      fin: "finish_segment ev self2 = (Ok s, self')" "sg_doc_count s > 0 \<longleftrightarrow> sp_buffer ?sp \<noteq> []"
      "iw_batch_size self' = iw_batch_size self2" "iw_compression self' = iw_compression self2"
      and pub: "\<And>ms. writer_core ev (publish (self'\<lparr>iw_merges := ms\<rparr>) (with_segment self' s))
         \<lparr>sp_published = sp_published ?sp @ [sp_buffer ?sp], sp_buffer = [], sp_deleted = {}\<rparr> \<and>
         version (publish (self'\<lparr>iw_merges := ms\<rparr>) (with_segment self' s)) = version self2 + 1"
      by blast
    have "self'\<lparr>iw_merges := iw_merges self'\<rparr> = self'" by simp
    note pub' = pub [of "iw_merges self'", unfolded this]
    have "refines_step ev self (Ok (), publish self' (with_segment self' s)) (spec_add (iw_batch_size self) sp d)"
      using True full same2 fin pub' by (simp add: refines_step_def writer_rep_def spec_add_def spec_flush_def)
    with True fin(1,2) show ?thesis by simp
  next
    case False
    with full core2 same2 show ?thesis by (simp add: refines_step_def writer_rep_def spec_add_def)
  qed
qed

lemma add_document_internal_refines:
  assumes "writer_rep ev self sp" "env_laws ev (iw_compression self)" "version self \<noteq> - 1" "iw_batch_size self < 2 ^ 32"
    "document_laws (ev_codec ev) (iw_compression self) d"
  shows "refines_step ev self (add_document_internal ev self d write_wal) (spec_add (iw_batch_size self) sp d)"
proof -
  define self0 where "self0 = (if write_wal then log_operation ev self (AddDocument d) else self)"
  have core0: "writer_core ev self0 sp"
    using assms(1) log_operation_core by (simp add: writer_rep_def self0_def)
  have same0: "iw_compression self0 = iw_compression self" "iw_batch_size self0 = iw_batch_size self"
    "iw_mvcc self0 = iw_mvcc self" by (simp_all add: self0_def log_operation_same)
  have "document_laws (ev_codec ev) (iw_compression self0) d" using assms(5) same0 by simp
  from store_document_core [OF core0 this] obtain self1 where
    st: "store_document ev self0 d = (Ok (), self1)" "writer_core ev self1 (sp\<lparr>sp_buffer := sp_buffer sp @ [d]\<rparr>)"
    "\<exists>sw w. self1 = self0\<lparr>iw_segment_writer := sw, iw_world := w\<rparr>" by blast
  obtain xs where xs: "index_batch (iw_analyzer self) [d] = Ok xs" by (simp add: index_batch_def)
  define self2 where "self2 = self1\<lparr>iw_segment_writer := index_entries ev (iw_segment_writer self1) xs d\<rparr>"
  have core2: "writer_core ev self2 (sp\<lparr>sp_buffer := sp_buffer sp @ [d]\<rparr>)"
    unfolding self2_def by (rule index_entries_core [OF st(2)])
  have same2: "iw_compression self2 = iw_compression self" "iw_batch_size self2 = iw_batch_size self" "version self2 = version self"
    using st(3) same0 by (auto simp: self2_def)
  have run: "add_document_internal ev self d write_wal =
      (if batch_is_full self2
       then case finish_segment ev self2 of
              (Inl e, self) \<Rightarrow> (Inl e, self)
            | (Inr s, self) \<Rightarrow> (Ok (), if sg_doc_count s > 0 then publish self (with_segment self s) else self)
       else (Ok (), self2))"
    unfolding add_document_internal_def xs sum.case Let_def self0_def [symmetric] st(1) prod.case self2_def ..
  show ?thesis
    using stored_refines [OF assms(1-4) core2 same2] by (auto simp: run split: if_splits)
qed

lemma delete_document_internal_refines:
  assumes "writer_rep ev self sp" "version self \<noteq> - 1"
  shows "refines_step ev self (delete_document_internal ev self d write_wal)
           (sp\<lparr>sp_deleted := insert (ucast d) (sp_deleted sp)\<rparr>)"
proof -
  define self0 where "self0 = (if write_wal then log_operation ev self (DeleteDocument d) else self)"
  have core0: "writer_core ev self0 sp"
    using assms(1) log_operation_core by (simp add: writer_rep_def self0_def)
  have same0: "iw_compression self0 = iw_compression self" "iw_batch_size self0 = iw_batch_size self"
    "iw_mvcc self0 = iw_mvcc self" by (simp_all add: self0_def log_operation_same)
  let ?s = "current_snapshot (iw_mvcc self0)"
  obtain s m where c: "create_snapshot_with_deletes (iw_mvcc self0) (sn_segments ?s)
      (insert (ucast d) (sn_deleted_docs ?s)) = (s, m)" by fastforce
  have run: "delete_document_internal ev self d write_wal = (Ok (), self0\<lparr>iw_mvcc := m\<rparr>)"
    unfolding delete_document_internal_def Let_def self0_def [symmetric] c by simp
  have "mvcc_wf (iw_mvcc self0)" "version self0 \<noteq> - 1"
    using core0 assms(2) same0 by (simp_all add: writer_core_def)
  from create_wf [OF this c] core0 have
    "writer_core ev (self0\<lparr>iw_mvcc := m\<rparr>) (sp\<lparr>sp_deleted := insert (ucast d) (sp_deleted sp)\<rparr>)"
    "mv_current_version m = version self0 + 1"
    by (auto simp: writer_core_def)
  then show ?thesis
    using assms(1) same0 run by (simp add: refines_step_def writer_rep_def)
qed

lemma commit_refines:
  assumes "writer_rep ev self sp" "env_laws ev (iw_compression self)" "version self \<noteq> - 1" "iw_batch_size self < 2 ^ 32"
  shows "refines_step ev self (iw_commit ev self) (spec_flush sp)"
proof -
  obtain r self' where fl: "iw_flush ev self = (r, self')" by fastforce
  with flush_refines [OF assms] have st: "r = Ok ()" "writer_rep ev self' (spec_flush sp)"
    "iw_batch_size self' = iw_batch_size self" "iw_compression self' = iw_compression self"
    "version self' = version self \<or> version self' = version self + 1"
    by (auto simp: refines_step_def)
  have "writer_core ev (sync_log (log_operation ev self' Commit)) (spec_flush sp)"
    using st(2) sync_log_core log_operation_core by (simp add: writer_rep_def)
  then show ?thesis
    using st fl by (simp add: iw_commit_def refines_step_def writer_rep_def sync_log_def log_operation_same)
qed

lemma writer_step_refines:
  assumes "writer_rep ev self sp" "env_laws ev (iw_compression self)" "version self \<noteq> - 1" "iw_batch_size self < 2 ^ 32"
    "\<And>d. c = AddCommand d \<Longrightarrow> document_laws (ev_codec ev) (iw_compression self) d"
  shows "refines_step ev self (writer_step ev self c) (spec_step (iw_batch_size self) sp c)"
  using assms add_document_internal_refines delete_document_internal_refines flush_refines commit_refines
  by (cases c) (auto simp: iw_add_document_def delete_document_def)

lemma version_below:
  fixes v v' :: u64
  assumes "v' = v \<or> v' = v + 1" "unat v + Suc n < 2 ^ 64"
  shows "unat v' + n < 2 ^ 64" "v \<noteq> - 1"
proof -
  show v: "v \<noteq> - 1"
  proof
    assume "v = - 1"
    then have "unat v = 2 ^ 64 - 1" by (simp add: unsigned_minus_1_eq_mask mask_eq_exp_minus_1)
    with assms(2) show False by simp
  qed
  from u64_succ(2) [OF v] assms show "unat v' + n < 2 ^ 64" by auto
qed

lemma writer_run_refines:
  assumes "writer_rep ev self sp" "env_laws ev (iw_compression self)" "iw_batch_size self < 2 ^ 32"
    "unat (version self) + length commands < 2 ^ 64"
    "\<forall>d. AddCommand d \<in> set commands \<longrightarrow> document_laws (ev_codec ev) (iw_compression self) d"
  shows "\<exists>self'. writer_run ev self commands = (Ok (), self') \<and> iw_compression self' = iw_compression self \<and>
           iw_batch_size self' = iw_batch_size self \<and> unat (version self') \<le> unat (version self) + length commands \<and>
           writer_rep ev self' (foldl (spec_step (iw_batch_size self)) sp commands)"
  using assms
proof (induction commands arbitrary: self sp)
  case (Cons c cs)
  obtain r self1 where st: "writer_step ev self c = (r, self1)" by fastforce
  have "version self \<noteq> - 1" using version_below(2) [of "version self" "version self" "length cs"] Cons.prems(4) by simp
  with writer_step_refines [of ev self sp c] Cons.prems have
    "refines_step ev self (r, self1) (spec_step (iw_batch_size self) sp c)" by (simp add: st)
  then have step: "r = Ok ()" "writer_rep ev self1 (spec_step (iw_batch_size self) sp c)"
    "iw_batch_size self1 = iw_batch_size self" "iw_compression self1 = iw_compression self"
    "version self1 = version self \<or> version self1 = version self + 1"
    by (auto simp: refines_step_def)
  have bound: "unat (version self1) + length cs < 2 ^ 64"
    using version_below(1) [OF step(5)] Cons.prems(4) by simp
  have le: "unat (version self1) \<le> unat (version self) + 1"
    using step(5) u64_succ(2) [OF \<open>version self \<noteq> - 1\<close>] by auto
  from Cons.IH [OF step(2)] step Cons.prems bound obtain self' where
    "writer_run ev self1 cs = (Ok (), self')" "iw_compression self' = iw_compression self"
    "iw_batch_size self' = iw_batch_size self" "unat (version self') \<le> unat (version self1) + length cs"
    "writer_rep ev self' (foldl (spec_step (iw_batch_size self)) (spec_step (iw_batch_size self) sp c) cs)"
    by auto
  then show ?case using st step(1) le by simp
qed simp

text \<open>
  A batch adds its documents one after the other.  A large one is analysed as a whole first, and its
  documents do not get into the index of their segment.
\<close>

lemma batch_step_refines:
  assumes "writer_rep ev self sp" "env_laws ev (iw_compression self)" "version self \<noteq> - 1" "iw_batch_size self < 2 ^ 32"
    "document_laws (ev_codec ev) (iw_compression self) d" "xd_doc_id x = d_id d"
  shows "\<exists>self1. add_batch_loop ev self ((d, x) # rest) = add_batch_loop ev self1 rest \<and>
           refines_step ev self (Ok (), self1) (spec_add (iw_batch_size self) sp d)"
proof -
  let ?self0 = "log_operation ev self (AddDocument d)"
  have core0: "writer_core ev ?self0 sp" using assms(1) log_operation_core by (simp add: writer_rep_def)
  have "document_laws (ev_codec ev) (iw_compression ?self0) d" using assms(5) by (simp add: log_operation_same)
  from store_document_core [OF core0 this] obtain self2 where
    st: "store_document ev ?self0 d = (Ok (), self2)" "writer_core ev self2 (sp\<lparr>sp_buffer := sp_buffer sp @ [d]\<rparr>)"
    "\<exists>sw w. self2 = ?self0\<lparr>iw_segment_writer := sw, iw_world := w\<rparr>" by blast
  have same2: "iw_compression self2 = iw_compression self" "iw_batch_size self2 = iw_batch_size self" "version self2 = version self"
    using st(3) by (auto simp: log_operation_same)
  from stored_refines [OF assms(1-4) st(2) same2] assms(6) st(1) show ?thesis by (auto split: if_splits)
qed

lemma version_le:
  fixes v v' :: u64
  assumes "v' = v \<or> v' = v + 1" "v \<noteq> - 1"
  shows "unat v' \<le> Suc (unat v)"
  using assms u64_succ(2) [OF assms(2)] by auto

lemma add_batch_refines:
  assumes "writer_rep ev self sp" "env_laws ev (iw_compression self)" "iw_batch_size self < 2 ^ 32"
    "unat (version self) + length docs < 2 ^ 64" "\<forall>d \<in> set docs. document_laws (ev_codec ev) (iw_compression self) d"
    "list_all2 (\<lambda>d x. xd_doc_id x = d_id d) docs xs"
  shows "\<exists>self'. add_batch_loop ev self (zip docs xs) = (Ok (), self') \<and> iw_compression self' = iw_compression self \<and>
           iw_batch_size self' = iw_batch_size self \<and> unat (version self') \<le> unat (version self) + length docs \<and>
           writer_rep ev self' (foldl (spec_add (iw_batch_size self)) sp docs)"
  using assms(6,1-5)
proof (induction arbitrary: self sp rule: list_all2_induct)
  case (Cons d docs x xs)
  have v: "version self \<noteq> - 1" using version_below(2) [of "version self" "version self" "length docs"] Cons.prems(4) by simp
  obtain self1 where st: "add_batch_loop ev self ((d, x) # zip docs xs) = add_batch_loop ev self1 (zip docs xs)"
    "writer_rep ev self1 (spec_add (iw_batch_size self) sp d)" "iw_batch_size self1 = iw_batch_size self"
    "iw_compression self1 = iw_compression self" "version self1 = version self \<or> version self1 = version self + 1"
    using batch_step_refines [OF Cons.prems(1,2) v Cons.prems(3) _ Cons.hyps(1), of "zip docs xs"] Cons.prems(5)
    by (auto simp: refines_step_def)
  have "unat (version self1) + length docs < 2 ^ 64" using version_below(1) [OF st(5)] Cons.prems(4) by simp
  with Cons.IH [OF st(2)] Cons.prems st(3,4) obtain self' where
    "add_batch_loop ev self1 (zip docs xs) = (Ok (), self')" "iw_compression self' = iw_compression self"
    "iw_batch_size self' = iw_batch_size self" "unat (version self') \<le> unat (version self1) + length docs"
    "writer_rep ev self' (foldl (spec_add (iw_batch_size self)) (spec_add (iw_batch_size self) sp d) docs)"
    by auto
  with st(1) version_le [OF st(5) v] show ?case by auto
qed simp

lemma add_each_run: "add_each ev self docs = writer_run ev self (map AddCommand docs)"
  by (induction docs arbitrary: self) (auto split: prod.splits sum.splits)

lemma index_batch_ids: "\<exists>xs. index_batch an docs = Ok xs \<and> list_all2 (\<lambda>d x. xd_doc_id x = d_id d) docs xs"
  unfolding index_batch_def by (induction docs) (auto simp: index_document_def Let_def map_filter_simps)

lemma add_documents_batch_refines:
  assumes "writer_rep ev self sp" "env_laws ev (iw_compression self)" "iw_batch_size self < 2 ^ 32"
    "unat (version self) + length docs < 2 ^ 64" "\<forall>d \<in> set docs. document_laws (ev_codec ev) (iw_compression self) d"
  shows "\<exists>self'. add_documents_batch ev self docs = (Ok (), self') \<and> iw_compression self' = iw_compression self \<and>
           iw_batch_size self' = iw_batch_size self \<and> unat (version self') \<le> unat (version self) + length docs \<and>
           writer_rep ev self' (foldl (spec_add (iw_batch_size self)) sp docs)"
proof (cases "length docs > 100")
  case True
  obtain xs where xs: "index_batch (iw_analyzer self) docs = Ok xs" "list_all2 (\<lambda>d x. xd_doc_id x = d_id d) docs xs"
    using index_batch_ids [of "iw_analyzer self" docs] by blast
  with True add_batch_refines [OF assms xs(2)] show ?thesis by (simp add: add_documents_batch_def list_all2_lengthD)
next
  case False
  have "foldl (spec_step n) sp (map AddCommand docs) = foldl (spec_add n) sp docs" for n by (simp add: foldl_map)
  with False writer_run_refines [OF assms(1-3), of "map AddCommand docs"] assms(4,5) show ?thesis
    by (auto simp: add_documents_batch_def add_each_run)
qed

text \<open>
  C2: the writer implements its specification.  From any state that represents a specification
  state, every sequence of additions, deletions, flushes and commits succeeds and ends in a state that
  represents the result of the same commands on the specification: the segment files hold exactly
  the documents published, segment by segment and in order, the open segment holds the documents
  not yet flushed, and the current snapshot has the deleted ids.
\<close>

theorem writer_refines_spec:
  assumes "writer_rep ev self sp" "env_laws ev (iw_compression self)" "iw_batch_size self < 2 ^ 32"
    "unat (version self) + length commands < 2 ^ 64"
    "\<forall>d. AddCommand d \<in> set commands \<longrightarrow> document_laws (ev_codec ev) (iw_compression self) d"
  shows "\<exists>self'. writer_run ev self commands = (Ok (), self') \<and>
           writer_rep ev self' (foldl (spec_step (iw_batch_size self)) sp commands)"
  using writer_run_refines [OF assms] by blast

definition spec_empty :: writer_spec where
  "spec_empty = \<lparr>sp_published = [], sp_buffer = [], sp_deleted = {}\<rparr>"

lemma new_writer_rep: "writer_rep ev (new_with_merge_policy ev w mvcc_new an p c) spec_empty"
proof -
  obtain sw w1 where new: "new_segment_writer ev w c = (sw, w1)" by fastforce
  note nw = new_segment_writer_facts [OF new]
  obtain lg w2 where lg: "wal_open w1 0 = (lg, w2)" by fastforce
  have same: "untouched {WalPath 0} w1 w2" "wl_file lg = WalPath 0"
    using lg by (auto simp: wal_open_def create_file_def untouched_def write_file_def split: option.splits)
  have "writer_holds (ev_codec ev) w2 sw []"
    by (rule writer_holds_untouched [OF nw(1) same(1)]) (simp add: sw_path_def)
  moreover have "current_snapshot mvcc_new = snapshot_default"
    by (simp add: current_snapshot_def mvcc_new_def)
  moreover have "w_next_id w2 \<ge> w_next_id w1" using same(1) by (simp add: untouched_def)
  ultimately show ?thesis
    using nw same(2) mvcc_wf_new
    by (auto simp: new_with_merge_policy_def new lg writer_rep_def writer_core_def spec_empty_def snapshot_default_def
        segments_hold_def)
qed

definition plain_env :: env where
  "plain_env = \<lparr>ev_codec = plain_codec, ev_wal_codec = plain_wal_codec, ev_hash_order = (\<lambda>m. m),
     ev_log10 = (\<lambda>v. Fin 0)\<rparr>"

lemma plain_env_laws: "env_laws plain_env CompNone"
  using plain_codec_header_laws by (auto simp: env_laws_def plain_env_def compress_def)

definition plain_writer :: index_writer where
  "plain_writer = new_with_merge_policy plain_env empty_world mvcc_new
     (analyzer_new ''none'' (\<lambda>s. [])) Tiered CompNone"

lemma plain_writer_fields: "iw_compression plain_writer = CompNone" "iw_batch_size plain_writer = 1000"
  "version plain_writer = 0"
  by (simp_all add: plain_writer_def new_with_merge_policy_def mvcc_new_def split: prod.splits)

theorem writer_refines_spec_witness:
  "\<exists>self'. writer_run plain_env plain_writer
      [AddCommand (document_new 4), FlushCommand, DeleteCommand 4, AddCommand (document_new 5), CommitCommand] = (Ok (), self') \<and>
     writer_rep plain_env self'
       \<lparr>sp_published = [[document_new 4], [document_new 5]], sp_buffer = [], sp_deleted = {}\<rparr>"
proof -
  let ?cs = "[AddCommand (document_new 4), FlushCommand, DeleteCommand 4, AddCommand (document_new 5), CommitCommand]"
  have rep: "writer_rep plain_env plain_writer spec_empty"
    unfolding plain_writer_def by (rule new_writer_rep)
  have laws: "\<forall>d. AddCommand d \<in> set ?cs \<longrightarrow> document_laws (ev_codec plain_env) (iw_compression plain_writer) d"
    by (auto simp: plain_writer_fields plain_env_def plain_codec_document_laws small_id_def)
  have "foldl (spec_step 1000) spec_empty ?cs =
      \<lparr>sp_published = [[document_new 4], [document_new 5]], sp_buffer = [], sp_deleted = {}\<rparr>"
    by (simp add: spec_empty_def spec_add_def spec_flush_def)
  moreover have "env_laws plain_env (iw_compression plain_writer)" by (simp add: plain_writer_fields plain_env_laws)
  ultimately show ?thesis
    using writer_refines_spec [OF rep _ _ _ laws] by (simp add: plain_writer_fields)
qed

text \<open>What the specification publishes was added, and no segment exceeds the batch size.\<close>

definition spec_within :: "nat \<Rightarrow> document set \<Rightarrow> writer_spec \<Rightarrow> bool" where
  "spec_within n D sp \<longleftrightarrow>
     (\<forall>docs \<in> set (sp_published sp). set docs \<subseteq> D \<and> length docs \<le> max 1 n) \<and>
     set (sp_buffer sp) \<subseteq> D \<and> length (sp_buffer sp) < max 1 n"

lemma spec_step_within:
  assumes "spec_within n D sp" "\<And>d. c = AddCommand d \<Longrightarrow> d \<in> D"
  shows "spec_within n D (spec_step n sp c)"
  using assms by (cases c) (auto simp: spec_within_def spec_add_def spec_flush_def Let_def max_def split: if_splits)

lemma spec_run_within:
  "spec_within n D sp \<Longrightarrow> \<forall>d. AddCommand d \<in> set cs \<longrightarrow> d \<in> D \<Longrightarrow> spec_within n D (foldl (spec_step n) sp cs)"
  by (induction cs arbitrary: sp) (simp_all add: spec_step_within)

lemma segment_found:
  assumes "header_laws cd" "index_ok (mx_index cx)" "segment_file_holds cd w i c docs" "length docs < 2 ^ 32"
    "\<forall>d \<in> set docs. document_laws cd c d"
  shows "\<exists>rd. segment_open cd w i = Ok rd \<and>
           segment_search cd cx rd q = Ok (map hit (filter (\<lambda>d. satisfies cx d q) docs))"
proof -
  obtain rd where rd: "segment_open cd w i = Ok rd" using segment_open_holds [OF assms(3,1,4)] by blast
  have "\<forall>d \<in> set docs. document_laws cd c d \<and> matches cx d q = Ok (satisfies cx d q)"
    using assms(2,5) matches_total by blast
  from segment_search_holds [OF assms(3,1,4) this rd] rd show ?thesis by blast
qed

text \<open>
  documents that were added and flushed can be found.  After a run of commands on a new writer,
  every segment of the current snapshot opens, and a search in it for any query returns exactly the
  documents of that segment that match, in the order they were added.
\<close>

theorem flushed_documents_searchable:
  assumes "env_laws ev c" "unat (version self) + length commands < 2 ^ 64" "index_ok (mx_index cx)"
    "\<forall>d. AddCommand d \<in> set commands \<longrightarrow> document_laws (ev_codec ev) c d"
    and "self = new_with_merge_policy ev w mvcc_new an p c"
  shows "\<exists>self'. writer_run ev self commands = (Ok (), self') \<and>
           list_all2 (\<lambda>s docs. \<exists>rd. segment_open (ev_codec ev) (iw_world self') (sg_id s) = Ok rd \<and>
                segment_search (ev_codec ev) cx rd q = Ok (map hit (filter (\<lambda>d. satisfies cx d q) docs)))
             (sn_segments (current_snapshot (iw_mvcc self')))
             (sp_published (foldl (spec_step 1000) spec_empty commands))"
proof -
  let ?sp = "foldl (spec_step 1000) spec_empty commands"
  have conf: "iw_compression self = c" "iw_batch_size self = 1000"
    by (simp_all add: assms(5) new_with_merge_policy_def split: prod.splits)
  have rep: "writer_rep ev self spec_empty" unfolding assms(5) by (rule new_writer_rep)
  obtain self' where run: "writer_run ev self commands = (Ok (), self')" "writer_rep ev self' ?sp"
    "iw_compression self' = c"
    using writer_run_refines [OF rep, of commands] assms(1,2,4) conf by auto
  have "spec_within 1000 {d. document_laws (ev_codec ev) c d} ?sp"
    using assms(4) by (intro spec_run_within) (auto simp: spec_within_def spec_empty_def)
  then have within: "\<forall>docs \<in> set (sp_published ?sp). (\<forall>d \<in> set docs. document_laws (ev_codec ev) c d) \<and> length docs < 2 ^ 32"
    by (auto simp: spec_within_def)
  have "header_laws (ev_codec ev)" using assms(1) by (simp add: env_laws_def)
  note found = segment_found [OF this assms(3)]
  have "list_all2 (\<lambda>s docs. segment_file_holds (ev_codec ev) (iw_world self') (sg_id s) c docs)
      (sn_segments (current_snapshot (iw_mvcc self'))) (sp_published ?sp)"
    using run(2,3) by (auto simp: writer_rep_def writer_core_def segments_hold_def elim!: list_all2_mono)
  then have "list_all2 (\<lambda>s docs. \<exists>rd. segment_open (ev_codec ev) (iw_world self') (sg_id s) = Ok rd \<and>
        segment_search (ev_codec ev) cx rd q = Ok (map hit (filter (\<lambda>d. satisfies cx d q) docs)))
      (sn_segments (current_snapshot (iw_mvcc self'))) (sp_published ?sp)"
    using within found by (fastforce simp: list_all2_conv_all_nth)
  with run(1) show ?thesis by blast
qed

theorem flushed_documents_searchable_witness:
  "\<exists>self'. writer_run plain_env plain_writer [AddCommand (document_new 4), FlushCommand] = (Ok (), self') \<and>
     list_all2 (\<lambda>s docs. \<exists>rd. segment_open plain_codec (iw_world self') (sg_id s) = Ok rd \<and>
          segment_search plain_codec empty_context rd MatchAll = Ok (map hit docs))
       (sn_segments (current_snapshot (iw_mvcc self'))) [[document_new 4]]"
proof -
  let ?cs = "[AddCommand (document_new 4), FlushCommand]"
  have laws: "\<forall>d. AddCommand d \<in> set ?cs \<longrightarrow> document_laws (ev_codec plain_env) CompNone d"
    by (auto simp: plain_env_def plain_codec_document_laws small_id_def)
  have index: "index_ok (mx_index empty_context)" by (simp add: empty_context_def index_ok_new)
  have bound: "unat (version plain_writer) + length ?cs < 2 ^ 64" by (simp add: plain_writer_fields)
  have spec: "sp_published (foldl (spec_step 1000) spec_empty ?cs) = [[document_new 4]]"
    by (simp add: spec_empty_def spec_add_def spec_flush_def)
  have all: "filter (\<lambda>d. satisfies empty_context d MatchAll) docs = docs" for docs
    by (simp add: satisfies_def)
  have codec: "ev_codec plain_env = plain_codec" by (simp add: plain_env_def)
  show ?thesis
    using flushed_documents_searchable [OF plain_env_laws bound index laws plain_writer_def, of MatchAll]
    unfolding spec all codec .
qed

text \<open>
  a flush brings deleted documents back.  If documents wait in the buffer, the snapshot that a
  flush or a commit publishes has no deleted documents, whatever was deleted before.
\<close>

theorem flush_forgets_deletions:
  assumes "writer_rep ev self sp" "env_laws ev (iw_compression self)" "version self \<noteq> - 1" "iw_batch_size self < 2 ^ 32"
    "sp_buffer sp \<noteq> []"
  shows "sn_deleted_docs (current_snapshot (iw_mvcc (snd (iw_flush ev self)))) = {} \<and>
         sn_deleted_docs (current_snapshot (iw_mvcc (snd (iw_commit ev self)))) = {}"
  using flush_refines [OF assms(1-4)] commit_refines [OF assms(1-4)] assms(5)
  by (auto simp: refines_step_def writer_rep_def writer_core_def spec_flush_def)

theorem flush_forgets_deletions_witness:
  "\<exists>self. writer_run plain_env plain_writer [AddCommand (document_new 5), DeleteCommand 4] = (Ok (), self) \<and>
     sn_deleted_docs (current_snapshot (iw_mvcc self)) = {4} \<and>
     sn_deleted_docs (current_snapshot (iw_mvcc (snd (iw_flush plain_env self)))) = {}"
proof -
  let ?cs = "[AddCommand (document_new 5), DeleteCommand 4]"
  have rep: "writer_rep plain_env plain_writer spec_empty"
    unfolding plain_writer_def by (rule new_writer_rep)
  have laws: "\<forall>d. AddCommand d \<in> set ?cs \<longrightarrow> document_laws (ev_codec plain_env) (iw_compression plain_writer) d"
    by (auto simp: plain_writer_fields plain_env_def plain_codec_document_laws small_id_def)
  obtain self where run: "writer_run plain_env plain_writer ?cs = (Ok (), self)" "iw_compression self = CompNone"
    "iw_batch_size self = 1000" "unat (version self) \<le> 2"
    "writer_rep plain_env self (foldl (spec_step 1000) spec_empty ?cs)"
    using writer_run_refines [OF rep _ _ _ laws] plain_env_laws by (auto simp: plain_writer_fields)
  have sp: "foldl (spec_step 1000) spec_empty ?cs = \<lparr>sp_published = [], sp_buffer = [document_new 5], sp_deleted = {4}\<rparr>"
    by (simp add: spec_empty_def spec_add_def)
  have "version self \<noteq> - 1"
    using version_below(2) [of "version self" "version self" 0] run(4) by simp
  then have "sn_deleted_docs (current_snapshot (iw_mvcc (snd (iw_flush plain_env self)))) = {}"
    using flush_forgets_deletions [OF run(5) [unfolded sp]] run(2,3) plain_env_laws by simp
  moreover have "sn_deleted_docs (current_snapshot (iw_mvcc self)) = {4}"
    using run(5) unfolding sp by (simp add: writer_rep_def writer_core_def)
  ultimately show ?thesis using run(1) by blast
qed

end
