(* ===== verification/Index_Recovery.thy ===== *)
theory Index_Recovery
  imports Index_Writer
begin

section \<open>Recovery and durability of the writer\<close>

text \<open>
  Theorems about \<^verbatim>\<open>IndexWriter\<close> and its log together: what \<^verbatim>\<open>SearchEngine::recover\<close> does, what replaying
  the log restores, and what a commit makes durable.
\<close>

subsection \<open>Recovery\<close>

text \<open>
  recovery fails whenever there is a log file, and there always is one, since creating the writer
  creates it: \<^verbatim>\<open>WAL::open\<close> opens the file for appending only and \<^verbatim>\<open>read_entries\<close> then reads from that
  handle.  Nothing is replayed.
\<close>

theorem recover_fails:
  assumes "find_wal_files listing \<noteq> []"
  shows "\<exists>e self'. recover ev listing self = (Err e, self') \<and> iw_mvcc self' = iw_mvcc self \<and>
           iw_segment_writer self' = iw_segment_writer self"
  using assms
  by (cases "find_wal_files listing")
    (auto simp: recover_def wal_open_def wal_read_entries_def Let_def)

theorem recover_fails_witness:
  "\<exists>e self'. recover plain_env [wal_file_name 0] plain_writer = (Err e, self')"
proof -
  have "find_wal_files [wal_file_name 0] \<noteq> []"
    by (simp add: find_wal_files_def map_filter_simps)
  from recover_fails [OF this] show ?thesis by blast
qed

text \<open>The operations that a command logs, and the command that an operation replays.\<close>

fun command_log :: "command \<Rightarrow> operation list" where
  "command_log (AddCommand d) = [AddDocument d]"
| "command_log (DeleteCommand i) = [DeleteDocument i]"
| "command_log FlushCommand = []"
| "command_log CommitCommand = [Commit]"

fun is_update :: "command \<Rightarrow> bool" where
  "is_update (AddCommand d) = True"
| "is_update (DeleteCommand i) = True"
| "is_update _ = False"

lemma command_log_no_commit: "\<forall>c \<in> set cs. is_update c \<Longrightarrow> Commit \<notin> set (concat (map command_log cs))"
proof (induction cs)
  case (Cons c cs)
  then show ?case by (cases c) auto
qed simp

lemma recovered_step:
  assumes "is_update c" "writer_rep ev self sp" "env_laws ev (iw_compression self)" "version self \<noteq> - 1"
    "iw_batch_size self < 2 ^ 32" "\<And>d. c = AddCommand d \<Longrightarrow> document_laws (ev_codec ev) (iw_compression self) d"
  shows "\<exists>op. command_log c = [op] \<and>
           refines_step ev self (apply_recovered_operation ev self op) (spec_step (iw_batch_size self) sp c)"
  using assms add_document_internal_refines [OF assms(2-5)] delete_document_internal_refines [OF assms(2,4)]
  by (cases c) (simp_all add: apply_recovered_operation_def)

text \<open>
  C19: what recovery would restore if it could read the log.  Replaying the operations after the last
  commit on a writer in the committed state gives a writer that represents the specification state
  after the updates that followed the commit; every operation is replayed and counted.
\<close>

theorem recovery_replays_updates:
  assumes "list_all is_update updates" "writer_rep ev self sp" "env_laws ev (iw_compression self)"
    "iw_batch_size self < 2 ^ 32" "unat (version self) + length updates < 2 ^ 64"
    "\<forall>d. AddCommand d \<in> set updates \<longrightarrow> document_laws (ev_codec ev) (iw_compression self) d"
    "entries = numbered s (committed @ [Commit] @ concat (map command_log updates))"
  shows "\<exists>self'. recover_operations ev (operations_after_last_commit entries) self n = (self', n + length updates) \<and>
           writer_rep ev self' (foldl (spec_step (iw_batch_size self)) sp updates)"
proof -
  have tail: "operations_after_last_commit entries = concat (map command_log updates)"
    unfolding assms(7)
    by (rule last_commit_tail, rule command_log_no_commit) (use assms(1) in \<open>simp add: list_all_iff\<close>)
  show ?thesis unfolding tail using assms(1-6)
  proof (induction updates arbitrary: self sp n)
    case (Cons c cs)
    have v: "version self \<noteq> - 1" using version_below(2) [of "version self" "version self" "length cs"] Cons.prems(5) by simp
    obtain op where op: "command_log c = [op]"
      "refines_step ev self (apply_recovered_operation ev self op) (spec_step (iw_batch_size self) sp c)"
      using recovered_step [of c ev self sp] Cons.prems v by auto
    obtain r self1 where st: "apply_recovered_operation ev self op = (r, self1)" by fastforce
    then have step: "r = Ok ()" "writer_rep ev self1 (spec_step (iw_batch_size self) sp c)"
      "iw_batch_size self1 = iw_batch_size self" "iw_compression self1 = iw_compression self"
      "version self1 = version self \<or> version self1 = version self + 1"
      using op(2) by (auto simp: refines_step_def)
    have "unat (version self1) + length cs < 2 ^ 64" using version_below(1) [OF step(5)] Cons.prems(5) by simp
    then obtain self' where
      "recover_operations ev (concat (map command_log cs)) self1 (n + 1) = (self', n + 1 + length cs)"
      "writer_rep ev self' (foldl (spec_step (iw_batch_size self)) (spec_step (iw_batch_size self) sp c) cs)"
      using Cons.IH [of self1 "spec_step (iw_batch_size self) sp c" "n + 1"] step Cons.prems by auto
    then show ?case using op(1) st step(1) by simp
  qed simp
qed

theorem recovery_replays_updates_witness:
  "\<exists>self'. recover_operations plain_env
      (operations_after_last_commit (numbered 0 ([DeleteDocument 1] @ [Commit] @ [AddDocument (document_new 4)])))
      plain_writer 0 = (self', 1) \<and>
    writer_rep plain_env self' \<lparr>sp_published = [], sp_buffer = [document_new 4], sp_deleted = {}\<rparr>"
proof -
  have rep: "writer_rep plain_env plain_writer spec_empty" unfolding plain_writer_def by (rule new_writer_rep)
  have "foldl (spec_step 1000) spec_empty [AddCommand (document_new 4)] =
      \<lparr>sp_published = [], sp_buffer = [document_new 4], sp_deleted = {}\<rparr>"
    by (simp add: spec_empty_def spec_add_def)
  moreover have "document_laws (ev_codec plain_env) CompNone (document_new 4)"
    by (simp add: plain_env_def plain_codec_document_laws small_id_def)
  ultimately show ?thesis
    using recovery_replays_updates [of "[AddCommand (document_new 4)]" plain_env plain_writer spec_empty
        "numbered 0 ([DeleteDocument 1] @ [Commit] @ [AddDocument (document_new 4)])" 0 "[DeleteDocument 1]" 0]
      rep plain_env_laws
    by (simp add: plain_writer_fields)
qed

subsection \<open>Durability of the log\<close>

lemma write_inverted_index_untouched:
  "write_inverted_index cd w sw = (r, w') \<Longrightarrow> untouched {IndexPath (sg_id (sw_segment sw))} w w'"
  by (auto simp: write_inverted_index_def Let_def untouched_def write_file_def split: sum.splits)

lemma sw_finish_untouched:
  assumes "sw_finish cd w sw = (r, w')"
  shows "untouched {SegmentPath (sg_id (sw_segment sw)), IndexPath (sg_id (sw_segment sw))} w w'"
proof -
  obtain sw1 w1 where fl: "sw_flush w sw = (sw1, w1)" by fastforce
  have path: "sw_path sw = SegmentPath (sg_id (sw_segment sw))" "sw_path sw1 = sw_path sw" "sw_segment sw1 = sw_segment sw"
    using fl by (auto simp: sw_path_def sw_flush_def split: if_splits)
  define h where "h = (segment_header_new (sg_doc_count (sw_segment sw1)))\<lparr>sh_checksum := crc32 cd (sw_hashed sw1),
      sh_compression := segment_header_compression (sw_compression sw1)\<rparr>"
  define w2 where "w2 = overwrite_start w1 (sw_path sw1) (ser_header cd h)"
  have "untouched ({sw_path sw} \<union> {sw_path sw}) w w2"
    using untouched_trans [OF sw_flush_untouched [OF fl] untouched_write(3) [of "sw_path sw1" w1 "ser_header cd h"]]
    by (simp add: w2_def path(2))
  then have w2: "untouched {SegmentPath (sg_id (sw_segment sw))} w w2" by (simp add: path)
  have "snd (if sw_inverted_index sw1 \<noteq> [] then write_inverted_index cd w2 sw1 else (Ok (), w2)) = w'"
    using assms unfolding sw_finish_def fl Let_def prod.case h_def [symmetric] w2_def [symmetric]
    by (auto split: prod.splits)
  then have "untouched {IndexPath (sg_id (sw_segment sw))} w2 w'"
    using write_inverted_index_untouched [of cd w2 sw1] path(3) by (auto split: if_splits) (metis prod.collapse)
  from untouched_trans [OF w2 this] show ?thesis by (simp add: insert_commute)
qed

text \<open>The log of a writer: its file, and that the steps on segments leave it alone.\<close>

definition log_holds :: "env \<Rightarrow> index_writer \<Rightarrow> operation list \<Rightarrow> bool" where
  "log_holds ev self ops \<longleftrightarrow>
     wal_holds (ev_wal_codec ev) (iw_world self) (iw_wal self) (numbered 0 ops) \<and> wl_file (iw_wal self) = WalPath 0 \<and>
     wl_sequence (iw_wal self) = of_nat (length ops)"

lemma log_holds_untouched:
  assumes "log_holds ev self ops" "untouched ps (iw_world self) w" "WalPath 0 \<notin> ps"
    "iw_wal self' = iw_wal self" "iw_world self' = w"
  shows "log_holds ev self' ops"
  using assms by (auto simp: log_holds_def wal_holds_def untouched_def)

lemma log_holds_log_operation:
  assumes "log_holds ev self ops" "op_laws (ev_wal_codec ev) op"
  shows "log_holds ev (log_operation ev self op) (ops @ [op])"
proof -
  obtain lg w where app: "wal_append (ev_wal_codec ev) (iw_world self) (iw_wal self) op = (lg, w)" by fastforce
  then show ?thesis
    using wal_append_holds [of "ev_wal_codec ev" "iw_world self" "iw_wal self" "numbered 0 ops" op]
      wal_append_fields [of "ev_wal_codec ev" "iw_world self" "iw_wal self" op] assms
    by (simp add: log_holds_def log_operation_def numbered_append)
qed

lemma log_holds_store_document:
  assumes "log_holds ev self ops" "store_document ev self d = (Ok (), self')"
  shows "log_holds ev self' ops"
proof -
  obtain off sw w where wd: "write_document (ev_codec ev) (iw_world self) (iw_segment_writer self) d = Ok (off, sw, w)"
    "self' = self\<lparr>iw_segment_writer := sw, iw_world := w\<rparr>"
    using assms(2) by (auto simp: store_document_def split: sum.splits)
  show ?thesis
    by (rule log_holds_untouched [OF assms(1) write_document_untouched [OF wd(1)]]) (simp_all add: wd sw_path_def)
qed

lemma log_holds_finish_segment:
  assumes "log_holds ev self ops" "finish_segment ev self = (r, self')"
  shows "log_holds ev self' ops"
proof -
  obtain sw w1 where new: "new_segment_writer ev (iw_world self) (iw_compression self) = (sw, w1)" by fastforce
  obtain w2 where fin: "sw_finish (ev_codec ev) w1 (iw_segment_writer self) = (r, w2)"
    "self' = self\<lparr>iw_segment_writer := sw, iw_world := w2\<rparr>"
    using assms(2) by (auto simp: finish_segment_def new split: prod.splits)
  show ?thesis
    by (rule log_holds_untouched [OF assms(1) untouched_trans [OF new_segment_writer_facts(5) [OF new] sw_finish_untouched [OF fin(1)]]])
      (simp_all add: fin(2))
qed

lemma log_holds_same:
  "log_holds ev self ops \<Longrightarrow> iw_wal self' = iw_wal self \<Longrightarrow> iw_world self' = iw_world self \<Longrightarrow> log_holds ev self' ops"
  by (rule log_holds_untouched [of _ _ _ "{}"]) auto

lemma log_holds_flush:
  assumes "log_holds ev self ops" "iw_flush ev self = (Ok (), self')"
  shows "log_holds ev self' ops"
proof -
  obtain s self1 where fin: "finish_segment ev self = (Ok s, self1)"
    using assms(2) by (auto simp: iw_flush_def split: prod.splits sum.splits)
  note log1 = log_holds_finish_segment [OF assms(1) fin]
  have "iw_wal self' = iw_wal self1" "iw_world self' = iw_world self1"
    using assms(2) by (auto simp: iw_flush_def fin Let_def publish_def merge_segments_async_def split: if_splits)
  with log1 show ?thesis by (rule log_holds_same)
qed

lemma log_holds_add_document:
  assumes "log_holds ev self ops" "op_laws (ev_wal_codec ev) (AddDocument d)" "iw_add_document ev self d = (Ok (), self')"
  shows "log_holds ev self' (ops @ [AddDocument d])"
proof -
  obtain xs where xs: "index_batch (iw_analyzer self) [d] = Ok xs" by (simp add: index_batch_def)
  define self0 where "self0 = log_operation ev self (AddDocument d)"
  have log0: "log_holds ev self0 (ops @ [AddDocument d])"
    unfolding self0_def by (rule log_holds_log_operation [OF assms(1,2)])
  obtain self1 where st: "store_document ev self0 d = (Ok (), self1)"
    using assms(3)
    by (auto simp: iw_add_document_def add_document_internal_def xs self0_def [symmetric] Let_def
        split: prod.splits sum.splits)
  define self2 where "self2 = self1\<lparr>iw_segment_writer := index_entries ev (iw_segment_writer self1) xs d\<rparr>"
  have log2: "log_holds ev self2 (ops @ [AddDocument d])"
    by (rule log_holds_same [OF log_holds_store_document [OF log0 st]]) (simp_all add: self2_def)
  have run: "(if batch_is_full self2
       then case finish_segment ev self2 of
              (Inl e, self) \<Rightarrow> (Inl e, self)
            | (Inr s, self) \<Rightarrow> (Ok (), if sg_doc_count s > 0 then publish self (with_segment self s) else self)
       else (Ok (), self2)) = (Ok (), self')"
    using assms(3) unfolding iw_add_document_def add_document_internal_def xs sum.case Let_def if_True self0_def [symmetric]
      st prod.case self2_def by simp
  show ?thesis
  proof (cases "batch_is_full self2")
    case True
    then obtain s self3 where fin: "finish_segment ev self2 = (Ok s, self3)"
      using run by (auto split: prod.splits sum.splits)
    have "iw_wal self' = iw_wal self3" "iw_world self' = iw_world self3"
      using run True fin by (auto simp: publish_def split: if_splits)
    with log_holds_finish_segment [OF log2 fin] show ?thesis by (rule log_holds_same)
  next
    case False
    with run log2 show ?thesis by simp
  qed
qed

lemma log_holds_step:
  assumes "log_holds ev self ops" "list_all (op_laws (ev_wal_codec ev)) (command_log c)"
    "writer_step ev self c = (Ok (), self')"
  shows "log_holds ev self' (ops @ command_log c)"
proof (cases c)
  case (AddCommand d)
  with assms log_holds_add_document show ?thesis by simp
next
  case (DeleteCommand i)
  note logged = log_holds_log_operation [OF assms(1), of "DeleteDocument i"]
  show ?thesis
    using DeleteCommand assms(2,3) log_holds_same [OF logged, of self']
    by (auto simp: delete_document_def delete_document_internal_def Let_def)
next
  case FlushCommand
  with assms log_holds_flush show ?thesis by simp
next
  case CommitCommand
  then obtain self1 where fl: "iw_flush ev self = (Ok (), self1)" "self' = sync_log (log_operation ev self1 Commit)"
    using assms(3) by (auto simp: iw_commit_def split: prod.splits sum.splits)
  have "log_holds ev (log_operation ev self1 Commit) (ops @ [Commit])"
    using log_holds_log_operation [OF log_holds_flush [OF assms(1) fl(1)], of Commit] assms(2) CommitCommand by simp
  then show ?thesis
    using CommitCommand fl(2) by (auto simp: log_holds_def wal_holds_def sync_log_def wal_sync_def)
qed

lemma writer_run_Ok_Cons:
  "writer_run ev self (c # cs) = (Ok (), self') \<longleftrightarrow>
     (\<exists>self1. writer_step ev self c = (Ok (), self1) \<and> writer_run ev self1 cs = (Ok (), self'))"
  by (auto split: prod.splits sum.splits)

lemma writer_run_Ok_append:
  "writer_run ev self (cs @ ds) = (Ok (), self') \<longleftrightarrow>
     (\<exists>self1. writer_run ev self cs = (Ok (), self1) \<and> writer_run ev self1 ds = (Ok (), self'))"
  by (auto simp: writer_run_append split: prod.splits sum.splits)

lemma log_holds_run:
  "log_holds ev self ops \<Longrightarrow> \<forall>c \<in> set cs. list_all (op_laws (ev_wal_codec ev)) (command_log c) \<Longrightarrow>
     writer_run ev self cs = (Ok (), self') \<Longrightarrow> log_holds ev self' (ops @ concat (map command_log cs))"
proof (induction cs arbitrary: self ops)
  case (Cons c cs)
  then obtain self1 where step: "writer_step ev self c = (Ok (), self1)" "writer_run ev self1 cs = (Ok (), self')"
    by (auto simp: writer_run_Ok_Cons simp del: writer_run.simps(2))
  have "log_holds ev self1 (ops @ command_log c)" using log_holds_step [OF Cons.prems(1) _ step(1)] Cons.prems(2) by simp
  from Cons.IH [OF this _ step(2)] Cons.prems(2) show ?case by simp
qed simp

lemma new_writer_log:
  assumes "w_files w (WalPath 0) = None"
  shows "log_holds ev (new_with_merge_policy ev w mvcc_new an p c) []"
proof -
  obtain sw w1 where new: "new_segment_writer ev w c = (sw, w1)" by fastforce
  have "w_files w1 (WalPath 0) = None" using new_segment_writer_facts(5) [OF new] assms by (simp add: untouched_def)
  from wal_open_holds [OF this, of "ev_wal_codec ev"] show ?thesis
    by (simp add: new_with_merge_policy_def new log_holds_def wal_open_def)
qed



end
