(* ===== verification/Compaction.thy ===== *)
theory Compaction
  imports Index_Recovery
begin

section \<open>Compaction, and all moves of a writer\<close>

text \<open>
  Theorems about \<^verbatim>\<open>IndexWriter::compact\<close>: what its copying loop does with documents that it can read,
  and that it cannot read the segment files that the program writes; and the specification of every
  operation of the writer, compaction, recovery and batches included.
\<close>

subsection \<open>Copying documents\<close>

text \<open>The documents that are read are written to the new segment in order, less the deleted ones.\<close>

abbreviation surviving :: "u32 set \<Rightarrow> document list \<Rightarrow> document list" where
  "surviving deleted docs \<equiv> filter (\<lambda>d. ucast (d_id d) \<notin> deleted) docs"

lemma copy_documents_holds:
  assumes "writer_holds (ev_codec ev) w sw docs0" "\<forall>d \<in> set docs. document_laws (ev_codec ev) (sw_compression sw) d"
  shows "\<exists>sw' w'. copy_documents ev deleted (map Ok docs) sw w = (Ok sw', w') \<and>
           writer_holds (ev_codec ev) w' sw' (docs0 @ surviving deleted docs) \<and> sw_compression sw' = sw_compression sw \<and>
           sg_id (sw_segment sw') = sg_id (sw_segment sw) \<and> untouched {sw_path sw} w w'"
  using assms
proof (induction docs arbitrary: sw w docs0)
  case (Cons d docs)
  show ?case
  proof (cases "(ucast (d_id d) :: u32) \<in> deleted")
    case True
    with Cons show ?thesis by simp
  next
    case False
    obtain off sw1 w1 where wd: "write_document (ev_codec ev) w sw d = Ok (off, sw1, w1)"
      "writer_holds (ev_codec ev) w1 sw1 (docs0 @ [d])" "sw_compression sw1 = sw_compression sw"
      "sg_id (sw_segment sw1) = sg_id (sw_segment sw)"
      using write_document_holds [OF Cons.prems(1), of d] Cons.prems(2) by auto
    have path: "sw_path sw1 = sw_path sw" using wd(4) by (simp add: sw_path_def)
    obtain sw' w' where rest: "copy_documents ev deleted (map Ok docs) sw1 w1 = (Ok sw', w')"
      "writer_holds (ev_codec ev) w' sw' ((docs0 @ [d]) @ surviving deleted docs)" "sw_compression sw' = sw_compression sw"
      "sg_id (sw_segment sw') = sg_id (sw_segment sw)" "untouched {sw_path sw} w1 w'"
      using Cons.IH [OF wd(2)] Cons.prems(2) wd(3,4) path by auto
    have "untouched {sw_path sw} w w'"
      using untouched_trans [OF write_document_untouched [OF wd(1)] rest(5)] by simp
    with rest wd(1) False show ?thesis by simp
  qed
qed auto

subsection \<open>What compaction does\<close>

text \<open>A change of files that the writer does not know keeps what it represents.\<close>

lemma writer_rep_world:
  assumes "writer_rep ev self sp" "untouched ps (iw_world self) w" "\<And>j. j < w_next_id (iw_world self) \<Longrightarrow> SegmentPath j \<notin> ps"
  shows "writer_rep ev (self\<lparr>iw_world := w\<rparr>) sp"
proof -
  let ?i = "sg_id (sw_segment (iw_segment_writer self))"
  have core: "writer_holds (ev_codec ev) (iw_world self) (iw_segment_writer self) (sp_buffer sp)" "?i < w_next_id (iw_world self)"
    "segments_hold ev (iw_compression self) (iw_world self) ?i (sn_segments (current_snapshot (iw_mvcc self))) (sp_published sp)"
    using assms(1) by (auto simp: writer_rep_def writer_core_def)
  have "writer_holds (ev_codec ev) w (iw_segment_writer self) (sp_buffer sp)"
    using writer_holds_untouched [OF core(1) assms(2)] assms(3) [OF core(2)] by (simp add: sw_path_def)
  moreover have "segments_hold ev (iw_compression self) w ?i (sn_segments (current_snapshot (iw_mvcc self))) (sp_published sp)"
    using segments_hold_untouched [OF core(3) assms(2)] assms(3) by blast
  ultimately show ?thesis using assms(1,2) by (auto simp: writer_rep_def writer_core_def untouched_def)
qed

text \<open>
  With the headers that the serialisation library writes, compaction fails on an index that has
  deleted documents and a non-empty first segment; only the file of a new segment is left behind.
\<close>

lemma compact_misreads:
  assumes "writer_rep ev self sp" "env_laws ev (iw_compression self)" "bincode_layout (ev_codec ev)"
    "sp_deleted sp \<noteq> {}" "sp_published sp = docs # rest" "docs \<noteq> []" "length docs < 2 ^ 32"
    "\<forall>d \<in> set docs. document_laws (ev_codec ev) (iw_compression self) d"
  shows "\<exists>e w. compact ev self = (Err e, self\<lparr>iw_world := w\<rparr>) \<and>
           untouched {SegmentPath (w_next_id (iw_world self))} (iw_world self) w"
proof -
  let ?c = "iw_compression self" and ?w = "iw_world self" and ?s = "current_snapshot (iw_mvcc self)"
  have core: "segments_hold ev ?c ?w (sg_id (sw_segment (iw_segment_writer self))) (sn_segments ?s) (docs # rest)"
    "sn_deleted_docs ?s = sp_deleted sp"
    using assms(1,5) by (auto simp: writer_rep_def writer_core_def)
  then obtain s segs where s: "sn_segments ?s = s # segs" "segment_file_holds (ev_codec ev) ?w (sg_id s) ?c docs"
    "sg_id s < w_next_id ?w"
    by (auto simp: segments_hold_def list_all2_Cons2)
  obtain sw w1 where new: "new_segment_writer ev ?w ?c = (sw, w1)" by fastforce
  note nw = new_segment_writer_facts [OF new]
  have s1: "segment_file_holds (ev_codec ev) w1 (sg_id s) ?c docs"
    by (rule segment_file_holds_untouched [OF s(2) nw(5)]) (use s(3) in simp)
  have hl: "header_laws (ev_codec ev)" using assms(2) by (simp add: env_laws_def)
  obtain rd where rd: "segment_open (ev_codec ev) w1 (sg_id s) = Ok rd"
    using segment_open_holds [OF s1 hl assms(7)] by blast
  obtain e items where it: "iter_documents (ev_codec ev) rd = Err e # items"
    using header_size_misread [OF assms(3) hl assms(8,7,6) s1 rd] by blast
  have "compact ev self = (Err e, self\<lparr>iw_world := w1\<rparr>)"
    using assms(4) by (simp add: compact_def core(2) s(1) new rd it)
  with nw(5) show ?thesis by blast
qed

theorem compact_fails:
  assumes "writer_rep ev self sp" "env_laws ev (iw_compression self)" "bincode_layout (ev_codec ev)"
    "sp_deleted sp \<noteq> {}" "sp_published sp = docs # rest" "docs \<noteq> []" "length docs < 2 ^ 32"
    "\<forall>d \<in> set docs. document_laws (ev_codec ev) (iw_compression self) d"
  shows "\<exists>e self'. compact ev self = (Err e, self') \<and> iw_mvcc self' = iw_mvcc self"
  using compact_misreads [OF assms] by auto

theorem compact_fails_witness:
  "\<exists>self e self'. writer_run plain_env plain_writer [AddCommand (document_new 4), FlushCommand, DeleteCommand 4] = (Ok (), self) \<and>
     compact plain_env self = (Err e, self')"
proof -
  let ?cs = "[AddCommand (document_new 4), FlushCommand, DeleteCommand 4]"
  let ?sp = "\<lparr>sp_published = [[document_new 4]], sp_buffer = [], sp_deleted = {4}\<rparr>"
  have rep: "writer_rep plain_env plain_writer spec_empty" unfolding plain_writer_def by (rule new_writer_rep)
  have laws: "document_laws (ev_codec plain_env) CompNone (document_new 4)"
    by (simp add: plain_env_def plain_codec_document_laws small_id_def)
  have sp: "foldl (spec_step 1000) spec_empty ?cs = ?sp"
    by (simp add: spec_empty_def spec_add_def spec_flush_def)
  obtain self where run: "writer_run plain_env plain_writer ?cs = (Ok (), self)" "iw_compression self = CompNone"
    "writer_rep plain_env self ?sp"
    using writer_run_refines [OF rep, of ?cs] plain_env_laws laws unfolding plain_writer_fields sp by auto
  have "bincode_layout (ev_codec plain_env)" by (simp add: plain_env_def plain_codec_layout)
  with compact_fails [OF run(3)] run(1,2) plain_env_laws laws show ?thesis by fastforce
qed

text \<open>The specification of compaction: an index without segments forgets its deletions.\<close>

definition spec_compact :: "writer_spec \<Rightarrow> writer_spec" where
  "spec_compact sp = (if sp_published sp = [] then sp\<lparr>sp_deleted := {}\<rparr> else sp)"

text \<open>What the writer publishes can be stored, is not empty and not too long.\<close>

definition published_ok :: "codec \<Rightarrow> compression_type \<Rightarrow> writer_spec \<Rightarrow> bool" where
  "published_ok cd c sp \<longleftrightarrow>
     (\<forall>docs \<in> set (sp_published sp). docs \<noteq> [] \<and> length docs < 2 ^ 32 \<and> (\<forall>d \<in> set docs. document_laws cd c d))"

lemma compact_nothing:
  assumes "writer_rep ev self sp" "version self \<noteq> - 1" "sp_published sp = []" "sp_deleted sp \<noteq> {}"
  shows "\<exists>self'. compact ev self = (Ok (), self') \<and> writer_rep ev self' (sp\<lparr>sp_deleted := {}\<rparr>) \<and>
           iw_compression self' = iw_compression self \<and> iw_batch_size self' = iw_batch_size self \<and> version self' = version self + 1"
proof -
  let ?s = "current_snapshot (iw_mvcc self)"
  have core: "sn_segments ?s = []" "sn_deleted_docs ?s \<noteq> {}" "mvcc_wf (iw_mvcc self)"
    using assms by (auto simp: writer_rep_def writer_core_def segments_hold_def)
  obtain sn m where cr: "create_snapshot_with_deletes (iw_mvcc self) [] {} = (sn, m)" by fastforce
  note made = create_wf [OF core(3) assms(2) cr]
  define self1 where "self1 = self\<lparr>iw_mvcc := m\<rparr>"
  have run: "compact ev self = (Ok (), sync_log (log_operation ev self1 Commit))"
    using core by (simp add: compact_def cr self1_def)
  have "writer_core ev self1 (sp\<lparr>sp_deleted := {}\<rparr>)"
    using assms(1,3) made by (auto simp: writer_rep_def writer_core_def self1_def segments_hold_def)
  then have "writer_core ev (sync_log (log_operation ev self1 Commit)) (sp\<lparr>sp_deleted := {}\<rparr>)"
    by (intro sync_log_core log_operation_core)
  then show ?thesis
    using assms(1) made run by (simp add: writer_rep_def sync_log_def log_operation_same self1_def)
qed

lemma compact_refines:
  assumes "writer_rep ev self sp" "env_laws ev (iw_compression self)" "bincode_layout (ev_codec ev)" "version self \<noteq> - 1"
    "published_ok (ev_codec ev) (iw_compression self) sp"
  shows "\<exists>r self'. compact ev self = (r, self') \<and> writer_rep ev self' (spec_compact sp) \<and>
           isl r = (sp_deleted sp \<noteq> {} \<and> sp_published sp \<noteq> []) \<and>
           iw_compression self' = iw_compression self \<and> iw_batch_size self' = iw_batch_size self \<and>
           (version self' = version self \<or> version self' = version self + 1)"
proof (cases "sp_deleted sp = {}")
  case True
  then have "compact ev self = (Ok (), self)" "spec_compact sp = sp"
    using assms(1) by (cases sp; auto simp: compact_def spec_compact_def writer_rep_def writer_core_def)+
  with True assms(1) show ?thesis by simp
next
  case deleted: False
  show ?thesis
  proof (cases "sp_published sp")
    case Nil
    with compact_nothing [OF assms(1,4) Nil deleted] show ?thesis by (auto simp: spec_compact_def)
  next
    case (Cons docs rest)
    then have docs: "docs \<noteq> []" "length docs < 2 ^ 32" "\<forall>d \<in> set docs. document_laws (ev_codec ev) (iw_compression self) d"
      using assms(5) by (simp_all add: published_ok_def)
    obtain e w where run: "compact ev self = (Err e, self\<lparr>iw_world := w\<rparr>)"
      "untouched {SegmentPath (w_next_id (iw_world self))} (iw_world self) w"
      using compact_misreads [OF assms(1-3) deleted Cons docs] by blast
    have "writer_rep ev (self\<lparr>iw_world := w\<rparr>) sp" by (rule writer_rep_world [OF assms(1) run(2)]) simp
    with run(1) deleted Cons show ?thesis by (simp add: spec_compact_def)
  qed
qed

text \<open>
  C18: What compaction does to an index.  With the header size that bincode gives \<^verbatim>\<open>SegmentHeader\<close> (16 bytes,
  while the iterator skips 24), compaction fails exactly when there are both deleted documents and
  segments; it then changes nothing that the writer stands for: the same segments with the same
  documents are published, the same documents wait for a flush, and the same ids are deleted.  With
  deletions and no segment it succeeds and forgets the deletions; without deletions it does nothing.
  So compaction never removes a document from a segment.
\<close>

theorem compact_outcome:
  assumes "writer_rep ev self sp" "env_laws ev (iw_compression self)" "bincode_layout (ev_codec ev)" "version self \<noteq> - 1"
    "\<forall>docs \<in> set (sp_published sp). docs \<noteq> [] \<and> length docs < 2 ^ 32 \<and>
       (\<forall>d \<in> set docs. document_laws (ev_codec ev) (iw_compression self) d)"
  shows "\<exists>r self'. compact ev self = (r, self') \<and> isl r = (sp_deleted sp \<noteq> {} \<and> sp_published sp \<noteq> []) \<and>
           writer_rep ev self' (if sp_published sp = [] then sp\<lparr>sp_deleted := {}\<rparr> else sp)"
  using compact_refines [OF assms(1-4)] assms(5) by (auto simp: published_ok_def spec_compact_def)

theorem compact_outcome_witness:
  "\<exists>self r self'. writer_run plain_env plain_writer
        [AddCommand (document_new 4), AddCommand (document_new 5), FlushCommand, DeleteCommand 4] = (Ok (), self) \<and>
     compact plain_env self = (r, self') \<and> isl r \<and>
     writer_rep plain_env self' \<lparr>sp_published = [[document_new 4, document_new 5]], sp_buffer = [], sp_deleted = {4}\<rparr>"
proof -
  let ?cs = "[AddCommand (document_new 4), AddCommand (document_new 5), FlushCommand, DeleteCommand 4]"
  let ?sp = "\<lparr>sp_published = [[document_new 4, document_new 5]], sp_buffer = [], sp_deleted = {4}\<rparr>"
  have rep: "writer_rep plain_env plain_writer spec_empty" unfolding plain_writer_def by (rule new_writer_rep)
  have laws: "document_laws (ev_codec plain_env) CompNone (document_new 4)" "document_laws (ev_codec plain_env) CompNone (document_new 5)"
    by (simp_all add: plain_env_def plain_codec_document_laws small_id_def)
  have sp: "foldl (spec_step 1000) spec_empty ?cs = ?sp"
    by (simp add: spec_empty_def spec_add_def spec_flush_def)
  obtain self where run: "writer_run plain_env plain_writer ?cs = (Ok (), self)" "iw_compression self = CompNone"
    "unat (version self) \<le> 4" "writer_rep plain_env self ?sp"
    using writer_run_refines [OF rep, of ?cs] plain_env_laws laws unfolding plain_writer_fields sp by auto
  have v: "version self \<noteq> - 1" using version_below(2) [of "version self" "version self" 0] run(3) by simp
  have "bincode_layout (ev_codec plain_env)" by (simp add: plain_env_def plain_codec_layout)
  from compact_outcome [OF run(4) _ this v] run(1,2) plain_env_laws laws show ?thesis by auto
qed

subsection \<open>All moves of a writer\<close>

text \<open>
  Recovery finds at least one log file or does nothing; it opens the first one, cannot read it and
  stops.
\<close>

lemma recover_refines:
  assumes "writer_rep ev self sp"
  shows "\<exists>r self'. recover ev listing self = (r, self') \<and> writer_rep ev self' sp \<and>
           iw_compression self' = iw_compression self \<and> iw_batch_size self' = iw_batch_size self \<and> version self' = version self"
proof (cases "find_wal_files listing")
  case Nil
  with assms show ?thesis by (simp add: recover_def)
next
  case (Cons n ns)
  let ?w = "create_file (iw_world self) (WalPath n)"
  have "untouched {WalPath n} (iw_world self) ?w"
    by (auto simp: create_file_def untouched_def write_file_def split: option.splits)
  then have "writer_rep ev (self\<lparr>iw_world := ?w\<rparr>) sp" by (rule writer_rep_world [OF assms]) simp
  with Cons show ?thesis by (simp add: recover_def wal_open_def wal_read_entries_def Let_def)
qed

text \<open>The writer's commands, batches, compaction and recovery, and what the specification says of them.\<close>

datatype writer_move = CommandMove command | BatchMove "document list" | CompactMove | RecoverMove "string list"

fun move_step :: "env \<Rightarrow> index_writer \<Rightarrow> writer_move \<Rightarrow> index_writer" where
  "move_step ev self (CommandMove c) = snd (writer_step ev self c)"
| "move_step ev self (BatchMove docs) = snd (add_documents_batch ev self docs)"
| "move_step ev self CompactMove = snd (compact ev self)"
| "move_step ev self (RecoverMove listing) = snd (recover ev listing self)"

fun spec_move :: "nat \<Rightarrow> writer_spec \<Rightarrow> writer_move \<Rightarrow> writer_spec" where
  "spec_move n sp (CommandMove c) = spec_step n sp c"
| "spec_move n sp (BatchMove docs) = foldl (spec_add n) sp docs"
| "spec_move n sp CompactMove = spec_compact sp"
| "spec_move n sp (RecoverMove listing) = sp"

text \<open>The documents that a move adds, and the versions that it can publish.\<close>

fun move_documents :: "writer_move \<Rightarrow> document list" where
  "move_documents (CommandMove (AddCommand d)) = [d]"
| "move_documents (BatchMove docs) = docs"
| "move_documents m = []"

definition move_versions :: "writer_move \<Rightarrow> nat" where
  "move_versions m = (case m of BatchMove docs \<Rightarrow> length docs | _ \<Rightarrow> 1)"

definition spec_ok :: "nat \<Rightarrow> document set \<Rightarrow> writer_spec \<Rightarrow> bool" where
  "spec_ok n D sp \<longleftrightarrow> spec_within n D sp \<and> [] \<notin> set (sp_published sp)"

lemma spec_step_ok:
  assumes "spec_ok n D sp" "\<And>d. c = AddCommand d \<Longrightarrow> d \<in> D"
  shows "spec_ok n D (spec_step n sp c)"
  using assms spec_step_within [of n D sp c] unfolding spec_ok_def
  by (cases c) (auto simp: spec_add_def spec_flush_def Let_def)

lemma spec_move_ok:
  assumes "spec_ok n D sp" "set (move_documents m) \<subseteq> D"
  shows "spec_ok n D (spec_move n sp m)"
proof (cases m)
  case (CommandMove c)
  with assms(2) have "d \<in> D" if "c = AddCommand d" for d using that by simp
  from spec_step_ok [OF assms(1) this] CommandMove show ?thesis by simp
next
  case (BatchMove docs)
  have "spec_ok n D (foldl (spec_add n) sp docs)" if "set docs \<subseteq> D"
    using that assms(1)
  proof (induction docs arbitrary: sp)
    case (Cons d docs)
    with spec_step_ok [of n D sp "AddCommand d"] show ?case by simp
  qed simp
  with BatchMove assms(2) show ?thesis by simp
qed (use assms in \<open>auto simp: spec_ok_def spec_within_def spec_compact_def\<close>)

lemma move_refines:
  assumes "writer_rep ev self sp" "env_laws ev (iw_compression self)" "bincode_layout (ev_codec ev)" "iw_batch_size self < 2 ^ 32"
    "unat (version self) + move_versions m < 2 ^ 64"
    "set (move_documents m) \<subseteq> {d. document_laws (ev_codec ev) (iw_compression self) d}"
    "spec_ok (iw_batch_size self) {d. document_laws (ev_codec ev) (iw_compression self) d} sp"
  shows "writer_rep ev (move_step ev self m) (spec_move (iw_batch_size self) sp m) \<and>
         iw_compression (move_step ev self m) = iw_compression self \<and> iw_batch_size (move_step ev self m) = iw_batch_size self \<and>
         unat (version (move_step ev self m)) \<le> unat (version self) + move_versions m"
proof (cases m)
  case (CommandMove c)
  then have v: "version self \<noteq> - 1"
    using version_below(2) [of "version self" "version self" 0] assms(5) by (simp add: move_versions_def)
  have "refines_step ev self (writer_step ev self c) (spec_step (iw_batch_size self) sp c)"
    using assms(6) CommandMove by (intro writer_step_refines [OF assms(1,2) v assms(4)]) auto
  then show ?thesis using CommandMove version_le [OF _ v] by (auto simp: refines_step_def move_versions_def)
next
  case (BatchMove docs)
  with assms(5,6) have docs: "unat (version self) + length docs < 2 ^ 64" "\<forall>d \<in> set docs. document_laws (ev_codec ev) (iw_compression self) d"
    by (auto simp: move_versions_def)
  from add_documents_batch_refines [OF assms(1,2,4) docs] BatchMove show ?thesis by (auto simp: move_versions_def)
next
  case CompactMove
  then have v: "version self \<noteq> - 1"
    using version_below(2) [of "version self" "version self" 0] assms(5) by (simp add: move_versions_def)
  have "published_ok (ev_codec ev) (iw_compression self) sp"
    unfolding published_ok_def
  proof (intro ballI conjI)
    fix docs
    assume docs: "docs \<in> set (sp_published sp)"
    then have within: "set docs \<subseteq> {d. document_laws (ev_codec ev) (iw_compression self) d}"
      "length docs \<le> max 1 (iw_batch_size self)" "docs \<noteq> []"
      using assms(7) unfolding spec_ok_def spec_within_def by blast+
    show "docs \<noteq> []" by (rule within(3))
    show "length docs < 2 ^ 32" using within(2) assms(4) by (simp add: max_def split: if_splits)
    show "document_laws (ev_codec ev) (iw_compression self) d" if "d \<in> set docs" for d using within(1) that by blast
  qed
  from compact_refines [OF assms(1-3) v this] obtain r self' where
    run: "compact ev self = (r, self')" "writer_rep ev self' (spec_compact sp)" "iw_compression self' = iw_compression self"
    "iw_batch_size self' = iw_batch_size self" "version self' = version self \<or> version self' = version self + 1" by blast
  with version_le [OF run(5) v] CompactMove show ?thesis by (simp add: move_versions_def)
next
  case (RecoverMove listing)
  with recover_refines [OF assms(1), of listing] show ?thesis by (auto simp: move_versions_def)
qed

lemma moves_refine:
  assumes "writer_rep ev self sp" "env_laws ev (iw_compression self)" "bincode_layout (ev_codec ev)" "iw_batch_size self < 2 ^ 32"
    "unat (version self) + sum_list (map move_versions ms) < 2 ^ 64"
    "\<forall>m \<in> set ms. \<forall>d \<in> set (move_documents m). document_laws (ev_codec ev) (iw_compression self) d"
    "spec_ok (iw_batch_size self) {d. document_laws (ev_codec ev) (iw_compression self) d} sp"
  shows "writer_rep ev (foldl (move_step ev) self ms) (foldl (spec_move (iw_batch_size self)) sp ms)"
  using assms
proof (induction ms arbitrary: self sp)
  case (Cons m ms)
  let ?self = "move_step ev self m" and ?sp = "spec_move (iw_batch_size self) sp m"
  have docs: "set (move_documents m) \<subseteq> {d. document_laws (ev_codec ev) (iw_compression self) d}" using Cons.prems(6) by auto
  have "unat (version self) + move_versions m < 2 ^ 64" using Cons.prems(5) by simp
  note step = move_refines [OF Cons.prems(1-4) this docs Cons.prems(7)]
  have "spec_ok (iw_batch_size self) {d. document_laws (ev_codec ev) (iw_compression self) d} ?sp"
    by (rule spec_move_ok [OF Cons.prems(7) docs])
  with Cons.IH [of ?self ?sp] step Cons.prems(2-6) show ?case by simp
qed simp

end
