(* ===== verification/Readers.thy ===== *)
theory Readers
  imports Mvcc
begin

section \<open>Readers\<close>

text \<open>
  The model of \<^verbatim>\<open>src/reader/reader_pool.rs\<close>, \<^verbatim>\<open>snapshot_reader.rs\<close> and \<^verbatim>\<open>read_guard.rs\<close>.  A reader
  works on the handles of its segments, which are the contents of finished files, on the deleted
  documents of its snapshot and on the index, which is part of the match context.  The hash maps of
  the pool are association lists.  A \<^verbatim>\<open>usize\<close> is a natural number, except where the code multiplies
  the limit, which wraps at 64 bits in a release build.
\<close>

definition usize_max :: nat where
  "usize_max = 2 ^ 64 - 1"

record 'm index_reader =
  ir_snapshot :: snapshot
  ir_segments :: "segment_reader list"
  ir_deleted_docs :: "u32 set"
  ir_context :: "'m match_context"

record 'm reader_pool =
  rp_max_readers :: nat
  rp_context :: "'m match_context"
  rp_reader_cache :: "(u64 \<times> 'm index_reader) list"
  rp_segment_reader_cache :: "((u64 \<times> nat) \<times> segment_reader) list"
  rp_segment_open_failures :: u64

definition reader_pool_new :: "'m match_context \<Rightarrow> nat \<Rightarrow> 'm reader_pool" where
  "reader_pool_new cx max_readers =
     \<lparr>rp_max_readers = max_readers, rp_context = cx, rp_reader_cache = [], rp_segment_reader_cache = [],
      rp_segment_open_failures = 0\<rparr>"

subsection \<open>The pool\<close>

text \<open>One segment of the snapshot: the cached handle, a new one, or none when it cannot be opened.\<close>

definition segment_reader_for ::
  "codec \<Rightarrow> world \<Rightarrow> u64 \<Rightarrow> nat \<Rightarrow> segment \<Rightarrow> 'm reader_pool \<Rightarrow> segment_reader option \<times> 'm reader_pool" where
  "segment_reader_for cd w v i s self =
     (case map_of (rp_segment_reader_cache self) (v, i) of
        Some cached \<Rightarrow> (Some cached, self)
      | None \<Rightarrow>
          (case segment_open cd w (sg_id s) of
             Inr reader \<Rightarrow>
               (Some reader, self\<lparr>rp_segment_reader_cache := ((v, i), reader) # rp_segment_reader_cache self\<rparr>)
           | Inl e \<Rightarrow> (None, self\<lparr>rp_segment_open_failures := rp_segment_open_failures self + 1\<rparr>)))"

fun open_segments ::
  "codec \<Rightarrow> world \<Rightarrow> u64 \<Rightarrow> (nat \<times> segment) list \<Rightarrow> 'm reader_pool \<Rightarrow> segment_reader list \<times> 'm reader_pool" where
  "open_segments cd w v [] self = ([], self)"
| "open_segments cd w v ((i, s) # rest) self =
     (let (r, self) = segment_reader_for cd w v i s self;
          (readers, self) = open_segments cd w v rest self
      in (case r of Some reader \<Rightarrow> reader # readers | None \<Rightarrow> readers, self))"

definition create_reader_for_snapshot ::
  "codec \<Rightarrow> world \<Rightarrow> 'm reader_pool \<Rightarrow> snapshot \<Rightarrow> 'm index_reader \<times> 'm reader_pool" where
  "create_reader_for_snapshot cd w self s =
     (let (readers, self) = open_segments cd w (sn_version s) (List.enumerate 0 (sn_segments s)) self
      in (\<lparr>ir_snapshot = s, ir_segments = readers, ir_deleted_docs = sn_deleted_docs s,
           ir_context = rp_context self\<rparr>, self))"

definition cleanup_segment_readers :: "u64 \<Rightarrow> 'm reader_pool \<Rightarrow> 'm reader_pool" where
  "cleanup_segment_readers v self =
     self\<lparr>rp_segment_reader_cache := filter (\<lambda>((v', i), r). v' \<noteq> v) (rp_segment_reader_cache self)\<rparr>"

definition cleanup_old_readers :: "'m reader_pool \<Rightarrow> 'm reader_pool" where
  "cleanup_old_readers self =
     (let versions = sort (map fst (rp_reader_cache self));
          keep_count = rp_max_readers self div 2
      in if length versions > keep_count
         then foldl (\<lambda>self v. cleanup_segment_readers v
                (self\<lparr>rp_reader_cache := filter (\<lambda>(v', r). v' \<noteq> v) (rp_reader_cache self)\<rparr>))
                self (take (length versions - keep_count) versions)
         else self)"

definition get_reader ::
  "codec \<Rightarrow> world \<Rightarrow> mvcc \<Rightarrow> 'm reader_pool \<Rightarrow> ('m index_reader \<times> 'm reader_pool) result" where
  "get_reader cd w m self =
     (let s = current_snapshot m;
          v = sn_version s
      in case map_of (rp_reader_cache self) v of
           Some cached \<Rightarrow> Ok (cached, self)
         | None \<Rightarrow>
             (let (reader, self) = create_reader_for_snapshot cd w self s;
                  self = self\<lparr>rp_reader_cache := (v, reader) # rp_reader_cache self\<rparr>;
                  self = (if length (rp_reader_cache self) > rp_max_readers self then cleanup_old_readers self else self)
              in Ok (reader, self)))"

subsection \<open>Searching\<close>

text \<open>
  The test for early termination: it sorts the results so far and looks at the score at the limit,
  where a limit of zero wraps around and the access panics.
\<close>

definition enough_results :: "nat \<Rightarrow> scored_document list \<Rightarrow> (bool \<times> scored_document list) result" where
  "enough_results limit all_results =
     and_then (sort_descending all_results) (\<lambda>all_results.
       if length all_results \<ge> limit
       then and_then (index all_results (if limit = 0 then usize_max else limit - 1)) (\<lambda>kth.
              Ok (f_lt (Fin (1 / 2)) (sd_score kth), all_results))
       else Ok (False, all_results))"

fun search_segments ::
  "codec \<Rightarrow> 'm match_context \<Rightarrow> query \<Rightarrow> nat \<Rightarrow> segment_reader list \<Rightarrow> scored_document list
     \<Rightarrow> scored_document list result" where
  "search_segments cd cx q limit [] all_results = Ok all_results"
| "search_segments cd cx q limit (reader # readers) all_results =
     and_then (if length all_results \<ge> limit * 3 mod 2 ^ 64 \<and> limit < usize_max
               then enough_results limit all_results else Ok (False, all_results)) (\<lambda>(stop, all_results).
       if stop then Ok all_results
       else and_then (segment_search cd cx reader q) (\<lambda>results.
              search_segments cd cx q limit readers (all_results @ results)))"

definition reader_search_with_limit ::
  "codec \<Rightarrow> 'm index_reader \<Rightarrow> query \<Rightarrow> nat \<Rightarrow> search_results result" where
  "reader_search_with_limit cd self q limit =
     and_then (search_segments cd (ir_context self) q limit (ir_segments self) []) (\<lambda>all_results.
     and_then (sort_descending (filter (\<lambda>d. ucast (sd_doc_id d) \<notin> ir_deleted_docs self) all_results)) (\<lambda>all_results.
       let total_hits = length all_results;
           max_score = (case all_results of [] \<Rightarrow> Fin 0 | h # _ \<Rightarrow> sd_score h);
           hits = (if limit < usize_max \<and> length all_results > limit then take limit all_results else all_results)
       in Ok \<lparr>sr_hits = hits, sr_total_hits = total_hits, sr_max_score = max_score\<rparr>))"

definition reader_search :: "codec \<Rightarrow> 'm index_reader \<Rightarrow> query \<Rightarrow> search_results result" where
  "reader_search cd self q = reader_search_with_limit cd self q usize_max"

subsection \<open>Readers of one snapshot\<close>

record 'm snapshot_reader =
  sr_snapshot :: snapshot
  sr_segment_readers :: "segment_reader list"
  sr_context :: "'m match_context"

definition snapshot_reader_new ::
  "codec \<Rightarrow> world \<Rightarrow> snapshot \<Rightarrow> 'm match_context \<Rightarrow> 'm snapshot_reader result" where
  "snapshot_reader_new cd w s cx =
     and_then (try_map (\<lambda>g. segment_open cd w (sg_id g)) (sn_segments s)) (\<lambda>readers.
       Ok \<lparr>sr_snapshot = s, sr_segment_readers = readers, sr_context = cx\<rparr>)"

fun search_all ::
  "codec \<Rightarrow> 'm match_context \<Rightarrow> query \<Rightarrow> segment_reader list \<Rightarrow> scored_document list
     \<Rightarrow> scored_document list result" where
  "search_all cd cx q [] results = Ok results"
| "search_all cd cx q (reader # readers) results =
     and_then (segment_search cd cx reader q) (\<lambda>rs. search_all cd cx q readers (results @ rs))"

definition snapshot_reader_search :: "codec \<Rightarrow> 'm snapshot_reader \<Rightarrow> query \<Rightarrow> scored_document list result" where
  "snapshot_reader_search cd self q =
     and_then (search_all cd (sr_context self) q (sr_segment_readers self) []) (\<lambda>results.
       Ok (filter (\<lambda>d. ucast (sd_doc_id d) \<notin> sn_deleted_docs (sr_snapshot self)) results))"

fun first_document :: "codec \<Rightarrow> segment_reader list \<Rightarrow> doc_id \<Rightarrow> document option result" where
  "first_document cd [] d = Ok None"
| "first_document cd (reader # readers) d =
     and_then (get_document cd reader d) (\<lambda>r. case r of Some doc \<Rightarrow> Ok (Some doc) | None \<Rightarrow> first_document cd readers d)"

definition snapshot_reader_get_document :: "codec \<Rightarrow> 'm snapshot_reader \<Rightarrow> doc_id \<Rightarrow> document option result" where
  "snapshot_reader_get_document cd self d =
     (if ucast d \<in> sn_deleted_docs (sr_snapshot self) then Ok None
      else first_document cd (sr_segment_readers self) d)"

record read_guard =
  rg_snapshot :: snapshot
  rg_segments :: "segment_reader list"

definition read_guard_new :: "snapshot \<Rightarrow> segment_reader list \<Rightarrow> read_guard" where
  "read_guard_new s segments = \<lparr>rg_snapshot = s, rg_segments = segments\<rparr>"

definition read_guard_version :: "read_guard \<Rightarrow> u64" where
  "read_guard_version self = sn_version (rg_snapshot self)"

definition read_guard_search :: "codec \<Rightarrow> 'm match_context \<Rightarrow> read_guard \<Rightarrow> query \<Rightarrow> scored_document list result" where
  "read_guard_search cd cx self q = search_all cd cx q (rg_segments self) []"

subsection \<open>What a search returns\<close>

definition reader_holds :: "codec \<Rightarrow> 'm match_context \<Rightarrow> segment_reader \<Rightarrow> document list \<Rightarrow> bool" where
  "reader_holds cd cx rd docs \<longleftrightarrow>
     (\<forall>q. segment_search cd cx rd q = Ok (map hit (filter (\<lambda>d. satisfies cx d q) docs)))"

lemma sort_key_const: "(\<And>x y. x \<in> set xs \<Longrightarrow> y \<in> set xs \<Longrightarrow> f x = f y) \<Longrightarrow> sort_key f xs = xs"
proof (rule sort_key_id_if_sorted)
  assume const: "\<And>x y. x \<in> set xs \<Longrightarrow> y \<in> set xs \<Longrightarrow> f x = f y"
  show "sorted (map f xs)"
    by (auto simp: sorted_iff_nth_mono intro!: eq_refl const)
qed

lemma sort_descending_hits: "sort_descending (map hit docs) = Ok (map hit docs)"
proof -
  have "sort_key sd_score (rev (map hit docs)) = rev (map hit docs)"
    by (rule sort_key_const) (auto simp: hit_def)
  then show ?thesis by (auto simp: sort_descending_def hit_def)
qed

abbreviation alive :: "u32 set \<Rightarrow> document \<Rightarrow> bool" where
  "alive deleted d \<equiv> ucast (d_id d) \<notin> deleted"

lemma filter_hits:
  "filter (\<lambda>h. ucast (sd_doc_id h) \<notin> deleted) (map hit docs) = map hit (filter (alive deleted) docs)"
  by (simp add: filter_map hit_def comp_def)

lemma search_segments_unlimited:
  assumes "list_all2 (reader_holds cd cx) rds docss"
  shows "search_segments cd cx q usize_max rds (map hit acc) =
           Ok (map hit (acc @ filter (\<lambda>d. satisfies cx d q) (concat docss)))"
  using assms
proof (induction arbitrary: acc rule: list_all2_induct)
  case (Cons rd rds docs docss)
  have "search_segments cd cx q usize_max (rd # rds) (map hit acc) =
      search_segments cd cx q usize_max rds (map hit (acc @ filter (\<lambda>d. satisfies cx d q) docs))"
    using Cons.hyps(1) by (simp add: reader_holds_def)
  also have "\<dots> = Ok (map hit ((acc @ filter (\<lambda>d. satisfies cx d q) docs) @ filter (\<lambda>d. satisfies cx d q) (concat docss)))"
    by (rule Cons.IH)
  finally show ?case by simp
qed simp

lemma search_all_holds:
  "list_all2 (reader_holds cd cx) rds docss \<Longrightarrow>
     search_all cd cx q rds acc = Ok (acc @ map hit (filter (\<lambda>d. satisfies cx d q) (concat docss)))"
proof (induction arbitrary: acc rule: list_all2_induct)
  case (Cons rd rds docs docss)
  then show ?case by (simp add: reader_holds_def)
qed simp

text \<open>
  C32: a search without a limit is exact: for a reader whose segments hold certain documents it
  returns exactly those that match the query and are not deleted, segment by segment in the order
  they were written, and counts them; the reader of a single snapshot finds the same documents.
\<close>

theorem reader_search_exact:
  assumes "list_all2 (reader_holds cd (ir_context self)) (ir_segments self) docss"
    and "expected = map hit (filter (\<lambda>d. satisfies (ir_context self) d q \<and> alive (ir_deleted_docs self) d) (concat docss))"
  shows "(\<exists>r. reader_search cd self q = Ok r \<and> sr_hits r = expected \<and> sr_total_hits r = length expected) \<and>
         snapshot_reader_search cd
           \<lparr>sr_snapshot = (ir_snapshot self)\<lparr>sn_deleted_docs := ir_deleted_docs self\<rparr>,
            sr_segment_readers = ir_segments self, sr_context = ir_context self\<rparr> q = Ok expected"
proof -
  let ?found = "filter (\<lambda>d. satisfies (ir_context self) d q) (concat docss)"
  have "search_segments cd (ir_context self) q usize_max (ir_segments self) [] = Ok (map hit ?found)"
    using search_segments_unlimited [OF assms(1), of q "[]"] by simp
  moreover have del: "filter (\<lambda>h. ucast (sd_doc_id h) \<notin> ir_deleted_docs self) (map hit ?found) = expected"
    by (simp add: filter_hits assms(2) conj_commute)
  moreover have "sort_descending expected = Ok expected" unfolding assms(2) by (rule sort_descending_hits)
  moreover have "search_all cd (ir_context self) q (ir_segments self) [] = Ok (map hit ?found)"
    using search_all_holds [OF assms(1), of q "[]"] by simp
  ultimately show ?thesis
    by (simp add: reader_search_def reader_search_with_limit_def snapshot_reader_search_def Let_def)
qed

text \<open>
  the early termination of a limited search counts deleted documents.  If the first segment has
  at least three times the limit of matches, no later segment is searched; so when they are all
  deleted the search returns nothing, whatever the other segments hold.
\<close>

theorem early_termination_misses:
  assumes "ir_segments self = rd # rd' # rds" "reader_holds cd (ir_context self) rd docs"
    "0 < limit" "limit * 3 < 2 ^ 64" "limit * 3 \<le> length (filter (\<lambda>d. satisfies (ir_context self) d q) docs)"
    "\<forall>d \<in> set docs. \<not> alive (ir_deleted_docs self) d"
  shows "\<exists>r. reader_search_with_limit cd self q limit = Ok r \<and> sr_hits r = [] \<and> sr_total_hits r = 0"
proof -
  let ?found = "filter (\<lambda>d. satisfies (ir_context self) d q) docs"
  have limit: "limit < usize_max" "limit \<le> length ?found" "limit * 3 mod 2 ^ 64 = limit * 3"
    using assms(3-5) by (auto simp: usize_max_def)
  have "index (map hit ?found) (limit - 1) = Ok (hit (?found ! (limit - 1)))"
    using limit(2) assms(3) by (simp add: index_def)
  then have stop: "enough_results limit (map hit ?found) = Ok (True, map hit ?found)"
    using limit(2) assms(3) by (simp add: enough_results_def sort_descending_hits f_lt_def hit_def less_fval_def less_eq_fval_def)
  have "search_segments cd (ir_context self) q limit (ir_segments self) [] = Ok (map hit ?found)"
    using assms(2,3,5) limit stop by (simp add: assms(1) reader_holds_def)
  moreover have "filter (\<lambda>h. ucast (sd_doc_id h) \<notin> ir_deleted_docs self) (map hit ?found) = []"
    unfolding filter_hits using assms(6) by simp
  ultimately show ?thesis
    by (simp add: reader_search_with_limit_def sort_descending_def)
qed

text \<open>
  a limit of zero makes the search panic as soon as the snapshot has a segment.
\<close>

theorem limit_zero_panics:
  assumes "ir_segments self = rd # rds"
  shows "reader_search_with_limit cd self q 0 = Err Panic"
  using assms by (simp add: reader_search_with_limit_def enough_results_def sort_descending_def index_def usize_max_def)

subsection \<open>Concrete readers\<close>

lemma plain_reader_exists:
  assumes "\<forall>d \<in> set ids. small_id d" "length ids < 2 ^ 32"
  shows "\<exists>rd. reader_holds plain_codec empty_context rd (map document_new ids)"
proof -
  let ?docs = "map document_new ids"
  have laws: "\<forall>d \<in> set ?docs. document_laws plain_codec CompNone d"
    using assms(1) plain_codec_document_laws by auto
  obtain s :: segment and w' where s: "segment_file_holds plain_codec w' (sg_id s) CompNone ?docs"
    using write_segment_holds [OF plain_codec_header_laws laws, of empty_world] by blast
  obtain rd where rd: "segment_open plain_codec w' (sg_id s) = Ok rd"
    using segment_open_holds [OF s plain_codec_header_laws] assms(2) by auto
  have "\<forall>d \<in> set ?docs. document_laws plain_codec CompNone d \<and> matches empty_context d q = Ok (satisfies empty_context d q)" for q
    using laws matches_total [of empty_context] index_ok_new by (auto simp: empty_context_def)
  from segment_search_holds [OF s plain_codec_header_laws _ this rd] assms(2)
  show ?thesis unfolding reader_holds_def by auto
qed

definition plain_reader :: "segment_reader list \<Rightarrow> u32 set \<Rightarrow> unit index_reader" where
  "plain_reader rds deleted = \<lparr>ir_snapshot = snapshot_default, ir_segments = rds, ir_deleted_docs = deleted,
     ir_context = empty_context\<rparr>"

lemma satisfies_match_all [simp]: "satisfies cx d MatchAll"
  by (simp add: satisfies_def)

theorem reader_search_exact_witness:
  "\<exists>rd r. reader_search plain_codec (plain_reader [rd] {4}) MatchAll = Ok r \<and> sr_hits r = [hit (document_new 5)]"
proof -
  obtain rd where rd: "reader_holds plain_codec empty_context rd (map document_new [4, 5])"
    using plain_reader_exists [of "[4, 5]"] by (auto simp: small_id_def)
  have "list_all2 (reader_holds plain_codec (ir_context (plain_reader [rd] {4}))) (ir_segments (plain_reader [rd] {4}))
      [map document_new [4, 5]]" using rd by (simp add: plain_reader_def)
  from reader_search_exact [OF this refl, of MatchAll] show ?thesis
    by (auto simp: plain_reader_def document_new_def)
qed

theorem early_termination_misses_witness:
  "\<exists>rd rd' r. reader_holds plain_codec empty_context rd' (map document_new [7]) \<and>
     reader_search_with_limit plain_codec (plain_reader [rd, rd'] {4, 5, 6}) MatchAll 1 = Ok r \<and> sr_hits r = []"
proof -
  obtain rd where rd: "reader_holds plain_codec empty_context rd (map document_new [4, 5, 6])"
    using plain_reader_exists [of "[4, 5, 6]"] by (auto simp: small_id_def)
  obtain rd' where rd': "reader_holds plain_codec empty_context rd' (map document_new [7])"
    using plain_reader_exists [of "[7]"] by (auto simp: small_id_def)
  have "\<exists>r. reader_search_with_limit plain_codec (plain_reader [rd, rd'] {4, 5, 6}) MatchAll 1 = Ok r \<and> sr_hits r = [] \<and>
      sr_total_hits r = 0"
    by (rule early_termination_misses [where docs = "map document_new [4, 5, 6]" and rd = rd and rd' = rd' and rds = "[]"])
      (use rd in \<open>simp_all add: plain_reader_def document_new_def\<close>)
  with rd' show ?thesis by blast
qed

theorem limit_zero_panics_witness:
  "\<exists>rd. reader_search_with_limit plain_codec (plain_reader [rd] {}) MatchAll 0 = Err Panic"
  using limit_zero_panics [of "plain_reader [undefined] {}"] by (auto simp: plain_reader_def)

subsection \<open>The pool's cache\<close>

lemma segment_reader_for_same:
  "segment_reader_for cd w v i s self = (r, self') \<Longrightarrow>
     rp_reader_cache self' = rp_reader_cache self \<and> rp_max_readers self' = rp_max_readers self \<and>
     rp_context self' = rp_context self"
  by (auto simp: segment_reader_for_def split: option.splits sum.splits)

lemma open_segments_same:
  "open_segments cd w v segs self = (rs, self') \<Longrightarrow>
     rp_reader_cache self' = rp_reader_cache self \<and> rp_max_readers self' = rp_max_readers self \<and>
     rp_context self' = rp_context self"
proof (induction cd w v segs self arbitrary: rs self' rule: open_segments.induct)
  case (2 cd w v i s rest self)
  obtain r self1 where r: "segment_reader_for cd w v i s self = (r, self1)" by fastforce
  obtain rs2 self2 where rest: "open_segments cd w v rest self1 = (rs2, self2)" by fastforce
  with 2 r segment_reader_for_same [OF r] show ?case by auto
qed simp

lemma remove_versions_fields:
  "rp_reader_cache (foldl (\<lambda>self v. cleanup_segment_readers v
      (self\<lparr>rp_reader_cache := filter (\<lambda>(v', r). v' \<noteq> v) (rp_reader_cache self)\<rparr>)) self vs) =
     filter (\<lambda>(v', r). v' \<notin> set vs) (rp_reader_cache self) \<and>
   rp_max_readers (foldl (\<lambda>self v. cleanup_segment_readers v
      (self\<lparr>rp_reader_cache := filter (\<lambda>(v', r). v' \<noteq> v) (rp_reader_cache self)\<rparr>)) self vs) = rp_max_readers self \<and>
   rp_context (foldl (\<lambda>self v. cleanup_segment_readers v
      (self\<lparr>rp_reader_cache := filter (\<lambda>(v', r). v' \<noteq> v) (rp_reader_cache self)\<rparr>)) self vs) = rp_context self"
proof (induction vs arbitrary: self)
  case (Cons v vs)
  then show ?case by (simp add: cleanup_segment_readers_def case_prod_beta)
qed (simp add: case_prod_beta)

lemma cleanup_old_readers_bound:
  assumes "distinct (map fst (rp_reader_cache self))"
  shows "length (rp_reader_cache (cleanup_old_readers self)) \<le> rp_max_readers self div 2"
    "set (rp_reader_cache (cleanup_old_readers self)) \<subseteq> set (rp_reader_cache self)"
    "distinct (map fst (rp_reader_cache (cleanup_old_readers self)))"
    "rp_max_readers (cleanup_old_readers self) = rp_max_readers self"
    "rp_context (cleanup_old_readers self) = rp_context self"
proof -
  let ?versions = "sort (map fst (rp_reader_cache self))" and ?keep = "rp_max_readers self div 2"
  let ?old = "take (length ?versions - ?keep) ?versions"
  have rest: "rp_reader_cache (cleanup_old_readers self) =
      (if length ?versions > ?keep then filter (\<lambda>(v, r). v \<notin> set ?old) (rp_reader_cache self) else rp_reader_cache self)"
    "rp_max_readers (cleanup_old_readers self) = rp_max_readers self" "rp_context (cleanup_old_readers self) = rp_context self"
    using remove_versions_fields [of self ?old] by (auto simp: cleanup_old_readers_def Let_def)
  then show "set (rp_reader_cache (cleanup_old_readers self)) \<subseteq> set (rp_reader_cache self)"
    "distinct (map fst (rp_reader_cache (cleanup_old_readers self)))"
    "rp_max_readers (cleanup_old_readers self) = rp_max_readers self" "rp_context (cleanup_old_readers self) = rp_context self"
    using assms by (auto intro: distinct_map_filter split: if_splits)
  show "length (rp_reader_cache (cleanup_old_readers self)) \<le> ?keep"
  proof (cases "length ?versions > ?keep")
    case True
    have "fst ` set (filter (\<lambda>(v, r). v \<notin> set ?old) (rp_reader_cache self)) \<subseteq> set ?versions - set ?old" by auto
    then have "card (fst ` set (filter (\<lambda>(v, r). v \<notin> set ?old) (rp_reader_cache self))) \<le> card (set ?versions - set ?old)"
      by (intro card_mono) auto
    also have "\<dots> = length ?versions - length ?old"
      using assms by (subst card_Diff_subset) (auto simp: distinct_card set_take_subset simp del: set_sort length_sort dest: in_set_takeD)
    also have "\<dots> = ?keep" using True by simp
    finally have "card (fst ` set (filter (\<lambda>(v, r). v \<notin> set ?old) (rp_reader_cache self))) \<le> ?keep" .
    moreover have "distinct (map fst (filter (\<lambda>(v, r). v \<notin> set ?old) (rp_reader_cache self)))"
      using assms by (rule distinct_map_filter)
    ultimately show ?thesis using True rest(1) distinct_card by fastforce
  next
    case False
    then show ?thesis using rest(1) by simp
  qed
qed

text \<open>
  Handing out a reader keeps every property of the cached readers that a new reader of the current
  snapshot has, and the bound.
\<close>

lemma get_reader_keeps:
  assumes "distinct (map fst (rp_reader_cache pool))" "length (rp_reader_cache pool) \<le> rp_max_readers pool"
    "\<forall>(v, x) \<in> set (rp_reader_cache pool). P v x"
    "\<And>rs. P (sn_version (current_snapshot m)) \<lparr>ir_snapshot = current_snapshot m, ir_segments = rs,
       ir_deleted_docs = sn_deleted_docs (current_snapshot m), ir_context = rp_context pool\<rparr>"
  shows "\<exists>r pool'. get_reader cd w m pool = Ok (r, pool') \<and> P (sn_version (current_snapshot m)) r \<and>
           distinct (map fst (rp_reader_cache pool')) \<and> length (rp_reader_cache pool') \<le> rp_max_readers pool \<and>
           (\<forall>(v, x) \<in> set (rp_reader_cache pool'). P v x) \<and>
           rp_max_readers pool' = rp_max_readers pool \<and> rp_context pool' = rp_context pool"
proof (cases "map_of (rp_reader_cache pool) (sn_version (current_snapshot m))")
  case (Some r)
  then have "(sn_version (current_snapshot m), r) \<in> set (rp_reader_cache pool)" by (rule map_of_SomeD)
  with assms(3) have "P (sn_version (current_snapshot m)) r" by blast
  with Some assms(1-3) show ?thesis by (simp add: get_reader_def)
next
  case None
  let ?s = "current_snapshot m"
  obtain rs pool1 where os: "open_segments cd w (sn_version ?s) (List.enumerate 0 (sn_segments ?s)) pool = (rs, pool1)" by fastforce
  note same = open_segments_same [OF os]
  define r where "r = \<lparr>ir_snapshot = ?s, ir_segments = rs, ir_deleted_docs = sn_deleted_docs ?s, ir_context = rp_context pool\<rparr>"
  define pool2 where "pool2 = pool1\<lparr>rp_reader_cache := (sn_version ?s, r) # rp_reader_cache pool1\<rparr>"
  define pool3 where "pool3 = (if length (rp_reader_cache pool2) > rp_max_readers pool2 then cleanup_old_readers pool2 else pool2)"
  have got: "get_reader cd w m pool = Ok (r, pool3)" "P (sn_version ?s) r"
    using None os same assms(4) by (simp_all add: get_reader_def create_reader_for_snapshot_def Let_def r_def pool2_def pool3_def)
  have "sn_version ?s \<notin> fst ` set (rp_reader_cache pool)" using None by (simp add: map_of_eq_None_iff)
  then have d2: "distinct (map fst (rp_reader_cache pool2))" "\<forall>(v, x) \<in> set (rp_reader_cache pool2). P v x"
    "rp_max_readers pool2 = rp_max_readers pool" "rp_context pool2 = rp_context pool"
    using assms(1,3) same got(2) by (auto simp: pool2_def)
  note bound = cleanup_old_readers_bound [OF d2(1)]
  have "distinct (map fst (rp_reader_cache pool3))" "rp_max_readers pool3 = rp_max_readers pool" "rp_context pool3 = rp_context pool"
    using d2 bound(3-5) by (simp_all add: pool3_def)
  moreover have "set (rp_reader_cache pool3) \<subseteq> set (rp_reader_cache pool2)" using bound(2) by (simp add: pool3_def)
  with d2(2) have "\<forall>(v, x) \<in> set (rp_reader_cache pool3). P v x" by blast
  moreover have "length (rp_reader_cache pool3) \<le> rp_max_readers pool"
    using bound(1) d2(3) by (cases "length (rp_reader_cache pool2) > rp_max_readers pool2") (simp_all add: pool3_def)
  ultimately show ?thesis using got by blast
qed

text \<open>
  What happens to a version store and to the pool on it: snapshots are published, old versions are
  collected, and readers are asked for, with the files that are there at that time.
\<close>

datatype pool_event = PoolPublish "segment list" "u32 set" | PoolGc | PoolReader world

fun pool_apply :: "codec \<Rightarrow> mvcc \<times> 'm reader_pool \<Rightarrow> pool_event \<Rightarrow> mvcc \<times> 'm reader_pool" where
  "pool_apply cd (m, pool) (PoolPublish segments deleted) = (snd (create_snapshot_with_deletes m segments deleted), pool)"
| "pool_apply cd (m, pool) PoolGc = (mvcc_gc m, pool)"
| "pool_apply cd (m, pool) (PoolReader w) =
     (m, case get_reader cd w m pool of Inr (r, pool') \<Rightarrow> pool' | Inl _ \<Rightarrow> pool)"

fun is_publish :: "pool_event \<Rightarrow> bool" where
  "is_publish (PoolPublish segments deleted) = True"
| "is_publish e = False"

fun is_reader :: "pool_event \<Rightarrow> bool" where
  "is_reader (PoolReader w) = True"
| "is_reader e = False"

definition publications :: "pool_event list \<Rightarrow> nat" where
  "publications es = length (filter is_publish es)"

text \<open>A reader was asked for before the first publication, and no second one has followed.\<close>

definition early_reader :: "pool_event list \<Rightarrow> bool" where
  "early_reader es \<longleftrightarrow> list_ex is_reader (takeWhile (\<lambda>e. \<not> is_publish e) es)"

lemma early_reader_snoc:
  "early_reader (es @ [e]) \<longleftrightarrow> early_reader es \<or> publications es = 0 \<and> is_reader e"
proof (cases "\<forall>e \<in> set es. \<not> is_publish e")
  case True
  then have tw: "takeWhile (\<lambda>e. \<not> is_publish e) es = es"
    "takeWhile (\<lambda>e. \<not> is_publish e) (es @ [e]) = es @ takeWhile (\<lambda>e. \<not> is_publish e) [e]" by simp_all
  show ?thesis using True unfolding early_reader_def publications_def tw by (cases e) simp_all
next
  case False
  then show ?thesis by (auto simp: early_reader_def publications_def filter_empty_conv)
qed

lemma publications_snoc: "publications (es @ [e]) = publications es + (if is_publish e then 1 else 0)"
  by (simp add: publications_def)

text \<open>
  The snapshot that a reader of the current version is of.  The empty snapshot of a new version store
  and the first one published have the same version, zero.
\<close>

definition served_snapshot :: "nat \<Rightarrow> pool_event list \<Rightarrow> mvcc \<Rightarrow> snapshot" where
  "served_snapshot n es m =
     (if 1 \<le> n \<and> publications es = 1 \<and> early_reader es then snapshot_default else current_snapshot m)"

definition pool_inv :: "'m match_context \<Rightarrow> nat \<Rightarrow> pool_event list \<Rightarrow> mvcc \<times> 'm reader_pool \<Rightarrow> bool" where
  "pool_inv cx n es s \<longleftrightarrow>
     (case s of (m, pool) \<Rightarrow>
        mvcc_wf m \<and> unat (mv_current_version m) = publications es \<and> rp_context pool = cx \<and> rp_max_readers pool = n \<and>
        distinct (map fst (rp_reader_cache pool)) \<and> length (rp_reader_cache pool) \<le> n \<and>
        (\<forall>(v, r) \<in> set (rp_reader_cache pool).
           ir_context r = cx \<and> ir_deleted_docs r = sn_deleted_docs (ir_snapshot r) \<and> v \<le> sn_version (current_snapshot m) \<and>
           (v = sn_version (current_snapshot m) \<longrightarrow> ir_snapshot r = served_snapshot n es m)) \<and>
        (early_reader es \<and> publications es \<le> 1 \<and> 1 \<le> n \<longrightarrow> 0 \<in> fst ` set (rp_reader_cache pool)) \<and>
        (publications es = 0 \<longrightarrow> fst ` set (rp_reader_cache pool) \<subseteq> {0} \<and> (rp_reader_cache pool \<noteq> [] \<longrightarrow> early_reader es)))"

lemma current_version:
  assumes "mvcc_wf m"
  shows "sn_version (current_snapshot m) = saturating_pred (mv_current_version m)"
    "mv_current_version m = 0 \<Longrightarrow> current_snapshot m = snapshot_default"
proof -
  have "sn_version s = v" if "lookup m v = Some s" for v s
    using that assms map_of_SomeD [OF that] by (auto simp: mvcc_wf_def)
  moreover have "lookup m (mv_current_version m - 1) \<noteq> None" if "mv_current_version m \<noteq> 0"
    using that assms by (simp add: mvcc_wf_def)
  moreover have "lookup m 0 = None" if "mv_current_version m = 0"
    using that assms by (cases "lookup m 0") (auto simp: mvcc_wf_def dest: map_of_SomeD)
  ultimately show "sn_version (current_snapshot m) = saturating_pred (mv_current_version m)"
    "mv_current_version m = 0 \<Longrightarrow> current_snapshot m = snapshot_default"
    by (auto simp: current_snapshot_def saturating_pred_def Let_def snapshot_default_def word_neq_0_conv [symmetric]
        split: option.splits)
qed

lemma gc_current: "current_snapshot (mvcc_gc m) = current_snapshot m" "mv_current_version (mvcc_gc m) = mv_current_version m"
  using gc_loop_facts [of "mv_max_versions m" "saturating_pred (mv_current_version m)" "mv_pins m" "mv_versions m"]
  by (auto simp: current_snapshot_def mvcc_gc_def gc_old_versions_leased_def saturating_pred_def Let_def word_neq_0_conv [symmetric]
      cong: option.case_cong)

lemma get_reader_cached:
  "map_of (rp_reader_cache pool) (sn_version (current_snapshot m)) = Some r \<Longrightarrow> get_reader cd w m pool = Ok (r, pool)"
  by (simp add: get_reader_def)

lemma get_reader_first:
  assumes "rp_reader_cache pool = []" "1 \<le> rp_max_readers pool" "get_reader cd w m pool = Ok (r, pool')"
  shows "rp_reader_cache pool' = [(sn_version (current_snapshot m), r)]"
proof -
  let ?s = "current_snapshot m"
  obtain rs pool1 where os: "open_segments cd w (sn_version ?s) (List.enumerate 0 (sn_segments ?s)) pool = (rs, pool1)" by fastforce
  with assms open_segments_same [OF os] show ?thesis
    by (auto simp: get_reader_def create_reader_for_snapshot_def Let_def)
qed

lemma pool_inv_new: "pool_inv cx n [] (mvcc_new, reader_pool_new cx n)"
  using mvcc_wf_new by (simp add: pool_inv_def reader_pool_new_def publications_def early_reader_def) (simp add: mvcc_new_def)

lemma pool_inv_publish:
  assumes "pool_inv cx n es (m, pool)" "publications es < 2 ^ 64 - 1"
  shows "pool_inv cx n (es @ [PoolPublish segments deleted]) (pool_apply cd (m, pool) (PoolPublish segments deleted))"
proof -
  let ?cv = "mv_current_version m"
  note inv = assms(1) [unfolded pool_inv_def prod.case]
  obtain s m' where c: "create_snapshot_with_deletes m segments deleted = (s, m')" by fastforce
  have top: "?cv \<noteq> - 1" using inv assms(2) by (auto simp: unsigned_minus_1_eq_mask mask_eq_exp_minus_1)
  have wf: "mvcc_wf m" using inv by simp
  note cr = create_wf [OF wf top c]
  have v: "sn_version (current_snapshot m') = ?cv" "unat (mv_current_version m') = Suc (publications es)"
    using cr u64_succ(2) [OF top] inv by simp_all
  have old: "sn_version (current_snapshot m) = saturating_pred ?cv" by (rule current_version(1) [OF wf])
  have cached: "v \<le> ?cv \<and> (v = ?cv \<longrightarrow> ir_snapshot r = served_snapshot n (es @ [PoolPublish segments deleted]) m')"
    if "(v, r) \<in> set (rp_reader_cache pool)" for v r
  proof (cases "publications es = 0")
    case True
    then have z: "?cv = 0" using inv by (simp add: unat_eq_0)
    have "v = 0" "early_reader es" using inv that True by auto
    moreover have "1 \<le> n" using inv that by (cases "rp_reader_cache pool") auto
    moreover have "ir_snapshot r = snapshot_default"
      using inv that True z old current_version(2) [OF wf z] \<open>v = 0\<close>
      by (auto simp: served_snapshot_def saturating_pred_def)
    ultimately show ?thesis
      using True z by (simp add: served_snapshot_def publications_snoc early_reader_snoc)
  next
    case False
    then have nz: "?cv \<noteq> 0" using inv by auto
    have "v \<le> saturating_pred ?cv" using inv that old by auto
    moreover have "unat (?cv - 1) < unat ?cv" using nz by (simp add: unat_minus_one unat_gt_0)
    ultimately have "v < ?cv" using nz by (simp add: saturating_pred_def word_le_nat_alt word_less_nat_alt)
    then show ?thesis by auto
  qed
  then have "\<forall>(v, r) \<in> set (rp_reader_cache pool). ir_context r = cx \<and> ir_deleted_docs r = sn_deleted_docs (ir_snapshot r) \<and>
      v \<le> ?cv \<and> (v = ?cv \<longrightarrow> ir_snapshot r = served_snapshot n (es @ [PoolPublish segments deleted]) m')"
    using inv by fast
  with inv cr v show ?thesis
    by (simp add: pool_inv_def c publications_snoc early_reader_snoc)
qed

lemma pool_inv_gc:
  assumes "pool_inv cx n es (m, pool)"
  shows "pool_inv cx n (es @ [PoolGc]) (pool_apply cd (m, pool) PoolGc)"
proof -
  have "served_snapshot n (es @ [PoolGc]) (mvcc_gc m) = served_snapshot n es m" "mvcc_wf m \<Longrightarrow> mvcc_wf (mvcc_gc m)"
    by (simp_all add: served_snapshot_def gc_current publications_snoc early_reader_snoc) (simp add: gc_wf mvcc_gc_def)
  with assms show ?thesis by (simp add: pool_inv_def gc_current publications_snoc early_reader_snoc)
qed

lemma pool_inv_reader:
  assumes "pool_inv cx n es (m, pool)"
  shows "\<exists>r pool'. get_reader cd w m pool = Ok (r, pool') \<and> ir_snapshot r = served_snapshot n es m \<and>
           ir_deleted_docs r = sn_deleted_docs (ir_snapshot r) \<and> ir_context r = cx \<and>
           pool_inv cx n (es @ [PoolReader w]) (m, pool')"
proof -
  let ?v = "sn_version (current_snapshot m)"
  let ?P = "\<lambda>v r. ir_context r = cx \<and> ir_deleted_docs r = sn_deleted_docs (ir_snapshot r) \<and> v \<le> ?v \<and>
    (v = ?v \<longrightarrow> ir_snapshot r = served_snapshot n es m)"
  note inv = assms [unfolded pool_inv_def prod.case]
  have served: "served_snapshot n (es @ [PoolReader w]) m = served_snapshot n es m"
    by (auto simp: served_snapshot_def publications_snoc early_reader_snoc)
  have wf: "mvcc_wf m" using inv by simp
  have zero: "?v = 0" if "publications es \<le> 1"
  proof -
    have "unat (mv_current_version m) \<le> 1" using that inv by simp
    then have "mv_current_version m = 0 \<or> mv_current_version m = 1"
      unfolding word_unat_eq_iff by (simp only: unsigned_0 unsigned_1) linarith
    then show ?thesis using current_version(1) [OF wf] by (auto simp: saturating_pred_def)
  qed
  show ?thesis
  proof (cases "map_of (rp_reader_cache pool) ?v")
    case (Some r)
    note in_cache = map_of_SomeD [OF Some]
    then have "?P ?v r" using inv by blast
    moreover have "0 \<in> fst ` set (rp_reader_cache pool)" if "publications es = 0"
      using in_cache zero that by (force simp: image_iff)
    ultimately show ?thesis
      using inv get_reader_cached [OF Some, of cd w] served
      by (intro exI [of _ r] exI [of _ pool])
        (auto simp: pool_inv_def publications_snoc early_reader_snoc)
  next
    case None
    then have "?v \<notin> fst ` set (rp_reader_cache pool)" by (simp add: map_of_eq_None_iff)
    then have not_hidden: "\<not> (1 \<le> n \<and> publications es \<le> 1 \<and> early_reader es)" using zero inv by metis
    then have cur: "served_snapshot n es m = current_snapshot m" by (auto simp: served_snapshot_def)
    from get_reader_keeps [of pool ?P m cd w] inv cur obtain r pool' where
      r: "get_reader cd w m pool = Ok (r, pool')" "?P ?v r" "distinct (map fst (rp_reader_cache pool'))"
      "length (rp_reader_cache pool') \<le> n" "\<forall>(v, x) \<in> set (rp_reader_cache pool'). ?P v x"
      "rp_max_readers pool' = n" "rp_context pool' = cx"
      by auto
    have first: "rp_reader_cache pool' = [(0, r)]" if "publications es = 0" "1 \<le> n"
    proof -
      have "rp_reader_cache pool = []" using inv not_hidden that by auto
      from get_reader_first [OF this _ r(1)] inv that zero show ?thesis by simp
    qed
    have "fst ` set (rp_reader_cache pool') \<subseteq> {0}" if "publications es = 0"
      using first [OF that] r(4) by (cases n) auto
    with r served inv first not_hidden show ?thesis
      by (intro exI [of _ r] exI [of _ pool']) (auto simp: pool_inv_def publications_snoc early_reader_snoc)
  qed
qed

lemma pool_inv_run:
  "publications es < 2 ^ 64 - 1 \<Longrightarrow> pool_inv cx n es (foldl (pool_apply cd) (mvcc_new, reader_pool_new cx n) es)"
proof (induction es rule: rev_induct)
  case (snoc e es)
  obtain m pool where s: "foldl (pool_apply cd) (mvcc_new, reader_pool_new cx n) es = (m, pool)" by fastforce
  have inv: "pool_inv cx n es (m, pool)" "publications es < 2 ^ 64 - 1"
    using snoc s by (simp_all add: publications_snoc split: if_splits)
  show ?case
  proof (cases e)
    case (PoolPublish segments deleted)
    with pool_inv_publish [OF inv, of segments deleted cd] s show ?thesis by simp
  next
    case PoolGc
    with pool_inv_gc [OF inv(1), of cd] s show ?thesis by simp
  next
    case (PoolReader w)
    from pool_inv_reader [OF inv(1), of cd w] show ?thesis by (auto simp: PoolReader s)
  qed
qed (simp add: pool_inv_new)

text \<open>
  C21: What the pool hands out.  After any sequence of publications, garbage collections and requests
  for readers on a new version store and a new pool, a request succeeds, and its reader, new or
  cached, is of the current snapshot, with one exception: between the first and the second
  publication it is still of the empty snapshot, if a reader was already asked for before the first
  one and the pool may cache a reader at all.  The reader always has the deleted documents of its
  snapshot, and the pool never keeps more readers than the configured maximum.
\<close>

theorem get_reader_current:
  assumes "foldl (pool_apply cd) (mvcc_new, reader_pool_new cx n) es = (m, pool)" "publications es < 2 ^ 64 - 1"
  shows "\<exists>r pool'. get_reader cd w m pool = Ok (r, pool') \<and>
           ir_snapshot r = (if 1 \<le> n \<and> publications es = 1 \<and> early_reader es then snapshot_default else current_snapshot m) \<and>
           ir_deleted_docs r = sn_deleted_docs (ir_snapshot r) \<and> ir_context r = cx \<and>
           length (rp_reader_cache pool') \<le> n"
proof -
  have "pool_inv cx n es (m, pool)" using pool_inv_run [OF assms(2)] assms(1) by metis
  from pool_inv_reader [OF this, of cd w] show ?thesis
    by (auto simp: served_snapshot_def pool_inv_def)
qed

theorem get_reader_current_witness:
  "\<exists>m pool r pool'. foldl (pool_apply plain_codec) (mvcc_new, reader_pool_new empty_context 1)
       [PoolReader empty_world, PoolPublish [] {3}, PoolPublish [] {3, 7}] = (m, pool) \<and>
     get_reader plain_codec empty_world m pool = Ok (r, pool') \<and> ir_snapshot r = current_snapshot m \<and>
     length (rp_reader_cache pool') \<le> 1"
proof -
  let ?es = "[PoolReader empty_world, PoolPublish [] {3}, PoolPublish [] {3, 7}]"
  obtain m pool where run: "foldl (pool_apply plain_codec) (mvcc_new, reader_pool_new empty_context 1) ?es = (m, pool)"
    by fastforce
  have "publications ?es < 2 ^ 64 - 1" by (simp add: publications_def)
  from get_reader_current [OF run this, of empty_world] run show ?thesis by (auto simp: publications_def)
qed

end
