(* ===== verification/Transaction.thy ===== *)
theory Transaction
  imports Readers Index_Writer
begin

section \<open>Transactions\<close>

text \<open>
  The model of \<^verbatim>\<open>src/core/transaction.rs\<close>.  A transaction is the record of its shared cells; every
  operation returns its result and the new transaction, and takes the disk and the version
  controller where it reads them, since other writers may change both between two calls.  The hash
  maps of the read and the write set are association lists; the order in which the set of tracked
  documents is visited is the parameter \<open>order\<close>, which only has to keep the elements.  The global
  counter of transaction identifiers is passed explicitly and wraps at 64 bits.
\<close>

datatype transaction_state = Active | Preparing | Committed | Aborted

datatype transaction_op = Insert document | Update doc_id document | Delete doc_id

record transaction =
  tx_id :: u64
  tx_isolation_level :: isolation_level
  tx_state :: transaction_state
  tx_operations :: "transaction_op list"
  tx_snapshot :: snapshot
  tx_read_set :: "(doc_id \<times> u64) list"
  tx_write_set :: "(doc_id \<times> document) list"

type_synonym id_order = "doc_id list \<Rightarrow> doc_id list"

definition tx_begin :: "u64 \<Rightarrow> mvcc \<Rightarrow> isolation_level \<Rightarrow> transaction \<times> u64" where
  "tx_begin counter m isolation =
     (\<lparr>tx_id = counter, tx_isolation_level = isolation, tx_state = Active, tx_operations = [],
       tx_snapshot = current_snapshot m, tx_read_set = [], tx_write_set = []\<rparr>, counter + 1)"

definition not_active :: error where
  "not_active = Error InvalidState ''Transaction is not active''"

definition check_active :: "transaction \<Rightarrow> unit result" where
  "check_active self = (if tx_state self \<noteq> Active then Err not_active else Ok ())"

text \<open>The scan of one segment file starts where the header ends.\<close>

definition read_document_from_segment ::
  "codec \<Rightarrow> world \<Rightarrow> segment_id \<Rightarrow> doc_id \<Rightarrow> document option result" where
  "read_document_from_segment cd w i d =
     (case w_files w (SegmentPath i) of
        None \<Rightarrow> Err (Error Io ''No such file or directory'')
      | Some content \<Rightarrow>
          and_then (de_header_from cd content) (\<lambda>(header, rest).
            get_loop cd d (unat (sh_doc_count header)) rest))"

fun newest_first :: "codec \<Rightarrow> world \<Rightarrow> segment list \<Rightarrow> doc_id \<Rightarrow> document option result" where
  "newest_first cd w [] d = Ok None"
| "newest_first cd w (s # ss) d =
     and_then (read_document_from_segment cd w (sg_id s) d) (\<lambda>found.
       case found of Some doc \<Rightarrow> Ok (Some doc) | None \<Rightarrow> newest_first cd w ss d)"

definition read_from_snapshot :: "codec \<Rightarrow> world \<Rightarrow> snapshot \<Rightarrow> doc_id \<Rightarrow> document option result" where
  "read_from_snapshot cd w s d =
     (if ucast d \<in> sn_deleted_docs s then Ok None else newest_first cd w (rev (sn_segments s)) d)"

definition tx_read ::
  "codec \<Rightarrow> world \<Rightarrow> transaction \<Rightarrow> doc_id \<Rightarrow> document option result \<times> transaction" where
  "tx_read cd w self d =
     (if tx_state self \<noteq> Active then (Err not_active, self)
      else case map_of (tx_write_set self) d of
             Some doc \<Rightarrow> (Ok (Some doc), self)
           | None \<Rightarrow>
               (read_from_snapshot cd w (tx_snapshot self) d,
                self\<lparr>tx_read_set := AList.update d (sn_version (tx_snapshot self)) (tx_read_set self)\<rparr>))"

definition tx_insert :: "transaction \<Rightarrow> document \<Rightarrow> unit result \<times> transaction" where
  "tx_insert self doc =
     (case check_active self of
        Inl e \<Rightarrow> (Err e, self)
      | Inr _ \<Rightarrow> (Ok (), self\<lparr>tx_write_set := AList.update (d_id doc) doc (tx_write_set self),
                             tx_operations := tx_operations self @ [Insert doc]\<rparr>))"

definition tx_update :: "transaction \<Rightarrow> doc_id \<Rightarrow> document \<Rightarrow> unit result \<times> transaction" where
  "tx_update self d doc =
     (case check_active self of
        Inl e \<Rightarrow> (Err e, self)
      | Inr _ \<Rightarrow> (Ok (), self\<lparr>tx_write_set := AList.update d doc (tx_write_set self),
                             tx_operations := tx_operations self @ [Update d doc]\<rparr>))"

definition tx_delete :: "transaction \<Rightarrow> doc_id \<Rightarrow> unit result \<times> transaction" where
  "tx_delete self d =
     (case check_active self of
        Inl e \<Rightarrow> (Err e, self)
      | Inr _ \<Rightarrow> (Ok (), self\<lparr>tx_write_set := AList.delete d (tx_write_set self),
                             tx_operations := tx_operations self @ [Delete d]\<rparr>))"

definition tx_abort :: "transaction \<Rightarrow> transaction" where
  "tx_abort self = self\<lparr>tx_state := Aborted, tx_operations := [], tx_read_set := [], tx_write_set := []\<rparr>"

definition tx_rollback :: "transaction \<Rightarrow> unit result \<times> transaction" where
  "tx_rollback self = (Ok (), tx_abort self)"

text \<open>Two hash maps are equal when they have the same keys and equal values.\<close>

definition fields_equal :: "(string \<times> field_value) list \<Rightarrow> (string \<times> field_value) list \<Rightarrow> bool" where
  "fields_equal fs gs =
     list_all (\<lambda>k. case (map_of fs k, map_of gs k) of
                     (Some a, Some b) \<Rightarrow> field_value_eq a b
                   | _ \<Rightarrow> False) (map fst fs @ map fst gs)"

fun documents_equal :: "document option \<Rightarrow> document option \<Rightarrow> bool" where
  "documents_equal (Some a) (Some b) = (d_id a = d_id b \<and> fields_equal (d_fields a) (d_fields b))"
| "documents_equal None None = True"
| "documents_equal _ _ = False"

fun op_target :: "transaction_op \<Rightarrow> doc_id" where
  "op_target (Insert doc) = d_id doc"
| "op_target (Update d doc) = d"
| "op_target (Delete d) = d"

definition tracked_doc_ids :: "transaction \<Rightarrow> doc_id list" where
  "tracked_doc_ids self =
     remdups (map fst (tx_read_set self) @ map fst (tx_write_set self) @ map op_target (tx_operations self))"

fun validate_loop :: "codec \<Rightarrow> world \<Rightarrow> snapshot \<Rightarrow> snapshot \<Rightarrow> doc_id list \<Rightarrow> bool result" where
  "validate_loop cd w original current [] = Ok True"
| "validate_loop cd w original current (d # ds) =
     and_then (read_from_snapshot cd w original d) (\<lambda>original_doc.
     and_then (read_from_snapshot cd w current d) (\<lambda>current_doc.
       if \<not> documents_equal original_doc current_doc then Ok False
       else validate_loop cd w original current ds))"

definition validate_reads :: "codec \<Rightarrow> id_order \<Rightarrow> world \<Rightarrow> mvcc \<Rightarrow> transaction \<Rightarrow> bool result" where
  "validate_reads cd order w m self =
     (let current = current_snapshot m
      in if sn_version current = sn_version (tx_snapshot self) then Ok True
         else validate_loop cd w (tx_snapshot self) current (order (tracked_doc_ids self)))"

definition validation_failed :: error where
  "validation_failed = Error InvalidState ''Transaction validation failed''"

definition tx_commit ::
  "codec \<Rightarrow> id_order \<Rightarrow> world \<Rightarrow> mvcc \<Rightarrow> transaction \<Rightarrow> transaction_op list result \<times> transaction" where
  "tx_commit cd order w m self =
     (if tx_state self \<noteq> Active then (Err not_active, self)
      else let self = self\<lparr>tx_state := Preparing\<rparr>
           in case (if tx_isolation_level self \<noteq> ReadCommitted then validate_reads cd order w m self
                    else Ok True) of
                Inl e \<Rightarrow> (Err e, self)
              | Inr False \<Rightarrow> (Err validation_failed, tx_abort self)
              | Inr True \<Rightarrow> (Ok (tx_operations self), self\<lparr>tx_state := Committed\<rparr>))"

subsection \<open>The transaction manager\<close>

record transaction_manager =
  tm_active_transactions :: "(u64 \<times> transaction) list"

definition transaction_manager_new :: transaction_manager where
  "transaction_manager_new = \<lparr>tm_active_transactions = []\<rparr>"

definition tm_begin_transaction ::
  "u64 \<Rightarrow> mvcc \<Rightarrow> transaction_manager \<Rightarrow> isolation_level \<Rightarrow> transaction \<times> transaction_manager \<times> u64" where
  "tm_begin_transaction counter m self isolation =
     (let (tx, counter) = tx_begin counter m isolation
      in (tx, self\<lparr>tm_active_transactions := AList.update (tx_id tx) tx (tm_active_transactions self)\<rparr>, counter))"

definition get_transaction :: "transaction_manager \<Rightarrow> u64 \<Rightarrow> transaction option" where
  "get_transaction self i = map_of (tm_active_transactions self) i"

definition in_progress :: "transaction \<Rightarrow> bool" where
  "in_progress tx \<longleftrightarrow> tx_state tx = Active \<or> tx_state tx = Preparing"

definition tm_cleanup :: "transaction_manager \<Rightarrow> transaction_manager" where
  "tm_cleanup self =
     self\<lparr>tm_active_transactions := filter (\<lambda>(i, tx). in_progress tx) (tm_active_transactions self)\<rparr>"

record transaction_stats =
  ts_total :: nat
  ts_active :: nat
  ts_preparing :: nat

definition tm_stats :: "transaction_manager \<Rightarrow> transaction_stats" where
  "tm_stats self =
     (let txs = map snd (tm_active_transactions self)
      in \<lparr>ts_total = length txs, ts_active = length (filter (\<lambda>tx. tx_state tx = Active) txs),
          ts_preparing = length (filter (\<lambda>tx. tx_state tx = Preparing) txs)\<rparr>)"

text \<open>A call through a shared handle of a registered transaction changes the registered one.\<close>

definition tm_store :: "transaction_manager \<Rightarrow> transaction \<Rightarrow> transaction_manager" where
  "tm_store self tx =
     self\<lparr>tm_active_transactions :=
        map (\<lambda>(i, t). if i = tx_id tx then (i, tx) else (i, t)) (tm_active_transactions self)\<rparr>"

subsection \<open>Calls and reachable transactions\<close>

datatype tx_call =
    ReadCall doc_id | InsertCall document | UpdateCall doc_id document | DeleteCall doc_id
  | CommitCall | RollbackCall

fun tx_call_step :: "codec \<Rightarrow> id_order \<Rightarrow> world \<Rightarrow> mvcc \<Rightarrow> tx_call \<Rightarrow> transaction \<Rightarrow> bool \<times> transaction" where
  "tx_call_step cd order w m (ReadCall d) tx = (let (r, tx) = tx_read cd w tx d in (isl r, tx))"
| "tx_call_step cd order w m (InsertCall doc) tx = (let (r, tx) = tx_insert tx doc in (isl r, tx))"
| "tx_call_step cd order w m (UpdateCall d doc) tx = (let (r, tx) = tx_update tx d doc in (isl r, tx))"
| "tx_call_step cd order w m (DeleteCall d) tx = (let (r, tx) = tx_delete tx d in (isl r, tx))"
| "tx_call_step cd order w m CommitCall tx = (let (r, tx) = tx_commit cd order w m tx in (isl r, tx))"
| "tx_call_step cd order w m RollbackCall tx = (let (r, tx) = tx_rollback tx in (isl r, tx))"

text \<open>
  The transactions that calls can lead to from a beginning, while the disk and the version
  controller change arbitrarily between the calls.
\<close>

inductive tx_reachable :: "codec \<Rightarrow> id_order \<Rightarrow> transaction \<Rightarrow> bool" for cd order where
  tx_begins: "tx_reachable cd order (fst (tx_begin counter m isolation))"
| tx_calls: "tx_reachable cd order tx \<Longrightarrow> tx_reachable cd order (snd (tx_call_step cd order w m c tx))"

inductive_cases tx_reachableE: "tx_reachable cd order tx"

lemmas tx_defs = tx_begin_def check_active_def tx_read_def tx_insert_def tx_update_def tx_delete_def
  tx_abort_def tx_rollback_def tx_commit_def

text \<open>The effect of a logged operation on the write set.\<close>

fun write_effect :: "(doc_id \<times> document) list \<Rightarrow> transaction_op \<Rightarrow> (doc_id \<times> document) list" where
  "write_effect ws (Insert doc) = AList.update (d_id doc) doc ws"
| "write_effect ws (Update d doc) = AList.update d doc ws"
| "write_effect ws (Delete d) = AList.delete d ws"

definition tx_ok :: "transaction \<Rightarrow> bool" where
  "tx_ok tx \<longleftrightarrow>
     tx_write_set tx = foldl write_effect [] (tx_operations tx) \<and>
     (tx_state tx = Aborted \<longrightarrow> tx_operations tx = [] \<and> tx_read_set tx = [])"

lemma tx_ok_step: "tx_ok tx \<Longrightarrow> tx_ok (snd (tx_call_step cd order w m c tx))"
  by (cases c) (auto simp: tx_ok_def tx_defs Let_def split: option.splits sum.splits bool.splits)

lemma tx_reachable_ok: "tx_reachable cd order tx \<Longrightarrow> tx_ok tx"
  by (induction rule: tx_reachable.induct) (simp_all add: tx_ok_step, simp add: tx_ok_def tx_begin_def)

lemma tx_finished_step:
  "tx_state tx \<noteq> Active \<Longrightarrow> c \<noteq> RollbackCall \<Longrightarrow> tx_call_step cd order w m c tx = (True, tx)"
  by (cases c) (simp_all add: tx_defs)

text \<open>What the log says was last written under an identifier.\<close>

definition last_write :: "transaction_op list \<Rightarrow> doc_id \<Rightarrow> document option" where
  "last_write ops d =
     (case List.find (\<lambda>op. op_target op = d) (rev ops) of
        Some (Insert doc) \<Rightarrow> Some doc
      | Some (Update i doc) \<Rightarrow> Some doc
      | _ \<Rightarrow> None)"

lemma write_set_lookup: "map_of (foldl write_effect [] ops) d = last_write ops d"
proof (induction ops rule: rev_induct)
  case (snoc op ops)
  then show ?case by (cases op) (auto simp: last_write_def update_conv' delete_conv')
qed (simp add: last_write_def)

text \<open>
  C17: The life of a transaction.  In every transaction that calls can lead to, the write set is what
  the logged operations leave, and an aborted transaction has forgotten its operations and reads.
  Once it is no longer active every call but a rollback is refused and changes nothing; a rollback
  still aborts a committed transaction.
\<close>

theorem transaction_lifecycle:
  assumes "tx_reachable cd order tx"
  shows "tx_write_set tx = foldl write_effect [] (tx_operations tx) \<and>
         (tx_state tx = Aborted \<longrightarrow> tx_operations tx = [] \<and> tx_read_set tx = [] \<and> tx_write_set tx = []) \<and>
         (tx_state tx \<noteq> Active \<longrightarrow> (\<forall>w m c. c \<noteq> RollbackCall \<longrightarrow> tx_call_step cd order w m c tx = (True, tx))) \<and>
         tx_state (snd (tx_rollback tx)) = Aborted"
  using tx_reachable_ok [OF assms] tx_finished_step
  by (auto simp: tx_ok_def tx_rollback_def tx_abort_def)

theorem transaction_lifecycle_witness:
  "tx_write_set (snd (tx_insert (fst (tx_begin 1 mvcc_new Serializable)) (document_new 4))) = [(4, document_new 4)]"
proof -
  let ?tx = "snd (tx_call_step plain_codec (\<lambda>ds. ds) empty_world mvcc_new (InsertCall (document_new 4))
    (fst (tx_begin 1 mvcc_new Serializable)))"
  have "tx_reachable plain_codec (\<lambda>ds. ds) ?tx" by (intro tx_reachable.intros)
  from transaction_lifecycle [OF this] show ?thesis
    by (simp add: tx_defs Let_def document_new_def)
qed

text \<open>
  What a transaction reads: the document that its log last wrote under the identifier, and
  otherwise the document of its snapshot.  So it reads its own writes, but a document that it has
  deleted itself is still read from the snapshot.
\<close>

theorem transaction_reads:
  assumes "tx_reachable cd order tx" "tx_state tx = Active"
  shows "fst (tx_read cd w tx d) =
           (case last_write (tx_operations tx) d of
              Some doc \<Rightarrow> Ok (Some doc)
            | None \<Rightarrow> read_from_snapshot cd w (tx_snapshot tx) d) \<and>
         fst (tx_read cd w (snd (tx_insert tx doc)) (d_id doc)) = Ok (Some doc) \<and>
         fst (tx_read cd w (snd (tx_update tx d doc)) d) = Ok (Some doc) \<and>
         fst (tx_read cd w (snd (tx_delete tx d)) d) = read_from_snapshot cd w (tx_snapshot tx) d"
proof -
  have "map_of (tx_write_set tx) d = last_write (tx_operations tx) d"
    using tx_reachable_ok [OF assms(1)] by (simp add: tx_ok_def write_set_lookup)
  then show ?thesis
    using assms(2) by (auto simp: tx_defs delete_conv' update_conv' split: option.splits)
qed

theorem transaction_reads_witness:
  "fst (tx_read plain_codec empty_world
     (snd (tx_insert (fst (tx_begin 1 mvcc_new Serializable)) (document_new 4))) 4) = Ok (Some (document_new 4))"
  using transaction_reads [OF tx_reachable.tx_begins [of plain_codec "\<lambda>ds. ds" 1 mvcc_new Serializable],
      of empty_world 4 "document_new 4"]
  by (simp add: tx_begin_def document_new_def)

subsection \<open>Validation\<close>

definition visible :: "u32 set \<Rightarrow> document list list \<Rightarrow> doc_id \<Rightarrow> document option" where
  "visible deleted docss d =
     (if ucast d \<in> deleted then None else List.find (\<lambda>doc. d_id doc = d) (concat (rev docss)))"

definition snapshot_readable ::
  "codec \<Rightarrow> compression_type \<Rightarrow> world \<Rightarrow> snapshot \<Rightarrow> document list list \<Rightarrow> bool" where
  "snapshot_readable cd c w s docss \<longleftrightarrow>
     list_all2 (\<lambda>g docs. segment_file_holds cd w (sg_id g) c docs \<and> length docs < 2 ^ 32 \<and>
                         (\<forall>doc \<in> set docs. document_laws cd c doc)) (sn_segments s) docss"

lemma get_loop_records:
  "\<forall>doc \<in> set docs. document_laws cd c doc \<Longrightarrow>
     get_loop cd d (length docs) (concat (map (record_bytes cd c) docs) @ rest) =
       Ok (List.find (\<lambda>doc. d_id doc = d) docs)"
  by (induction docs) (simp_all add: read_record_bytes)

lemma read_document_from_segment_holds:
  assumes "header_laws cd" "segment_file_holds cd w i c docs" "length docs < 2 ^ 32"
    "\<forall>doc \<in> set docs. document_laws cd c doc"
  shows "read_document_from_segment cd w i d = Ok (List.find (\<lambda>doc. d_id doc = d) docs)"
  using assms get_loop_records [OF assms(4), of d "[]"]
  by (auto simp: read_document_from_segment_def segment_file_holds_def header_laws_def unat_of_nat)

lemma newest_first_holds:
  assumes "header_laws cd"
    "list_all2 (\<lambda>g docs. segment_file_holds cd w (sg_id g) c docs \<and> length docs < 2 ^ 32 \<and>
                         (\<forall>doc \<in> set docs. document_laws cd c doc)) ss docss"
  shows "newest_first cd w ss d = Ok (List.find (\<lambda>doc. d_id doc = d) (concat docss))"
  using assms(2)
proof (induction rule: list_all2_induct)
  case (Cons g ss docs docss)
  then have "read_document_from_segment cd w (sg_id g) d = Ok (List.find (\<lambda>doc. d_id doc = d) docs)"
    by (intro read_document_from_segment_holds [OF assms(1)]) auto
  with Cons.IH show ?case by (simp add: find_append split: option.split)
qed simp

lemma read_from_snapshot_holds:
  assumes "header_laws cd" "snapshot_readable cd c w s docss"
  shows "read_from_snapshot cd w s d = Ok (visible (sn_deleted_docs s) docss d)"
  using newest_first_holds [OF assms(1), of w c "rev (sn_segments s)" "rev docss"] assms(2)
  by (simp add: read_from_snapshot_def visible_def snapshot_readable_def)

lemma validate_loop_holds:
  assumes "header_laws cd" "snapshot_readable cd c w s docss" "snapshot_readable cd c w s' docss'"
  shows "validate_loop cd w s s' ds =
           Ok (\<forall>d \<in> set ds. documents_equal (visible (sn_deleted_docs s) docss d) (visible (sn_deleted_docs s') docss' d))"
  by (induction ds) (simp_all add: read_from_snapshot_holds [OF assms(1,2)] read_from_snapshot_holds [OF assms(1,3)])

text \<open>The calls of a transaction before it commits.\<close>

fun call_target :: "tx_call \<Rightarrow> doc_id option" where
  "call_target (ReadCall d) = Some d"
| "call_target (InsertCall doc) = Some (d_id doc)"
| "call_target (UpdateCall d doc) = Some d"
| "call_target (DeleteCall d) = Some d"
| "call_target _ = None"

fun call_op :: "tx_call \<Rightarrow> transaction_op option" where
  "call_op (InsertCall doc) = Some (Insert doc)"
| "call_op (UpdateCall d doc) = Some (Update d doc)"
| "call_op (DeleteCall d) = Some (Delete d)"
| "call_op _ = None"

definition tx_calls_run :: "codec \<Rightarrow> id_order \<Rightarrow> (world \<times> mvcc \<times> tx_call) list \<Rightarrow> transaction \<Rightarrow> transaction" where
  "tx_calls_run cd order calls tx = foldl (\<lambda>tx (w, m, c). snd (tx_call_step cd order w m c tx)) tx calls"

definition ends_transaction :: "tx_call \<Rightarrow> bool" where
  "ends_transaction c \<longleftrightarrow> c = CommitCall \<or> c = RollbackCall"

lemma write_effect_keys: "fst ` set (foldl write_effect ws ops) \<subseteq> fst ` set ws \<union> op_target ` set ops"
proof (induction ops arbitrary: ws)
  case (Cons op ops)
  from Cons [of "write_effect ws op"] show ?case
    by (cases op) (auto simp: dom_update AList.delete_eq image_iff dest!: subsetD)
qed simp


lemma tracked_set:
  "tx_ok tx \<Longrightarrow> set (tracked_doc_ids tx) = fst ` set (tx_read_set tx) \<union> op_target ` set (tx_operations tx)"
  using write_effect_keys [of "[]" "tx_operations tx"] by (auto simp: tracked_doc_ids_def tx_ok_def)

lemma tx_call_step_active:
  assumes "tx_ok tx" "tx_state tx = Active" "\<not> ends_transaction c"
  shows "tx_state (snd (tx_call_step cd order w m c tx)) = Active \<and>
         tx_operations (snd (tx_call_step cd order w m c tx)) = tx_operations tx @ (case call_op c of None \<Rightarrow> [] | Some op \<Rightarrow> [op]) \<and>
         tx_snapshot (snd (tx_call_step cd order w m c tx)) = tx_snapshot tx \<and>
         tx_isolation_level (snd (tx_call_step cd order w m c tx)) = tx_isolation_level tx \<and>
         set (tracked_doc_ids (snd (tx_call_step cd order w m c tx))) = insert (the (call_target c)) (set (tracked_doc_ids tx))"
proof -
  have written: "d \<in> op_target ` set (tx_operations tx)" if "map_of (tx_write_set tx) d = Some doc" for d doc
    using that assms(1) write_effect_keys [of "[]" "tx_operations tx"]
    by (auto simp: tx_ok_def dest!: map_of_SomeD)
  show ?thesis
    using assms(2,3) tracked_set [OF assms(1)] tracked_set [OF tx_ok_step [OF assms(1)], of cd order w m c]
    by (cases c) (auto simp: tx_defs Let_def dom_update ends_transaction_def dest: written split: option.splits)
qed

lemma tx_calls_run_active:
  assumes "tx_ok tx" "tx_state tx = Active" "\<forall>(w, m, c) \<in> set calls. \<not> ends_transaction c"
  shows "tx_ok (tx_calls_run cd order calls tx) \<and> tx_state (tx_calls_run cd order calls tx) = Active \<and>
         tx_operations (tx_calls_run cd order calls tx) =
           tx_operations tx @ List.map_filter (\<lambda>(w, m, c). call_op c) calls \<and>
         tx_snapshot (tx_calls_run cd order calls tx) = tx_snapshot tx \<and>
         tx_isolation_level (tx_calls_run cd order calls tx) = tx_isolation_level tx \<and>
         set (tracked_doc_ids (tx_calls_run cd order calls tx)) =
           set (tracked_doc_ids tx) \<union> (\<lambda>(w, m, c). the (call_target c)) ` set calls"
  using assms
proof (induction calls arbitrary: tx)
  case (Cons call calls)
  obtain w m c where c: "call = (w, m, c)" by (cases call)
  define tx1 where "tx1 = snd (tx_call_step cd order w m c tx)"
  have "\<not> ends_transaction c" using Cons.prems(3) by (simp add: c)
  note step = tx_call_step_active [OF Cons.prems(1,2) this, of cd order w m, folded tx1_def]
  have "tx_ok tx1" unfolding tx1_def by (rule tx_ok_step [OF Cons.prems(1)])
  note IH = Cons.IH [OF this]
  have "tx_calls_run cd order (call # calls) tx = tx_calls_run cd order calls tx1"
    by (simp add: tx_calls_run_def c tx1_def)
  with step IH Cons.prems(3) show ?case
    by (auto simp: c map_filter_simps split: option.splits)
qed (simp add: tx_calls_run_def map_filter_simps)

lemma tx_begin_facts:
  "tx_ok (fst (tx_begin n m isolation))" "tx_state (fst (tx_begin n m isolation)) = Active"
  "tx_operations (fst (tx_begin n m isolation)) = []"
  "tx_snapshot (fst (tx_begin n m isolation)) = current_snapshot m"
  "tx_isolation_level (fst (tx_begin n m isolation)) = isolation"
  "tracked_doc_ids (fst (tx_begin n m isolation)) = []"
  by (simp_all add: tx_begin_def tx_ok_def tracked_doc_ids_def)

text \<open>
  C11: Optimistic validation.  A transaction that is begun, makes any calls and then commits returns
  exactly the operations it called for, in order, unless its isolation level asks for validation,
  the version has moved on, and some document that it read or wrote differs between its snapshot and
  the current one; then the commit fails and the transaction is aborted.  The order in which the set
  of documents is visited does not matter.
\<close>

theorem transaction_commit_validates:
  assumes "header_laws cd" "\<forall>ds. set (order ds) = set ds"
    and "\<forall>(w, m, c) \<in> set calls. \<not> ends_transaction c"
    and "snapshot_readable cd c w (current_snapshot m0) docss" "snapshot_readable cd c w (current_snapshot m) docss'"
    and "tx = tx_calls_run cd order calls (fst (tx_begin n m0 isolation))"
  shows "tx_commit cd order w m tx =
           (if isolation = ReadCommitted \<or> sn_version (current_snapshot m) = sn_version (current_snapshot m0) \<or>
               (\<forall>(w, m', call) \<in> set calls.
                  documents_equal (visible (sn_deleted_docs (current_snapshot m0)) docss (the (call_target call)))
                    (visible (sn_deleted_docs (current_snapshot m)) docss' (the (call_target call))))
            then (Ok (List.map_filter (\<lambda>(w, m, call). call_op call) calls), tx\<lparr>tx_state := Committed\<rparr>)
            else (Err validation_failed, tx_abort tx))"
proof -
  note run = tx_calls_run_active [OF tx_begin_facts(1,2) assms(3), of cd order n m0 isolation, folded assms(6)]
  have tracked: "tracked_doc_ids (tx\<lparr>tx_state := s\<rparr>) = tracked_doc_ids tx" for s
    by (simp add: tracked_doc_ids_def)
  have "validate_reads cd order w m (tx\<lparr>tx_state := Preparing\<rparr>) =
      Ok (sn_version (current_snapshot m) = sn_version (current_snapshot m0) \<or>
          (\<forall>(w, m', call) \<in> set calls.
             documents_equal (visible (sn_deleted_docs (current_snapshot m0)) docss (the (call_target call)))
               (visible (sn_deleted_docs (current_snapshot m)) docss' (the (call_target call)))))"
    using run assms(2) validate_loop_holds [OF assms(1,4,5)]
    by (auto simp: validate_reads_def Let_def tracked tx_begin_facts)
  moreover have "tx_commit cd order w m tx =
      (if isolation = ReadCommitted \<or> ok then (Ok (tx_operations tx), tx\<lparr>tx_state := Committed\<rparr>)
       else (Err validation_failed, tx_abort tx))"
    if "validate_reads cd order w m (tx\<lparr>tx_state := Preparing\<rparr>) = Ok ok" for ok
    using run that by (cases ok) (auto simp: tx_commit_def Let_def tx_abort_def tx_begin_facts)
  ultimately show ?thesis
    using run by (simp add: tx_begin_facts)
qed

text \<open>A document read before a conflicting deletion makes the commit fail.\<close>

lemma two_versions:
  assumes "m0 = snd (create_snapshot mvcc_new [s])" "m = snd (create_snapshot_with_deletes m0 [s] del)"
  shows "current_snapshot m0 = \<lparr>sn_version = 0, sn_segments = [s], sn_doc_count = unat (sg_doc_count s), sn_deleted_docs = {}\<rparr>"
    "current_snapshot m = \<lparr>sn_version = 1, sn_segments = [s], sn_doc_count = unat (sg_doc_count s), sn_deleted_docs = del\<rparr>"
  unfolding assms
  by (simp_all add: create_snapshot_def create_snapshot_with_deletes_def mvcc_new_def gc_old_versions_leased_def
      gc_loop.simps current_snapshot_def Let_def)

theorem transaction_commit_validates_witness:
  "\<exists>s w m0 m. write_segment plain_codec empty_world CompNone [document_new 4] = (Ok s, w) \<and>
     m0 = snd (create_snapshot mvcc_new [s]) \<and> m = snd (create_snapshot_with_deletes m0 [s] {4}) \<and>
     (let tx = snd (tx_read plain_codec w (fst (tx_begin 1 m0 Serializable)) 4)
      in fst (tx_commit plain_codec rev w m tx) = Err validation_failed)"
proof -
  obtain s w where s: "write_segment plain_codec empty_world CompNone [document_new 4] = (Ok s, w)"
    "segment_file_holds plain_codec w (sg_id s) CompNone [document_new 4]"
    using write_segment_holds [OF plain_codec_header_laws, of "[document_new 4]" CompNone empty_world]
      plain_codec_document_laws by (auto simp: small_id_def)
  define m0 where "m0 = snd (create_snapshot mvcc_new [s])"
  define m where "m = snd (create_snapshot_with_deletes m0 [s] {4})"
  note cur = two_versions [OF m0_def m_def]
  have readable: "snapshot_readable plain_codec CompNone w (current_snapshot m0) [[document_new 4]]"
    "snapshot_readable plain_codec CompNone w (current_snapshot m) [[document_new 4]]"
    using s(2) by (simp_all add: snapshot_readable_def cur plain_codec_document_laws small_id_def)
  have "fst (tx_commit plain_codec rev w m
      (tx_calls_run plain_codec rev [(w, m0, ReadCall 4)] (fst (tx_begin 1 m0 Serializable)))) = Err validation_failed"
    by (subst transaction_commit_validates [OF plain_codec_header_laws _ _ readable refl])
      (simp_all add: ends_transaction_def cur visible_def document_new_def)
  then show ?thesis
    using s(1) by (intro exI [of _ s] exI [of _ w] exI [of _ m0] exI [of _ m])
      (simp add: m0_def m_def tx_calls_run_def Let_def split_beta)
qed

text \<open>
  The first snapshot is never seen as a conflict.  A transaction begun on an empty database has
  the default snapshot of version 0, which is also the version of the first snapshot that is
  published; so after another writer has published documents a serializable transaction that found
  nothing still commits.
\<close>

theorem first_snapshot_not_validated:
  assumes "tx = snd (tx_read cd w (fst (tx_begin n mvcc_new isolation)) d)"
    and "m = snd (create_snapshot_with_deletes mvcc_new segments deleted)"
  shows "fst (tx_read cd w (fst (tx_begin n mvcc_new isolation)) d) = Ok None \<and>
         sn_segments (current_snapshot m) = segments \<and>
         fst (tx_commit cd order w' m (snd (tx_insert tx doc))) = Ok [Insert doc]"
  unfolding assms
  by (simp add: tx_defs read_from_snapshot_def current_snapshot_def mvcc_new_def snapshot_default_def
      create_snapshot_with_deletes_def gc_old_versions_leased_def gc_loop.simps validate_reads_def Let_def)

theorem first_snapshot_not_validated_witness:
  "fst (tx_commit plain_codec (\<lambda>ds. ds) empty_world
     (snd (create_snapshot_with_deletes mvcc_new
       [\<lparr>sg_id = 0, sg_doc_count = 1, sg_metadata = \<lparr>sm_size_bytes = 0, sm_min_doc_id = 4, sm_max_doc_id = 4\<rparr>\<rparr>] {}))
     (snd (tx_insert (snd (tx_read plain_codec empty_world (fst (tx_begin 1 mvcc_new Serializable)) 4)) (document_new 4)))) =
   Ok [Insert (document_new 4)]"
  using first_snapshot_not_validated [OF refl refl] by blast

subsection \<open>The manager\<close>

text \<open>Cleaning up forgets exactly the finished transactions, and the statistics add up after it.\<close>

lemma cleanup_keeps_in_progress:
  assumes "distinct (map fst (tm_active_transactions self))"
  shows "get_transaction (tm_cleanup self) i =
           (case get_transaction self i of
              Some tx \<Rightarrow> if in_progress tx then Some tx else None
            | None \<Rightarrow> None)"
proof -
  have "map_of (filter (\<lambda>(i, tx). in_progress tx) xs) i =
      (case map_of xs i of Some tx \<Rightarrow> if in_progress tx then Some tx else None | None \<Rightarrow> None)"
    if "distinct (map fst xs)" for xs :: "(u64 \<times> transaction) list"
    using that by (induction xs) (auto split: option.splits simp: map_of_eq_None_iff dest: map_of_SomeD)
  then show ?thesis using assms by (simp add: get_transaction_def tm_cleanup_def)
qed

lemma tm_stats_add_up:
  "ts_total (tm_stats (tm_cleanup self)) = ts_active (tm_stats (tm_cleanup self)) + ts_preparing (tm_stats (tm_cleanup self))"
proof -
  have "length (filter (\<lambda>(i, tx). in_progress tx) xs) =
      length (filter (\<lambda>tx. tx_state tx = Active) (map snd (filter (\<lambda>(i, tx). in_progress tx) xs))) +
      length (filter (\<lambda>tx. tx_state tx = Preparing) (map snd (filter (\<lambda>(i, tx). in_progress tx) xs)))"
    for xs :: "(u64 \<times> transaction) list"
    by (induction xs) (auto simp: in_progress_def)
  then show ?thesis by (simp add: tm_stats_def tm_cleanup_def Let_def)
qed

end
