(* ===== verification/Scoring.thy ===== *)
theory Scoring
  imports Inverted_Index Planner
begin

section \<open>Scoring\<close>

text \<open>
  The model of \<^verbatim>\<open>src/scoring/scorer.rs\<close> and of \<^verbatim>\<open>IndexStatistics\<close> and \<^verbatim>\<open>CostModel\<close> in
  \<^verbatim>\<open>src/query/types.rs\<close>, over the single-precision arithmetic of \<open>Floats\<close>.
\<close>

subsection \<open>Index statistics and the cost model\<close>

text \<open>The total length is a 32-bit sum over the values of a hash map; its order does not matter.\<close>

record index_statistics =
  is_total_docs :: nat
  is_total_terms :: nat
  is_avg_doc_length :: fval

definition list_length :: "posting_list \<Rightarrow> u32" where
  "list_length pl = (case posting_list_iter pl of Inr ps \<Rightarrow> sum_list (map term_freq ps) | Inl _ \<Rightarrow> 0)"

definition total_length :: "'m inverted_index \<Rightarrow> u32" where
  "total_length ix = (\<Sum>t \<in> dom (ix_postings ix). list_length (the (ix_postings ix t)))"

definition from_index :: "'m inverted_index \<Rightarrow> index_statistics" where
  "from_index ix =
     \<lparr>is_total_docs = ix_doc_count ix, is_total_terms = dictionary_len (ix_dictionary ix),
      is_avg_doc_length =
        (if ix_doc_count ix > 0
         then f_div (f_of_nat (unat (total_length ix))) (f_of_nat (ix_doc_count ix))
         else Fin 0)\<rparr>"

record cost_model =
  cm_scan_cost_per_doc :: fval
  cm_seek_cost_per_term :: fval
  cm_filter_cost_per_doc :: fval
  cm_sort_cost_multiplier :: fval

definition cost_model_default :: cost_model where
  "cost_model_default =
     \<lparr>cm_scan_cost_per_doc = Fin 1, cm_seek_cost_per_term = round_f32 (1 / 10),
      cm_filter_cost_per_doc = Fin (1 / 2), cm_sort_cost_multiplier = Fin 2\<rparr>"

fun estimate_cost :: "cost_model \<Rightarrow> logical_plan \<Rightarrow> index_statistics \<Rightarrow> fval" where
  "estimate_cost self (Scan field) stats = f_mul (cm_scan_cost_per_doc self) (f_of_nat (is_total_docs stats))"
| "estimate_cost self (IndexSeek field t) stats = cm_seek_cost_per_term self"
| "estimate_cost self (Filter predicate input) stats =
     f_add (estimate_cost self input stats) (f_mul (cm_filter_cost_per_doc self) (f_of_nat (is_total_docs stats)))"
| "estimate_cost self (Sort field order input) stats =
     f_mul (estimate_cost self input stats) (cm_sort_cost_multiplier self)"
| "estimate_cost self (Limit n input) stats =
     f_mul (estimate_cost self input stats) (f_div (f_of_nat n) (f_of_nat (is_total_docs stats)))"
| "estimate_cost self p stats = Fin 1"

subsection \<open>Scorers\<close>

record doc_stats =
  ds_doc_length :: nat
  ds_avg_doc_length :: fval
  ds_total_docs :: nat

record scoring_context =
  sx_doc_id :: doc_id
  sx_posting :: posting
  sx_term_info :: term_info
  sx_doc_stats :: doc_stats
  sx_query_boost :: fval

text \<open>A scorer is its \<^verbatim>\<open>score_ctx\<close>; the other methods of the trait have defaults in terms of it.\<close>

type_synonym scorer = "scoring_context \<Rightarrow> fval"

definition score :: "scorer \<Rightarrow> posting \<Rightarrow> term_info \<Rightarrow> doc_stats \<Rightarrow> fval" where
  "score score_ctx p info stats =
     score_ctx \<lparr>sx_doc_id = doc_id p, sx_posting = p, sx_term_info = info, sx_doc_stats = stats,
                sx_query_boost = Fin 1\<rparr>"

definition score_batch :: "scorer \<Rightarrow> scoring_context list \<Rightarrow> fval list \<Rightarrow> fval list" where
  "score_batch score_ctx contexts out =
     map score_ctx (take (length out) contexts) @ drop (length contexts) out"

definition tf_idf_score_ctx :: "bool \<Rightarrow> scorer" where
  "tf_idf_score_ctx normalized cx =
     (let freq = f_of_nat (unat (term_freq (sx_posting cx)));
          tf = (if normalized then f_div freq (f_of_nat (ds_doc_length (sx_doc_stats cx))) else freq)
      in f_mul (f_mul tf (ti_idf (sx_term_info cx))) (sx_query_boost cx))"

record bm25_scorer =
  bm_k1 :: fval
  bm_b :: fval

definition bm25_default :: bm25_scorer where
  "bm25_default = \<lparr>bm_k1 = round_f32 (6 / 5), bm_b = Fin (3 / 4)\<rparr>"

definition bm25_score_ctx :: "bm25_scorer \<Rightarrow> scorer" where
  "bm25_score_ctx self cx =
     (let tf = f_of_nat (unat (term_freq (sx_posting cx)));
          doc_len = f_of_nat (ds_doc_length (sx_doc_stats cx));
          avg_doc_len = ds_avg_doc_length (sx_doc_stats cx);
          numerator = f_mul (f_mul (ti_idf (sx_term_info cx)) tf) (f_add (bm_k1 self) (Fin 1));
          denominator = f_add tf (f_mul (bm_k1 self)
            (f_add (f_sub (Fin 1) (bm_b self)) (f_mul (bm_b self) (f_div doc_len avg_doc_len))))
      in f_mul (f_div numerator denominator) (sx_query_boost cx))"

text \<open>
  Multiplying by a boost afterwards is passing the boost to the scorer, for both scorers of the
  code: the product that the boost is applied to last is already a rounded value.
\<close>

definition boost_last :: "scorer \<Rightarrow> bool" where
  "boost_last score_ctx \<longleftrightarrow>
     (\<forall>cx. f_mul (score_ctx (cx\<lparr>sx_query_boost := Fin 1\<rparr>)) (sx_query_boost cx) = score_ctx cx)"

lemma tf_idf_boost_last: "boost_last (tf_idf_score_ctx normalized)"
  by (simp add: boost_last_def tf_idf_score_ctx_def Let_def)

lemma bm25_boost_last: "boost_last (bm25_score_ctx self)"
  by (simp add: boost_last_def bm25_score_ctx_def Let_def)

text \<open>
  The statistics of a document length do not matter while no inverse document frequency has been
  computed: then every score is zero, or NaN.
\<close>

lemma f_mul_zero_left: "f_mul (Fin 0) a = Fin 0 \<or> f_mul (Fin 0) a = NaN"
  by (cases a) (simp_all add: f_signed_inf_def)

lemma f_mul_zero_right: "f_mul a (Fin 0) = Fin 0 \<or> f_mul a (Fin 0) = NaN"
  by (cases a) (simp_all add: f_signed_inf_def)

lemma f_div_zero: "f_div (Fin 0) a = Fin 0 \<or> f_div (Fin 0) a = NaN"
  by (cases a) (simp_all add: f_signed_inf_def)

lemma bm25_zero_idf:
  assumes "ti_idf (sx_term_info cx) = Fin 0"
  shows "bm25_score_ctx self cx = Fin 0 \<or> bm25_score_ctx self cx = NaN"
proof -
  have z: "f_mul a b = Fin 0 \<or> f_mul a b = NaN" if "a = Fin 0 \<or> a = NaN" for a b
    using that f_mul_zero_left by auto
  have d: "f_div a b = Fin 0 \<or> f_div a b = NaN" if "a = Fin 0 \<or> a = NaN" for a b
    using that f_div_zero by auto
  show ?thesis
    unfolding bm25_score_ctx_def Let_def assms by (intro z d) simp
qed

lemma tf_idf_zero_idf:
  assumes "ti_idf (sx_term_info cx) = Fin 0"
  shows "tf_idf_score_ctx normalized cx = Fin 0 \<or> tf_idf_score_ctx normalized cx = NaN"
proof -
  have "f_mul a b = Fin 0 \<or> f_mul a b = NaN" if "a = Fin 0 \<or> a = NaN" for a b
    using that f_mul_zero_left by auto
  then show ?thesis
    using f_mul_zero_right unfolding tf_idf_score_ctx_def Let_def assms by blast
qed

text \<open>No dictionary that documents are added to has another frequency than zero.\<close>

definition idf_unset :: "term_dictionary \<Rightarrow> bool" where
  "idf_unset dict \<longleftrightarrow> (\<forall>info \<in> set (td_term_infos dict). ti_idf info = Fin 0)"

lemma idf_unset_new: "idf_unset dictionary_new"
  by (simp add: idf_unset_def dictionary_new_def)

lemma add_term_idf_unset: "idf_unset dict \<Longrightarrow> add_term dict t df = Ok dict' \<Longrightarrow> idf_unset dict'"
  by (auto simp: add_term_def idf_unset_def and_then_Ok_iff index_def dest!: set_update_subset_insert [THEN subsetD]
      split: option.splits if_splits)

lemma index_term_idf_unset:
  "idf_unset (ix_dictionary ix) \<Longrightarrow> index_term d n ix entry = Ok ix' \<Longrightarrow> idf_unset (ix_dictionary ix')"
  by (auto simp: index_term_def Let_def and_then_Ok_iff split: prod.splits dest: add_term_idf_unset)

lemma index_terms_idf_unset:
  "idf_unset (ix_dictionary ix) \<Longrightarrow> index_terms d n ix entries = Ok ix' \<Longrightarrow> idf_unset (ix_dictionary ix')"
  by (induction entries arbitrary: ix) (auto simp: and_then_Ok_iff dest: index_term_idf_unset)

lemma add_document_idf_unset:
  "idf_unset (ix_dictionary ix) \<Longrightarrow> add_document ord ix d tokens = Ok ix' \<Longrightarrow> idf_unset (ix_dictionary ix')"
  by (auto simp: add_document_def and_then_Ok_iff dest: index_terms_idf_unset)

end
