(* ===== verification/Executor.thy ===== *)
theory Executor
  imports Scoring Readers Index_Search
begin

section \<open>Query execution\<close>

text \<open>
  The model of \<^verbatim>\<open>src/search/executor.rs\<close> and \<^verbatim>\<open>src/search/pipeline.rs\<close>.  The planner's rewriting
  is modelled with the planner.  The executor works on a reader of the pool; the time that a query
  took is left out, and the configured timeout is never used by the code.
\<close>

subsection \<open>Configurations\<close>

datatype scoring_algorithm = BM25 | TfIdf | NoScoring

record execution_config =
  xc_scoring :: scoring_algorithm
  xc_enable_optimization :: bool
  xc_enable_validation :: bool
  xc_collect_explanations :: bool
  xc_timeout_ms :: "u64 option"

definition execution_config_default :: execution_config where
  "execution_config_default =
     \<lparr>xc_scoring = BM25, xc_enable_optimization = True, xc_enable_validation = True,
      xc_collect_explanations = False, xc_timeout_ms = Some 30000\<rparr>"

definition execution_config_simple :: execution_config where
  "execution_config_simple =
     \<lparr>xc_scoring = NoScoring, xc_enable_optimization = False, xc_enable_validation = False,
      xc_collect_explanations = False, xc_timeout_ms = Some 10000\<rparr>"

definition execution_config_debug :: execution_config where
  "execution_config_debug =
     \<lparr>xc_scoring = BM25, xc_enable_optimization = True, xc_enable_validation = True,
      xc_collect_explanations = True, xc_timeout_ms = None\<rparr>"

definition with_scoring :: "scoring_algorithm \<Rightarrow> execution_config" where
  "with_scoring algorithm = execution_config_default\<lparr>xc_scoring := algorithm\<rparr>"

record query_executor =
  qx_validator_config :: validation_config

definition query_executor_new :: query_executor where
  "query_executor_new = \<lparr>qx_validator_config = validation_config_default\<rparr>"

definition query_executor_with_config :: "validation_config \<Rightarrow> query_executor" where
  "query_executor_with_config cfg = \<lparr>qx_validator_config = cfg\<rparr>"

subsection \<open>Scores\<close>

definition boost_or_1 :: "fval option \<Rightarrow> fval" where
  "boost_or_1 b = (case b of Some x \<Rightarrow> x | None \<Rightarrow> Fin 1)"

definition doc_stats_for :: "index_statistics \<Rightarrow> posting \<Rightarrow> doc_stats" where
  "doc_stats_for stats p =
     \<lparr>ds_doc_length = length (positions p), ds_avg_doc_length = is_avg_doc_length stats,
      ds_total_docs = is_total_docs stats\<rparr>"

definition score_term_query ::
  "scorer \<Rightarrow> 'm inverted_index \<Rightarrow> index_statistics \<Rightarrow> doc_id \<Rightarrow> term_query \<Rightarrow> fval result" where
  "score_term_query sc ix stats d tq =
     (case search_term ix (tq_value tq) of
        None \<Rightarrow> Ok (Fin 0)
      | Some pl \<Rightarrow>
          and_then (get_term_info (ix_dictionary ix) (tq_value tq)) (\<lambda>info.
            case info of
              None \<Rightarrow> Ok (Fin 0)
            | Some term_info \<Rightarrow>
                and_then (posting_list_iter pl) (\<lambda>ps.
                  case List.find (\<lambda>p. doc_id p = d) ps of
                    None \<Rightarrow> Ok (Fin 0)
                  | Some p \<Rightarrow> Ok (f_mul (score sc p term_info (doc_stats_for stats p)) (boost_or_1 (tq_boost tq))))))"

fun sum_scores :: "(query \<Rightarrow> fval result) \<Rightarrow> fval \<Rightarrow> query list \<Rightarrow> fval result" where
  "sum_scores f acc [] = Ok acc"
| "sum_scores f acc (q # qs) = and_then (f q) (\<lambda>s. sum_scores f (f_add acc s) qs)"

lemma sum_scores_cong [fundef_cong]:
  "t = t' \<Longrightarrow> qs = qs' \<Longrightarrow> (\<And>q. q \<in> set qs' \<Longrightarrow> f q = g q) \<Longrightarrow> sum_scores f t qs = sum_scores g t' qs'"
proof (induction qs' arbitrary: qs t t')
  case (Cons q qs')
  then show ?case by (auto intro!: and_then_cong)
qed simp

fun calculate_score ::
  "scorer \<Rightarrow> 'm inverted_index \<Rightarrow> index_statistics \<Rightarrow> doc_id \<Rightarrow> query \<Rightarrow> fval result" where
  "calculate_score sc ix stats d (Term tq) = score_term_query sc ix stats d tq"
| "calculate_score sc ix stats d (Bool must should must_not filters msm boost) =
     and_then (sum_scores (calculate_score sc ix stats d) (Fin 0) must) (\<lambda>acc.
     and_then (sum_scores (calculate_score sc ix stats d) acc should) (\<lambda>acc.
       Ok (f_mul acc (boost_or_1 boost))))"
| "calculate_score sc ix stats d q = Ok (Fin 1)"

definition generate_score_explanation ::
  "'m inverted_index \<Rightarrow> doc_id \<Rightarrow> query \<Rightarrow> fval \<Rightarrow> score_explanation result" where
  "generate_score_explanation ix d q final_score =
     and_then
       (case q of
          Term tq \<Rightarrow>
            and_then (get_term_info (ix_dictionary ix) (tq_value tq)) (\<lambda>info.
              Ok (case info of
                    Some term_info \<Rightarrow>
                      [ScoreExplanation (ti_idf term_info) (''IDF for term '' @ [CHR 0x27] @ tq_value tq @ [CHR 0x27]) []]
                  | None \<Rightarrow> []))
        | _ \<Rightarrow> Ok [])
       (\<lambda>details. Ok (ScoreExplanation final_score (''BM25 score for document '' @ show_nat (unat d)) details))"

subsection \<open>The executor\<close>

definition document_score ::
  "scoring_algorithm \<Rightarrow> 'm inverted_index \<Rightarrow> index_statistics \<Rightarrow> doc_id \<Rightarrow> query \<Rightarrow> fval result" where
  "document_score algorithm ix stats d q =
     (case algorithm of
        BM25 \<Rightarrow> calculate_score (bm25_score_ctx bm25_default) ix stats d q
      | TfIdf \<Rightarrow> calculate_score (tf_idf_score_ctx True) ix stats d q
      | NoScoring \<Rightarrow> Ok (Fin 1))"

definition score_hit ::
  "execution_config \<Rightarrow> 'm inverted_index \<Rightarrow> index_statistics \<Rightarrow> query \<Rightarrow> scored_document \<Rightarrow> scored_document result" where
  "score_hit config ix stats q doc =
     and_then (document_score (xc_scoring config) ix stats (sd_doc_id doc) q) (\<lambda>final_score.
     and_then (if xc_collect_explanations config
               then and_then (generate_score_explanation ix (sd_doc_id doc) q final_score) (\<lambda>e. Ok (Some e))
               else Ok None) (\<lambda>explanation.
       Ok \<lparr>sd_doc_id = sd_doc_id doc, sd_score = final_score, sd_document = sd_document doc,
           sd_explanation = explanation\<rparr>))"

fun collect_hits ::
  "(scored_document \<Rightarrow> scored_document result) \<Rightarrow> u32 set \<Rightarrow> scored_document list \<Rightarrow> top_k_collector
     \<Rightarrow> top_k_collector result" where
  "collect_hits score_doc deleted [] collector = Ok collector"
| "collect_hits score_doc deleted (doc # docs) collector =
     (if ucast (sd_doc_id doc) \<in> deleted then collect_hits score_doc deleted docs collector
      else and_then (score_doc doc) (\<lambda>scored_doc.
             collect_hits score_doc deleted docs (collect collector scored_doc)))"

fun collect_segments ::
  "codec \<Rightarrow> 'm index_reader \<Rightarrow> query \<Rightarrow> (scored_document \<Rightarrow> scored_document result) \<Rightarrow> segment_reader list
     \<Rightarrow> top_k_collector \<Rightarrow> top_k_collector result" where
  "collect_segments cd reader q score_doc [] collector = Ok collector"
| "collect_segments cd reader q score_doc (seg # segs) collector =
     and_then (segment_search cd (ir_context reader) seg q) (\<lambda>docs.
     and_then (collect_hits score_doc (ir_deleted_docs reader) docs collector) (\<lambda>collector.
       collect_segments cd reader q score_doc segs collector))"

definition execute_on_segments ::
  "codec \<Rightarrow> 'm index_reader \<Rightarrow> query \<Rightarrow> top_k_collector \<Rightarrow> execution_config \<Rightarrow> top_k_collector result" where
  "execute_on_segments cd reader q collector config =
     (let ix = mx_index (ir_context reader); stats = from_index ix
      in collect_segments cd reader q (score_hit config ix stats q) (ir_segments reader) collector)"

definition execute ::
  "query_executor \<Rightarrow> codec \<Rightarrow> 'm index_reader \<Rightarrow> query \<Rightarrow> nat \<Rightarrow> execution_config \<Rightarrow> search_results result" where
  "execute self cd reader q limit config =
     and_then (if xc_enable_validation config then validate (qx_validator_config self) q else Ok ()) (\<lambda>_.
     and_then (if xc_enable_optimization config then optimize_query q else Ok q) (\<lambda>optimized_query.
     and_then (execute_on_segments cd reader optimized_query (top_k_new limit) config) (\<lambda>collector.
     and_then (get_results collector) (\<lambda>hits.
       Ok \<lparr>sr_hits = hits, sr_total_hits = tk_total_collected collector, sr_max_score = max_score collector\<rparr>))))"

definition execute_simple ::
  "query_executor \<Rightarrow> codec \<Rightarrow> 'm index_reader \<Rightarrow> query \<Rightarrow> nat \<Rightarrow> search_results result" where
  "execute_simple self cd reader q limit = execute self cd reader q limit execution_config_simple"

subsection \<open>The pipeline\<close>

record pipeline_config =
  pc_enable_optimization :: bool
  pc_enable_validation :: bool
  pc_collect_explanations :: bool
  pc_timeout_ms :: "u64 option"

definition pipeline_config_default :: pipeline_config where
  "pipeline_config_default =
     \<lparr>pc_enable_optimization = True, pc_enable_validation = True, pc_collect_explanations = False,
      pc_timeout_ms = Some 30000\<rparr>"

text \<open>A collector is its three operations; the pipeline runs on the state of one.\<close>

record ('c, 'r) collector_ops =
  co_collect :: "'c \<Rightarrow> scored_document \<Rightarrow> 'c \<times> collect_decision"
  co_finish :: "'c \<Rightarrow> 'c"
  co_into_results :: "'c \<Rightarrow> 'r result"

definition top_k_ops :: "(top_k_collector, search_results) collector_ops" where
  "top_k_ops = \<lparr>co_collect = collect_matched, co_finish = (\<lambda>c. c), co_into_results = into_results\<rparr>"

record ('c, 'r) search_pipeline =
  sp_validator_config :: validation_config
  sp_config :: pipeline_config
  sp_scorer :: scorer
  sp_ops :: "('c, 'r) collector_ops"
  sp_collector :: 'c

fun pipeline_plan_to_query :: "logical_plan \<Rightarrow> query result" where
  "pipeline_plan_to_query (IndexSeek field t) =
     Ok (Term \<lparr>tq_field = field, tq_value = t, tq_boost = None\<rparr>)"
| "pipeline_plan_to_query (Filter predicate input) = Ok predicate"
| "pipeline_plan_to_query (Union inputs) =
     and_then (try_map pipeline_plan_to_query inputs) (\<lambda>should. Ok (Bool [] should [] [] (Some 1) None))"
| "pipeline_plan_to_query (Intersection inputs) =
     and_then (try_map pipeline_plan_to_query inputs) (\<lambda>must. Ok (Bool must [] [] [] None None))"
| "pipeline_plan_to_query (Difference left right) =
     and_then (pipeline_plan_to_query left) (\<lambda>left_query.
     and_then (pipeline_plan_to_query right) (\<lambda>right_query.
       Ok (Bool [left_query] [] [right_query] [] None None)))"
| "pipeline_plan_to_query (Limit n input) = pipeline_plan_to_query input"
| "pipeline_plan_to_query (Sort field order input) = pipeline_plan_to_query input"
| "pipeline_plan_to_query (Scan field) =
     Err (Error InvalidState ''Cannot safely convert LogicalPlan::Scan back into a specific query'')"

fun pipeline_is_safe :: "query \<Rightarrow> bool" where
  "pipeline_is_safe (Term q) = True"
| "pipeline_is_safe (Bool must should must_not filters msm boost) =
     (must_not = [] \<and> filters = [] \<and> list_all pipeline_is_safe must \<and> list_all pipeline_is_safe should)"
| "pipeline_is_safe MatchAll = True"
| "pipeline_is_safe q = False"

definition pipeline_optimize_query :: "query \<Rightarrow> query result" where
  "pipeline_optimize_query q =
     (if \<not> pipeline_is_safe q then Ok q
      else case pipeline_plan_to_query (optimize (plan q)) of
             Inr optimized_query \<Rightarrow> Ok optimized_query
           | Inl _ \<Rightarrow> Ok q)"

fun calculate_score_with ::
  "scorer \<Rightarrow> 'm inverted_index \<Rightarrow> index_statistics \<Rightarrow> doc_id \<Rightarrow> query \<Rightarrow> fval result" where
  "calculate_score_with sc ix stats d (Term tq) =
     (case search_term ix (tq_value tq) of
        None \<Rightarrow> Ok (Fin 0)
      | Some pl \<Rightarrow>
          and_then (get_term_info (ix_dictionary ix) (tq_value tq)) (\<lambda>info.
            case info of
              None \<Rightarrow> Ok (Fin 0)
            | Some term_info \<Rightarrow>
                and_then (posting_list_iter pl) (\<lambda>ps.
                  case List.find (\<lambda>p. doc_id p = d) ps of
                    None \<Rightarrow> Ok (Fin 0)
                  | Some p \<Rightarrow>
                      Ok (sc \<lparr>sx_doc_id = d, sx_posting = p, sx_term_info = term_info,
                              sx_doc_stats = doc_stats_for stats p,
                              sx_query_boost = boost_or_1 (tq_boost tq)\<rparr>))))"
| "calculate_score_with sc ix stats d (Bool must should must_not filters msm boost) =
     and_then (sum_scores (calculate_score_with sc ix stats d) (Fin 0) must) (\<lambda>acc.
     and_then (sum_scores (calculate_score_with sc ix stats d) acc should) (\<lambda>acc.
       Ok (f_mul acc (boost_or_1 boost))))"
| "calculate_score_with sc ix stats d q = Ok (Fin 1)"

definition pipeline_hit ::
  "('c, 'r) search_pipeline \<Rightarrow> 'm inverted_index \<Rightarrow> index_statistics \<Rightarrow> query \<Rightarrow> scored_document
     \<Rightarrow> scored_document result" where
  "pipeline_hit self ix stats q doc =
     and_then (calculate_score_with (sp_scorer self) ix stats (sd_doc_id doc) q) (\<lambda>s.
       Ok \<lparr>sd_doc_id = sd_doc_id doc, sd_score = s, sd_document = sd_document doc,
           sd_explanation =
             (if pc_collect_explanations (sp_config self)
              then Some (ScoreExplanation s (''score for doc '' @ show_nat (unat (sd_doc_id doc))) [])
              else None)\<rparr>)"

text \<open>The inner and the outer loop; the decision says whether to go on with the next segment.\<close>

fun pipeline_docs ::
  "('c \<Rightarrow> scored_document \<Rightarrow> 'c \<times> collect_decision) \<Rightarrow> (scored_document \<Rightarrow> scored_document result) \<Rightarrow> u32 set
     \<Rightarrow> scored_document list \<Rightarrow> 'c \<Rightarrow> ('c \<times> collect_decision) result" where
  "pipeline_docs coll score_doc deleted [] c = Ok (c, Continue)"
| "pipeline_docs coll score_doc deleted (doc # docs) c =
     (if ucast (sd_doc_id doc) \<in> deleted then pipeline_docs coll score_doc deleted docs c
      else and_then (score_doc doc) (\<lambda>matched.
             case coll c matched of
               (c, Continue) \<Rightarrow> pipeline_docs coll score_doc deleted docs c
             | (c, Terminate) \<Rightarrow> Ok (c, Terminate)))"

fun pipeline_segments ::
  "codec \<Rightarrow> 'm index_reader \<Rightarrow> query \<Rightarrow> ('c \<Rightarrow> scored_document \<Rightarrow> 'c \<times> collect_decision)
     \<Rightarrow> (scored_document \<Rightarrow> scored_document result) \<Rightarrow> segment_reader list \<Rightarrow> 'c \<Rightarrow> 'c result" where
  "pipeline_segments cd reader q coll score_doc [] c = Ok c"
| "pipeline_segments cd reader q coll score_doc (seg # segs) c =
     and_then (segment_search cd (ir_context reader) seg q) (\<lambda>docs.
     and_then (pipeline_docs coll score_doc (ir_deleted_docs reader) docs c) (\<lambda>(c, decision).
       case decision of
         Continue \<Rightarrow> pipeline_segments cd reader q coll score_doc segs c
       | Terminate \<Rightarrow> Ok c))"

definition pipeline_execute :: "('c, 'r) search_pipeline \<Rightarrow> 'm index_reader \<Rightarrow> query \<Rightarrow> 'r result" where
  "pipeline_execute self reader q = Err (Error InvalidState
     ''SearchPipeline::execute(&mut self, ...) is unavailable; use SearchPipeline::run(self, ...)'')"

definition pipeline_run :: "codec \<Rightarrow> ('c, 'r) search_pipeline \<Rightarrow> 'm index_reader \<Rightarrow> query \<Rightarrow> 'r result" where
  "pipeline_run cd self reader q =
     and_then (if pc_enable_validation (sp_config self) then validate (sp_validator_config self) q else Ok ()) (\<lambda>_.
     and_then (if pc_enable_optimization (sp_config self) then pipeline_optimize_query q else Ok q) (\<lambda>optimized_query.
       let ix = mx_index (ir_context reader); stats = from_index ix
       in and_then (pipeline_segments cd reader optimized_query (co_collect (sp_ops self))
                      (pipeline_hit self ix stats optimized_query) (ir_segments reader) (sp_collector self)) (\<lambda>c.
            co_into_results (sp_ops self) (co_finish (sp_ops self) c))))"

definition build_pipeline ::
  "pipeline_config \<Rightarrow> scorer \<Rightarrow> ('c, 'r) collector_ops \<Rightarrow> 'c \<Rightarrow> ('c, 'r) search_pipeline" where
  "build_pipeline config sc ops c =
     \<lparr>sp_validator_config = validation_config_default, sp_config = config, sp_scorer = sc, sp_ops = ops,
      sp_collector = c\<rparr>"

definition build_default :: "pipeline_config \<Rightarrow> nat \<Rightarrow> (top_k_collector, search_results) search_pipeline" where
  "build_default config limit =
     \<lparr>sp_validator_config = validation_config_default, sp_config = config,
      sp_scorer = bm25_score_ctx bm25_default, sp_ops = top_k_ops, sp_collector = top_k_new limit\<rparr>"

subsection \<open>The pipeline is the executor\<close>

lemma pipeline_plan_to_query_same: "pipeline_plan_to_query p = plan_to_query p"
  by (induction p rule: pipeline_plan_to_query.induct) (simp_all cong: try_map_cong and_then_cong)

lemma pipeline_is_safe_same: "pipeline_is_safe q = is_safe_to_optimize q"
  by (induction q rule: pipeline_is_safe.induct) (auto simp: list_all_iff)

lemma pipeline_optimize_same: "pipeline_optimize_query q = optimize_query q"
  by (simp add: pipeline_optimize_query_def optimize_query_def pipeline_plan_to_query_same pipeline_is_safe_same)

lemma boost_last_term:
  assumes "boost_last sc"
  shows "f_mul (score sc p info stats) b =
           sc \<lparr>sx_doc_id = doc_id p, sx_posting = p, sx_term_info = info, sx_doc_stats = stats, sx_query_boost = b\<rparr>"
  using assms [unfolded boost_last_def, rule_format,
      of "\<lparr>sx_doc_id = doc_id p, sx_posting = p, sx_term_info = info, sx_doc_stats = stats, sx_query_boost = b\<rparr>"]
  by (simp add: score_def)

lemma calculate_score_same:
  assumes "boost_last sc"
  shows "calculate_score_with sc ix stats d q = calculate_score sc ix stats d q"
proof (induction q)
  case (Term tq)
  have found: "doc_id p = d" if "List.find (\<lambda>p. doc_id p = d) ps = Some p" for p ps
    using that by (auto simp: find_Some_iff)
  show ?case
    by (auto simp: score_term_query_def boost_last_term [OF assms] split: option.splits intro!: and_then_cong)
      (simp add: found)
next
  case (Bool must should must_not filters msm boost)
  have "sum_scores (calculate_score_with sc ix stats d) t qs = sum_scores (calculate_score sc ix stats d) t qs"
    if "set qs \<subseteq> set must \<union> set should" for t qs
    using that Bool.IH by (intro sum_scores_cong refl) blast
  then show ?case by simp
qed simp_all

lemma pipeline_docs_top_k:
  "(\<And>doc. score_doc doc = score_doc' doc) \<Longrightarrow>
   pipeline_docs collect_matched score_doc deleted docs c =
     and_then (collect_hits score_doc' deleted docs c) (\<lambda>c. Ok (c, Continue))"
  by (induction docs arbitrary: c) (auto simp: collect_matched_def and_then_def split: sum.splits)

lemma pipeline_segments_top_k:
  "(\<And>doc. score_doc doc = score_doc' doc) \<Longrightarrow>
   pipeline_segments cd reader q collect_matched score_doc segs c = collect_segments cd reader q score_doc' segs c"
  by (induction segs arbitrary: c)
    (auto simp: pipeline_docs_top_k [of score_doc score_doc'] and_then_def split: sum.splits)


text \<open>
  C10: The search pipeline and the query executor are the same search when no explanations are asked
  for.  For every reader, query and limit, a pipeline with the BM25 or the normalised TF-IDF scorer
  and the top-k collector gives the same result as the executor with that scoring and equal
  switches, the errors and the order of the hits included, although one passes a boost to the scorer
  where the other multiplies by it afterwards.  (With explanations the two describe a score
  differently.)
\<close>

theorem pipeline_is_executor:
  assumes "\<not> pc_collect_explanations pc"
    and "(algorithm, sc) \<in> {(BM25, bm25_score_ctx bm25_default), (TfIdf, tf_idf_score_ctx True)}"
  shows "pipeline_run cd (build_pipeline pc sc top_k_ops (top_k_new limit)) reader q =
         execute query_executor_new cd reader q limit
           \<lparr>xc_scoring = algorithm, xc_enable_optimization = pc_enable_optimization pc,
            xc_enable_validation = pc_enable_validation pc, xc_collect_explanations = False,
            xc_timeout_ms = pc_timeout_ms pc\<rparr>"
proof -
  let ?config = "\<lparr>xc_scoring = algorithm, xc_enable_optimization = pc_enable_optimization pc,
            xc_enable_validation = pc_enable_validation pc, xc_collect_explanations = False,
            xc_timeout_ms = pc_timeout_ms pc\<rparr>"
  let ?pipeline = "build_pipeline pc sc top_k_ops (top_k_new limit)"
  let ?ix = "mx_index (ir_context reader)"
  have sc: "boost_last sc" "document_score algorithm ix stats d q' = calculate_score sc ix stats d q'"
    for ix :: "'m inverted_index" and stats d q'
    using assms(2) bm25_boost_last tf_idf_boost_last by (auto simp: document_score_def)
  have hit: "pipeline_hit ?pipeline ?ix (from_index ?ix) q' doc = score_hit ?config ?ix (from_index ?ix) q' doc" for q' doc
    using assms(1) by (simp add: pipeline_hit_def score_hit_def build_pipeline_def calculate_score_same [OF sc(1)] sc(2))
  have "pipeline_segments cd reader q' collect_matched (pipeline_hit ?pipeline ?ix (from_index ?ix) q')
      (ir_segments reader) (top_k_new limit) = execute_on_segments cd reader q' (top_k_new limit) ?config" for q'
    unfolding execute_on_segments_def Let_def by (rule pipeline_segments_top_k) (rule hit)
  then show ?thesis
    by (simp add: pipeline_run_def execute_def build_pipeline_def top_k_ops_def Let_def query_executor_new_def
        pipeline_optimize_same into_results_def get_results_def cong: and_then_cong)
qed

text \<open>The default pipeline is the one with BM25.\<close>

lemma build_default_bm25: "build_default pc limit = build_pipeline pc (bm25_score_ctx bm25_default) top_k_ops (top_k_new limit)"
  by (simp add: build_default_def build_pipeline_def)

subsection \<open>What the executor returns\<close>

lemma collect_hits_holds:
  assumes "\<forall>d \<in> set docs. alive deleted d \<longrightarrow> score_doc (hit d) = Ok (f d)"
  shows "collect_hits score_doc deleted (map hit docs) c = Ok (foldl collect c (map f (filter (alive deleted) docs)))"
  using assms by (induction docs arbitrary: c) (simp_all add: hit_def)

lemma collect_segments_holds:
  assumes "list_all2 (reader_holds cd (ir_context reader)) segs docss"
    and "\<forall>d \<in> set (concat docss). satisfies (ir_context reader) d q \<and> alive (ir_deleted_docs reader) d \<longrightarrow>
           score_doc (hit d) = Ok (f d)"
  shows "collect_segments cd reader q score_doc segs c =
           Ok (foldl collect c (map f (filter (\<lambda>d. satisfies (ir_context reader) d q \<and> alive (ir_deleted_docs reader) d)
                 (concat docss))))"
  using assms
proof (induction arbitrary: c rule: list_all2_induct)
  case (Cons seg segs docs docss)
  let ?P = "\<lambda>d. satisfies (ir_context reader) d q"
  have "segment_search cd (ir_context reader) seg q = Ok (map hit (filter ?P docs))"
    using Cons.hyps(1) by (simp add: reader_holds_def)
  moreover have "collect_hits score_doc (ir_deleted_docs reader) (map hit (filter ?P docs)) c =
      Ok (foldl collect c (map f (filter (alive (ir_deleted_docs reader)) (filter ?P docs))))"
    using Cons.prems by (intro collect_hits_holds) auto
  ultimately show ?case
    using Cons.IH Cons.prems by (simp add: conj_commute)
qed simp

lemma optimize_query_satisfies:
  assumes "unmixed q" "(if b then optimize_query q else Ok q) = Ok q'"
  shows "satisfies cx d q' = satisfies cx d q"
proof (cases b)
  case True
  then have "matches cx d q' = matches cx d q" using assms optimize_query_matches [OF assms(1), of cx d] by auto
  then show ?thesis by (simp add: satisfies_def)
qed (use assms(2) in simp)

lemma run_query_satisfied:
  assumes "index_ok (mx_index cx)" "(if b then optimize_query q else Ok q) = Ok q'" "satisfies cx d q"
  shows "satisfies cx d q'"
  using assms optimize_query_satisfied [OF assms(1) _ assms(3)] by (auto split: if_splits)

lemma run_query_kept:
  assumes "(if b then optimize_query q else Ok q) = Ok q'" "survivors = filter (\<lambda>d. satisfies cx d q' \<and> alive deleted d) docs"
  shows "index_ok (mx_index cx) \<Longrightarrow> {d \<in> set docs. satisfies cx d q \<and> alive deleted d} \<subseteq> set survivors"
    "unmixed q \<Longrightarrow> survivors = filter (\<lambda>d. satisfies cx d q \<and> alive deleted d) docs"
  using run_query_satisfied [OF _ assms(1), of cx] optimize_query_satisfies [OF _ assms(1), of cx] by (auto simp: assms(2))

lemma execute_collects:
  assumes "list_all2 (reader_holds cd (ir_context reader)) (ir_segments reader) docss"
    and "(if xc_enable_optimization config then optimize_query q else Ok q) = Ok q'"
    and "xc_enable_validation config \<Longrightarrow> validate (qx_validator_config self) q = Ok ()"
    and "survivors = filter (\<lambda>d. satisfies (ir_context reader) d q' \<and> alive (ir_deleted_docs reader) d) (concat docss)"
    and "\<forall>d \<in> set survivors.
           score_hit config (mx_index (ir_context reader)) (from_index (mx_index (ir_context reader))) q' (hit d) = Ok (f d)"
  shows "execute self cd reader q limit config = into_results (collect_all_docs limit (map f survivors))"
proof -
  have "execute_on_segments cd reader q' (top_k_new limit) config = Ok (collect_all_docs limit (map f survivors))"
    unfolding execute_on_segments_def Let_def collect_all_docs_def
    by (subst collect_segments_holds [OF assms(1), of q' _ f]) (use assms(4,5) in auto)
  then show ?thesis
    using assms(2,3) by (simp add: execute_def into_results_def get_results_def)
qed


subsection \<open>Scores without inverse document frequencies\<close>

text \<open>Queries of terms only, and those without boosts.\<close>

fun term_only :: "query \<Rightarrow> bool" where
  "term_only (Term tq) = True"
| "term_only (Bool must should must_not filters msm boost) = (list_all term_only must \<and> list_all term_only should)"
| "term_only q = False"

abbreviation zero_or_nan :: "fval \<Rightarrow> bool" where
  "zero_or_nan v \<equiv> v = Fin 0 \<or> v = NaN"

lemma zero_or_nan_mul: "zero_or_nan v \<Longrightarrow> zero_or_nan (f_mul v b)"
  using f_mul_zero_left [of b] by auto

lemma sum_scores_zero:
  "sum_scores g t qs = Ok s \<Longrightarrow> zero_or_nan t \<Longrightarrow> \<forall>q \<in> set qs. \<forall>v. g q = Ok v \<longrightarrow> zero_or_nan v \<Longrightarrow> zero_or_nan s"
proof (induction qs arbitrary: t)
  case (Cons q qs)
  then obtain v where v: "g q = Ok v" "sum_scores g (f_add t v) qs = Ok s" "zero_or_nan v"
    by (auto simp: and_then_Ok_iff)
  then have "zero_or_nan (f_add t v)" using Cons.prems(2) by auto
  then show ?case using Cons.IH [OF v(2)] Cons.prems(3) by simp
qed simp

lemma calculate_score_zero:
  assumes "idf_unset (ix_dictionary ix)" "\<And>cx. ti_idf (sx_term_info cx) = Fin 0 \<Longrightarrow> zero_or_nan (sc cx)"
    "term_only q" "calculate_score sc ix stats d q = Ok s"
  shows "zero_or_nan s"
  using assms(3,4)
proof (induction q arbitrary: s)
  case (Term tq)
  have "ti_idf info = Fin 0" if "get_term_info (ix_dictionary ix) t = Ok (Some info)" for t info
    using that assms(1) by (auto simp: get_term_info_def idf_unset_def index_def and_then_Ok_iff split: option.splits if_splits)
  then have z: "zero_or_nan (f_mul (score sc p info stats) b)"
    if "get_term_info (ix_dictionary ix) t = Ok (Some info)" for t info p stats b
    using that by (intro zero_or_nan_mul) (auto simp: score_def intro!: assms(2))
  from Term show ?case
    by (auto simp: score_term_query_def and_then_Ok_iff split: option.splits) (use z in blast)
next
  case (Bool must should must_not filters msm boost)
  then obtain a b where ab: "sum_scores (calculate_score sc ix stats d) (Fin 0) must = Ok a"
    "sum_scores (calculate_score sc ix stats d) a should = Ok b" "s = f_mul b (boost_or_1 boost)"
    by (auto simp: and_then_Ok_iff)
  have "zero_or_nan a" using Bool by (intro sum_scores_zero [OF ab(1)]) (auto simp: list_all_iff)
  then have "zero_or_nan b" using Bool by (intro sum_scores_zero [OF ab(2)]) (auto simp: list_all_iff)
  with ab(3) zero_or_nan_mul show ?case by blast
qed simp_all

text \<open>On a well-formed index every score can be computed.\<close>

lemma get_term_info_total: "index_ok ix \<Longrightarrow> \<exists>info. get_term_info (ix_dictionary ix) t = Ok info"
proof -
  assume "index_ok ix"
  then have "map snd (td_term_map (ix_dictionary ix)) = [0..<length (td_term_infos (ix_dictionary ix))]"
    by (simp add: index_ok_def dictionary_ok_def Let_def)
  from arg_cong [OF this, of set] have "i < length (td_term_infos (ix_dictionary ix))"
    if "map_of (td_term_map (ix_dictionary ix)) t = Some i" for i
    using map_of_SomeD [OF that] by force
  then show ?thesis by (auto simp: get_term_info_def split: option.split)
qed

lemma sum_scores_total: "\<forall>q \<in> set qs. \<exists>s. g q = Ok s \<Longrightarrow> \<exists>s. sum_scores g t qs = Ok s"
  by (induction qs arbitrary: t) auto

lemma calculate_score_total:
  assumes "index_ok ix"
  shows "\<exists>s. calculate_score sc ix stats d q = Ok s"
proof (induction q)
  case (Term tq)
  obtain info where "get_term_info (ix_dictionary ix) (tq_value tq) = Ok info"
    using get_term_info_total [OF assms] by blast
  with index_ok_iter [OF assms, of "tq_value tq"] show ?case
    by (fastforce simp: score_term_query_def search_term_def split: option.splits)
next
  case (Bool must should must_not filters msm boost)
  obtain a where "sum_scores (calculate_score sc ix stats d) (Fin 0) must = Ok a"
    using sum_scores_total Bool.IH(1) by blast
  moreover obtain b where "sum_scores (calculate_score sc ix stats d) a should = Ok b"
    using sum_scores_total Bool.IH(2) by blast
  ultimately show ?case by simp
qed simp_all

lemma index_documents_idf_unset:
  "index_documents ord ix docs = Ok ix' \<Longrightarrow> idf_unset (ix_dictionary ix) \<Longrightarrow> idf_unset (ix_dictionary ix')"
  by (induction ord ix docs rule: index_documents.induct) (auto simp: and_then_Ok_iff dest: add_document_idf_unset)

text \<open>
  Relevance is never computed.  In every index that documents were added to, the inverse
  document frequency of each term is still zero, since nothing calls \<^verbatim>\<open>calculate_idf\<close>; so BM25 and
  TF-IDF give every document the score zero (or NaN) for every query made of terms.
\<close>

theorem relevance_never_computed:
  assumes "index_documents ord inverted_index_new docs = Ok ix" "index_ok ix" "term_only q" "algorithm \<noteq> NoScoring"
  shows "\<exists>s. document_score algorithm ix (from_index ix) d q = Ok s \<and> (s = Fin 0 \<or> s = NaN)"
proof -
  obtain s where s: "document_score algorithm ix (from_index ix) d q = Ok s"
    using calculate_score_total [OF assms(2), of _ "from_index ix" d q]
    by (cases algorithm) (simp_all add: document_score_def, blast+)
  have "idf_unset (ix_dictionary ix)"
    by (rule index_documents_idf_unset [OF assms(1)]) (simp add: inverted_index_new_def idf_unset_new)
  note zero = calculate_score_zero [OF this _ assms(3)]
  have "s = Fin 0 \<or> s = NaN"
    using assms(4) s zero [OF bm25_zero_idf] zero [OF tf_idf_zero_idf] by (cases algorithm) (auto simp: document_score_def)
  with s show ?thesis by blast
qed

subsection \<open>Scores on an empty index\<close>

lemma collect_zero_scores:
  assumes "\<forall>d \<in> set ds. sd_score d = Fin 0"
  shows "collect_all_docs k ds = \<lparr>tk_heap = rev (take k ds), tk_k = k, tk_min_score = Fin 0, tk_total_collected = length ds\<rparr>"
  using assms
proof (induction ds rule: rev_induct)
  case (snoc d ds)
  then show ?case
    by (simp add: collect_all_docs_def collect_def heap_push_def f_lt_def Let_def)
qed (simp add: collect_all_docs_def top_k_new_def)

fun boost_free :: "query \<Rightarrow> bool" where
  "boost_free (Term tq) = (tq_boost tq = None)"
| "boost_free (Bool must should must_not filters msm boost) =
     (boost = None \<and> list_all boost_free must \<and> list_all boost_free should)"
| "boost_free q = True"

lemma sum_scores_all_zero: "\<forall>q \<in> set qs. g q = Ok (Fin 0) \<Longrightarrow> sum_scores g (Fin 0) qs = Ok (Fin 0)"
  by (induction qs) simp_all

lemma calculate_score_empty:
  "term_only q \<Longrightarrow> boost_free q \<Longrightarrow> calculate_score sc (inverted_index_new :: 'm inverted_index) stats d q = Ok (Fin 0)"
proof (induction q)
  case (Bool must should must_not filters msm boost)
  then have "sum_scores (calculate_score sc (inverted_index_new :: 'm inverted_index) stats d) (Fin 0) qs = Ok (Fin 0)"
    if "qs = must \<or> qs = should" for qs
    using that by (intro sum_scores_all_zero) (auto simp: list_all_iff)
  with Bool.prems show ?case by (simp add: boost_or_1_def)
qed (simp_all add: score_term_query_def search_term_def inverted_index_new_def)

text \<open>
  On an empty index, and the index that the engine gives its readers is never filled, a limited
  search by terms returns the first matching documents in the order in which they were written,
  all with score zero.
\<close>

theorem empty_index_returns_first:
  assumes "list_all2 (reader_holds cd (ir_context reader)) (ir_segments reader) docss"
    and "(if xc_enable_optimization config then optimize_query q else Ok q) = Ok q'"
    and "xc_enable_validation config \<Longrightarrow> validate (qx_validator_config self) q = Ok ()"
    and "survivors = filter (\<lambda>d. satisfies (ir_context reader) d q' \<and> alive (ir_deleted_docs reader) d) (concat docss)"
    and "mx_index (ir_context reader) = inverted_index_new" "term_only q'" "boost_free q'"
    and "xc_scoring config \<noteq> NoScoring" "\<not> xc_collect_explanations config"
  shows "\<exists>r. execute self cd reader q limit config = Ok r \<and>
             mset (sr_hits r) = mset (map (\<lambda>d. (hit d)\<lparr>sd_score := Fin 0\<rparr>) (take limit survivors)) \<and>
             sr_total_hits r = length survivors"
proof -
  let ?f = "\<lambda>d. (hit d)\<lparr>sd_score := Fin 0\<rparr>"
  have score: "document_score (xc_scoring config) (mx_index (ir_context reader)) stats d q' = Ok (Fin 0)" for d stats
    unfolding assms(5) using calculate_score_empty [OF assms(6,7)] assms(8) by (cases "xc_scoring config") (simp_all add: document_score_def)
  have hits: "score_hit config (mx_index (ir_context reader)) stats q' (hit d) = Ok (?f d)" for d stats
    using assms(9) by (simp add: score_hit_def score hit_def)
  have "execute self cd reader q limit config = into_results (collect_all_docs limit (map ?f survivors))"
    by (rule execute_collects [OF assms(1-4)]) (auto intro: hits)
  also have "collect_all_docs limit (map ?f survivors) =
      \<lparr>tk_heap = rev (take limit (map ?f survivors)), tk_k = limit, tk_min_score = Fin 0, tk_total_collected = length (map ?f survivors)\<rparr>"
    by (rule collect_zero_scores) auto
  finally show ?thesis
    by (auto simp: into_results_def sort_descending_def take_map dest: in_set_takeD)
qed

subsection \<open>Instances\<close>

lemma plain_live:
  "filter (\<lambda>d. satisfies (ir_context (plain_reader [rd] {4})) d MatchAll \<and> alive (ir_deleted_docs (plain_reader [rd] {4})) d)
     (concat [map document_new [4, 5]]) = [document_new 5]"
  by (simp add: plain_reader_def document_new_def)

lemma plain_holds:
  "reader_holds plain_codec empty_context rd docs \<Longrightarrow>
     list_all2 (reader_holds plain_codec (ir_context (plain_reader [rd] dels))) (ir_segments (plain_reader [rd] dels)) [docs]"
  by (simp add: plain_reader_def)


theorem pipeline_is_executor_witness:
  "\<exists>rd r. reader_holds plain_codec empty_context rd (map document_new [4, 5]) \<and>
     pipeline_run plain_codec (build_default pipeline_config_default 10) (plain_reader [rd] {4}) MatchAll = Ok r \<and>
     sr_hits r = [hit (document_new 5)] \<and>
     execute query_executor_new plain_codec (plain_reader [rd] {4}) MatchAll 10 execution_config_default = Ok r"
proof -
  obtain rd where rd: "reader_holds plain_codec empty_context rd (map document_new [4, 5])"
    using plain_reader_exists [of "[4, 5]"] by (auto simp: small_id_def)
  let ?reader = "plain_reader [rd] {4}" and ?c = "execution_config_default"
  have "\<forall>d \<in> set [document_new 5]. score_hit ?c (mx_index (ir_context ?reader)) (from_index (mx_index (ir_context ?reader)))
      MatchAll (hit d) = Ok (hit d)"
    by (simp add: execution_config_default_def score_hit_def document_score_def hit_def)
  from execute_collects [OF plain_holds [OF rd] _ _ plain_live [symmetric] this, of MatchAll query_executor_new 10]
  have ex: "execute query_executor_new plain_codec ?reader MatchAll 10 ?c = into_results (collect_all_docs 10 [hit (document_new 5)])"
    by (simp add: execution_config_default_def optimize_query_def plan_def optimize_def optimizer_rules_def filter_pushdown_def
        limit_merge_def validate_def validate_depth_recursive.simps query_executor_new_def validation_config_default_def)
  have "\<exists>r. into_results (collect_all_docs 10 [hit (document_new 5)]) = Ok r \<and> sr_hits r = [hit (document_new 5)]"
    by (simp add: into_results_def collect_all_docs_def collect_def top_k_new_def heap_push_def sort_descending_def)
  moreover have "pipeline_run plain_codec (build_default pipeline_config_default 10) ?reader MatchAll =
      execute query_executor_new plain_codec ?reader MatchAll 10 ?c"
    using pipeline_is_executor [of pipeline_config_default BM25 "bm25_score_ctx bm25_default" plain_codec 10 ?reader MatchAll]
    by (simp add: build_default_bm25 pipeline_config_default_def execution_config_default_def)
  ultimately show ?thesis using rd ex by auto
qed

theorem relevance_never_computed_witness:
  "\<exists>(ix :: unit inverted_index) s.
     index_documents id inverted_index_new sample_docs = Ok ix \<and>
     document_score BM25 ix (from_index ix) 1 (term_on ''a'') = Ok s \<and> (s = Fin 0 \<or> s = NaN)"
proof -
  obtain ix :: "unit inverted_index" where
    ix: "index_documents id inverted_index_new sample_docs = Ok ix" "index_ok ix"
    using index_documents_ok [where ord = id and ix = "inverted_index_new :: unit inverted_index", OF index_ok_new, of sample_docs]
    by (auto simp: sample_docs_def small_id_def term_docs_def inverted_index_new_def)
  from relevance_never_computed [OF this, of "term_on ''a''" BM25] ix(1) show ?thesis
    by (simp add: term_on_def)
qed

theorem empty_index_returns_first_witness:
  "\<exists>rd r. reader_holds plain_codec empty_context rd (map document_new [4, 5]) \<and>
     execute query_executor_new plain_codec (plain_reader [rd] {}) (Bool [] [] [term_on ''a''] [] None None) 1
       execution_config_default = Ok r \<and>
     sr_hits r = [(hit (document_new 4))\<lparr>sd_score := Fin 0\<rparr>]"
proof -
  let ?q = "Bool [] [] [term_on ''a''] [] None None"
  obtain rd where rd: "reader_holds plain_codec empty_context rd (map document_new [4, 5])"
    using plain_reader_exists [of "[4, 5]"] by (auto simp: small_id_def)
  let ?reader = "plain_reader [rd] {}"
  have sat: "satisfies empty_context (document_new d) ?q" for d
    by (simp add: satisfies_def term_on_def visit_term_def field_contains_text_def document_new_def get_field_def)
  have alive: "filter (\<lambda>d. satisfies (ir_context ?reader) d ?q \<and> alive (ir_deleted_docs ?reader) d)
      (concat [map document_new [4, 5]]) = map document_new [4, 5]"
    by (simp add: plain_reader_def sat)
  have "\<exists>r. execute query_executor_new plain_codec ?reader ?q 1 execution_config_default = Ok r \<and>
      mset (sr_hits r) = mset (map (\<lambda>d. (hit d)\<lparr>sd_score := Fin 0\<rparr>) (take 1 (map document_new [4, 5]))) \<and>
      sr_total_hits r = length (map document_new [4, 5])"
    by (rule empty_index_returns_first [OF plain_holds [OF rd], where q' = ?q])
      (simp_all only: alive, simp_all add: execution_config_default_def optimize_query_def validate_def validate_depth_recursive.simps
        query_executor_new_def validation_config_default_def term_on_def plain_reader_def empty_context_def)
  with rd show ?thesis by auto
qed

end
