(* ===== verification/Memory.thy ===== *)
theory Memory
  imports Scoring
begin

section \<open>Memory management\<close>

text \<open>
  The model of \<^verbatim>\<open>src/memory/\<close>: the usage tracker, the block pool, the buffer pool, the adaptive
  manager, the low memory mode and the swap manager.  The tracker's counter is a 64-bit word, whose
  atomic addition and subtraction wrap.  A pointer is the number that the allocator returned, a
  buffer is its content and its capacity.  The pressure callbacks, which the code only calls, and
  the hint to the allocator are left out.  The crate \<^verbatim>\<open>lz4\<close> is a parameter of the swap manager.
\<close>

subsection \<open>Usage tracker\<close>

record memory_tracker =
  mt_usage :: u64
  mt_limit :: u64

definition memory_tracker_new :: "u64 \<Rightarrow> memory_tracker" where
  "memory_tracker_new limit = \<lparr>mt_usage = 0, mt_limit = limit\<rparr>"

definition out_of_memory :: error where
  "out_of_memory = Error OutOfMemory ''Memory limit exceeded''"

text \<open>
  A call of \<^verbatim>\<open>allocate\<close> is two atomic steps: the addition, which gives the new usage, and, when that
  exceeds the limit, the subtraction.
\<close>

definition allocate_add :: "memory_tracker \<Rightarrow> u64 \<Rightarrow> u64 \<times> memory_tracker" where
  "allocate_add self n = (mt_usage self + n, self\<lparr>mt_usage := mt_usage self + n\<rparr>)"

definition allocate_check :: "memory_tracker \<Rightarrow> u64 \<Rightarrow> u64 \<Rightarrow> unit result \<times> memory_tracker" where
  "allocate_check self new_usage n =
     (if new_usage > mt_limit self
      then (Err out_of_memory, self\<lparr>mt_usage := mt_usage self - n\<rparr>)
      else (Ok (), self))"

definition mt_allocate :: "memory_tracker \<Rightarrow> u64 \<Rightarrow> unit result \<times> memory_tracker" where
  "mt_allocate self n =
     (let (new_usage, self) = allocate_add self n
      in allocate_check self new_usage n)"

definition mt_deallocate :: "memory_tracker \<Rightarrow> u64 \<Rightarrow> memory_tracker" where
  "mt_deallocate self n = self\<lparr>mt_usage := mt_usage self - n\<rparr>"

definition current_usage :: "memory_tracker \<Rightarrow> u64" where
  "current_usage self = mt_usage self"

subsection \<open>Block pool\<close>

record block =
  bl_ptr :: nat
  bl_size :: nat
  bl_in_use :: bool

record memory_pool =
  mp_blocks :: "block list"
  mp_free_list :: "nat list"
  mp_total_size :: nat
  mp_used_size :: nat

text \<open>The pointers are what the allocator returns for the blocks, one after the other.\<close>

definition memory_pool_new :: "nat list \<Rightarrow> nat \<Rightarrow> memory_pool" where
  "memory_pool_new ptrs block_size =
     \<lparr>mp_blocks = map (\<lambda>p. \<lparr>bl_ptr = p, bl_size = block_size, bl_in_use = False\<rparr>) ptrs,
      mp_free_list = [0..<length ptrs], mp_total_size = length ptrs * block_size, mp_used_size = 0\<rparr>"

fun take_block :: "nat \<Rightarrow> block list \<Rightarrow> (nat \<times> block list) option" where
  "take_block n [] = None"
| "take_block n (b # bs) =
     (if bl_size b \<ge> n \<and> \<not> bl_in_use b then Some (bl_ptr b, b\<lparr>bl_in_use := True\<rparr> # bs)
      else map_option (\<lambda>(p, bs). (p, b # bs)) (take_block n bs))"

definition pool_allocate :: "memory_pool \<Rightarrow> nat \<Rightarrow> (nat \<times> memory_pool) option" where
  "pool_allocate self n = map_option (\<lambda>(p, bs). (p, self\<lparr>mp_blocks := bs\<rparr>)) (take_block n (mp_blocks self))"

fun release_block :: "nat \<Rightarrow> block list \<Rightarrow> block list" where
  "release_block p [] = []"
| "release_block p (b # bs) = (if bl_ptr b = p then b\<lparr>bl_in_use := False\<rparr> # bs else b # release_block p bs)"

definition pool_deallocate :: "memory_pool \<Rightarrow> nat \<Rightarrow> memory_pool" where
  "pool_deallocate self p = self\<lparr>mp_blocks := release_block p (mp_blocks self)\<rparr>"

subsection \<open>Buffer pool\<close>

record buffer =
  bf_content :: byte_vec
  bf_capacity :: nat

type_synonym buffer_pool = "(nat \<times> buffer list) list"

definition next_power_of_two :: "nat \<Rightarrow> nat" where
  "next_power_of_two n = (if n \<le> 1 then 1 else 2 ^ bit_length (n - 1))"

definition buffer_pool_new :: buffer_pool where
  "buffer_pool_new = map (\<lambda>size_class. (size_class, [])) [256, 1024, 4096, 16384, 65536]"

definition get_buffer :: "buffer_pool \<Rightarrow> nat \<Rightarrow> buffer \<times> buffer_pool" where
  "get_buffer self n =
     (let size_class = next_power_of_two n
      in case map_of self size_class of
           Some (buf # queue) \<Rightarrow> (buf, AList.update size_class queue self)
         | _ \<Rightarrow> (\<lparr>bf_content = replicate size_class 0, bf_capacity = size_class\<rparr>, self))"

definition return_buffer :: "buffer_pool \<Rightarrow> buffer \<Rightarrow> buffer_pool" where
  "return_buffer self buf =
     (let size_class = next_power_of_two (bf_capacity buf);
          buf = buf\<lparr>bf_content := []\<rparr>
      in case map_of self size_class of
           Some queue \<Rightarrow> if length queue < 100 then AList.update size_class (queue @ [buf]) self else self
         | None \<Rightarrow> self)"

subsection \<open>Adaptive manager and low memory mode\<close>

record low_memory_config =
  lm_heap_limit :: nat
  lm_buffer_size :: nat
  lm_cache_size :: nat
  lm_batch_size :: nat
  lm_enable_compression :: bool
  lm_swap_to_disk :: bool
  lm_gc_threshold :: fval

definition low_memory_config_default :: low_memory_config where
  "low_memory_config_default =
     \<lparr>lm_heap_limit = 50 * 1024 * 1024, lm_buffer_size = 4 * 1024, lm_cache_size = 5 * 1024 * 1024,
      lm_batch_size = 100, lm_enable_compression = True, lm_swap_to_disk = True,
      lm_gc_threshold = round_f32 (8 / 10)\<rparr>"

record cache_sizes =
  cz_page_cache :: nat
  cz_query_cache :: nat
  cz_buffer_pool :: nat

datatype eviction_policy = LRU | LFU | FIFO | Adaptive

record adaptive_manager =
  am_config :: low_memory_config
  am_cache_sizes :: cache_sizes
  am_eviction_policy :: eviction_policy

definition adaptive_manager_new :: "low_memory_config \<Rightarrow> adaptive_manager" where
  "adaptive_manager_new config =
     \<lparr>am_config = config,
      am_cache_sizes = \<lparr>cz_page_cache = 2 * 1024 * 1024, cz_query_cache = 1024 * 1024, cz_buffer_pool = 2 * 1024 * 1024\<rparr>,
      am_eviction_policy = Adaptive\<rparr>"

definition adapt_caches :: "adaptive_manager \<Rightarrow> fval \<Rightarrow> adaptive_manager" where
  "adapt_caches self pressure =
     self\<lparr>am_cache_sizes :=
       (if f_lt (round_f32 (9 / 10)) pressure
        then \<lparr>cz_page_cache = 512 * 1024, cz_query_cache = 0, cz_buffer_pool = 512 * 1024\<rparr>
        else if f_lt (round_f32 (7 / 10)) pressure
        then \<lparr>cz_page_cache = 1024 * 1024, cz_query_cache = 512 * 1024, cz_buffer_pool = 1024 * 1024\<rparr>
        else \<lparr>cz_page_cache = 2 * 1024 * 1024, cz_query_cache = 1024 * 1024, cz_buffer_pool = 2 * 1024 * 1024\<rparr>)\<rparr>"

definition get_batch_size :: "adaptive_manager \<Rightarrow> fval \<Rightarrow> nat" where
  "get_batch_size self pressure =
     (if f_lt (round_f32 (8 / 10)) pressure then 10
      else if f_lt (round_f32 (6 / 10)) pressure then 50
      else lm_batch_size (am_config self))"

subsection \<open>Swap manager\<close>

record lz4_block =
  lzb_compress :: "byte_vec \<Rightarrow> byte_vec result"
  lzb_decompress :: "byte_vec \<Rightarrow> byte_vec result"

record swap_manager =
  sm_files :: "string \<rightharpoonup> byte_vec"
  sm_swapped_pages :: "(u64 \<times> string) list"
  sm_swap_threshold :: nat

definition swap_manager_new :: swap_manager where
  "swap_manager_new = \<lparr>sm_files = Map.empty, sm_swapped_pages = [], sm_swap_threshold = 1024 * 1024\<rparr>"

definition swap_out :: "lz4_block \<Rightarrow> swap_manager \<Rightarrow> u64 \<Rightarrow> byte_vec \<Rightarrow> unit result \<times> swap_manager" where
  "swap_out lz self page_id data =
     (let page_path = show_nat (unat page_id) @ ''.page''
      in case (if length data > sm_swap_threshold self then lzb_compress lz data else Ok data) of
           Inl e \<Rightarrow> (Err e, self)
         | Inr to_write \<Rightarrow>
             (Ok (), self\<lparr>sm_files := (sm_files self)(page_path \<mapsto> to_write),
                          sm_swapped_pages := AList.update page_id page_path (sm_swapped_pages self)\<rparr>))"

definition lz4_magic :: byte_vec where
  "lz4_magic = [0x4C, 0x5A, 0x34, 0]"

definition swap_in :: "lz4_block \<Rightarrow> swap_manager \<Rightarrow> u64 \<Rightarrow> byte_vec result \<times> swap_manager" where
  "swap_in lz self page_id =
     (case map_of (sm_swapped_pages self) page_id of
        None \<Rightarrow> (Err (Error NotFound ''Page not in swap''), self)
      | Some page_path \<Rightarrow>
          (case sm_files self page_path of
             None \<Rightarrow> Err (Error Io ''No such file or directory'')
           | Some data \<Rightarrow>
               if length data > 4 \<and> take 4 data = lz4_magic then lzb_decompress lz (drop 4 data) else Ok data,
           self\<lparr>sm_swapped_pages := AList.delete page_id (sm_swapped_pages self)\<rparr>))"

definition swap_cold_data :: "swap_manager \<Rightarrow> unit result \<times> swap_manager" where
  "swap_cold_data self = (Ok (), self)"

subsection \<open>Low memory mode\<close>

record low_memory_mode =
  lw_config :: low_memory_config
  lw_memory_tracker :: memory_tracker
  lw_adaptive_manager :: adaptive_manager
  lw_swap_manager :: swap_manager

definition low_memory_mode_new :: "low_memory_config \<Rightarrow> low_memory_mode" where
  "low_memory_mode_new config =
     \<lparr>lw_config = config, lw_memory_tracker = memory_tracker_new (of_nat (lm_heap_limit config)),
      lw_adaptive_manager = adaptive_manager_new config, lw_swap_manager = swap_manager_new\<rparr>"

definition is_enabled :: "low_memory_mode \<Rightarrow> bool" where
  "is_enabled self \<longleftrightarrow> lm_heap_limit (lw_config self) < 100 * 1024 * 1024"

definition memory_pressure :: "low_memory_mode \<Rightarrow> fval" where
  "memory_pressure self =
     f_div (f_of_nat (unat (current_usage (lw_memory_tracker self)))) (f_of_nat (lm_heap_limit (lw_config self)))"

text \<open>Clearing the caches and flushing the buffers only print a message.\<close>

definition reclaim_memory :: "low_memory_mode \<Rightarrow> unit result \<times> low_memory_mode" where
  "reclaim_memory self =
     (if lm_swap_to_disk (lw_config self)
      then let (r, swap) = swap_cold_data (lw_swap_manager self)
           in (r, self\<lparr>lw_swap_manager := swap\<rparr>)
      else (Ok (), self))"

definition maybe_reclaim :: "low_memory_mode \<Rightarrow> unit result \<times> low_memory_mode" where
  "maybe_reclaim self =
     (if f_lt (lm_gc_threshold (lw_config self)) (memory_pressure self) then reclaim_memory self else (Ok (), self))"

subsection \<open>The tracker under concurrent use\<close>

text \<open>
  The tracker is shared between threads, so between the two steps of one call any steps of others
  can happen.  A state has the tracker, the calls between their steps with the new usage that each
  has seen, and the sizes that were granted and not yet released.  A release subtracts whatever size
  it is given, granted or not, and every addition and subtraction wraps, as in the code.
\<close>

record tracker_state =
  tr_tracker :: memory_tracker
  tr_pending :: "(u64 \<times> u64) list"
  tr_granted :: "u64 list"

datatype tracker_event = RequestAdds u64 | RequestChecks nat | Releases u64

fun tracker_apply :: "tracker_state \<Rightarrow> tracker_event \<Rightarrow> tracker_state" where
  "tracker_apply s (RequestAdds n) =
     (let (new_usage, t) = allocate_add (tr_tracker s) n
      in s\<lparr>tr_tracker := t, tr_pending := tr_pending s @ [(new_usage, n)]\<rparr>)"
| "tracker_apply s (RequestChecks i) =
     (if i < length (tr_pending s)
      then let (new_usage, n) = tr_pending s ! i;
               (r, t) = allocate_check (tr_tracker s) new_usage n;
               s = s\<lparr>tr_tracker := t, tr_pending := take i (tr_pending s) @ drop (Suc i) (tr_pending s)\<rparr>
           in (case r of Inr _ \<Rightarrow> s\<lparr>tr_granted := n # tr_granted s\<rparr> | Inl _ \<Rightarrow> s)
      else s)"
| "tracker_apply s (Releases n) =
     s\<lparr>tr_tracker := mt_deallocate (tr_tracker s) n, tr_granted := remove1 n (tr_granted s)\<rparr>"

definition tracker_start :: "u64 \<Rightarrow> tracker_state" where
  "tracker_start limit = \<lparr>tr_tracker = memory_tracker_new limit, tr_pending = [], tr_granted = []\<rparr>"

text \<open>A call of \<^verbatim>\<open>allocate\<close> without interference is its two steps, one after the other.\<close>

lemma mt_allocate_alone:
  assumes "tr_pending s = []" "mt_allocate (tr_tracker s) n = (r, t)"
  shows "foldl tracker_apply s [RequestAdds n, RequestChecks 0] =
           s\<lparr>tr_tracker := t, tr_granted := (case r of Inr _ \<Rightarrow> n # tr_granted s | Inl _ \<Rightarrow> tr_granted s)\<rparr>"
  using assms by (auto simp: mt_allocate_def Let_def split: prod.splits sum.splits)

text \<open>What callers have to respect: releases give back granted sizes, and the sizes asked for do not
  overflow the counter together.\<close>

fun releases_granted :: "tracker_state \<Rightarrow> tracker_event list \<Rightarrow> bool" where
  "releases_granted s [] = True"
| "releases_granted s (e # es) =
     ((case e of Releases n \<Rightarrow> n \<in> set (tr_granted s) | _ \<Rightarrow> True) \<and> releases_granted (tracker_apply s e) es)"

fun requested :: "tracker_event list \<Rightarrow> nat" where
  "requested [] = 0"
| "requested (RequestAdds n # es) = unat n + requested es"
| "requested (e # es) = requested es"

abbreviation total_size :: "u64 list \<Rightarrow> nat" where
  "total_size ns \<equiv> sum_list (map unat ns)"

abbreviation within_limit :: "tracker_state \<Rightarrow> u64 list" where
  "within_limit s \<equiv> map snd (filter (\<lambda>(new_usage, n). \<not> new_usage > mt_limit (tr_tracker s)) (tr_pending s))"

text \<open>The calls that have seen a usage within the limit will be granted: they count already.\<close>

definition tracker_ok :: "tracker_state \<Rightarrow> bool" where
  "tracker_ok s \<longleftrightarrow>
     unat (mt_usage (tr_tracker s)) = total_size (tr_granted s) + total_size (map snd (tr_pending s)) \<and>
     total_size (tr_granted s) + total_size (within_limit s) \<le> unat (mt_limit (tr_tracker s))"

lemma total_size_remove1: "n \<in> set ns \<Longrightarrow> total_size ns = unat n + total_size (remove1 n ns)"
  by (induction ns) auto

lemma unat_add_u64: "unat (a :: u64) + unat b < 2 ^ 64 \<Longrightarrow> unat (a + b) = unat a + unat b"
  by (simp add: unat_word_ariths)

lemma unat_sub_u64: "unat (b :: u64) \<le> unat a \<Longrightarrow> unat (a - b) = unat a - unat b"
  by (simp add: unat_sub word_le_nat_alt)

lemma total_size_filter: "total_size (map snd (filter P xs)) \<le> total_size (map snd xs)"
  by (induction xs) auto

lemma tracker_limit: "mt_limit (tr_tracker (tracker_apply s e)) = mt_limit (tr_tracker s)"
  by (cases e) (auto simp: allocate_add_def allocate_check_def mt_deallocate_def Let_def split: prod.split)

lemma request_adds_ok:
  assumes "tracker_ok s" "unat (mt_usage (tr_tracker s)) + unat n < 2 ^ 64"
  shows "tracker_ok (tracker_apply s (RequestAdds n))"
    "unat (mt_usage (tr_tracker (tracker_apply s (RequestAdds n)))) = unat (mt_usage (tr_tracker s)) + unat n"
proof -
  note new = unat_add_u64 [OF assms(2)]
  show "unat (mt_usage (tr_tracker (tracker_apply s (RequestAdds n)))) = unat (mt_usage (tr_tracker s)) + unat n"
    using new by (simp add: allocate_add_def)
  show "tracker_ok (tracker_apply s (RequestAdds n))"
    using assms(1) new total_size_filter [of "\<lambda>(u, n). \<not> u > mt_limit (tr_tracker s)" "tr_pending s"]
    by (auto simp: tracker_ok_def allocate_add_def not_less word_le_nat_alt)
qed

lemma request_checks_ok:
  assumes "tracker_ok s"
  shows "tracker_ok (tracker_apply s (RequestChecks i))"
    "unat (mt_usage (tr_tracker (tracker_apply s (RequestChecks i)))) \<le> unat (mt_usage (tr_tracker s))"
proof -
  have "tracker_ok (tracker_apply s (RequestChecks i)) \<and>
      unat (mt_usage (tr_tracker (tracker_apply s (RequestChecks i)))) \<le> unat (mt_usage (tr_tracker s))"
  proof (cases "i < length (tr_pending s)")
    case True
    obtain u n where un: "tr_pending s ! i = (u, n)" by fastforce
    have split: "tr_pending s = take i (tr_pending s) @ (u, n) # drop (Suc i) (tr_pending s)"
      using id_take_nth_drop [OF True] un by simp
    define xs ys where "xs = take i (tr_pending s)" and "ys = drop (Suc i) (tr_pending s)"
    have p: "tr_pending s = xs @ (u, n) # ys" using split by (simp add: xs_def ys_def)
    have le: "unat n \<le> unat (mt_usage (tr_tracker s))" using assms by (simp add: tracker_ok_def p)
    have "tracker_apply s (RequestChecks i) =
        (if u > mt_limit (tr_tracker s)
         then s\<lparr>tr_tracker := mt_deallocate (tr_tracker s) n, tr_pending := xs @ ys\<rparr>
         else s\<lparr>tr_pending := xs @ ys, tr_granted := n # tr_granted s\<rparr>)"
      using True un by (simp add: allocate_check_def mt_deallocate_def xs_def ys_def Let_def)
    then show ?thesis
      using assms le leD by (cases "u > mt_limit (tr_tracker s)")
        (auto simp: tracker_ok_def p mt_deallocate_def unat_sub_u64 simp del: tracker_apply.simps split: if_splits)
  qed (use assms in simp)
  then show "tracker_ok (tracker_apply s (RequestChecks i))"
    "unat (mt_usage (tr_tracker (tracker_apply s (RequestChecks i)))) \<le> unat (mt_usage (tr_tracker s))" by simp_all
qed

lemma releases_ok:
  assumes "tracker_ok s" "n \<in> set (tr_granted s)"
  shows "tracker_ok (tracker_apply s (Releases n))"
    "unat (mt_usage (tr_tracker (tracker_apply s (Releases n)))) \<le> unat (mt_usage (tr_tracker s))"
  using assms total_size_remove1 [OF assms(2)]
  by (auto simp: tracker_ok_def mt_deallocate_def unat_sub_u64)

lemma tracker_run_ok:
  assumes "tracker_ok s" "releases_granted s es" "unat (mt_usage (tr_tracker s)) + requested es < 2 ^ 64"
  shows "tracker_ok (foldl tracker_apply s es) \<and> mt_limit (tr_tracker (foldl tracker_apply s es)) = mt_limit (tr_tracker s)"
  using assms
proof (induction es arbitrary: s)
  case (Cons e es)
  have "tracker_ok (tracker_apply s e) \<and> unat (mt_usage (tr_tracker (tracker_apply s e))) + requested es < 2 ^ 64"
  proof (cases e)
    case (RequestAdds n)
    with Cons.prems request_adds_ok [of s n] show ?thesis by (simp del: tracker_apply.simps)
  next
    case (RequestChecks i)
    with Cons.prems request_checks_ok [of s i] show ?thesis by (simp del: tracker_apply.simps)
  next
    case (Releases n)
    with Cons.prems releases_ok [of s n] show ?thesis by (simp del: tracker_apply.simps)
  qed
  with Cons.IH [of "tracker_apply s e"] Cons.prems(2) show ?case
    by (simp add: tracker_limit del: tracker_apply.simps)
qed simp

text \<open>
  C20: The memory limit under concurrency.  Take any interleaving of the atomic steps of any number of
  calls of \<^verbatim>\<open>allocate\<close> and \<^verbatim>\<open>deallocate\<close>, in which the sizes asked for add up to less than \<open>2 ^ 64\<close>
  and each release gives back a size that was granted and not yet released.  The sizes granted at the
  same time never exceed the limit, and the counter is what is granted plus the requests that are
  between their two steps; without such a request it is exactly what is granted.  The engine's
  deletion of a document does not respect the second condition, and then the counter wraps
  (\<open>tracker_underflow\<close>).
\<close>

theorem concurrent_tracker_bounded:
  assumes "releases_granted (tracker_start limit) es" "requested es < 2 ^ 64"
    and "s = foldl tracker_apply (tracker_start limit) es"
  shows "total_size (tr_granted s) \<le> unat limit \<and>
         unat (mt_usage (tr_tracker s)) = total_size (tr_granted s) + total_size (map snd (tr_pending s))"
proof -
  have "tracker_ok (tracker_start limit)" "mt_usage (tr_tracker (tracker_start limit)) = 0"
    "mt_limit (tr_tracker (tracker_start limit)) = limit"
    by (simp_all add: tracker_ok_def tracker_start_def memory_tracker_new_def)
  with tracker_run_ok [of "tracker_start limit" es] assms show ?thesis
    by (auto simp: tracker_ok_def)
qed

definition contended :: "tracker_event list" where
  "contended = [RequestAdds 6, RequestAdds 7, RequestChecks 0, RequestChecks 0, RequestAdds 4, RequestChecks 0]"

theorem concurrent_tracker_bounded_witness:
  "tr_granted (foldl tracker_apply (tracker_start 10) contended) = [4, 6] \<and>
   total_size [4, 6] \<le> unat (10 :: u64)"
proof -
  have run: "releases_granted (tracker_start 10) contended" "requested contended < 2 ^ 64"
    "tr_granted (foldl tracker_apply (tracker_start 10) contended) = [4, 6]"
    by (simp_all add: contended_def tracker_start_def memory_tracker_new_def allocate_add_def allocate_check_def Let_def)
  from concurrent_tracker_bounded [OF run(1,2) refl] run(3) show ?thesis by simp
qed

text \<open>Releasing more than is in use wraps the counter, and then requests are refused.\<close>

lemma tracker_underflow:
  assumes "mt_usage t < n" "unat (mt_limit t) + unat n < 2 ^ 64" "unat k + unat (mt_usage t) < unat n"
  shows "mt_allocate (mt_deallocate t n) k = (Err out_of_memory, mt_deallocate t n)"
proof -
  let ?u = "mt_usage t - n"
  have u: "unat ?u = 2 ^ 64 - (unat n - unat (mt_usage t))"
    using assms(1) by (simp add: unat_sub_if' word_less_nat_alt)
  have "unat ?u + unat k < 2 ^ 64" using assms(3) unat_u64_less [of n] by (simp add: u)
  then have "unat (?u + k) = unat ?u + unat k" by (rule unat_add_u64)
  then have "?u + k > mt_limit t"
    using assms(2,3) unat_u64_less [of n] unfolding word_less_nat_alt by (simp add: u)
  then show ?thesis by (simp add: mt_allocate_def allocate_add_def allocate_check_def mt_deallocate_def)
qed

subsection \<open>The block pool\<close>

text \<open>
  What a client of a block allocator relies on: an allocated pointer was not in use and is in use
  afterwards, and releasing a pointer frees only that one.
\<close>

locale block_allocator =
  fixes ok :: "'s \<Rightarrow> bool" and alloc :: "'s \<Rightarrow> nat \<Rightarrow> ('p \<times> 's) option" and free :: "'s \<Rightarrow> 'p \<Rightarrow> 's"
    and live :: "'s \<Rightarrow> 'p set"
  assumes alloc_fresh: "ok s \<Longrightarrow> alloc s n = Some (p, s') \<Longrightarrow> ok s' \<and> p \<notin> live s \<and> live s' = insert p (live s)"
    and free_live: "ok s \<Longrightarrow> ok (free s p) \<and> live (free s p) = live s - {p}"
begin

fun alloc_all :: "'s \<Rightarrow> nat list \<Rightarrow> ('p list \<times> 's) option" where
  "alloc_all s [] = Some ([], s)"
| "alloc_all s (n # ns) =
     (case alloc s n of
        None \<Rightarrow> None
      | Some (p, s') \<Rightarrow> map_option (\<lambda>(ps, s''). (p # ps, s'')) (alloc_all s' ns))"

lemma alloc_all_distinct:
  "ok s \<Longrightarrow> alloc_all s ns = Some (ps, s') \<Longrightarrow>
     ok s' \<and> distinct ps \<and> set ps \<inter> live s = {} \<and> live s' = set ps \<union> live s"
proof (induction ns arbitrary: s ps)
  case (Cons n ns)
  then obtain p s1 ps1 where step: "alloc s n = Some (p, s1)" "alloc_all s1 ns = Some (ps1, s')" "ps = p # ps1"
    by (auto split: option.splits)
  from alloc_fresh [OF Cons.prems(1) step(1)] Cons.IH [OF _ step(2)] step(3) show ?case by auto
qed simp

end

definition blocks_ok :: "memory_pool \<Rightarrow> bool" where
  "blocks_ok self \<longleftrightarrow> distinct (map bl_ptr (mp_blocks self))"

definition pool_live :: "memory_pool \<Rightarrow> nat set" where
  "pool_live self = set (map bl_ptr (filter bl_in_use (mp_blocks self)))"

lemma take_block_Some:
  assumes "take_block n bs = Some (p, bs')"
  shows "\<exists>xs b ys. bs = xs @ b # ys \<and> bs' = xs @ b\<lparr>bl_in_use := True\<rparr> # ys \<and> bl_ptr b = p \<and> \<not> bl_in_use b \<and> n \<le> bl_size b"
  using assms
proof (induction bs arbitrary: bs')
  case (Cons b bs)
  show ?case
  proof (cases "bl_size b \<ge> n \<and> \<not> bl_in_use b")
    case True
    with Cons.prems show ?thesis by (intro exI [of _ "[]"]) auto
  next
    case False
    with Cons.prems obtain bs1 where bs1: "take_block n bs = Some (p, bs1)" "bs' = b # bs1" by auto
    from Cons.IH [OF bs1(1)] obtain xs c ys where
      "bs = xs @ c # ys" "bs1 = xs @ c\<lparr>bl_in_use := True\<rparr> # ys" "bl_ptr c = p" "\<not> bl_in_use c" "n \<le> bl_size c"
      by auto
    with bs1(2) show ?thesis by (intro exI [of _ "b # xs"] exI [of _ c] exI [of _ ys]) simp
  qed
qed simp

lemma release_block_ptrs [simp]: "map bl_ptr (release_block p bs) = map bl_ptr bs"
  by (induction bs) simp_all

lemma release_block_live:
  "distinct (map bl_ptr bs) \<Longrightarrow>
     set (map bl_ptr (filter bl_in_use (release_block p bs))) = set (map bl_ptr (filter bl_in_use bs)) - {p}"
proof (induction bs)
  case (Cons b bs)
  then have "bl_ptr b \<notin> bl_ptr ` set (filter bl_in_use bs)" by auto
  with Cons show ?case by (cases "bl_ptr b = p") auto
qed simp

interpretation blocks: block_allocator blocks_ok pool_allocate pool_deallocate pool_live
proof unfold_locales
  fix s n p s'
  assume ok: "blocks_ok s" and alloc: "pool_allocate s n = Some (p, s')"
  then obtain bs where bs: "take_block n (mp_blocks s) = Some (p, bs)" "s' = s\<lparr>mp_blocks := bs\<rparr>"
    by (auto simp: pool_allocate_def)
  from take_block_Some [OF bs(1)] obtain xs b ys where
    "mp_blocks s = xs @ b # ys" "bs = xs @ b\<lparr>bl_in_use := True\<rparr> # ys" "bl_ptr b = p" "\<not> bl_in_use b" by auto
  then show "blocks_ok s' \<and> p \<notin> pool_live s \<and> pool_live s' = insert p (pool_live s)"
    using ok bs(2) by (auto simp: blocks_ok_def pool_live_def)
next
  fix s p
  assume "blocks_ok s"
  then show "blocks_ok (pool_deallocate s p) \<and> pool_live (pool_deallocate s p) = pool_live s - {p}"
    by (simp add: blocks_ok_def pool_live_def pool_deallocate_def release_block_live del: set_map set_filter)
qed

text \<open>
  The block pool never hands out the same block twice: the pointers of successive allocations
  are distinct and differ from every pointer still in use, and exactly they are in use afterwards;
  a released pointer can be allocated again.
\<close>

theorem pool_never_shares:
  assumes "distinct (map bl_ptr (mp_blocks self))" "blocks.alloc_all self ns = Some (ps, self')"
  shows "distinct ps \<and> set ps \<inter> pool_live self = {} \<and> pool_live self' = set ps \<union> pool_live self \<and>
         pool_live (pool_deallocate self' p) = pool_live self' - {p}"
  using blocks.alloc_all_distinct [OF _ assms(2)] assms(1) blocks.free_live [of self' p] by (auto simp: blocks_ok_def)

theorem pool_never_shares_witness:
  "\<exists>self'. blocks.alloc_all (memory_pool_new [8, 16, 24] 64) [10, 20] = Some ([8, 16], self') \<and>
     pool_live self' = {8, 16}"
proof -
  let ?pool = "memory_pool_new [8, 16, 24] 64"
  obtain self' where run: "blocks.alloc_all ?pool [10, 20] = Some ([8, 16], self')"
    by (simp add: memory_pool_new_def pool_allocate_def)
  have "pool_live ?pool = {}" by (auto simp: pool_live_def memory_pool_new_def)
  with pool_never_shares [OF _ run] run show ?thesis by (auto simp: memory_pool_new_def)
qed

subsection \<open>The buffer pool\<close>

definition buffers_ok :: "buffer_pool \<Rightarrow> bool" where
  "buffers_ok self \<longleftrightarrow>
     (\<forall>size_class queue. map_of self size_class = Some queue \<longrightarrow>
        length queue \<le> 100 \<and>
        (\<forall>buf \<in> set queue. bf_content buf = [] \<and> next_power_of_two (bf_capacity buf) = size_class))"

lemma return_buffer_ok: "buffers_ok self \<Longrightarrow> buffers_ok (return_buffer self buf)"
  by (auto simp: buffers_ok_def return_buffer_def update_conv' Let_def split: option.splits if_splits)

lemma get_buffer_ok:
  assumes "buffers_ok self" "get_buffer self n = (buf, self')"
  shows "buffers_ok self' \<and> (bf_content buf = [] \<or> bf_content buf = replicate (bf_capacity buf) 0)"
proof (cases "map_of self (next_power_of_two n)")
  case (Some queue)
  then have queue: "length queue \<le> 100" "\<forall>buf \<in> set queue. bf_content buf = [] \<and> next_power_of_two (bf_capacity buf) = next_power_of_two n"
    using assms(1) unfolding buffers_ok_def by blast+
  show ?thesis
  proof (cases queue)
    case (Cons b rest)
    then have got: "buf = b" "self' = AList.update (next_power_of_two n) rest self"
      using Some assms(2) by (simp_all add: get_buffer_def Let_def)
    have "length q \<le> 100 \<and> (\<forall>buf \<in> set q. bf_content buf = [] \<and> next_power_of_two (bf_capacity buf) = c)"
      if "map_of self' c = Some q" for c q
    proof (cases "c = next_power_of_two n")
      case True
      with that queue Cons show ?thesis by (simp add: got update_conv')
    next
      case False
      with that assms(1) show ?thesis by (simp add: got update_conv' buffers_ok_def)
    qed
    then have "buffers_ok self'" unfolding buffers_ok_def by blast
    moreover have "bf_content buf = []" using queue(2) Cons got(1) by (metis list.set_intros(1))
    ultimately show ?thesis by simp
  qed (use Some assms in \<open>auto simp: get_buffer_def Let_def\<close>)
qed (use assms in \<open>auto simp: get_buffer_def Let_def\<close>)

text \<open>Any sequence of requests and returns.\<close>

datatype buffer_call = Get nat | Return buffer

fun buffer_step :: "buffer_pool \<Rightarrow> buffer_call \<Rightarrow> buffer_pool" where
  "buffer_step self (Get n) = snd (get_buffer self n)"
| "buffer_step self (Return buf) = return_buffer self buf"

lemma buffer_run_ok: "buffers_ok self \<Longrightarrow> buffers_ok (foldl buffer_step self calls)"
proof (induction calls arbitrary: self)
  case (Cons call calls)
  have "buffers_ok (buffer_step self call)"
    using Cons.prems return_buffer_ok get_buffer_ok by (cases call) (auto simp: prod_eq_iff)
  then show ?case using Cons.IH by simp
qed simp

text \<open>
  C40: The buffer pool leaks nothing and stays bounded.  After any sequence of requests and returns,
  a buffer that is handed out is empty or filled with zeros, whatever earlier users wrote into it,
  and no size class keeps more than a hundred buffers.
\<close>

theorem buffers_clean_and_bounded:
  "(let buf = fst (get_buffer (foldl buffer_step buffer_pool_new calls) n)
    in bf_content buf = [] \<or> bf_content buf = replicate (bf_capacity buf) 0) \<and>
   (case map_of (foldl buffer_step buffer_pool_new calls) class_size of
      Some queue \<Rightarrow> length queue \<le> 100
    | None \<Rightarrow> True)"
proof -
  have "buffers_ok buffer_pool_new"
    by (auto simp: buffers_ok_def buffer_pool_new_def split: if_splits)
  then have ok: "buffers_ok (foldl buffer_step buffer_pool_new calls)" by (rule buffer_run_ok)
  show ?thesis
    using get_buffer_ok [OF ok, of n] ok
    by (auto simp: Let_def prod_eq_iff buffers_ok_def split: option.split)
qed

subsection \<open>Swapped pages\<close>

text \<open>
  What a swapped page is when it is loaded again.  A page of at most a mebibyte that does not
  begin with the marker \<^verbatim>\<open>LZ4\0\<close> is read back unchanged, once.  A larger page is compressed when it
  is written, but no marker is written, so the compressed bytes come back instead of the page
  whenever they do not happen to begin with the marker.
\<close>

theorem swap_in_after_swap_out:
  assumes "swap_out lz self page data = (Ok (), self')" "swap_in lz self' page = (r, self'')"
  shows "(length data \<le> sm_swap_threshold self \<and> \<not> (4 < length data \<and> take 4 data = lz4_magic) \<longrightarrow> r = Ok data) \<and>
         (length data > sm_swap_threshold self \<longrightarrow>
            (\<exists>c. lzb_compress lz data = Ok c \<and> (take 4 c \<noteq> lz4_magic \<longrightarrow> r = Ok c))) \<and>
         fst (swap_in lz self'' page) = Err (Error NotFound ''Page not in swap'')"
  using assms
  by (auto simp: swap_out_def swap_in_def Let_def update_conv' delete_conv' split: sum.splits if_splits)

definition halving_lz4 :: lz4_block where
  "halving_lz4 = \<lparr>lzb_compress = (\<lambda>bs. Ok (1 # take (length bs div 2) bs)), lzb_decompress = (\<lambda>bs. Ok (tl bs @ tl bs))\<rparr>"

theorem swap_in_after_swap_out_witness:
  "fst (swap_in halving_lz4 (snd (swap_out halving_lz4 swap_manager_new 7 [1, 2, 3])) 7) = Ok [1, 2, 3] \<and>
   fst (swap_in halving_lz4 (snd (swap_out halving_lz4 (swap_manager_new\<lparr>sm_swap_threshold := 1\<rparr>) 7 [2, 2])) 7) = Ok [1, 2]"
proof -
  have small: "swap_out halving_lz4 swap_manager_new 7 [1, 2, 3] =
      (Ok (), snd (swap_out halving_lz4 swap_manager_new 7 [1, 2, 3]))"
    by (simp add: swap_out_def swap_manager_new_def Let_def)
  have large: "swap_out halving_lz4 (swap_manager_new\<lparr>sm_swap_threshold := 1\<rparr>) 7 [2, 2] =
      (Ok (), snd (swap_out halving_lz4 (swap_manager_new\<lparr>sm_swap_threshold := 1\<rparr>) 7 [2, 2]))"
    by (simp add: swap_out_def swap_manager_new_def halving_lz4_def Let_def)
  show ?thesis
    using swap_in_after_swap_out [OF small prod.collapse [symmetric]]
      swap_in_after_swap_out [OF large prod.collapse [symmetric]]
    by (simp add: swap_manager_new_def halving_lz4_def lz4_magic_def)
qed

subsection \<open>Reclaiming\<close>

text \<open>
  Reclaiming memory frees nothing: whatever the pressure, it succeeds and leaves the tracker, the
  caches and the swapped pages as they were.
\<close>

theorem reclaim_frees_nothing: "maybe_reclaim self = (Ok (), self)"
  by (simp add: maybe_reclaim_def reclaim_memory_def swap_cold_data_def)

end
