(* ===== verification/Write_Session.thy ===== *)
theory Write_Session
  imports Index_Writer Readers
begin

section \<open>Write sessions and batch writers\<close>

text \<open>
  The model of \<^verbatim>\<open>src/writer/session.rs\<close>, \<^verbatim>\<open>segment_store.rs\<close>, \<^verbatim>\<open>wal_backend.rs\<close>, \<^verbatim>\<open>disk_wal.rs\<close>,
  \<^verbatim>\<open>builder.rs\<close>, \<^verbatim>\<open>batch.rs\<close> and \<^verbatim>\<open>data_writer.rs\<close>, with the disk implementations of the store and of
  the log.  The three phases of a session are three record types, as in the source: only an open
  session accepts documents, only a flushed one commits.  The shared disk and version controller
  are passed explicitly.
\<close>

subsection \<open>Sessions\<close>

record write_session =
  ws_wal :: wal
  ws_segment_sink :: segment_writer
  ws_pending_deletes :: "doc_id list"

record flushed_session =
  fs_wal :: wal
  fs_finished_segment :: "segment option"
  fs_pending_deletes :: "doc_id list"

record committed_session =
  cs_snapshot_version :: u64
  cs_docs_committed :: nat

text \<open>The disk store compresses with LZ4, whatever the configuration of the context says.\<close>

definition create_sink :: "env \<Rightarrow> world \<Rightarrow> segment_writer \<times> world" where
  "create_sink ev w = new_segment_writer ev w LZ4"

definition open_session :: "env \<Rightarrow> world \<Rightarrow> wal \<Rightarrow> write_session \<times> world" where
  "open_session ev w lg =
     (let (sink, w) = create_sink ev w
      in (\<lparr>ws_wal = lg, ws_segment_sink = sink, ws_pending_deletes = []\<rparr>, w))"

definition session_add_document ::
  "env \<Rightarrow> world \<Rightarrow> write_session \<Rightarrow> document \<Rightarrow> doc_id result \<times> write_session \<times> world" where
  "session_add_document ev w self doc =
     (let (lg, w) = wal_append (ev_wal_codec ev) w (ws_wal self) (AddDocument doc);
          self = self\<lparr>ws_wal := lg\<rparr>
      in case write_document (ev_codec ev) w (ws_segment_sink self) doc of
           Inl e \<Rightarrow> (Err e, self, w)
         | Inr (off, sink, w) \<Rightarrow> (Ok (d_id doc), self\<lparr>ws_segment_sink := sink\<rparr>, w))"

definition session_delete_document ::
  "env \<Rightarrow> world \<Rightarrow> write_session \<Rightarrow> doc_id \<Rightarrow> unit result \<times> write_session \<times> world" where
  "session_delete_document ev w self d =
     (let (lg, w) = wal_append (ev_wal_codec ev) w (ws_wal self) (DeleteDocument d)
      in (Ok (), self\<lparr>ws_wal := lg, ws_pending_deletes := ws_pending_deletes self @ [d]\<rparr>, w))"

fun session_add_documents ::
  "env \<Rightarrow> world \<Rightarrow> write_session \<Rightarrow> document list \<Rightarrow> doc_id list result \<times> write_session \<times> world" where
  "session_add_documents ev w self [] = (Ok [], self, w)"
| "session_add_documents ev w self (doc # docs) =
     (case session_add_document ev w self doc of
        (Inl e, self, w) \<Rightarrow> (Err e, self, w)
      | (Inr d, self, w) \<Rightarrow>
          (case session_add_documents ev w self docs of
             (r, self, w) \<Rightarrow> (and_then r (\<lambda>ds. Ok (d # ds)), self, w)))"

definition session_flush :: "env \<Rightarrow> world \<Rightarrow> write_session \<Rightarrow> flushed_session result \<times> world" where
  "session_flush ev w self =
     (if sg_doc_count (sw_segment (ws_segment_sink self)) > 0
      then case sw_finish (ev_codec ev) w (ws_segment_sink self) of
             (Inl e, w) \<Rightarrow> (Err e, w)
           | (Inr s, w) \<Rightarrow>
               (Ok \<lparr>fs_wal = ws_wal self, fs_finished_segment = Some s,
                    fs_pending_deletes = ws_pending_deletes self\<rparr>, w)
      else (Ok \<lparr>fs_wal = ws_wal self, fs_finished_segment = None,
                fs_pending_deletes = ws_pending_deletes self\<rparr>, w))"

definition session_abort :: "write_session \<Rightarrow> unit result" where
  "session_abort self = Ok ()"

definition flushed_abort :: "flushed_session \<Rightarrow> unit result" where
  "flushed_abort self = Ok ()"

definition pending_deleted :: "mvcc \<Rightarrow> flushed_session \<Rightarrow> u32 set" where
  "pending_deleted m self =
     foldl (\<lambda>deleted d. insert (ucast d) deleted) (sn_deleted_docs (current_snapshot m)) (fs_pending_deletes self)"

definition flushed_commit ::
  "env \<Rightarrow> world \<Rightarrow> mvcc \<Rightarrow> flushed_session \<Rightarrow> committed_session result \<times> world \<times> mvcc" where
  "flushed_commit ev w m self =
     (let (lg, w) = wal_append (ev_wal_codec ev) w (fs_wal self) Commit;
          self = self\<lparr>fs_wal := wal_sync w lg\<rparr>;
          segments = sn_segments (current_snapshot m)
      in case fs_finished_segment self of
           Some seg \<Rightarrow>
             (let (s, m) = create_snapshot_with_deletes m (segments @ [seg]) (pending_deleted m self)
              in (Ok \<lparr>cs_snapshot_version = sn_version s, cs_docs_committed = unat (sg_doc_count seg)\<rparr>, w, m))
         | None \<Rightarrow>
             (let (s, m) = (if fs_pending_deletes self \<noteq> []
                            then create_snapshot_with_deletes m segments (pending_deleted m self)
                            else (current_snapshot m, m))
              in (Ok \<lparr>cs_snapshot_version = sn_version s, cs_docs_committed = 0\<rparr>, w, m)))"

subsection \<open>The builder of a writer context\<close>

record ('st, 'mv, 'bp, 'pi, 'an, 'mp, 'cf, 'ss) write_pipeline_builder =
  wb_storage :: "'st option"
  wb_mvcc :: "'mv option"
  wb_buffer_pool :: "'bp option"
  wb_parallel_indexer :: "'pi option"
  wb_analyzer :: "'an option"
  wb_merge_policy :: "'mp option"
  wb_config :: "'cf option"
  wb_segment_store :: "'ss option"

record ('st, 'mv, 'bp, 'pi, 'an, 'mp, 'cf, 'ss) writer_context =
  wx_storage :: 'st
  wx_mvcc :: 'mv
  wx_buffer_pool :: 'bp
  wx_parallel_indexer :: 'pi
  wx_analyzer :: 'an
  wx_merge_policy :: 'mp
  wx_config :: 'cf
  wx_segment_store :: 'ss

definition write_pipeline_builder_new ::
  "('st, 'mv, 'bp, 'pi, 'an, 'mp, 'cf, 'ss) write_pipeline_builder" where
  "write_pipeline_builder_new =
     \<lparr>wb_storage = None, wb_mvcc = None, wb_buffer_pool = None, wb_parallel_indexer = None,
      wb_analyzer = None, wb_merge_policy = None, wb_config = None, wb_segment_store = None\<rparr>"

definition ok_or :: "'a option \<Rightarrow> string \<Rightarrow> 'a result" where
  "ok_or x what = (case x of Some v \<Rightarrow> Ok v | None \<Rightarrow> Err (Error InvalidArgument (what @ '' is required'')))"

definition unwrap_or :: "'a \<Rightarrow> 'a option \<Rightarrow> 'a" where
  "unwrap_or d x = (case x of Some v \<Rightarrow> v | None \<Rightarrow> d)"

text \<open>The default merge policy and configuration of the code are the parameters of \<open>build\<close>.\<close>

definition build_context ::
  "'mp \<Rightarrow> 'cf \<Rightarrow> ('st, 'mv, 'bp, 'pi, 'an, 'mp, 'cf, 'ss) write_pipeline_builder
     \<Rightarrow> ('st, 'mv, 'bp, 'pi, 'an, 'mp, 'cf, 'ss) writer_context result" where
  "build_context default_policy default_config self =
     and_then (ok_or (wb_storage self) ''storage'') (\<lambda>st.
     and_then (ok_or (wb_mvcc self) ''mvcc'') (\<lambda>mv.
     and_then (ok_or (wb_buffer_pool self) ''buffer_pool'') (\<lambda>bp.
     and_then (ok_or (wb_parallel_indexer self) ''parallel_indexer'') (\<lambda>pi.
     and_then (ok_or (wb_analyzer self) ''analyzer'') (\<lambda>an.
     and_then (ok_or (wb_segment_store self) ''segment_store'') (\<lambda>ss.
       Ok \<lparr>wx_storage = st, wx_mvcc = mv, wx_buffer_pool = bp, wx_parallel_indexer = pi, wx_analyzer = an,
           wx_merge_policy = unwrap_or default_policy (wb_merge_policy self),
           wx_config = unwrap_or default_config (wb_config self), wx_segment_store = ss\<rparr>))))))"

subsection \<open>The batch writer\<close>

record batch_writer =
  bw_writer :: index_writer
  bw_buffer :: "document list"
  bw_batch_size :: nat

definition batch_writer_new :: "index_writer \<Rightarrow> nat \<Rightarrow> batch_writer" where
  "batch_writer_new writer n = \<lparr>bw_writer = writer, bw_buffer = [], bw_batch_size = n\<rparr>"

text \<open>Draining the buffer empties it even when adding a document fails half way.\<close>

definition bw_flush :: "env \<Rightarrow> batch_writer \<Rightarrow> unit result \<times> batch_writer" where
  "bw_flush ev self =
     (case add_each ev (bw_writer self) (bw_buffer self) of
        (Inl e, writer) \<Rightarrow> (Err e, self\<lparr>bw_writer := writer, bw_buffer := []\<rparr>)
      | (Inr _, writer) \<Rightarrow>
          (case iw_flush ev writer of (r, writer) \<Rightarrow> (r, self\<lparr>bw_writer := writer, bw_buffer := []\<rparr>)))"

definition bw_add :: "env \<Rightarrow> batch_writer \<Rightarrow> document \<Rightarrow> unit result \<times> batch_writer" where
  "bw_add ev self doc =
     (let self = self\<lparr>bw_buffer := bw_buffer self @ [doc]\<rparr>
      in if length (bw_buffer self) \<ge> bw_batch_size self then bw_flush ev self else (Ok (), self))"

definition bw_finish :: "env \<Rightarrow> batch_writer \<Rightarrow> unit result \<times> index_writer" where
  "bw_finish ev self =
     (case bw_flush ev self of
        (Inl e, self) \<Rightarrow> (Err e, bw_writer self)
      | (Inr _, self) \<Rightarrow> iw_commit ev (bw_writer self))"

subsection \<open>The data writer\<close>

record data_writer =
  dw_segment_writer :: segment_writer
  dw_wal :: wal
  dw_batch_size :: nat
  dw_pending_docs :: "document list"
  dw_world :: world

definition data_writer_new :: "env \<Rightarrow> world \<Rightarrow> nat \<Rightarrow> data_writer" where
  "data_writer_new ev w n =
     (let (sw, w) = new_segment_writer ev w LZ4;
          (lg, w) = wal_open w 0
      in \<lparr>dw_segment_writer = sw, dw_wal = lg, dw_batch_size = n, dw_pending_docs = [], dw_world = w\<rparr>)"

definition dw_log :: "env \<Rightarrow> data_writer \<Rightarrow> document \<Rightarrow> data_writer" where
  "dw_log ev self doc =
     (let (lg, w) = wal_append (ev_wal_codec ev) (dw_world self) (dw_wal self) (AddDocument doc)
      in self\<lparr>dw_wal := lg, dw_world := w\<rparr>)"

definition dw_store :: "env \<Rightarrow> data_writer \<Rightarrow> document \<Rightarrow> unit result \<times> data_writer" where
  "dw_store ev self doc =
     (case write_document (ev_codec ev) (dw_world self) (dw_segment_writer self) doc of
        Inl e \<Rightarrow> (Err e, self)
      | Inr (off, sw, w) \<Rightarrow> (Ok (), self\<lparr>dw_segment_writer := sw, dw_world := w\<rparr>))"

definition dw_write_document :: "env \<Rightarrow> data_writer \<Rightarrow> document \<Rightarrow> unit result \<times> data_writer" where
  "dw_write_document ev self doc = dw_store ev (dw_log ev self doc) doc"

definition add_to_batch :: "data_writer \<Rightarrow> document \<Rightarrow> data_writer" where
  "add_to_batch self doc = self\<lparr>dw_pending_docs := dw_pending_docs self @ [doc]\<rparr>"

fun dw_store_all :: "env \<Rightarrow> data_writer \<Rightarrow> document list \<Rightarrow> unit result \<times> data_writer" where
  "dw_store_all ev self [] = (Ok (), self)"
| "dw_store_all ev self (doc # docs) =
     (case dw_store ev self doc of
        (Inl e, self) \<Rightarrow> (Err e, self)
      | (Inr _, self) \<Rightarrow> dw_store_all ev self docs)"

definition flush_batch :: "env \<Rightarrow> data_writer \<Rightarrow> nat result \<times> data_writer" where
  "flush_batch ev self =
     (if dw_pending_docs self = [] then (Ok 0, self)
      else let n = length (dw_pending_docs self);
               logged = foldl (dw_log ev) self (dw_pending_docs self)
           in case dw_store_all ev logged (dw_pending_docs self) of
                (Inl e, self) \<Rightarrow> (Err e, self)
              | (Inr _, self) \<Rightarrow> (Ok n, self\<lparr>dw_pending_docs := []\<rparr>))"

definition should_flush :: "data_writer \<Rightarrow> bool" where
  "should_flush self \<longleftrightarrow> sg_doc_count (sw_segment (dw_segment_writer self)) \<ge> of_nat (dw_batch_size self)"

definition dw_flush :: "env \<Rightarrow> data_writer \<Rightarrow> segment result \<times> data_writer" where
  "dw_flush ev self =
     (let (new_writer, w) = new_segment_writer ev (dw_world self) LZ4;
          old_writer = dw_segment_writer self;
          (r, w) = sw_finish (ev_codec ev) w old_writer
      in (r, self\<lparr>dw_segment_writer := new_writer, dw_world := w\<rparr>))"

definition dw_commit :: "data_writer \<Rightarrow> unit result \<times> data_writer" where
  "dw_commit self = (Ok (), self\<lparr>dw_wal := wal_sync (dw_world self) (dw_wal self)\<rparr>)"

subsection \<open>What a session publishes\<close>

lemma wal_append_untouched:
  assumes "wal_append wc w lg op = (lg', w')"
  shows "untouched {wl_file lg} w w' \<and> wl_file lg' = wl_file lg"
  using assms
  by (auto simp: wal_append_def Let_def untouched_def append_file_def write_file_def wal_sync_def
      split: sync_mode.splits if_splits)

datatype session_call = SessionAdd document | SessionDelete doc_id

fun session_run :: "env \<Rightarrow> world \<Rightarrow> write_session \<Rightarrow> session_call list \<Rightarrow> unit result \<times> write_session \<times> world" where
  "session_run ev w self [] = (Ok (), self, w)"
| "session_run ev w self (SessionAdd doc # calls) =
     (case session_add_document ev w self doc of
        (Inl e, self, w) \<Rightarrow> (Err e, self, w)
      | (Inr _, self, w) \<Rightarrow> session_run ev w self calls)"
| "session_run ev w self (SessionDelete d # calls) =
     (case session_delete_document ev w self d of
        (Inl e, self, w) \<Rightarrow> (Err e, self, w)
      | (Inr _, self, w) \<Rightarrow> session_run ev w self calls)"

definition session_added :: "session_call list \<Rightarrow> document list" where
  "session_added = List.map_filter (\<lambda>c. case c of SessionAdd doc \<Rightarrow> Some doc | SessionDelete d \<Rightarrow> None)"

definition session_deleted :: "session_call list \<Rightarrow> doc_id list" where
  "session_deleted = List.map_filter (\<lambda>c. case c of SessionAdd doc \<Rightarrow> None | SessionDelete d \<Rightarrow> Some d)"

lemmas session_calls_simps [simp] =
  map_filter_simps [of "\<lambda>c. case c of SessionAdd doc \<Rightarrow> Some doc | SessionDelete d \<Rightarrow> None", folded session_added_def]
  map_filter_simps [of "\<lambda>c. case c of SessionAdd doc \<Rightarrow> None | SessionDelete d \<Rightarrow> Some d", folded session_deleted_def]

text \<open>An open session holds the documents added and the identifiers deleted so far.\<close>

definition session_holds ::
  "env \<Rightarrow> world \<Rightarrow> write_session \<Rightarrow> document list \<Rightarrow> doc_id list \<Rightarrow> segment_id \<Rightarrow> u64 \<Rightarrow> bool" where
  "session_holds ev w self docs dels i n \<longleftrightarrow>
     writer_holds (ev_codec ev) w (ws_segment_sink self) docs \<and> sw_compression (ws_segment_sink self) = LZ4 \<and>
     sg_id (sw_segment (ws_segment_sink self)) = i \<and> ws_pending_deletes self = dels \<and> wl_file (ws_wal self) = WalPath n"

lemma session_add_holds:
  assumes "session_holds ev w self docs dels i n" "document_laws (ev_codec ev) LZ4 doc"
  shows "\<exists>self' w'. session_add_document ev w self doc = (Ok (d_id doc), self', w') \<and>
           session_holds ev w' self' (docs @ [doc]) dels i n \<and> untouched {SegmentPath i, WalPath n} w w'"
proof -
  obtain lg w1 where lg: "wal_append (ev_wal_codec ev) w (ws_wal self) (AddDocument doc) = (lg, w1)" by fastforce
  have wal: "untouched {WalPath n} w w1" "wl_file lg = WalPath n"
    using wal_append_untouched [OF lg] assms(1) by (auto simp: session_holds_def)
  have "writer_holds (ev_codec ev) w1 (ws_segment_sink self) docs"
    using assms(1) writer_holds_untouched [OF _ wal(1)] by (auto simp: session_holds_def sw_path_def)
  with assms obtain off sink w2 where
    wd: "write_document (ev_codec ev) w1 (ws_segment_sink self) doc = Ok (off, sink, w2)"
    "writer_holds (ev_codec ev) w2 sink (docs @ [doc])" "sw_compression sink = LZ4" "sg_id (sw_segment sink) = i"
    using write_document_holds [of "ev_codec ev" w1 "ws_segment_sink self" docs doc] by (auto simp: session_holds_def)
  have "untouched {SegmentPath i} w1 w2"
    using write_document_untouched [OF wd(1)] assms(1) by (simp add: sw_path_def session_holds_def)
  from untouched_trans [OF wal(1) this] have "untouched {SegmentPath i, WalPath n} w w2" by (simp add: insert_commute)
  with lg wd wal assms(1) show ?thesis by (auto simp: session_add_document_def session_holds_def)
qed

lemma session_delete_holds:
  assumes "session_holds ev w self docs dels i n"
  shows "\<exists>self' w'. session_delete_document ev w self d = (Ok (), self', w') \<and>
           session_holds ev w' self' docs (dels @ [d]) i n \<and> untouched {SegmentPath i, WalPath n} w w'"
proof -
  obtain lg w1 where lg: "wal_append (ev_wal_codec ev) w (ws_wal self) (DeleteDocument d) = (lg, w1)" by fastforce
  have wal: "untouched {WalPath n} w w1" "wl_file lg = WalPath n"
    using wal_append_untouched [OF lg] assms(1) by (auto simp: session_holds_def)
  have "writer_holds (ev_codec ev) w1 (ws_segment_sink self) docs"
    using assms(1) writer_holds_untouched [OF _ wal(1)] by (auto simp: session_holds_def sw_path_def)
  with lg wal assms show ?thesis
    by (auto simp: session_delete_document_def session_holds_def intro: untouched_mono)
qed

lemma session_run_holds:
  assumes "session_holds ev w self docs dels i n" "\<forall>doc \<in> set (session_added calls). document_laws (ev_codec ev) LZ4 doc"
  shows "\<exists>self' w'. session_run ev w self calls = (Ok (), self', w') \<and>
           session_holds ev w' self' (docs @ session_added calls) (dels @ session_deleted calls) i n \<and>
           untouched {SegmentPath i, WalPath n} w w'"
  using assms
proof (induction calls arbitrary: w self docs dels)
  case (Cons call calls)
  show ?case
  proof (cases call)
    case (SessionAdd doc)
    then obtain self1 w1 where step: "session_add_document ev w self doc = (Ok (d_id doc), self1, w1)"
      "session_holds ev w1 self1 (docs @ [doc]) dels i n" "untouched {SegmentPath i, WalPath n} w w1"
      using session_add_holds [OF Cons.prems(1), of doc] Cons.prems(2) by auto
    from Cons.IH [OF step(2)] Cons.prems(2) SessionAdd obtain self2 w2 where
      rest: "session_run ev w1 self1 calls = (Ok (), self2, w2)"
      "session_holds ev w2 self2 (docs @ doc # session_added calls) (dels @ session_deleted calls) i n"
      "untouched {SegmentPath i, WalPath n} w1 w2" by auto
    with step untouched_trans [OF step(3) rest(3)] SessionAdd show ?thesis by simp
  next
    case (SessionDelete d)
    then obtain self1 w1 where step: "session_delete_document ev w self d = (Ok (), self1, w1)"
      "session_holds ev w1 self1 docs (dels @ [d]) i n" "untouched {SegmentPath i, WalPath n} w w1"
      using session_delete_holds [OF Cons.prems(1)] by blast
    from Cons.IH [OF step(2)] Cons.prems(2) SessionDelete obtain self2 w2 where
      rest: "session_run ev w1 self1 calls = (Ok (), self2, w2)"
      "session_holds ev w2 self2 (docs @ session_added calls) (dels @ d # session_deleted calls) i n"
      "untouched {SegmentPath i, WalPath n} w1 w2" by auto
    with step untouched_trans [OF step(3) rest(3)] SessionDelete show ?thesis by simp
  qed
qed auto

lemma pending_deleted_eq: "pending_deleted m self = sn_deleted_docs (current_snapshot m) \<union> ucast ` set (fs_pending_deletes self)"
proof -
  have "foldl (\<lambda>deleted d. insert (ucast d) deleted) A ds = A \<union> ucast ` set ds" for A :: "u32 set" and ds :: "doc_id list"
    by (induction ds arbitrary: A) auto
  then show ?thesis by (simp add: pending_deleted_def)
qed

lemma session_flush_holds:
  assumes "session_holds ev w self docs dels i n" "env_laws ev LZ4" "length docs < 2 ^ 32"
  shows "\<exists>fs w'. session_flush ev w self = (Ok fs, w') \<and> fs_pending_deletes fs = dels \<and> wl_file (fs_wal fs) = WalPath n \<and>
           untouched {SegmentPath i, IndexPath i} w w' \<and>
           (case fs_finished_segment fs of
              None \<Rightarrow> docs = []
            | Some s \<Rightarrow> docs \<noteq> [] \<and> sg_id s = i \<and> unat (sg_doc_count s) = length docs \<and>
                segment_file_holds (ev_codec ev) w' i LZ4 docs)"
proof -
  have holds: "writer_holds (ev_codec ev) w (ws_segment_sink self) docs" "sw_compression (ws_segment_sink self) = LZ4"
    "sg_id (sw_segment (ws_segment_sink self)) = i"
    using assms(1) by (simp_all add: session_holds_def)
  have count: "unat (sg_doc_count (sw_segment (ws_segment_sink self))) = length docs"
    using holds(1) assms(3) by (simp add: writer_holds_def unat_of_nat)
  show ?thesis
  proof (cases "docs = []")
    case True
    with assms(1) count show ?thesis by (auto simp: session_flush_def session_holds_def word_less_nat_alt)
  next
    case False
    obtain s w' where s: "sw_finish (ev_codec ev) w (ws_segment_sink self) = (Ok s, w')" "sg_id s = i"
      "sg_doc_count s = of_nat (length docs)" "segment_file_holds (ev_codec ev) w' i LZ4 docs"
      "untouched {SegmentPath i, IndexPath i} w w'"
      using sw_finish_indexed [OF holds(1)] holds(2,3) assms(2) by auto
    moreover have "unat (sg_doc_count s) = length docs" using s(3) assms(3) by (simp add: unat_of_nat)
    ultimately show ?thesis
      using False assms(1) count by (simp add: session_flush_def session_holds_def word_less_nat_alt)
  qed
qed


lemma flushed_commit_publishes:
  assumes "mvcc_wf m" "mv_current_version m \<noteq> - 1"
  shows "\<exists>c w' m'. flushed_commit ev w m fs = (Ok c, w', m') \<and> untouched {wl_file (fs_wal fs)} w w' \<and>
           sn_segments (current_snapshot m') =
             sn_segments (current_snapshot m) @ (case fs_finished_segment fs of None \<Rightarrow> [] | Some s \<Rightarrow> [s]) \<and>
           sn_deleted_docs (current_snapshot m') =
             sn_deleted_docs (current_snapshot m) \<union> ucast ` set (fs_pending_deletes fs) \<and>
           cs_docs_committed c = (case fs_finished_segment fs of None \<Rightarrow> 0 | Some s \<Rightarrow> unat (sg_doc_count s)) \<and>
           cs_snapshot_version c = sn_version (current_snapshot m') \<and> mvcc_wf m'"
proof -
  obtain lg w1 where lg: "wal_append (ev_wal_codec ev) w (fs_wal fs) Commit = (lg, w1)" by fastforce
  note wal = wal_append_untouched [OF lg]
  define fs1 where "fs1 = fs\<lparr>fs_wal := wal_sync w1 lg\<rparr>"
  have del: "pending_deleted m fs1 = sn_deleted_docs (current_snapshot m) \<union> ucast ` set (fs_pending_deletes fs)"
    by (simp add: pending_deleted_eq fs1_def)
  define segs where "segs = sn_segments (current_snapshot m) @ (case fs_finished_segment fs of None \<Rightarrow> [] | Some s \<Rightarrow> [s])"
  obtain s m' where c: "create_snapshot_with_deletes m segs (pending_deleted m fs1) = (s, m')" by fastforce
  note created = create_wf [OF assms c]
  show ?thesis
  proof (cases "fs_finished_segment fs = None \<and> fs_pending_deletes fs = []")
    case True
    then show ?thesis
      using assms(1) wal by (simp add: flushed_commit_def lg)
  next
    case False
    let ?c = "\<lparr>cs_snapshot_version = sn_version s,
        cs_docs_committed = (case fs_finished_segment fs of None \<Rightarrow> 0 | Some s \<Rightarrow> unat (sg_doc_count s))\<rparr>"
    have "flushed_commit ev w m fs = (Ok ?c, w1, m')"
      using False c by (cases "fs_finished_segment fs") (simp_all add: flushed_commit_def lg fs1_def segs_def)
    then show ?thesis using created wal del by (simp add: segs_def)
  qed
qed

text \<open>
  C27: A write session publishes atomically.  Opening a session, adding and deleting documents in any
  order, flushing and committing always succeeds; the version controller is changed by the commit
  alone, which publishes one snapshot with the former segments, one further segment with exactly the
  added documents in order (none if there are none), and the former deletions together with the
  deleted identifiers.  Deletions are not ordered with additions: a document that is added in the
  session under an identifier that the session also deletes counts as deleted.
\<close>

theorem session_publishes:
  assumes "env_laws ev LZ4" "mvcc_wf m" "mv_current_version m \<noteq> - 1" "wl_file lg = WalPath n"
    and "\<forall>doc \<in> set (session_added calls). document_laws (ev_codec ev) LZ4 doc" "length (session_added calls) < 2 ^ 32"
    and "list_all2 (\<lambda>s docs. segment_file_holds (ev_codec ev) w (sg_id s) c docs \<and> sg_id s < w_next_id w)
           (sn_segments (current_snapshot m)) docss"
    and "open_session ev w lg = (s0, w0)"
  shows "\<exists>s1 w1 fs w2 r w3 m'.
           session_run ev w0 s0 calls = (Ok (), s1, w1) \<and> session_flush ev w1 s1 = (Ok fs, w2) \<and>
           flushed_commit ev w2 m fs = (Ok r, w3, m') \<and> cs_docs_committed r = length (session_added calls) \<and>
           list_all2 (\<lambda>s docs. \<exists>c. segment_file_holds (ev_codec ev) w3 (sg_id s) c docs) (sn_segments (current_snapshot m'))
             (docss @ (if session_added calls = [] then [] else [session_added calls])) \<and>
           sn_deleted_docs (current_snapshot m') =
             sn_deleted_docs (current_snapshot m) \<union> ucast ` set (session_deleted calls) \<and>
           (\<forall>doc \<in> set (session_added calls). d_id doc \<in> set (session_deleted calls) \<longrightarrow>
              \<not> alive (sn_deleted_docs (current_snapshot m')) doc)"
proof -
  let ?i = "w_next_id w" and ?docs = "session_added calls"
  obtain sink where new: "new_segment_writer ev w LZ4 = (sink, w0)" "s0 = \<lparr>ws_wal = lg, ws_segment_sink = sink, ws_pending_deletes = []\<rparr>"
    using assms(8) by (auto simp: open_session_def create_sink_def split: prod.splits)
  note nw = new_segment_writer_facts [OF new(1)]
  have "session_holds ev w0 s0 [] [] ?i n"
    using nw assms(4) by (simp add: session_holds_def new(2))
  from session_run_holds [OF this assms(5)] obtain s1 w1 where
    run: "session_run ev w0 s0 calls = (Ok (), s1, w1)" "session_holds ev w1 s1 ?docs (session_deleted calls) ?i n"
    "untouched {SegmentPath ?i, WalPath n} w0 w1" by auto
  from session_flush_holds [OF run(2) assms(1,6)] obtain fs w2 where
    fl: "session_flush ev w1 s1 = (Ok fs, w2)" "fs_pending_deletes fs = session_deleted calls" "wl_file (fs_wal fs) = WalPath n"
    "untouched {SegmentPath ?i, IndexPath ?i} w1 w2"
    "case fs_finished_segment fs of None \<Rightarrow> ?docs = []
     | Some s \<Rightarrow> ?docs \<noteq> [] \<and> sg_id s = ?i \<and> unat (sg_doc_count s) = length ?docs \<and> segment_file_holds (ev_codec ev) w2 ?i LZ4 ?docs"
    by blast
  from flushed_commit_publishes [OF assms(2,3), of ev w2 fs] obtain r w3 m' where
    cm: "flushed_commit ev w2 m fs = (Ok r, w3, m')" "untouched {WalPath n} w2 w3"
    "sn_segments (current_snapshot m') = sn_segments (current_snapshot m) @ (case fs_finished_segment fs of None \<Rightarrow> [] | Some s \<Rightarrow> [s])"
    "sn_deleted_docs (current_snapshot m') = sn_deleted_docs (current_snapshot m) \<union> ucast ` set (session_deleted calls)"
    "cs_docs_committed r = (case fs_finished_segment fs of None \<Rightarrow> 0 | Some s \<Rightarrow> unat (sg_doc_count s))"
    unfolding fl(2,3) by blast
  have all: "untouched {SegmentPath ?i, WalPath n, IndexPath ?i} w w3"
    by (rule untouched_mono [OF untouched_trans [OF untouched_trans [OF untouched_trans [OF nw(5) run(3)] fl(4)] cm(2)]]) auto
  have "list_all2 (\<lambda>s docs. \<exists>c. segment_file_holds (ev_codec ev) w3 (sg_id s) c docs) (sn_segments (current_snapshot m)) docss"
    using assms(7) by (rule list_all2_mono) (auto intro!: exI [of _ c] segment_file_holds_untouched [OF _ all])
  moreover have "segment_file_holds (ev_codec ev) w3 ?i LZ4 ?docs" if "fs_finished_segment fs = Some s" for s
    using fl(5) that segment_file_holds_untouched [OF _ cm(2)] by auto
  ultimately have "list_all2 (\<lambda>s docs. \<exists>c. segment_file_holds (ev_codec ev) w3 (sg_id s) c docs) (sn_segments (current_snapshot m'))
      (docss @ (if ?docs = [] then [] else [?docs]))"
    using fl(5) by (cases "fs_finished_segment fs") (auto simp: cm(3) intro!: list_all2_appendI)
  moreover have "cs_docs_committed r = length ?docs"
    using fl(5) cm(5) by (cases "fs_finished_segment fs") auto
  ultimately show ?thesis
    using run(1) fl(1) cm(1,4) by auto
qed

text \<open>A codec with a trivial compressor shows that the hypotheses can hold.\<close>

definition lz4_env :: env where
  "lz4_env = plain_env\<lparr>ev_codec := plain_codec\<lparr>de_block := (\<lambda>bs. if length bs < 8 then Err io_eof
     else Ok \<lparr>cb_data = drop 8 bs, cb_original_size = length (drop 8 bs), cb_compression = LZ4\<rparr>)\<rparr>\<rparr>"

lemma lz4_env_laws:
  "env_laws lz4_env LZ4" "small_id i \<Longrightarrow> document_laws (ev_codec lz4_env) LZ4 (document_new i)"
  using plain_codec_header_laws read_u32_to_le [of _ "[]"]
  by (simp_all add: env_laws_def lz4_env_def header_laws_def plain_codec_def compress_def decompress_def
      store_only_def document_laws_def document_new_def small_id_iff size_as_i32_def)

theorem session_publishes_witness:
  "\<exists>s0 w0 s1 w1 fs w2 r w3 m'.
     open_session lz4_env empty_world (fst (wal_open empty_world 7)) = (s0, w0) \<and>
     session_run lz4_env w0 s0 [SessionDelete 3, SessionAdd (document_new 4)] = (Ok (), s1, w1) \<and>
     session_flush lz4_env w1 s1 = (Ok fs, w2) \<and> flushed_commit lz4_env w2 mvcc_new fs = (Ok r, w3, m') \<and>
     cs_docs_committed r = 1 \<and> sn_deleted_docs (current_snapshot m') = {3}"
proof -
  let ?calls = "[SessionDelete 3, SessionAdd (document_new 4)]"
  obtain s0 w0 where op: "open_session lz4_env empty_world (fst (wal_open empty_world 7)) = (s0, w0)" by fastforce
  have laws: "\<forall>doc \<in> set (session_added ?calls). document_laws (ev_codec lz4_env) LZ4 doc"
    by (simp add: lz4_env_laws small_id_def)
  have cur: "current_snapshot mvcc_new = snapshot_default" by (simp add: current_snapshot_def mvcc_new_def)
  have "wl_file (fst (wal_open empty_world 7)) = WalPath 7" by (simp add: wal_open_def)
  from session_publishes [OF lz4_env_laws(1) mvcc_wf_new _ this laws _ _ op, where docss = "[]"] op show ?thesis
    by (simp add: cur snapshot_default_def) (fastforce simp: mvcc_new_def)
qed

subsection \<open>The batch writer adds commands\<close>

fun bw_add_all :: "env \<Rightarrow> batch_writer \<Rightarrow> document list \<Rightarrow> unit result \<times> batch_writer" where
  "bw_add_all ev self [] = (Ok (), self)"
| "bw_add_all ev self (doc # docs) =
     (case bw_add ev self doc of
        (Inl e, self) \<Rightarrow> (Err e, self)
      | (Inr _, self) \<Rightarrow> bw_add_all ev self docs)"

definition bw_write_all :: "env \<Rightarrow> batch_writer \<Rightarrow> document list \<Rightarrow> unit result \<times> index_writer" where
  "bw_write_all ev self docs =
     (case bw_add_all ev self docs of
        (Inl e, self) \<Rightarrow> (Err e, bw_writer self)
      | (Inr _, self) \<Rightarrow> bw_finish ev self)"

fun batch_commands :: "nat \<Rightarrow> document list \<Rightarrow> document list \<Rightarrow> command list" where
  "batch_commands n buf [] = map AddCommand buf @ [FlushCommand, CommitCommand]"
| "batch_commands n buf (doc # docs) =
     (if length buf + 1 \<ge> n
      then map AddCommand (buf @ [doc]) @ FlushCommand # batch_commands n [] docs
      else batch_commands n (buf @ [doc]) docs)"

lemma bw_flush_run:
  "bw_flush ev self =
     (case writer_run ev (bw_writer self) (map AddCommand (bw_buffer self) @ [FlushCommand]) of
        (r, writer) \<Rightarrow> (r, self\<lparr>bw_writer := writer, bw_buffer := []\<rparr>))"
  by (auto simp: bw_flush_def writer_run_append add_each_run split: prod.splits sum.splits)

text \<open>
  The batch writer is the index writer.  Adding documents through a batch writer and finishing it
  is the same, failures included, as adding them to its index writer with a flush after every full
  batch, and a flush and a commit at the end; so no buffered document is left behind.
\<close>

theorem batch_writer_runs_commands:
  "bw_write_all ev self docs = writer_run ev (bw_writer self) (batch_commands (bw_batch_size self) (bw_buffer self) docs)"
proof (induction docs arbitrary: self)
  case Nil
  have "writer_run ev (bw_writer self) (batch_commands (bw_batch_size self) (bw_buffer self) []) =
      writer_run ev (bw_writer self) ((map AddCommand (bw_buffer self) @ [FlushCommand]) @ [CommitCommand])" by simp
  also have "\<dots> = bw_finish ev self"
    unfolding writer_run_append [of ev _ "map AddCommand (bw_buffer self) @ [FlushCommand]"] bw_finish_def bw_flush_run
    by (auto split: prod.splits sum.splits)
  finally show ?case by (simp add: bw_write_all_def)
next
  case (Cons doc docs)
  show ?case
  proof (cases "length (bw_buffer self) + 1 \<ge> bw_batch_size self")
    case True
    let ?step = "map AddCommand (bw_buffer self @ [doc]) @ [FlushCommand]"
    obtain r writer where run: "writer_run ev (bw_writer self) ?step = (r, writer)" by fastforce
    have "batch_commands (bw_batch_size self) (bw_buffer self) (doc # docs) = ?step @ batch_commands (bw_batch_size self) [] docs"
      using True by simp
    then have right: "writer_run ev (bw_writer self) (batch_commands (bw_batch_size self) (bw_buffer self) (doc # docs)) =
        (case r of Inl e \<Rightarrow> (Inl e, writer) | Inr _ \<Rightarrow> writer_run ev writer (batch_commands (bw_batch_size self) [] docs))"
      by (simp only: writer_run_append [of ev _ ?step] run prod.case)
    have "bw_add ev self doc = (r, self\<lparr>bw_writer := writer, bw_buffer := []\<rparr>)"
      using True run by (simp add: bw_add_def Let_def bw_flush_run)
    then have "bw_write_all ev self (doc # docs) =
        (case r of Inl e \<Rightarrow> (Inl e, writer)
         | Inr _ \<Rightarrow> bw_write_all ev (self\<lparr>bw_writer := writer, bw_buffer := []\<rparr>) docs)"
      by (simp add: bw_write_all_def split: sum.split)
    then show ?thesis unfolding right Cons.IH by (simp split: sum.split)
  next
    case False
    then have "bw_write_all ev self (doc # docs) = bw_write_all ev (self\<lparr>bw_buffer := bw_buffer self @ [doc]\<rparr>) docs"
      by (simp add: bw_write_all_def bw_add_def Let_def)
    with False Cons.IH show ?thesis by simp
  qed
qed

subsection \<open>The data writer\<close>

lemma dw_store_holds:
  assumes "writer_holds (ev_codec ev) (dw_world self) (dw_segment_writer self) docs"
    "document_laws (ev_codec ev) (sw_compression (dw_segment_writer self)) doc"
  shows "\<exists>sw w. dw_store ev self doc = (Ok (), self\<lparr>dw_segment_writer := sw, dw_world := w\<rparr>) \<and>
           writer_holds (ev_codec ev) w sw (docs @ [doc]) \<and> sw_compression sw = sw_compression (dw_segment_writer self)"
proof -
  obtain off sw w where "write_document (ev_codec ev) (dw_world self) (dw_segment_writer self) doc = Ok (off, sw, w)"
    "writer_holds (ev_codec ev) w sw (docs @ [doc])" "sw_compression sw = sw_compression (dw_segment_writer self)"
    using write_document_holds [OF assms] by blast
  then show ?thesis by (intro exI [of _ sw] exI [of _ w]) (simp add: dw_store_def)
qed

lemma dw_store_all_holds:
  assumes "writer_holds (ev_codec ev) (dw_world self) (dw_segment_writer self) docs"
    "\<forall>doc \<in> set pending. document_laws (ev_codec ev) (sw_compression (dw_segment_writer self)) doc"
  shows "\<exists>sw w. dw_store_all ev self pending = (Ok (), self\<lparr>dw_segment_writer := sw, dw_world := w\<rparr>) \<and>
           writer_holds (ev_codec ev) w sw (docs @ pending)"
  using assms
proof (induction pending arbitrary: self docs)
  case Nil
  then show ?case by (auto intro!: exI [of _ "dw_segment_writer self"] exI [of _ "dw_world self"])
next
  case (Cons doc pending)
  then obtain sw w where step: "dw_store ev self doc = (Ok (), self\<lparr>dw_segment_writer := sw, dw_world := w\<rparr>)"
    "writer_holds (ev_codec ev) w sw (docs @ [doc])" "sw_compression sw = sw_compression (dw_segment_writer self)"
    using dw_store_holds [OF Cons.prems(1), of doc] by auto
  with Cons.IH [of "self\<lparr>dw_segment_writer := sw, dw_world := w\<rparr>" "docs @ [doc]"] Cons.prems(2) show ?case by auto
qed

lemma dw_log_holds:
  assumes "wl_file (dw_wal self) = WalPath n" "writer_holds (ev_codec ev) (dw_world self) (dw_segment_writer self) docs"
  shows "wl_file (dw_wal (foldl (dw_log ev) self pending)) = WalPath n \<and>
         dw_segment_writer (foldl (dw_log ev) self pending) = dw_segment_writer self \<and>
         writer_holds (ev_codec ev) (dw_world (foldl (dw_log ev) self pending)) (dw_segment_writer self) docs"
  using assms
proof (induction pending arbitrary: self)
  case (Cons doc pending)
  obtain lg w where lg: "wal_append (ev_wal_codec ev) (dw_world self) (dw_wal self) (AddDocument doc) = (lg, w)" by fastforce
  note wal = wal_append_untouched [OF lg]
  have "writer_holds (ev_codec ev) w (dw_segment_writer self) docs"
    using Cons.prems wal writer_holds_untouched [OF Cons.prems(2), of "{wl_file (dw_wal self)}" w] by (auto simp: sw_path_def)
  with Cons.IH [of "dw_log ev self doc"] Cons.prems(1) wal show ?case by (simp add: dw_log_def lg)
qed simp

text \<open>A flushed batch is logged and stored completely, and the batch is empty afterwards.\<close>

lemma flush_batch_stores:
  assumes "wl_file (dw_wal self) = WalPath n" "writer_holds (ev_codec ev) (dw_world self) (dw_segment_writer self) docs"
    "\<forall>doc \<in> set (dw_pending_docs self). document_laws (ev_codec ev) (sw_compression (dw_segment_writer self)) doc"
  shows "\<exists>self'. flush_batch ev self = (Ok (length (dw_pending_docs self)), self') \<and> dw_pending_docs self' = [] \<and>
           writer_holds (ev_codec ev) (dw_world self') (dw_segment_writer self') (docs @ dw_pending_docs self)"
proof (cases "dw_pending_docs self = []")
  case False
  let ?logged = "foldl (dw_log ev) self (dw_pending_docs self)"
  note logged = dw_log_holds [OF assms(1,2), of "dw_pending_docs self"]
  obtain sw w where "dw_store_all ev ?logged (dw_pending_docs self) = (Ok (), ?logged\<lparr>dw_segment_writer := sw, dw_world := w\<rparr>)"
    "writer_holds (ev_codec ev) w sw (docs @ dw_pending_docs self)"
    using dw_store_all_holds [of ev ?logged docs "dw_pending_docs self"] logged assms(3) by auto
  with False show ?thesis by (simp add: flush_batch_def Let_def)
qed (use assms in \<open>simp add: flush_batch_def\<close>)

end
