(* ===== verification/Query_Cache.thy ===== *)
theory Query_Cache
  imports Executor
begin

section \<open>The query cache\<close>

text \<open>
  The model of \<^verbatim>\<open>src/query/cache.rs\<close>.  The cache of the crate \<^verbatim>\<open>lru\<close> is a parameter, with its
  operations in \<open>lru_ops\<close> and what its documentation says of them in \<open>lru_laws\<close>; so is the hash of
  a string, whose algorithm the standard library does not fix.  The counters wrap at 64 bits.
\<close>

record query_cache_key =
  qk_query_hash :: u64
  qk_limit :: nat
  qk_offset :: nat

record query_key =
  lk_query :: string
  lk_limit :: nat
  lk_offset :: nat

record 'l lru_ops =
  lru_new :: "nat \<Rightarrow> 'l"
  lru_peek :: "'l \<Rightarrow> query_cache_key \<Rightarrow> search_results option"
  lru_put :: "'l \<Rightarrow> query_cache_key \<Rightarrow> search_results \<Rightarrow> 'l"
  lru_clear :: "'l \<Rightarrow> 'l"
  lru_len :: "'l \<Rightarrow> nat"

definition lru_laws :: "'l lru_ops \<Rightarrow> bool" where
  "lru_laws ops \<longleftrightarrow>
     (\<forall>n k. lru_peek ops (lru_new ops n) k = None) \<and>
     (\<forall>l k. lru_peek ops (lru_clear ops l) k = None) \<and>
     (\<forall>l k r. lru_peek ops (lru_put ops l k r) k = Some r) \<and>
     (\<forall>l k k' r. k' \<noteq> k \<longrightarrow> lru_peek ops (lru_put ops l k r) k' \<in> {lru_peek ops l k', None})"

record 'l query_cache =
  qc_cache :: 'l
  qc_size_limit :: nat
  qc_hit_count :: u64
  qc_miss_count :: u64

definition query_cache_key_new :: "(string \<Rightarrow> u64) \<Rightarrow> string \<Rightarrow> nat \<Rightarrow> nat \<Rightarrow> query_cache_key" where
  "query_cache_key_new hash_of s limit offset = \<lparr>qk_query_hash = hash_of s, qk_limit = limit, qk_offset = offset\<rparr>"

definition query_cache_new :: "'l lru_ops \<Rightarrow> nat \<Rightarrow> 'l query_cache result" where
  "query_cache_new ops size_limit =
     (if size_limit = 0 then Err Panic
      else Ok \<lparr>qc_cache = lru_new ops size_limit, qc_size_limit = size_limit, qc_hit_count = 0, qc_miss_count = 0\<rparr>)"

definition cache_get ::
  "'l lru_ops \<Rightarrow> 'l query_cache \<Rightarrow> query_cache_key \<Rightarrow> search_results option \<times> 'l query_cache" where
  "cache_get ops self key =
     (case lru_peek ops (qc_cache self) key of
        Some results \<Rightarrow> (Some results, self\<lparr>qc_hit_count := qc_hit_count self + 1\<rparr>)
      | None \<Rightarrow> (None, self\<lparr>qc_miss_count := qc_miss_count self + 1\<rparr>))"

definition cache_get_by_str ::
  "'l lru_ops \<Rightarrow> (string \<Rightarrow> u64) \<Rightarrow> 'l query_cache \<Rightarrow> string \<Rightarrow> nat \<Rightarrow> nat \<Rightarrow> search_results option \<times> 'l query_cache" where
  "cache_get_by_str ops hash_of self s limit offset = cache_get ops self (query_cache_key_new hash_of s limit offset)"

definition cache_put :: "'l lru_ops \<Rightarrow> 'l query_cache \<Rightarrow> query_cache_key \<Rightarrow> search_results \<Rightarrow> 'l query_cache" where
  "cache_put ops self key results = self\<lparr>qc_cache := lru_put ops (qc_cache self) key results\<rparr>"

definition cache_put_by_str ::
  "'l lru_ops \<Rightarrow> (string \<Rightarrow> u64) \<Rightarrow> 'l query_cache \<Rightarrow> string \<Rightarrow> nat \<Rightarrow> nat \<Rightarrow> search_results \<Rightarrow> 'l query_cache" where
  "cache_put_by_str ops hash_of self s limit offset results =
     cache_put ops self (query_cache_key_new hash_of s limit offset) results"

definition cache_put_legacy ::
  "'l lru_ops \<Rightarrow> (string \<Rightarrow> u64) \<Rightarrow> 'l query_cache \<Rightarrow> query_key \<Rightarrow> search_results \<Rightarrow> 'l query_cache" where
  "cache_put_legacy ops hash_of self key results =
     cache_put ops self (query_cache_key_new hash_of (lk_query key) (lk_limit key) (lk_offset key)) results"

definition cache_clear :: "'l lru_ops \<Rightarrow> 'l query_cache \<Rightarrow> 'l query_cache" where
  "cache_clear ops self = self\<lparr>qc_cache := lru_clear ops (qc_cache self)\<rparr>"

record cache_stats =
  ct_hit_count :: u64
  ct_miss_count :: u64
  ct_size :: nat
  ct_capacity :: nat

definition cache_stats_of :: "'l lru_ops \<Rightarrow> 'l query_cache \<Rightarrow> cache_stats" where
  "cache_stats_of ops self =
     \<lparr>ct_hit_count = qc_hit_count self, ct_miss_count = qc_miss_count self, ct_size = lru_len ops (qc_cache self),
      ct_capacity = qc_size_limit self\<rparr>"

definition hit_rate :: "cache_stats \<Rightarrow> fval" where
  "hit_rate self =
     (let total = ct_hit_count self + ct_miss_count self
      in if total = 0 then Fin 0 else d_div (d_of_nat (unat (ct_hit_count self))) (d_of_nat (unat total)))"

text \<open>
  The cache answers with the results stored last under the same key, or not at all; and since the
  key holds the hash of the query and not the query, two queries with the same hash and limit get
  each other's results.
\<close>

theorem cache_returns_stored:
  assumes "lru_laws ops"
  shows "fst (cache_get_by_str ops hash_of (cache_put_by_str ops hash_of self s limit offset r) s' limit' offset') \<in>
           (if hash_of s' = hash_of s \<and> limit' = limit \<and> offset' = offset then {Some r}
            else {fst (cache_get_by_str ops hash_of self s' limit' offset'), None})"
proof -
  let ?k = "query_cache_key_new hash_of s limit offset" and ?k' = "query_cache_key_new hash_of s' limit' offset'"
  have same: "?k' = ?k \<longleftrightarrow> hash_of s' = hash_of s \<and> limit' = limit \<and> offset' = offset"
    by (auto simp: query_cache_key_new_def)
  have got: "fst (cache_get ops c k) = lru_peek ops (qc_cache c) k" for c k
    by (simp add: cache_get_def split: option.split)
  have "lru_peek ops (lru_put ops (qc_cache self) ?k r) ?k' \<in>
      (if ?k' = ?k then {Some r} else {lru_peek ops (qc_cache self) ?k', None})"
    using assms by (auto simp: lru_laws_def)
  then show ?thesis
    unfolding same by (auto simp: cache_get_by_str_def cache_put_by_str_def cache_put_def got split: if_splits)
qed

text \<open>A cache that keeps everything in an association list has the laws.\<close>

definition list_lru :: "(query_cache_key \<times> search_results) list lru_ops" where
  "list_lru = \<lparr>lru_new = (\<lambda>n. []), lru_peek = map_of, lru_put = (\<lambda>l k r. (k, r) # l), lru_clear = (\<lambda>l. []), lru_len = length\<rparr>"

lemma list_lru_laws: "lru_laws list_lru"
  by (simp add: lru_laws_def list_lru_def)

definition no_results :: search_results where
  "no_results = \<lparr>sr_hits = [], sr_total_hits = 0, sr_max_score = Fin 0\<rparr>"

definition empty_cache :: "(query_cache_key \<times> search_results) list query_cache" where
  "empty_cache = \<lparr>qc_cache = [], qc_size_limit = 1, qc_hit_count = 0, qc_miss_count = 0\<rparr>"

theorem cache_returns_stored_witness:
  "fst (cache_get_by_str list_lru (\<lambda>s. of_nat (length s))
     (cache_put_by_str list_lru (\<lambda>s. of_nat (length s)) empty_cache ''rust'' 10 0 no_results) ''java'' 10 0) = Some no_results"
  using cache_returns_stored [OF list_lru_laws, of "\<lambda>s. of_nat (length s)" empty_cache "''rust''" 10 0 no_results "''java''" 10 0]
  by simp

end
