(* ===== verification/Engine.thy ===== *)
theory Engine
  imports Query_Cache Compaction Transaction Memory Write_Session
begin

section \<open>The engine\<close>

text \<open>
  The model of \<^verbatim>\<open>src/core/engine.rs\<close>, \<^verbatim>\<open>components.rs\<close>, \<^verbatim>\<open>facade.rs\<close>, \<^verbatim>\<open>database_rw.rs\<close>, \<^verbatim>\<open>config.rs\<close>
  and \<^verbatim>\<open>stats.rs\<close>.  The engine's record holds its components; the writer holds the version controller
  and the disk that the readers share.  An operation returns its result and the engine as it is
  then.  Clock times, latencies and rates per second are left out, and the memory and buffer pools,
  which the engine creates and never uses, are modelled on their own.  What belongs to libraries is
  collected in \<open>engine_env\<close>; \<open>ee_context\<close> is the matcher's context, whose index is the one that the
  engine creates.
\<close>

subsection \<open>Assembly\<close>

record config =
  cf_memory_limit :: nat
  cf_cache_size :: nat
  cf_writer_batch_size :: nat
  cf_writer_commit_interval_secs :: u64
  cf_writer_max_segment_size :: nat
  cf_max_readers :: nat
  cf_buffer_pool_size :: "nat option"
  cf_indexing_threads :: "nat option"
  cf_compression :: compression_type
  cf_merge_policy :: merge_policy_type

definition config_default :: config where
  "config_default =
     \<lparr>cf_memory_limit = 100 * 1024 * 1024, cf_cache_size = 10 * 1024 * 1024, cf_writer_batch_size = 1000,
      cf_writer_commit_interval_secs = 60, cf_writer_max_segment_size = 50 * 1024 * 1024, cf_max_readers = 10,
      cf_buffer_pool_size = Some (100 * 1024 * 1024), cf_indexing_threads = None, cf_compression = LZ4, cf_merge_policy = Tiered\<rparr>"

record ('l, 'm) engine_env =
  ee_env :: env
  ee_lru :: "'l lru_ops"
  ee_hash :: "string \<Rightarrow> u64"
  ee_value_parsers :: value_parsers
  ee_text_ops :: text_ops
  ee_context :: "'m match_context"
  ee_order :: id_order

record ('l, 'm) engine =
  en_writer :: index_writer
  en_reader_pool :: "'m reader_pool"
  en_executor :: query_executor
  en_parser :: query_parser
  en_cache :: "'l query_cache"
  en_schema :: schema
  en_low_memory :: "low_memory_mode option"
  en_config :: config
  en_query_count :: u64
  en_write_count :: u64
  en_transactions :: u64

definition assemble :: "('l, 'm) engine_env \<Rightarrow> world \<Rightarrow> schema \<Rightarrow> config \<Rightarrow> ('l, 'm) engine result" where
  "assemble ee w schema cfg =
     (let index = inverted_index_new;
          an = (case registry_new (ee_text_ops ee) (sc_default_analyzer schema) of
                  Some a \<Rightarrow> a
                | None \<Rightarrow> standard_english (ee_text_ops ee));
          writer = (new_with_merge_policy (ee_env ee) w mvcc_new an (cf_merge_policy cfg) (cf_compression cfg))
                     \<lparr>iw_batch_size := cf_writer_batch_size cfg, iw_compression := cf_compression cfg\<rparr>
      in and_then (query_cache_new (ee_lru ee) (cf_cache_size cfg div 1024)) (\<lambda>cache.
           Ok \<lparr>en_writer = writer,
               en_reader_pool = reader_pool_new ((ee_context ee)\<lparr>mx_index := index\<rparr>) (cf_max_readers cfg),
               en_executor = query_executor_new, en_parser = query_parser_new, en_cache = cache,
               en_schema = schema, en_low_memory = None, en_config = cfg, en_query_count = 0,
               en_write_count = 0, en_transactions = 1\<rparr>))"

definition engine_new :: "('l, 'm) engine_env \<Rightarrow> world \<Rightarrow> schema \<Rightarrow> config \<Rightarrow> ('l, 'm) engine result" where
  "engine_new ee w schema cfg = assemble ee w schema cfg"

subsection \<open>Memory\<close>

definition enable_low_memory_mode :: "('l, 'm) engine \<Rightarrow> low_memory_config \<Rightarrow> ('l, 'm) engine" where
  "enable_low_memory_mode self cfg = self\<lparr>en_low_memory := Some (low_memory_mode_new cfg)\<rparr>"

definition get_memory_pressure :: "('l, 'm) engine \<Rightarrow> fval option" where
  "get_memory_pressure self = map_option memory_pressure (en_low_memory self)"

definition maybe_reclaim_memory :: "('l, 'm) engine \<Rightarrow> unit result \<times> ('l, 'm) engine" where
  "maybe_reclaim_memory self =
     (case en_low_memory self of
        Some lm \<Rightarrow> (case maybe_reclaim lm of (r, lm) \<Rightarrow> (r, self\<lparr>en_low_memory := Some lm\<rparr>))
      | None \<Rightarrow> (Ok (), self))"

fun field_size :: "field_value \<Rightarrow> nat" where
  "field_size (FText s) = length s"
| "field_size (FNumber _) = 8"
| "field_size (FDate _) = 8"
| "field_size (FBoolean _) = 1"

definition document_size :: "document \<Rightarrow> nat" where
  "document_size doc = sum_list (map (\<lambda>(k, v). length k + field_size v) (d_fields doc)) + 100"

definition track_allocation :: "('l, 'm) engine \<Rightarrow> nat \<Rightarrow> unit result \<times> ('l, 'm) engine" where
  "track_allocation self n =
     (case en_low_memory self of
        None \<Rightarrow> (Ok (), self)
      | Some lm \<Rightarrow>
          (case mt_allocate (lw_memory_tracker lm) (of_nat n) of
             (r, t) \<Rightarrow> (r, self\<lparr>en_low_memory := Some (lm\<lparr>lw_memory_tracker := t\<rparr>)\<rparr>)))"

definition track_release :: "('l, 'm) engine \<Rightarrow> nat \<Rightarrow> ('l, 'm) engine" where
  "track_release self n =
     self\<lparr>en_low_memory :=
       map_option (\<lambda>lm. lm\<lparr>lw_memory_tracker := mt_deallocate (lw_memory_tracker lm) (of_nat n)\<rparr>) (en_low_memory self)\<rparr>"

subsection \<open>Writing\<close>

definition with_writer ::
  "(index_writer \<Rightarrow> 'r result \<times> index_writer) \<Rightarrow> ('l, 'm) engine \<Rightarrow> 'r result \<times> ('l, 'm) engine" where
  "with_writer f self = (case f (en_writer self) of (r, writer) \<Rightarrow> (r, self\<lparr>en_writer := writer\<rparr>))"

definition engine_write_document ::
  "('l, 'm) engine_env \<Rightarrow> ('l, 'm) engine \<Rightarrow> document \<Rightarrow> unit result \<times> ('l, 'm) engine" where
  "engine_write_document ee self doc =
     (let self = self\<lparr>en_write_count := en_write_count self + 1\<rparr>
      in case track_allocation self (document_size doc) of
           (Inl e, self) \<Rightarrow> (Err e, self)
         | (Inr _, self) \<Rightarrow>
             (case (case get_memory_pressure self of
                      Some pressure \<Rightarrow>
                        if f_lt (round_f32 (8 / 10)) pressure then maybe_reclaim_memory self else (Ok (), self)
                    | None \<Rightarrow> (Ok (), self)) of
                (Inl e, self) \<Rightarrow> (Err e, self)
              | (Inr _, self) \<Rightarrow> with_writer (\<lambda>w. iw_add_document (ee_env ee) w doc) self))"

definition delete_document_by_id ::
  "('l, 'm) engine_env \<Rightarrow> ('l, 'm) engine \<Rightarrow> doc_id \<Rightarrow> unit result \<times> ('l, 'm) engine" where
  "delete_document_by_id ee self d =
     (let self = self\<lparr>en_write_count := en_write_count self + 1\<rparr>;
          self = track_release self 500
      in with_writer (\<lambda>w. delete_document (ee_env ee) w d) self)"

definition engine_compact :: "('l, 'm) engine_env \<Rightarrow> ('l, 'm) engine \<Rightarrow> unit result \<times> ('l, 'm) engine" where
  "engine_compact ee self = with_writer (compact (ee_env ee)) self"

definition flush_segments :: "('l, 'm) engine_env \<Rightarrow> ('l, 'm) engine \<Rightarrow> unit result \<times> ('l, 'm) engine" where
  "flush_segments ee self = with_writer (iw_flush (ee_env ee)) self"

definition commit_wal :: "('l, 'm) engine_env \<Rightarrow> ('l, 'm) engine \<Rightarrow> unit result \<times> ('l, 'm) engine" where
  "commit_wal ee self = with_writer (iw_commit (ee_env ee)) self"

definition engine_recover ::
  "('l, 'm) engine_env \<Rightarrow> string list \<Rightarrow> ('l, 'm) engine \<Rightarrow> unit result \<times> ('l, 'm) engine" where
  "engine_recover ee names self = with_writer (recover (ee_env ee) names) self"

subsection \<open>Searching\<close>

definition engine_reader ::
  "('l, 'm) engine_env \<Rightarrow> ('l, 'm) engine \<Rightarrow> ('m index_reader \<times> ('l, 'm) engine) result" where
  "engine_reader ee self =
     and_then (get_reader (ev_codec (ee_env ee)) (iw_world (en_writer self)) (iw_mvcc (en_writer self))
                 (en_reader_pool self)) (\<lambda>(reader, pool).
       Ok (reader, self\<lparr>en_reader_pool := pool\<rparr>))"

definition run_search ::
  "('l, 'm) engine_env \<Rightarrow> ('l, 'm) engine \<Rightarrow> string \<Rightarrow> nat \<Rightarrow> execution_config
     \<Rightarrow> search_results result \<times> ('l, 'm) engine" where
  "run_search ee self query_str limit cfg =
     (let self = self\<lparr>en_query_count := en_query_count self + 1\<rparr>
      in case cache_get_by_str (ee_lru ee) (ee_hash ee) (en_cache self) query_str limit 0 of
           (Some cached, cache) \<Rightarrow> (Ok cached, self\<lparr>en_cache := cache\<rparr>)
         | (None, cache) \<Rightarrow>
             (let self = self\<lparr>en_cache := cache\<rparr>
              in case parse (ee_value_parsers ee) (en_parser self) query_str of
                   Inl e \<Rightarrow> (Err e, self)
                 | Inr q \<Rightarrow>
                     (case engine_reader ee self of
                        Inl e \<Rightarrow> (Err e, self)
                      | Inr (reader, self) \<Rightarrow>
                          (case execute (en_executor self) (ev_codec (ee_env ee)) reader q limit cfg of
                             Inl e \<Rightarrow> (Err e, self)
                           | Inr results \<Rightarrow>
                               (Ok results,
                                self\<lparr>en_cache := cache_put_by_str (ee_lru ee) (ee_hash ee) (en_cache self)
                                       query_str limit 0 results\<rparr>)))))"

fun delete_all ::
  "('l, 'm) engine_env \<Rightarrow> ('l, 'm) engine \<Rightarrow> doc_id list \<Rightarrow> nat \<Rightarrow> nat result \<times> ('l, 'm) engine" where
  "delete_all ee self [] deleted_count = (Ok deleted_count, self)"
| "delete_all ee self (d # ds) deleted_count =
     (case delete_document_by_id ee self d of
        (Inl e, self) \<Rightarrow> (Err e, self)
      | (Inr _, self) \<Rightarrow> delete_all ee self ds (deleted_count + 1))"

definition delete_by_query ::
  "('l, 'm) engine_env \<Rightarrow> ('l, 'm) engine \<Rightarrow> string \<Rightarrow> nat result \<times> ('l, 'm) engine" where
  "delete_by_query ee self query_str =
     (case parse (ee_value_parsers ee) (en_parser self) query_str of
        Inl e \<Rightarrow> (Err e, self)
      | Inr q \<Rightarrow>
          (case engine_reader ee self of
             Inl e \<Rightarrow> (Err e, self)
           | Inr (reader, self) \<Rightarrow>
               (case reader_search (ev_codec (ee_env ee)) reader q of
                  Inl e \<Rightarrow> (Err e, self)
                | Inr results \<Rightarrow> delete_all ee self (map sd_doc_id (sr_hits results)) 0)))"

subsection \<open>Transactions\<close>

definition engine_begin_transaction ::
  "('l, 'm) engine \<Rightarrow> isolation_level \<Rightarrow> transaction \<times> ('l, 'm) engine" where
  "engine_begin_transaction self isolation =
     (case tx_begin (en_transactions self) (iw_mvcc (en_writer self)) isolation of
        (tx, counter) \<Rightarrow> (tx, self\<lparr>en_transactions := counter\<rparr>))"

definition apply_transaction_op ::
  "('l, 'm) engine_env \<Rightarrow> ('l, 'm) engine \<Rightarrow> transaction_op \<Rightarrow> unit result \<times> ('l, 'm) engine" where
  "apply_transaction_op ee self op =
     (case op of
        Insert doc \<Rightarrow> engine_write_document ee self doc
      | Update d doc \<Rightarrow>
          (case delete_document_by_id ee self d of
             (Inl e, self) \<Rightarrow> (Err e, self)
           | (Inr _, self) \<Rightarrow> engine_write_document ee self doc)
      | Delete d \<Rightarrow> delete_document_by_id ee self d)"

fun apply_transaction_ops ::
  "('l, 'm) engine_env \<Rightarrow> ('l, 'm) engine \<Rightarrow> transaction_op list \<Rightarrow> unit result \<times> ('l, 'm) engine" where
  "apply_transaction_ops ee self [] = (Ok (), self)"
| "apply_transaction_ops ee self (op # ops) =
     (case apply_transaction_op ee self op of
        (Inl e, self) \<Rightarrow> (Err e, self)
      | (Inr _, self) \<Rightarrow> apply_transaction_ops ee self ops)"

text \<open>The closure works on the transaction while the disk does not change.\<close>

definition with_transaction ::
  "('l, 'm) engine_env \<Rightarrow> ('l, 'm) engine \<Rightarrow> isolation_level \<Rightarrow> (world \<Rightarrow> transaction \<Rightarrow> 'r result \<times> transaction)
     \<Rightarrow> 'r result \<times> ('l, 'm) engine" where
  "with_transaction ee self isolation f =
     (let (tx, self) = engine_begin_transaction self isolation
      in case f (iw_world (en_writer self)) tx of
           (Inr result, tx) \<Rightarrow>
             (case tx_commit (ev_codec (ee_env ee)) (ee_order ee) (iw_world (en_writer self)) (iw_mvcc (en_writer self)) tx of
                (Inl e, tx) \<Rightarrow> (Err e, self)
              | (Inr ops, tx) \<Rightarrow>
                  (case apply_transaction_ops ee self ops of
                     (Inl e, self) \<Rightarrow> (Err e, self)
                   | (Inr _, self) \<Rightarrow>
                       (case flush_segments ee self of
                          (Inl e, self) \<Rightarrow> (Err e, self)
                        | (Inr _, self) \<Rightarrow> (Ok result, self))))
         | (Inl e, tx) \<Rightarrow>
             (case tx_rollback tx of (r, tx) \<Rightarrow> (and_then r (\<lambda>_. Err e), self)))"

subsection \<open>Statistics and health\<close>

record memory_stats =
  my_allocated_bytes :: nat
  my_used_bytes :: nat
  my_capacity_bytes :: nat
  my_utilization_percent :: fval

record buffer_stats =
  bs_page_count :: nat
  bs_page_size :: nat
  bs_hit_rate :: fval
  bs_dirty_pages :: nat

record database_stats =
  st_uptime_secs :: u64
  st_segment_count :: nat
  st_total_documents :: nat
  st_deleted_documents :: nat
  st_index_size_bytes :: u64
  st_wal_size_bytes :: u64
  st_memory_pool_usage :: memory_stats
  st_buffer_pool_usage :: buffer_stats
  st_reader_pool_size :: nat
  st_reader_segment_open_failures :: u64
  st_cache_stats :: cache_stats
  st_queries_per_second :: fval
  st_avg_query_latency_ms :: fval
  st_writes_per_second :: fval
  st_pending_writes :: nat

text \<open>The clock is read once: \<open>uptime_secs\<close> is the time since the engine was made.\<close>

definition per_second :: "u64 \<Rightarrow> u64 \<Rightarrow> fval" where
  "per_second n uptime_secs = (if uptime_secs > 0 then d_div (d_of_nat (unat n)) (d_of_nat (unat uptime_secs)) else Fin 0)"

definition collect_stats :: "('l, 'm) engine_env \<Rightarrow> u64 \<Rightarrow> ('l, 'm) engine \<Rightarrow> database_stats" where
  "collect_stats ee uptime_secs self =
     (let s = current_snapshot (iw_mvcc (en_writer self))
      in \<lparr>st_uptime_secs = uptime_secs, st_segment_count = length (sn_segments s), st_total_documents = sn_doc_count s,
          st_deleted_documents = card (sn_deleted_docs s),
          st_index_size_bytes = sum_list (map (\<lambda>g. of_nat (sm_size_bytes (sg_metadata g))) (sn_segments s)),
          st_wal_size_bytes = wl_position (iw_wal (en_writer self)),
          st_memory_pool_usage = \<lparr>my_allocated_bytes = 0, my_used_bytes = 0,
            my_capacity_bytes = cf_memory_limit (en_config self), my_utilization_percent = Fin 0\<rparr>,
          st_buffer_pool_usage = \<lparr>bs_page_count = 0, bs_page_size = 4096, bs_hit_rate = Fin 0, bs_dirty_pages = 0\<rparr>,
          st_reader_pool_size = rp_max_readers (en_reader_pool self),
          st_reader_segment_open_failures = rp_segment_open_failures (en_reader_pool self),
          st_cache_stats = cache_stats_of (ee_lru ee) (en_cache self),
          st_queries_per_second = per_second (en_query_count self) uptime_secs, st_avg_query_latency_ms = Fin 0,
          st_writes_per_second = per_second (en_write_count self) uptime_secs, st_pending_writes = 0\<rparr>)"

fun show_kind :: "error_kind \<Rightarrow> string" where
  "show_kind Io = ''Io''"
| "show_kind Parse = ''Parse''"
| "show_kind NotFound = ''NotFound''"
| "show_kind InvalidArgument = ''InvalidArgument''"
| "show_kind Internal = ''Internal''"
| "show_kind InvalidInput = ''InvalidInput''"
| "show_kind OutOfMemory = ''OutOfMemory''"
| "show_kind InvalidState = ''InvalidState''"
| "show_kind UnsupportedQuery = ''UnsupportedQuery''"

definition show_error :: "error \<Rightarrow> string" where
  "show_error e = (case e of Error kind cx \<Rightarrow> show_kind kind @ '': '' @ cx | Panic \<Rightarrow> [])"

datatype health_status = Healthy | Degraded string | Unhealthy string

record health_check =
  hc_name :: string
  hc_status :: health_status
  hc_message :: "string option"

definition check_writer_lock :: "bool \<Rightarrow> health_check" where
  "check_writer_lock free =
     \<lparr>hc_name = ''WAL'', hc_status = (if free then Healthy else Degraded ''WAL is locked''), hc_message = None\<rparr>"

definition check_reader_pool ::
  "('l, 'm) engine_env \<Rightarrow> ('l, 'm) engine \<Rightarrow> health_check \<times> ('l, 'm) engine" where
  "check_reader_pool ee self =
     (let failures = unat (rp_segment_open_failures (en_reader_pool self))
      in case engine_reader ee self of
           Inr (reader, self) \<Rightarrow>
             (\<lparr>hc_name = ''ReaderPool'',
               hc_status = (if failures > 0
                            then Degraded (''Reader has skipped '' @ show_nat failures @ '' segment open failures'')
                            else Healthy),
               hc_message = Some (''segment_open_failures='' @ show_nat failures)\<rparr>, self)
         | Inl e \<Rightarrow>
             (\<lparr>hc_name = ''ReaderPool'', hc_status = Unhealthy (''Cannot get reader: '' @ show_error e),
               hc_message = Some (''segment_open_failures='' @ show_nat failures)\<rparr>, self))"

definition check_memory :: "('l, 'm) engine \<Rightarrow> health_check list" where
  "check_memory self =
     (case get_memory_pressure self of
        None \<Rightarrow> []
      | Some pressure \<Rightarrow>
          [\<lparr>hc_name = ''Memory'',
            hc_status =
              (if f_lt (round_f32 (9 / 10)) pressure
               then Unhealthy (''Memory pressure critical: '' @ show_fixed 1 (f_mul pressure (Fin 100)) @ ''%'')
               else if f_lt (round_f32 (8 / 10)) pressure
               then Degraded (''Memory pressure high: '' @ show_fixed 1 (f_mul pressure (Fin 100)) @ ''%'')
               else Healthy),
            hc_message = Some (''Pressure: '' @ show_fixed 1 (f_mul pressure (Fin 100)) @ ''%'')\<rparr>])"

definition overall_status :: "health_check list \<Rightarrow> health_status" where
  "overall_status checks =
     (if list_all (\<lambda>c. hc_status c = Healthy) checks then Healthy
      else if list_ex (\<lambda>c. case hc_status c of Unhealthy _ \<Rightarrow> True | _ \<Rightarrow> False) checks
      then Unhealthy ''One or more critical checks failed''
      else Degraded ''Some checks are degraded'')"

text \<open>Whether the writer's lock is free, and the text of the cache's hit rate, are arguments.\<close>

definition run_health_check ::
  "('l, 'm) engine_env \<Rightarrow> bool \<Rightarrow> ('l, 'm) engine \<Rightarrow> (health_status \<times> health_check list) \<times> ('l, 'm) engine" where
  "run_health_check ee lock_free self =
     (let (reader_check, self) = check_reader_pool ee self;
          checks = [check_writer_lock lock_free, reader_check,
                    \<lparr>hc_name = ''QueryCache'', hc_status = Healthy, 
                      hc_message = Some (''Hit rate: '' @ show_fixed 2 (d_mul (hit_rate (cache_stats_of (ee_lru ee) (en_cache self))) (Fin 100)) @ ''%'')\<rparr>,
                    \<lparr>hc_name = ''DiskSpace'', hc_status = Healthy, hc_message = None\<rparr>] @ check_memory self
      in ((overall_status checks, checks), self))"

subsection \<open>The public index\<close>

definition search_n ::
  "('l, 'm) engine_env \<Rightarrow> ('l, 'm) engine \<Rightarrow> string \<Rightarrow> nat \<Rightarrow> scored_document list result \<times> ('l, 'm) engine" where
  "search_n ee self query_str limit =
     (case run_search ee self query_str limit execution_config_default of
        (r, self) \<Rightarrow> (and_then r (\<lambda>results. Ok (sr_hits results)), self))"

definition search :: "('l, 'm) engine_env \<Rightarrow> ('l, 'm) engine \<Rightarrow> string \<Rightarrow> scored_document list result \<times> ('l, 'm) engine" where
  "search ee self query_str = search_n ee self query_str 10"

definition search_debug ::
  "('l, 'm) engine_env \<Rightarrow> ('l, 'm) engine \<Rightarrow> string \<Rightarrow> nat \<Rightarrow> search_results result \<times> ('l, 'm) engine" where
  "search_debug ee self query_str limit = run_search ee self query_str limit execution_config_debug"

definition is_low_memory_mode_enabled :: "('l, 'm) engine \<Rightarrow> bool" where
  "is_low_memory_mode_enabled self \<longleftrightarrow> en_low_memory self \<noteq> None"

subsection \<open>Read replicas\<close>

text \<open>
  A replica shares the engine's components, so searching it is searching the engine without
  counting the query.  The balancer's counter wraps at 64 bits.
\<close>

definition replica_search_with_limit ::
  "('l, 'm) engine_env \<Rightarrow> ('l, 'm) engine \<Rightarrow> string \<Rightarrow> nat \<Rightarrow> scored_document list result \<times> ('l, 'm) engine" where
  "replica_search_with_limit ee self query_str limit =
     (case cache_get_by_str (ee_lru ee) (ee_hash ee) (en_cache self) query_str limit 0 of
        (Some cached, cache) \<Rightarrow> (Ok (sr_hits cached), self\<lparr>en_cache := cache\<rparr>)
      | (None, cache) \<Rightarrow>
          (let self = self\<lparr>en_cache := cache\<rparr>
           in case parse (ee_value_parsers ee) (en_parser self) query_str of
                Inl e \<Rightarrow> (Err e, self)
              | Inr q \<Rightarrow>
                  (case engine_reader ee self of
                     Inl e \<Rightarrow> (Err e, self)
                   | Inr (reader, self) \<Rightarrow>
                       (case execute (en_executor self) (ev_codec (ee_env ee)) reader q limit execution_config_default of
                          Inl e \<Rightarrow> (Err e, self)
                        | Inr results \<Rightarrow>
                            (Ok (sr_hits results),
                             self\<lparr>en_cache := cache_put_by_str (ee_lru ee) (ee_hash ee) (en_cache self)
                                    query_str limit 0 results\<rparr>)))))"

record read_load_balancer =
  lb_replicas :: nat
  lb_current :: u64

definition read_load_balancer_new :: "nat \<Rightarrow> read_load_balancer" where
  "read_load_balancer_new n = \<lparr>lb_replicas = n, lb_current = 0\<rparr>"

definition get_replica :: "read_load_balancer \<Rightarrow> nat result \<times> read_load_balancer" where
  "get_replica self =
     (if lb_replicas self = 0 then Err Panic else Ok (unat (lb_current self) mod lb_replicas self),
      self\<lparr>lb_current := lb_current self + 1\<rparr>)"

definition balancer_search ::
  "('l, 'm) engine_env \<Rightarrow> read_load_balancer \<Rightarrow> ('l, 'm) engine \<Rightarrow> string
     \<Rightarrow> scored_document list result \<times> ('l, 'm) engine \<times> read_load_balancer" where
  "balancer_search ee self en query_str =
     (case get_replica self of
        (Inl e, self) \<Rightarrow> (Err e, en, self)
      | (Inr i, self) \<Rightarrow> (case replica_search_with_limit ee en query_str 10 of (r, en) \<Rightarrow> (r, en, self)))"

text \<open>The write handle goes straight to the writer, past the memory accounting of the engine.\<close>

definition write_database_add_document ::
  "('l, 'm) engine_env \<Rightarrow> ('l, 'm) engine \<Rightarrow> document \<Rightarrow> unit result \<times> ('l, 'm) engine" where
  "write_database_add_document ee self doc = with_writer (\<lambda>w. iw_add_document (ee_env ee) w doc) self"

definition write_database_add_documents_batch ::
  "('l, 'm) engine_env \<Rightarrow> ('l, 'm) engine \<Rightarrow> document list \<Rightarrow> unit result \<times> ('l, 'm) engine" where
  "write_database_add_documents_batch ee self docs = with_writer (\<lambda>w. add_documents_batch (ee_env ee) w docs) self"

definition write_database_delete_document ::
  "('l, 'm) engine_env \<Rightarrow> ('l, 'm) engine \<Rightarrow> doc_id \<Rightarrow> unit result \<times> ('l, 'm) engine" where
  "write_database_delete_document ee self d = with_writer (\<lambda>w. delete_document (ee_env ee) w d) self"

definition write_database_flush :: "('l, 'm) engine_env \<Rightarrow> ('l, 'm) engine \<Rightarrow> unit result \<times> ('l, 'm) engine" where
  "write_database_flush ee self = with_writer (iw_flush (ee_env ee)) self"

definition write_database_commit :: "('l, 'm) engine_env \<Rightarrow> ('l, 'm) engine \<Rightarrow> unit result \<times> ('l, 'm) engine" where
  "write_database_commit ee self = with_writer (iw_commit (ee_env ee)) self"

definition write_database_compact :: "('l, 'm) engine_env \<Rightarrow> ('l, 'm) engine \<Rightarrow> unit result \<times> ('l, 'm) engine" where
  "write_database_compact ee self = with_writer (compact (ee_env ee)) self"

record ('l, 'm) master_slave =
  ms_master :: "('l, 'm) engine"
  ms_read_balancer :: read_load_balancer

definition master_slave_new ::
  "('l, 'm) engine_env \<Rightarrow> world \<Rightarrow> config \<Rightarrow> schema \<Rightarrow> nat \<Rightarrow> ('l, 'm) master_slave result" where
  "master_slave_new ee w cfg schema read_replicas =
     and_then (engine_new ee w schema cfg) (\<lambda>master.
       Ok \<lparr>ms_master = master, ms_read_balancer = read_load_balancer_new read_replicas\<rparr>)"

definition master_slave_search ::
  "('l, 'm) engine_env \<Rightarrow> ('l, 'm) master_slave \<Rightarrow> string \<Rightarrow> scored_document list result \<times> ('l, 'm) master_slave" where
  "master_slave_search ee self query_str =
     (case balancer_search ee (ms_read_balancer self) (ms_master self) query_str of
        (r, master, balancer) \<Rightarrow> (r, \<lparr>ms_master = master, ms_read_balancer = balancer\<rparr>))"

definition master_slave_add_document ::
  "('l, 'm) engine_env \<Rightarrow> ('l, 'm) master_slave \<Rightarrow> document \<Rightarrow> unit result \<times> ('l, 'm) master_slave" where
  "master_slave_add_document ee self doc =
     (case write_database_add_document ee (ms_master self) doc of (r, master) \<Rightarrow> (r, self\<lparr>ms_master := master\<rparr>))"

definition master_slave_delete_document ::
  "('l, 'm) engine_env \<Rightarrow> ('l, 'm) master_slave \<Rightarrow> doc_id \<Rightarrow> unit result \<times> ('l, 'm) master_slave" where
  "master_slave_delete_document ee self d =
     (case write_database_delete_document ee (ms_master self) d of (r, master) \<Rightarrow> (r, self\<lparr>ms_master := master\<rparr>))"

definition master_slave_flush ::
  "('l, 'm) engine_env \<Rightarrow> ('l, 'm) master_slave \<Rightarrow> unit result \<times> ('l, 'm) master_slave" where
  "master_slave_flush ee self =
     (case write_database_flush ee (ms_master self) of (r, master) \<Rightarrow> (r, self\<lparr>ms_master := master\<rparr>))"

definition master_slave_commit ::
  "('l, 'm) engine_env \<Rightarrow> ('l, 'm) master_slave \<Rightarrow> unit result \<times> ('l, 'm) master_slave" where
  "master_slave_commit ee self =
     (case write_database_commit ee (ms_master self) of (r, master) \<Rightarrow> (r, self\<lparr>ms_master := master\<rparr>))"

subsection \<open>Runs of the engine\<close>

fun engine_step ::
  "('l, 'm) engine_env \<Rightarrow> ('l, 'm) engine \<Rightarrow> command \<Rightarrow> unit result \<times> ('l, 'm) engine" where
  "engine_step ee self (AddCommand d) = engine_write_document ee self d"
| "engine_step ee self (DeleteCommand i) = delete_document_by_id ee self i"
| "engine_step ee self FlushCommand = flush_segments ee self"
| "engine_step ee self CommitCommand = commit_wal ee self"

fun engine_run ::
  "('l, 'm) engine_env \<Rightarrow> ('l, 'm) engine \<Rightarrow> command list \<Rightarrow> unit result \<times> ('l, 'm) engine" where
  "engine_run ee self [] = (Ok (), self)"
| "engine_run ee self (c # cs) =
     (case engine_step ee self c of
        (Inl e, self) \<Rightarrow> (Err e, self)
      | (Inr _, self) \<Rightarrow> engine_run ee self cs)"

text \<open>What writing leaves alone: everything that searching uses besides the writer.\<close>

definition same_search :: "('l, 'm) engine \<Rightarrow> ('l, 'm) engine \<Rightarrow> bool" where
  "same_search self self' \<longleftrightarrow>
     en_reader_pool self' = en_reader_pool self \<and> en_executor self' = en_executor self \<and>
     en_parser self' = en_parser self \<and> en_cache self' = en_cache self"

lemma same_search_refl [simp]: "same_search self self"
  by (simp add: same_search_def)

lemma same_search_trans: "same_search a b \<Longrightarrow> same_search b c \<Longrightarrow> same_search a c"
  by (simp add: same_search_def)

lemma with_writer_same: "with_writer f self = (r, self') \<Longrightarrow> same_search self self' \<and> en_low_memory self' = en_low_memory self"
  by (auto simp: with_writer_def same_search_def split: prod.splits)

lemma track_allocation_same: "track_allocation self n = (r, self') \<Longrightarrow> same_search self self'"
  by (auto simp: track_allocation_def same_search_def split: option.splits prod.splits)

lemma maybe_reclaim_memory_same: "maybe_reclaim_memory self = (r, self') \<Longrightarrow> same_search self self'"
  by (auto simp: maybe_reclaim_memory_def same_search_def split: option.splits prod.splits)

lemma engine_step_same:
  assumes "engine_step ee self c = (r, self')"
  shows "same_search self self'"
proof (cases c)
  case (AddCommand d)
  let ?self0 = "self\<lparr>en_write_count := en_write_count self + 1\<rparr>"
  obtain r1 self1 where t: "track_allocation ?self0 (document_size d) = (r1, self1)" by fastforce
  have s1: "same_search self self1" using track_allocation_same [OF t] by (simp add: same_search_def)
  define follow where "follow = (case get_memory_pressure self1 of
      Some pressure \<Rightarrow> if f_lt (round_f32 (8 / 10)) pressure then maybe_reclaim_memory self1 else (Ok (), self1)
    | None \<Rightarrow> (Ok (), self1))"
  obtain r2 self2 where n: "follow = (r2, self2)" by fastforce
  have s2: "same_search self1 self2"
    using n maybe_reclaim_memory_same unfolding follow_def by (auto split: option.splits if_splits)
  show ?thesis
    using assms AddCommand t n same_search_trans [OF s1 s2] s1 with_writer_same
    by (cases r1; cases r2) (auto simp: engine_write_document_def Let_def follow_def [symmetric] dest: with_writer_same intro: same_search_trans)
next
  case (DeleteCommand i)
  have "same_search self (track_release (self\<lparr>en_write_count := en_write_count self + 1\<rparr>) 500)"
    by (simp add: same_search_def track_release_def)
  with assms DeleteCommand show ?thesis
    by (auto simp: delete_document_by_id_def Let_def dest: with_writer_same intro: same_search_trans)
qed (use assms in \<open>auto simp: flush_segments_def commit_wal_def dest: with_writer_same\<close>)

lemma engine_run_same: "engine_run ee self cs = (r, self') \<Longrightarrow> same_search self self'"
proof (induction cs arbitrary: self)
  case (Cons c cs)
  obtain r1 self1 where st: "engine_step ee self c = (r1, self1)" by fastforce
  from engine_step_same [OF st] Cons st show ?case
    by (cases r1) (auto intro: same_search_trans)
qed simp

text \<open>Outside low memory mode a run of the engine is a run of its writer.\<close>

lemma engine_step_writer:
  assumes "en_low_memory self = None"
  shows "\<exists>self'. engine_step ee self c = (fst (writer_step (ee_env ee) (en_writer self) c), self') \<and>
           en_writer self' = snd (writer_step (ee_env ee) (en_writer self) c) \<and> en_low_memory self' = None"
  using assms
  by (cases c) (auto simp: engine_write_document_def Let_def track_allocation_def get_memory_pressure_def
      delete_document_by_id_def track_release_def with_writer_def flush_segments_def commit_wal_def split: prod.splits)

lemma engine_run_writer:
  assumes "en_low_memory self = None"
  shows "\<exists>self'. engine_run ee self cs = (fst (writer_run (ee_env ee) (en_writer self) cs), self') \<and>
           en_writer self' = snd (writer_run (ee_env ee) (en_writer self) cs)"
  using assms
proof (induction cs arbitrary: self)
  case (Cons c cs)
  obtain r w where st: "writer_step (ee_env ee) (en_writer self) c = (r, w)" by fastforce
  obtain self1 where s1: "engine_step ee self c = (r, self1)" "en_writer self1 = w" "en_low_memory self1 = None"
    using engine_step_writer [OF Cons.prems, of ee c] st by auto
  from Cons.IH [OF s1(3)] s1 st show ?case by (cases r) auto
qed auto

subsection \<open>Readers of published segments\<close>

lemma open_segments_holds:
  assumes "list_all2 (\<lambda>(i, s) docs. map_of (rp_segment_reader_cache pool) (v, i) = None \<and>
             (\<exists>rd. segment_open cd w (sg_id s) = Ok rd \<and> reader_holds cd cx rd docs)) segs docss"
    "distinct (map fst segs)"
  shows "\<exists>readers pool'. open_segments cd w v segs pool = (readers, pool') \<and> list_all2 (reader_holds cd cx) readers docss"
  using assms
proof (induction segs docss arbitrary: pool rule: list_induct2')
  case (4 p segs docs docss)
  obtain i s where p: "p = (i, s)" by (cases p)
  obtain rd where rd: "segment_open cd w (sg_id s) = Ok rd" "reader_holds cd cx rd docs"
    "map_of (rp_segment_reader_cache pool) (v, i) = None"
    using 4(2) by (auto simp: p)
  define pool1 where "pool1 = pool\<lparr>rp_segment_reader_cache := ((v, i), rd) # rp_segment_reader_cache pool\<rparr>"
  have first: "segment_reader_for cd w v i s pool = (Some rd, pool1)"
    by (simp add: segment_reader_for_def rd pool1_def)
  have tail: "list_all2 (\<lambda>(i, s) docs. map_of (rp_segment_reader_cache pool) (v, i) = None \<and>
      (\<exists>rd. segment_open cd w (sg_id s) = Ok rd \<and> reader_holds cd cx rd docs)) segs docss"
    using 4(2) by simp
  have fresh: "i \<notin> fst ` set segs" using 4(3) by (simp add: p)
  have "list_all2 (\<lambda>(i, s) docs. map_of (rp_segment_reader_cache pool1) (v, i) = None \<and>
      (\<exists>rd. segment_open cd w (sg_id s) = Ok rd \<and> reader_holds cd cx rd docs)) segs docss"
    using tail
  proof (rule list.rel_mono_strong)
    fix q :: "nat \<times> segment" and docs'
    assume "q \<in> set segs"
    then have "fst q \<noteq> i" using fresh by auto
    then show "(case q of (i, s) \<Rightarrow> \<lambda>docs. map_of (rp_segment_reader_cache pool) (v, i) = None \<and>
        (\<exists>rd. segment_open cd w (sg_id s) = Ok rd \<and> reader_holds cd cx rd docs)) docs' \<Longrightarrow>
      (case q of (i, s) \<Rightarrow> \<lambda>docs. map_of (rp_segment_reader_cache pool1) (v, i) = None \<and>
        (\<exists>rd. segment_open cd w (sg_id s) = Ok rd \<and> reader_holds cd cx rd docs)) docs'"
      by (cases q) (simp add: pool1_def)
  qed
  from "4.IH" [OF this] 4(3) obtain readers pool' where
    "open_segments cd w v segs pool1 = (readers, pool')" "list_all2 (reader_holds cd cx) readers docss"
    by auto
  with first rd(2) show ?case by (simp add: p)
qed simp_all

lemma fresh_reader:
  assumes "rp_reader_cache pool = []" "rp_segment_reader_cache pool = []" "rp_context pool = cx"
    and "list_all2 (\<lambda>s docs. \<exists>rd. segment_open cd w (sg_id s) = Ok rd \<and> reader_holds cd cx rd docs)
           (sn_segments (current_snapshot m)) docss"
  shows "\<exists>reader pool'. get_reader cd w m pool = Ok (reader, pool') \<and> ir_context reader = cx \<and>
           ir_deleted_docs reader = sn_deleted_docs (current_snapshot m) \<and>
           list_all2 (reader_holds cd cx) (ir_segments reader) docss"
proof -
  let ?s = "current_snapshot m"
  have len: "length (sn_segments ?s) = length docss" using assms(4) by (rule list_all2_lengthD)
  have "list_all2 (\<lambda>(i, s) docs. map_of (rp_segment_reader_cache pool) (sn_version ?s, i) = None \<and>
      (\<exists>rd. segment_open cd w (sg_id s) = Ok rd \<and> reader_holds cd cx rd docs)) (List.enumerate 0 (sn_segments ?s)) docss"
    using assms(2,4) by (auto simp: list_all2_conv_all_nth nth_enumerate_eq)
  moreover have "distinct (map fst (List.enumerate 0 (sn_segments ?s)))" by (simp add: map_fst_enumerate)
  ultimately obtain readers pool1 where
    os: "open_segments cd w (sn_version ?s) (List.enumerate 0 (sn_segments ?s)) pool = (readers, pool1)"
    "list_all2 (reader_holds cd cx) readers docss"
    using open_segments_holds by blast
  with assms(1,3) open_segments_same [OF os(1)] show ?thesis
    by (auto simp: get_reader_def create_reader_for_snapshot_def Let_def)
qed

subsection \<open>Searching what was written\<close>

text \<open>
  The index of the engine's readers is empty, so every hit of a parsed query has the same score: zero
  for a query made of terms, one for any other.
\<close>

definition uniform_score :: "query \<Rightarrow> fval" where
  "uniform_score q = (if term_only q then Fin 0 else Fin 1)"

definition simple_query :: "query \<Rightarrow> bool" where
  "simple_query q \<longleftrightarrow>
     (case q of Term tq \<Rightarrow> boost_free q | Bool must should must_not filters msm boost \<Rightarrow> term_only q \<and> boost_free q | _ \<Rightarrow> True)"

lemma simple_branches:
  "(if b then x else y) = Ok q \<Longrightarrow> (x = Ok q \<Longrightarrow> simple_query q) \<Longrightarrow> (y = Ok q \<Longrightarrow> simple_query q) \<Longrightarrow> simple_query q"
  "(case opt of None \<Rightarrow> x | Some i \<Rightarrow> f i) = Ok q \<Longrightarrow> (x = Ok q \<Longrightarrow> simple_query q) \<Longrightarrow>
     (\<And>i. f i = Ok q \<Longrightarrow> simple_query q) \<Longrightarrow> simple_query q"
  by (auto split: if_splits option.splits)

lemma parse_field_simple: "parse_field_query vp self field s = Ok q \<Longrightarrow> simple_query q"
  unfolding parse_field_query_def parse_range_query_def Let_def
  by (elim simple_branches) (auto simp: simple_query_def)

lemma parse_simple: "parse vp self input = Ok q \<Longrightarrow> simple_query q"
proof -
  assume p: "parse vp self input = Ok q"
  have b: "parse_boolean_query self toks = Ok q \<Longrightarrow> simple_query q" for toks
    using parse_boolean_loop_clauses [of self "qp_default_operator self" False toks "[]" "[]" "[]"]
    by (auto simp: parse_boolean_query_def simple_query_def list_all_iff term_clause_def)
  from p show ?thesis
    unfolding parse_def Let_def
    by (elim simple_branches b parse_field_simple) (auto simp: simple_query_def)
qed

lemma rewritten_all:
  assumes "\<And>q p q'. q \<in> set qs \<Longrightarrow> plan_visit q = Ok p \<Longrightarrow> plan_to_query p = Ok q' \<Longrightarrow> P q'"
    "try_map plan_visit qs = Ok ps" "try_map plan_to_query ps = Ok qs'"
  shows "list_all P qs'"
  using assms
proof (induction qs arbitrary: ps qs')
  case (Cons q qs)
  then show ?case by (fastforce simp: and_then_Ok_iff)
qed simp

lemma plan_to_query_simple:
  "term_only q \<Longrightarrow> plan_visit q = Ok p \<Longrightarrow> plan_to_query p = Ok q' \<Longrightarrow> term_only q' \<and> boost_free q'"
proof (induction q arbitrary: p q')
  case (Bool must should must_not filters msm boost)
  have all: "list_all (\<lambda>q. term_only q \<and> boost_free q) qs'"
    if "qs = must \<or> qs = should" "try_map plan_visit qs = Ok ps" "try_map plan_to_query ps = Ok qs'" for qs ps qs'
  proof (rule rewritten_all [OF _ that(2,3)])
    fix q p q'
    assume "q \<in> set qs" "plan_visit q = Ok p" "plan_to_query p = Ok q'"
    then show "term_only q' \<and> boost_free q'"
      using Bool.IH(1,2) [of q p q'] Bool.prems(1) that(1) by (auto simp: list_all_iff)
  qed
  from Bool.prems(2,3) show ?case
    using all [of must] all [of should] by (auto simp: and_then_Ok_iff list_all_iff split: if_splits)
qed auto

lemma optimize_simple:
  assumes "simple_query q" "optimize_query q = Ok q'"
  shows "simple_query q' \<and> term_only q' = term_only q \<and> (term_only q \<longrightarrow> boost_free q') \<and> (\<not> term_only q \<longrightarrow> q' = q)"
proof (cases "term_only q")
  case True
  obtain p where p: "plan_visit q = Ok p" using plan_visit_total by blast
  have "optimize (plan q) = p" using optimize_plan [of q] p by (simp add: plan_def)
  moreover have "boost_free q" using assms(1) True by (cases q) (auto simp: simple_query_def)
  ultimately have "term_only q' \<and> boost_free q'"
    using assms(2) True plan_to_query_simple [OF True p] by (auto simp: optimize_query_def split: if_splits sum.splits)
  with True show ?thesis by (cases q') (auto simp: simple_query_def)
next
  case False
  then have "q' = q"
    using assms by (cases q) (auto simp: simple_query_def optimize_query_def plan_def optimize_def optimizer_rules_def
        filter_pushdown_def limit_merge_def split: if_splits)
  with False assms(1) show ?thesis by simp
qed

lemma uniform_scores:
  assumes "simple_query q" "optimize_query q = Ok q'"
  shows "score_hit execution_config_default (inverted_index_new :: 'm inverted_index) stats q' (hit d) =
           Ok ((hit d)\<lparr>sd_score := uniform_score q\<rparr>)"
proof -
  note o = optimize_simple [OF assms]
  have "calculate_score sc (inverted_index_new :: 'm inverted_index) stats d q' = Ok (uniform_score q)" for sc d
  proof (cases "term_only q")
    case True
    with o show ?thesis by (simp add: uniform_score_def calculate_score_empty)
  next
    case False
    with o have "q' = q" by blast
    with False assms(1) show ?thesis by (cases q) (auto simp: uniform_score_def simple_query_def)
  qed
  then show ?thesis
    by (simp add: score_hit_def document_score_def execution_config_default_def hit_def)
qed

lemma execute_simple_query:
  fixes reader :: "'m index_reader"
  assumes "list_all2 (reader_holds cd (ir_context reader)) (ir_segments reader) docss"
    and "optimize_query q = Ok q'" "simple_query q" "validate (qx_validator_config self) q = Ok ()"
    and "mx_index (ir_context reader) = inverted_index_new"
    and "survivors = filter (\<lambda>d. satisfies (ir_context reader) d q' \<and> alive (ir_deleted_docs reader) d) (concat docss)"
  shows "\<exists>r. execute self cd reader q limit execution_config_default = Ok r \<and>
           mset (sr_hits r) \<subseteq># mset (map (\<lambda>d. (hit d)\<lparr>sd_score := uniform_score q\<rparr>) survivors) \<and>
           length (sr_hits r) = min limit (length survivors) \<and> sr_total_hits r = length survivors"
proof -
  let ?f = "\<lambda>d. (hit d)\<lparr>sd_score := uniform_score q\<rparr>"
  have opt: "(if xc_enable_optimization execution_config_default then optimize_query q else Ok q) = Ok q'"
    using assms(2) by (simp add: execution_config_default_def)
  have run: "execute self cd reader q limit execution_config_default = into_results (collect_all_docs limit (map ?f survivors))"
    using assms(4) by (intro execute_collects [OF assms(1) opt _ assms(6)])
      (simp_all add: assms(5) uniform_scores [OF assms(3,2)])
  have "\<forall>d \<in> set (map ?f survivors). Fin 0 \<le> sd_score d" by (auto simp: uniform_score_def less_eq_fval_def)
  from collect_all_best [OF this, of limit] obtain r where
    r: "into_results (collect_all_docs limit (map ?f survivors)) = Ok r" "mset (sr_hits r) \<subseteq># mset (map ?f survivors)"
    "map sd_score (sr_hits r) = take limit (rev (sort (map sd_score (map ?f survivors))))" "sr_total_hits r = length survivors"
    by auto
  from arg_cong [OF r(3), of length] have "length (sr_hits r) = min limit (length survivors)" by simp
  with run r show ?thesis by auto
qed

lemma segment_reader_holds:
  assumes "header_laws cd" "index_ok (mx_index cx)" "segment_file_holds cd w i c docs" "length docs < 2 ^ 32"
    "\<forall>d \<in> set docs. document_laws cd c d"
  shows "\<exists>rd. segment_open cd w i = Ok rd \<and> reader_holds cd cx rd docs"
proof -
  obtain rd where rd: "segment_open cd w i = Ok rd" using segment_found [OF assms] by blast
  then have "segment_search cd cx rd q = Ok (map hit (filter (\<lambda>d. satisfies cx d q) docs))" for q
    using segment_found [OF assms, of q] by auto
  with rd show ?thesis by (auto simp: reader_holds_def)
qed

lemma published_readers:
  assumes "writer_rep ev writer sp" "iw_compression writer = c" "env_laws ev c" "index_ok (mx_index cx)"
    "\<forall>docs \<in> set (sp_published sp). (\<forall>d \<in> set docs. document_laws (ev_codec ev) c d) \<and> length docs < 2 ^ 32"
  shows "list_all2 (\<lambda>s docs. \<exists>rd. segment_open (ev_codec ev) (iw_world writer) (sg_id s) = Ok rd \<and> reader_holds (ev_codec ev) cx rd docs)
           (sn_segments (current_snapshot (iw_mvcc writer))) (sp_published sp)"
proof -
  have "header_laws (ev_codec ev)" using assms(3) by (simp add: env_laws_def)
  moreover have "list_all2 (\<lambda>s docs. segment_file_holds (ev_codec ev) (iw_world writer) (sg_id s) c docs)
      (sn_segments (current_snapshot (iw_mvcc writer))) (sp_published sp)"
    using assms(1,2) by (auto simp: writer_rep_def writer_core_def segments_hold_def elim!: list_all2_mono)
  ultimately show ?thesis
    using assms(4,5) segment_reader_holds [of "ev_codec ev" cx "iw_world writer" _ c] by (fastforce simp: list_all2_conv_all_nth)
qed

text \<open>A search that is not answered by the cache.\<close>

lemma search_miss:
  assumes "lru_peek (ee_lru ee) (qc_cache (en_cache self)) (query_cache_key_new (ee_hash ee) query_str limit 0) = None"
    and "parse (ee_value_parsers ee) (en_parser self) query_str = Ok q"
    and "get_reader (ev_codec (ee_env ee)) (iw_world (en_writer self)) (iw_mvcc (en_writer self)) (en_reader_pool self) =
           Ok (reader, pool)"
    and "execute (en_executor self) (ev_codec (ee_env ee)) reader q limit cfg = Ok r"
  shows "\<exists>self'. run_search ee self query_str limit cfg = (Ok r, self') \<and>
           qc_cache (en_cache self') = lru_put (ee_lru ee) (qc_cache (en_cache self)) (query_cache_key_new (ee_hash ee) query_str limit 0) r \<and>
           en_reader_pool self' = pool \<and> en_writer self' = en_writer self"
  using assms
  by (simp add: run_search_def cache_get_by_str_def cache_get_def Let_def engine_reader_def cache_put_by_str_def cache_put_def)

lemma assemble_fields:
  assumes "assemble ee w schema cfg = Ok self"
  shows "en_low_memory self = None" "en_reader_pool self = reader_pool_new ((ee_context ee)\<lparr>mx_index := inverted_index_new\<rparr>) (cf_max_readers cfg)"
    "en_executor self = query_executor_new" "en_parser self = query_parser_new"
    "qc_cache (en_cache self) = lru_new (ee_lru ee) (cf_cache_size cfg div 1024)"
    "iw_batch_size (en_writer self) = cf_writer_batch_size cfg" "iw_compression (en_writer self) = cf_compression cfg"
    "iw_mvcc (en_writer self) = mvcc_new" "writer_rep (ee_env ee) (en_writer self) spec_empty"
proof -
  obtain an where e: "en_writer self = (new_with_merge_policy (ee_env ee) w mvcc_new an (cf_merge_policy cfg) (cf_compression cfg))
      \<lparr>iw_batch_size := cf_writer_batch_size cfg, iw_compression := cf_compression cfg\<rparr>"
    using assms by (auto simp: assemble_def Let_def and_then_Ok_iff)
  let ?w = "new_with_merge_policy (ee_env ee) w mvcc_new an (cf_merge_policy cfg) (cf_compression cfg)"
  have c: "iw_compression ?w = cf_compression cfg" "iw_mvcc ?w = mvcc_new"
    by (simp_all add: new_with_merge_policy_def split: prod.splits)
  have "writer_rep (ee_env ee) ?w spec_empty" by (rule new_writer_rep)
  then show "writer_rep (ee_env ee) (en_writer self) spec_empty"
    using c by (simp add: e writer_rep_def writer_core_def spec_empty_def)
  show "iw_batch_size (en_writer self) = cf_writer_batch_size cfg" "iw_compression (en_writer self) = cf_compression cfg"
    "iw_mvcc (en_writer self) = mvcc_new" by (simp_all add: e c)
qed (use assms in \<open>auto simp: assemble_def Let_def and_then_Ok_iff query_cache_new_def split: if_splits\<close>)

text \<open>
  C1: From documents to search results.  On a new engine, every sequence of additions, deletions, flushes
  and commits succeeds; and then a search for a query that can be parsed and validated succeeds and
  returns documents that were published, match the rewritten query and are not among the deleted ones
  of the current snapshot, as many of them as there are up to the limit, all with the same score.
  Every live published document that matches the query as it was parsed matches the rewritten query;
  the two match the same documents when the query does not mix must and should clauses.  A query such
  as \<open>a AND b\<close>, which the parser with its default operator reads as \<open>a\<close> should and \<open>b\<close> must, does mix
  them, and its rewriting drops \<open>a\<close>.
\<close>

theorem search_end_to_end:
  assumes "assemble ee w schema cfg = Ok self" "env_laws (ee_env ee) (cf_compression cfg)" "lru_laws (ee_lru ee)"
    and "cf_writer_batch_size cfg < 2 ^ 32" "length commands < 2 ^ 64"
    and "\<forall>d. AddCommand d \<in> set commands \<longrightarrow> document_laws (ev_codec (ee_env ee)) (cf_compression cfg) d"
    and "parse (ee_value_parsers ee) query_parser_new query_str = Ok q" "validate validation_config_default q = Ok ()" "optimize_query q = Ok q'"
    and "sp = foldl (spec_step (cf_writer_batch_size cfg)) spec_empty commands" "cx = (ee_context ee)\<lparr>mx_index := inverted_index_new\<rparr>"
    and "survivors = filter (\<lambda>d. satisfies cx d q' \<and> alive (sp_deleted sp) d) (concat (sp_published sp))"
  shows "(\<exists>self1 hits self2. engine_run ee self commands = (Ok (), self1) \<and> search_n ee self1 query_str limit = (Ok hits, self2) \<and>
            mset hits \<subseteq># mset (map (\<lambda>d. (hit d)\<lparr>sd_score := uniform_score q\<rparr>) survivors) \<and>
            length hits = min limit (length survivors)) \<and>
         {d \<in> set (concat (sp_published sp)). satisfies cx d q \<and> alive (sp_deleted sp) d} \<subseteq> set survivors \<and>
         (unmixed q \<longrightarrow> survivors = filter (\<lambda>d. satisfies cx d q \<and> alive (sp_deleted sp) d) (concat (sp_published sp)))"
proof (intro conjI impI)
  let ?ev = "ee_env ee" and ?c = "cf_compression cfg" and ?n = "cf_writer_batch_size cfg"
  note f = assemble_fields [OF assms(1)]
  have "unat (version (en_writer self)) + length commands < 2 ^ 64" using f(8) assms(5) by (simp add: mvcc_new_def)
  from writer_run_refines [OF f(9) _ _ this] assms(2,4,6) f(6,7) obtain writer where
    run: "writer_run ?ev (en_writer self) commands = (Ok (), writer)" "iw_compression writer = ?c" "writer_rep ?ev writer sp"
    unfolding assms(10) by auto
  obtain self1 where s1: "engine_run ee self commands = (Ok (), self1)" "en_writer self1 = writer"
    using engine_run_writer [OF f(1), of ee commands] run(1) by auto
  have same: "en_reader_pool self1 = reader_pool_new cx (cf_max_readers cfg)" "en_executor self1 = query_executor_new"
    "en_parser self1 = query_parser_new" "qc_cache (en_cache self1) = lru_new (ee_lru ee) (cf_cache_size cfg div 1024)"
    using engine_run_same [OF s1(1)] f assms(11) by (simp_all add: same_search_def)
  have "spec_within ?n {d. document_laws (ev_codec ?ev) ?c d} sp"
    unfolding assms(10) using assms(6) by (intro spec_run_within) (auto simp: spec_within_def spec_empty_def)
  then have within: "\<forall>docs \<in> set (sp_published sp). (\<forall>d \<in> set docs. document_laws (ev_codec ?ev) ?c d) \<and> length docs < 2 ^ 32"
    using assms(4) by (auto simp: spec_within_def max_def split: if_splits)
  have ok: "index_ok (mx_index cx)" by (simp add: assms(11) index_ok_new)
  note published_readers [OF run(3,2) assms(2) ok within]
  from fresh_reader [OF _ _ _ this, of "en_reader_pool self1"] same(1) obtain reader pool where
    rd: "get_reader (ev_codec ?ev) (iw_world writer) (iw_mvcc writer) (en_reader_pool self1) = Ok (reader, pool)"
    "ir_context reader = cx" "ir_deleted_docs reader = sn_deleted_docs (current_snapshot (iw_mvcc writer))"
    "list_all2 (reader_holds (ev_codec ?ev) cx) (ir_segments reader) (sp_published sp)"
    by (auto simp: reader_pool_new_def)
  have dels: "ir_deleted_docs reader = sp_deleted sp" using rd(3) run(3) by (simp add: writer_rep_def writer_core_def)
  obtain r where r: "execute (en_executor self1) (ev_codec ?ev) reader q limit execution_config_default = Ok r"
    "mset (sr_hits r) \<subseteq># mset (map (\<lambda>d. (hit d)\<lparr>sd_score := uniform_score q\<rparr>) survivors)"
    "length (sr_hits r) = min limit (length survivors)"
    using execute_simple_query [of "ev_codec ?ev" reader "sp_published sp" q q' "en_executor self1" survivors limit]
      rd dels assms(8,9,11,12) parse_simple [OF assms(7)] by (auto simp: same query_executor_new_def)
  have miss: "lru_peek (ee_lru ee) (qc_cache (en_cache self1)) k = None" for k
    using assms(3) same(4) by (simp add: lru_laws_def)
  obtain self2 where "run_search ee self1 query_str limit execution_config_default = (Ok r, self2)"
    using search_miss [OF miss, of query_str q reader pool limit execution_config_default] assms(7) rd(1) r(1) same(3) s1(2) by auto
  with s1(1) r show "\<exists>self1 hits self2. engine_run ee self commands = (Ok (), self1) \<and>
      search_n ee self1 query_str limit = (Ok hits, self2) \<and>
      mset hits \<subseteq># mset (map (\<lambda>d. (hit d)\<lparr>sd_score := uniform_score q\<rparr>) survivors) \<and>
      length hits = min limit (length survivors)"
    by (auto simp: search_n_def)
  have run: "(if True then optimize_query q else Ok q) = Ok q'" using assms(9) by simp
  show "{d \<in> set (concat (sp_published sp)). satisfies cx d q \<and> alive (sp_deleted sp) d} \<subseteq> set survivors"
    by (rule run_query_kept(1) [OF run assms(12) ok])
  show "survivors = filter (\<lambda>d. satisfies cx d q \<and> alive (sp_deleted sp) d) (concat (sp_published sp))" if "unmixed q"
    by (rule run_query_kept(2) [OF run assms(12) that])
qed

subsection \<open>What searches remember\<close>

lemma run_search_Ok:
  assumes "run_search ee self query_str limit cfg = (Ok r, self')" "lru_laws (ee_lru ee)"
  shows "en_writer self' = en_writer self \<and> en_low_memory self' = en_low_memory self \<and> en_executor self' = en_executor self \<and>
         en_parser self' = en_parser self \<and>
         lru_peek (ee_lru ee) (qc_cache (en_cache self')) (query_cache_key_new (ee_hash ee) query_str limit 0) = Some r \<and>
         (\<forall>k. k \<noteq> query_cache_key_new (ee_hash ee) query_str limit 0 \<longrightarrow>
              lru_peek (ee_lru ee) (qc_cache (en_cache self')) k \<in> {lru_peek (ee_lru ee) (qc_cache (en_cache self)) k, None}) \<and>
         (lru_peek (ee_lru ee) (qc_cache (en_cache self)) (query_cache_key_new (ee_hash ee) query_str limit 0) = None \<longrightarrow>
           (\<exists>reader. get_reader (ev_codec (ee_env ee)) (iw_world (en_writer self)) (iw_mvcc (en_writer self)) (en_reader_pool self) =
              Ok (reader, en_reader_pool self')))"
proof (cases "lru_peek (ee_lru ee) (qc_cache (en_cache self)) (query_cache_key_new (ee_hash ee) query_str limit 0)")
  case None
  with assms(1) obtain q reader pool where
    *: "parse (ee_value_parsers ee) (en_parser self) query_str = Ok q"
    "get_reader (ev_codec (ee_env ee)) (iw_world (en_writer self)) (iw_mvcc (en_writer self)) (en_reader_pool self) = Ok (reader, pool)"
    "execute (en_executor self) (ev_codec (ee_env ee)) reader q limit cfg = Ok r"
    by (auto simp: run_search_def cache_get_by_str_def cache_get_def Let_def engine_reader_def and_then_Ok_iff
        split: sum.splits prod.splits)
  have put: "lru_peek (ee_lru ee) (lru_put (ee_lru ee) l k x) k = Some x"
    "k' \<noteq> k \<Longrightarrow> lru_peek (ee_lru ee) (lru_put (ee_lru ee) l k x) k' = lru_peek (ee_lru ee) l k' \<or>
       lru_peek (ee_lru ee) (lru_put (ee_lru ee) l k x) k' = None" for l k k' x
    using assms(2) by (auto simp: lru_laws_def)
  have "qc_cache (en_cache self') = lru_put (ee_lru ee) (qc_cache (en_cache self)) (query_cache_key_new (ee_hash ee) query_str limit 0) r"
    "en_writer self' = en_writer self" "en_low_memory self' = en_low_memory self" "en_executor self' = en_executor self"
    "en_parser self' = en_parser self" "en_reader_pool self' = pool"
    using * None assms(1)
    by (auto simp: run_search_def cache_get_by_str_def cache_get_def Let_def engine_reader_def cache_put_by_str_def cache_put_def)
  then show ?thesis using *(2) put by auto
next
  case (Some x)
  with assms show ?thesis by (auto simp: run_search_def cache_get_by_str_def cache_get_def Let_def)
qed

text \<open>
  A repeated search does not see what was written in between.  Once a search has returned results,
  the same query with the same limit returns the same results after any further additions,
  deletions, flushes and commits: nothing removes an entry from the query cache.
\<close>

theorem stale_search_after_writes:
  assumes "lru_laws (ee_lru ee)" "run_search ee self query_str limit cfg = (Ok r, self1)"
    "engine_run ee self1 commands = (result, self2)"
  shows "fst (run_search ee self2 query_str limit cfg') = Ok r"
proof -
  have "lru_peek (ee_lru ee) (qc_cache (en_cache self2)) (query_cache_key_new (ee_hash ee) query_str limit 0) = Some r"
    using run_search_Ok [OF assms(2,1)] engine_run_same [OF assms(3)] by (simp add: same_search_def)
  then show ?thesis by (simp add: run_search_def cache_get_by_str_def cache_get_def Let_def)
qed

lemma execute_no_segments:
  assumes "ir_segments reader = []" "validate (qx_validator_config self) q = Ok ()"
  shows "execute self cd reader q limit execution_config_default = Ok \<lparr>sr_hits = [], sr_total_hits = 0, sr_max_score = Fin 0\<rparr>"
proof -
  have "\<exists>q'. optimize_query q = Ok q'" by (simp add: optimize_query_def split: sum.split)
  then obtain q' where "optimize_query q = Ok q'" ..
  with assms show ?thesis
    by (simp add: execute_def execution_config_default_def execute_on_segments_def Let_def get_results_def top_k_new_def
        sort_descending_def max_score_def)
qed

lemma search_no_segments:
  assumes "lru_peek (ee_lru ee) (qc_cache (en_cache self)) (query_cache_key_new (ee_hash ee) query_str limit 0) = None"
    and "parse (ee_value_parsers ee) (en_parser self) query_str = Ok q" "validate (qx_validator_config (en_executor self)) q = Ok ()"
    and "get_reader (ev_codec (ee_env ee)) (iw_world (en_writer self)) (iw_mvcc (en_writer self)) (en_reader_pool self) =
           Ok (reader, pool)" "ir_segments reader = []"
  shows "\<exists>self'. search_n ee self query_str limit = (Ok [], self')"
  using search_miss [OF assms(1,2,4) execute_no_segments [OF assms(5,3)]] by (auto simp: search_n_def)

lemma current_snapshot_new: "current_snapshot mvcc_new = snapshot_default"
  by (simp add: current_snapshot_def mvcc_new_def)

lemma reader_of_nothing:
  "\<exists>reader pool. get_reader cd w mvcc_new (reader_pool_new cx n) = Ok (reader, pool) \<and> ir_segments reader = [] \<and>
     (1 \<le> n \<longrightarrow> rp_reader_cache pool = [(0, reader)])"
  by (auto simp: get_reader_def reader_pool_new_def current_snapshot_new snapshot_default_def
      create_reader_for_snapshot_def Let_def)

text \<open>
  Opening an index forgets its segments.  Whatever is on the disk, the assembled engine starts from
  an empty version store, so that it reports no documents and every search finds nothing.
\<close>

theorem reopening_finds_nothing:
  assumes "assemble ee w schema cfg = Ok self" "lru_laws (ee_lru ee)"
    and "parse (ee_value_parsers ee) query_parser_new query_str = Ok q" "validate validation_config_default q = Ok ()"
  shows "st_total_documents (collect_stats ee uptime_secs self) = 0 \<and> fst (search_n ee self query_str limit) = Ok []"
proof -
  note f = assemble_fields [OF assms(1)]
  obtain reader pool where "get_reader (ev_codec (ee_env ee)) (iw_world (en_writer self)) (iw_mvcc (en_writer self)) (en_reader_pool self) =
      Ok (reader, pool)" "ir_segments reader = []"
    unfolding f(2,8) using reader_of_nothing by blast
  with search_no_segments [of ee self query_str limit q reader pool] assms(2-4) f have
    "\<exists>self'. search_n ee self query_str limit = (Ok [], self')"
    by (auto simp: lru_laws_def query_executor_new_def)
  then show ?thesis by (auto simp: collect_stats_def f current_snapshot_new snapshot_default_def)
qed

lemma first_version:
  assumes "mvcc_wf m" "mv_current_version m \<le> 1"
  shows "sn_version (current_snapshot m) = 0"
proof -
  have "mv_current_version m = 0 \<or> mv_current_version m = 1"
    using assms(2) by (auto simp: word_le_nat_alt word_unat_eq_iff)
  then have "current_snapshot m = (case map_of (mv_versions m) 0 of Some s \<Rightarrow> s | None \<Rightarrow> snapshot_default)"
    by (auto simp: current_snapshot_def)
  then show ?thesis
    using assms(1) map_of_SomeD [of "mv_versions m" 0] by (auto simp: mvcc_wf_def snapshot_default_def split: option.splits)
qed

text \<open>
  A search before the first publication hides it.  The snapshot of an empty index and the first one
  published have the same version, zero; so the reader cached by an early search is used again after
  the first documents are published, and any other query finds nothing until a second snapshot
  exists, although the snapshot holds the documents.
\<close>

theorem first_search_hides_first_snapshot:
  assumes "assemble ee w schema cfg = Ok self" "env_laws (ee_env ee) (cf_compression cfg)" "lru_laws (ee_lru ee)"
    and "cf_writer_batch_size cfg < 2 ^ 32" "1 \<le> cf_max_readers cfg" "length commands < 2 ^ 64"
    and "\<forall>d. AddCommand d \<in> set commands \<longrightarrow> document_laws (ev_codec (ee_env ee)) (cf_compression cfg) d"
    and "search_n ee self query0 limit0 = (Ok hits0, self1)" "engine_run ee self1 commands = (Ok (), self2)"
    and "version (en_writer self2) \<le> 1"
    and "parse (ee_value_parsers ee) query_parser_new query_str = Ok q" "validate validation_config_default q = Ok ()"
    and "(ee_hash ee query_str, limit) \<noteq> (ee_hash ee query0, limit0)"
  shows "writer_rep (ee_env ee) (en_writer self2) (foldl (spec_step (cf_writer_batch_size cfg)) spec_empty commands) \<and>
         fst (search_n ee self2 query_str limit) = Ok []"
proof -
  note f = assemble_fields [OF assms(1)]
  let ?key = "query_cache_key_new (ee_hash ee)"
  obtain r where r: "run_search ee self query0 limit0 execution_config_default = (Ok r, self1)"
    using assms(8) by (auto simp: search_n_def and_then_Ok_iff split: prod.splits)
  note s1 = run_search_Ok [OF r assms(3)]
  have fresh: "lru_peek (ee_lru ee) (qc_cache (en_cache self)) k = None" for k using assms(3) f(5) by (simp add: lru_laws_def)
  obtain reader pool where rd: "get_reader (ev_codec (ee_env ee)) (iw_world (en_writer self)) (iw_mvcc (en_writer self)) (en_reader_pool self) =
      Ok (reader, pool)" "ir_segments reader = []" "1 \<le> cf_max_readers cfg \<Longrightarrow> rp_reader_cache pool = [(0, reader)]"
    unfolding f(2,8) using reader_of_nothing by blast
  have pool: "en_reader_pool self1 = pool" using s1 fresh rd(1) by simp
  have peek: "lru_peek (ee_lru ee) (qc_cache (en_cache self1)) (?key query_str limit 0) = None"
    using s1 fresh assms(13) by (auto simp: query_cache_key_new_def)
  have "unat (version (en_writer self)) + length commands < 2 ^ 64" using f(8) assms(6) by (simp add: mvcc_new_def)
  from writer_run_refines [OF f(9) _ _ this] assms(2,4,7) f(6,7) obtain writer where
    run: "writer_run (ee_env ee) (en_writer self) commands = (Ok (), writer)"
    "writer_rep (ee_env ee) writer (foldl (spec_step (cf_writer_batch_size cfg)) spec_empty commands)" by auto
  have w2: "en_writer self2 = writer"
    using engine_run_writer [of self1 ee commands] s1 f(1) run(1) assms(9) by auto
  have ver: "sn_version (current_snapshot (iw_mvcc (en_writer self2))) = 0"
    using first_version assms(10) run(2) w2 by (simp add: writer_rep_def writer_core_def)
  have same: "en_reader_pool self2 = en_reader_pool self1" "en_executor self2 = query_executor_new"
    "en_parser self2 = query_parser_new" "en_cache self2 = en_cache self1"
    using engine_run_same [OF assms(9)] s1 f by (simp_all add: same_search_def)
  have "get_reader (ev_codec (ee_env ee)) (iw_world (en_writer self2)) (iw_mvcc (en_writer self2)) (en_reader_pool self2) =
      Ok (reader, en_reader_pool self2)"
    using rd(3) assms(5) by (simp add: get_reader_def ver same(1) pool)
  from search_no_segments [OF _ _ _ this rd(2), of query_str limit q] peek same assms(11,12) have
    "\<exists>self'. search_n ee self2 query_str limit = (Ok [], self')" by (simp add: query_executor_new_def)
  with run(2) w2 show ?thesis by auto
qed

subsection \<open>Transactions\<close>

text \<open>The commands that a committed transaction stands for.\<close>

fun op_commands :: "transaction_op \<Rightarrow> command list" where
  "op_commands (Insert doc) = [AddCommand doc]"
| "op_commands (Update d doc) = [DeleteCommand d, AddCommand doc]"
| "op_commands (Delete d) = [DeleteCommand d]"

lemma engine_run_append:
  "engine_run ee self (xs @ ys) =
     (case engine_run ee self xs of (Inl e, self) \<Rightarrow> (Err e, self) | (Inr _, self) \<Rightarrow> engine_run ee self ys)"
  by (induction xs arbitrary: self) (auto split: prod.splits sum.splits)

lemma apply_transaction_op_run: "apply_transaction_op ee self op = engine_run ee self (op_commands op)"
  by (cases op) (auto simp: apply_transaction_op_def split: prod.splits sum.splits)

lemma apply_transaction_ops_run: "apply_transaction_ops ee self ops = engine_run ee self (concat (map op_commands ops))"
  by (induction ops arbitrary: self) (auto simp: apply_transaction_op_run engine_run_append split: prod.splits sum.splits)

text \<open>
  A transaction that commits runs its operations on the engine, in order, and then flushes: an
  insertion adds the document, an update deletes the old id and adds the new document, a deletion
  deletes.  The first operation that fails ends it, and the operations before it stay applied.  When
  the work of the transaction fails, or its validation, nothing is written.
\<close>

theorem with_transaction_runs_commands:
  assumes "engine_begin_transaction self isolation = (tx, self1)" "f (iw_world (en_writer self1)) tx = (r, tx1)"
    and "tx_commit (ev_codec (ee_env ee)) (ee_order ee) (iw_world (en_writer self1)) (iw_mvcc (en_writer self1)) tx1 = (c, tx2)"
  shows "with_transaction ee self isolation f =
           (case r of
              Inl e \<Rightarrow> (Err e, self1)
            | Inr result \<Rightarrow>
                (case c of
                   Inl e \<Rightarrow> (Err e, self1)
                 | Inr ops \<Rightarrow>
                     (case engine_run ee self1 (concat (map op_commands ops) @ [FlushCommand]) of
                        (Inl e, self2) \<Rightarrow> (Err e, self2)
                      | (Inr _, self2) \<Rightarrow> (Ok result, self2)))) \<and>
         en_writer self1 = en_writer self"
proof -
  have "en_writer self1 = en_writer self" using assms(1) by (auto simp: engine_begin_transaction_def split: prod.splits)
  with assms show ?thesis
    by (auto simp: with_transaction_def Let_def apply_transaction_ops_run engine_run_append tx_rollback_def
        split: sum.splits prod.splits)
qed

text \<open>
  An update in a transaction leaves the old document visible.  The update deletes the old id and
  adds the new document; the flush at the end of the transaction publishes a snapshot without
  deleted documents.  So both versions are among the published documents, and neither is deleted.
\<close>

theorem transaction_update_keeps_old:
  assumes "en_low_memory self = None" "writer_rep (ee_env ee) (en_writer self) sp"
    and "env_laws (ee_env ee) (iw_compression (en_writer self))" "iw_batch_size (en_writer self) < 2 ^ 32"
    and "unat (version (en_writer self)) + 3 < 2 ^ 64" "2 \<le> iw_batch_size (en_writer self)" "sp_buffer sp = []"
    and "document_laws (ev_codec (ee_env ee)) (iw_compression (en_writer self)) doc"
  shows "\<exists>self'. with_transaction ee self ReadCommitted (\<lambda>w tx. tx_update tx d doc) = (Ok (), self') \<and>
           writer_rep (ee_env ee) (en_writer self')
             \<lparr>sp_published = sp_published sp @ [[doc]], sp_buffer = [], sp_deleted = {}\<rparr>"
proof -
  let ?cs = "[DeleteCommand d, AddCommand doc, FlushCommand]" and ?n = "iw_batch_size (en_writer self)"
  obtain tx self1 where b: "engine_begin_transaction self ReadCommitted = (tx, self1)" by fastforce
  then have tx: "tx_state tx = Active" "tx_operations tx = []" "tx_isolation_level tx = ReadCommitted"
    and s1: "en_writer self1 = en_writer self" "en_low_memory self1 = None"
    using assms(1) by (auto simp: engine_begin_transaction_def tx_begin_def)
  obtain tx1 where u: "tx_update tx d doc = (Ok (), tx1)" "tx_state tx1 = Active" "tx_operations tx1 = [Update d doc]"
    "tx_isolation_level tx1 = ReadCommitted"
    using tx by (auto simp: tx_update_def check_active_def)
  obtain tx2 where c: "tx_commit (ev_codec (ee_env ee)) (ee_order ee) (iw_world (en_writer self1)) (iw_mvcc (en_writer self1)) tx1 =
      (Ok [Update d doc], tx2)"
    using u by (auto simp: tx_commit_def)
  obtain writer where w: "writer_run (ee_env ee) (en_writer self) ?cs = (Ok (), writer)"
    "writer_rep (ee_env ee) writer (foldl (spec_step ?n) sp ?cs)"
    using writer_run_refines [OF assms(2-4), of ?cs] assms(5,8) by auto
  obtain self2 where run: "engine_run ee self1 ?cs = (Ok (), self2)" "en_writer self2 = writer"
    using engine_run_writer [OF s1(2), of ee ?cs] w(1) s1(1) by auto
  have spec: "foldl (spec_step ?n) sp ?cs = \<lparr>sp_published = sp_published sp @ [[doc]], sp_buffer = [], sp_deleted = {}\<rparr>"
    using assms(6,7) by (cases sp) (simp add: spec_add_def spec_flush_def)
  have "with_transaction ee self ReadCommitted (\<lambda>w tx. tx_update tx d doc) = (Ok (), self2)"
    using b u(1) c run(1)
    by (simp add: with_transaction_def apply_transaction_ops_run flush_segments_def split: prod.splits sum.splits)
  with run(2) w(2) spec show ?thesis by auto
qed

subsection \<open>Low memory mode\<close>

text \<open>
  In low memory mode a deletion can stop all small writes.  A deletion releases 500 bytes whether or
  not they were allocated; on a fresh tracker the counter wraps, and from then on every document
  smaller than 500 bytes is refused, and nothing of it is written.
\<close>

theorem delete_blocks_writes:
  assumes "lm_heap_limit lcfg < 2 ^ 63" "document_size doc < 500"
    and "delete_document_by_id ee (enable_low_memory_mode self lcfg) d = (r, self1)"
  shows "\<exists>self2. engine_write_document ee self1 doc = (Err out_of_memory, self2) \<and> en_writer self2 = en_writer self1"
proof -
  let ?t = "memory_tracker_new (of_nat (lm_heap_limit lcfg))"
  have lm: "en_low_memory self1 = Some ((low_memory_mode_new lcfg)\<lparr>lw_memory_tracker := mt_deallocate ?t 500\<rparr>)"
    using assms(3)
    by (auto simp: delete_document_by_id_def Let_def with_writer_def enable_low_memory_mode_def track_release_def
        low_memory_mode_new_def split: prod.splits)
  have n: "unat (of_nat (document_size doc) :: u64) = document_size doc" "unat (of_nat (lm_heap_limit lcfg) :: u64) = lm_heap_limit lcfg"
    using assms(1,2) by (simp_all add: unat_of_nat)
  have "mt_allocate (mt_deallocate ?t 500) (of_nat (document_size doc)) = (Err out_of_memory, mt_deallocate ?t 500)"
    using assms(1,2) by (intro tracker_underflow) (simp_all add: memory_tracker_new_def n)
  then show ?thesis by (simp add: engine_write_document_def track_allocation_def lm Let_def)
qed

subsection \<open>Load balancing\<close>

fun choices :: "nat \<Rightarrow> read_load_balancer \<Rightarrow> nat result list" where
  "choices 0 self = []"
| "choices (Suc n) self = (case get_replica self of (r, self) \<Rightarrow> r # choices n self)"

lemma choices_round_robin:
  assumes "0 < lb_replicas self" "unat (lb_current self) + n \<le> 2 ^ 64"
  shows "choices n self = map (\<lambda>i. Ok (i mod lb_replicas self)) [unat (lb_current self)..<unat (lb_current self) + n]"
  using assms
proof (induction n arbitrary: self)
  case (Suc n)
  let ?self = "self\<lparr>lb_current := lb_current self + 1\<rparr>"
  show ?case
  proof (cases n)
    case 0
    with Suc.prems show ?thesis by (simp add: get_replica_def)
  next
    case (Suc m)
    then have "lb_current self \<noteq> - 1"
      using version_below(2) [of "lb_current self" "lb_current self" 0] Suc.prems(2) by simp
    then have "unat (lb_current ?self) = unat (lb_current self) + 1" by (simp add: u64_succ)
    moreover from this have "choices n ?self = map (\<lambda>i. Ok (i mod lb_replicas self)) [unat (lb_current ?self)..<unat (lb_current ?self) + n]"
      using Suc.IH [of ?self] Suc.prems by simp
    ultimately show ?thesis using Suc.prems by (simp add: get_replica_def upt_rec)
  qed
qed simp

lemma window_mod: "0 < k \<Longrightarrow> bij_betw (\<lambda>i. i mod k) {a..<a + k} {0..<k :: nat}"
proof -
  assume k: "0 < k"
  have "inj_on (\<lambda>i. i mod k) {a..<a + k}"
  proof (rule inj_onI)
    fix i j
    assume ij: "i \<in> {a..<a + k}" "j \<in> {a..<a + k}" "i mod k = j mod k"
    show "i = j"
    proof (cases "i \<le> j")
      case True
      with ij(3) have "k dvd j - i" by (metis mod_eq_dvd_iff_nat)
      moreover have "j - i < k" using ij by auto
      ultimately show ?thesis using True k by (auto dest: nat_dvd_not_less)
    next
      case False
      with ij(3) have "k dvd i - j" by (metis mod_eq_dvd_iff_nat nat_le_linear)
      moreover have "i - j < k" using ij by auto
      ultimately show ?thesis using False k by (auto dest: nat_dvd_not_less)
    qed
  qed
  moreover have "(\<lambda>i. i mod k) ` {a..<a + k} \<subseteq> {0..<k}" using k by auto
  moreover have "card ((\<lambda>i. i mod k) ` {a..<a + k}) = card {0..<k}" using card_image [OF calculation(1)] by simp
  ultimately show ?thesis by (auto simp: bij_betw_def card_subset_eq)
qed

text \<open>
  The balancer is fair: as long as its counter does not wrap, any \<open>k\<close> consecutive requests to a
  balancer with \<open>k\<close> replicas go to every replica exactly once; without replicas a request panics.
\<close>

theorem balancer_fair:
  assumes "unat (lb_current self) + lb_replicas self \<le> 2 ^ 64"
  shows "(0 < lb_replicas self \<longrightarrow> mset (choices (lb_replicas self) self) = mset (map Ok [0..<lb_replicas self])) \<and>
         (lb_replicas self = 0 \<longrightarrow> fst (get_replica self) = Err Panic)"
proof -
  let ?k = "lb_replicas self" and ?a = "unat (lb_current self)"
  have "mset (choices ?k self) = mset (map Ok [0..<?k])" if k: "0 < ?k"
  proof -
    have "mset (map (\<lambda>i. i mod ?k) [?a..<?a + ?k]) = mset [0..<?k]"
      using window_mod [OF k, of ?a] by (simp add: bij_betw_def image_mset_mset_set)
    from arg_cong [OF this, of "image_mset Ok"] show ?thesis
      unfolding choices_round_robin [OF k assms] by (simp add: image_mset.compositionality comp_def)
  qed
  then show ?thesis by (simp add: get_replica_def)
qed

subsection \<open>Instances\<close>

definition plain_engine_env :: "((query_cache_key \<times> search_results) list, unit) engine_env" where
  "plain_engine_env =
     \<lparr>ee_env = plain_env, ee_lru = list_lru, ee_hash = (\<lambda>s. of_nat (length s)), ee_value_parsers = no_value_parsers,
      ee_text_ops = plain_text_ops, ee_context = empty_context, ee_order = (\<lambda>ds. ds)\<rparr>"

definition plain_config :: "nat \<Rightarrow> config" where
  "plain_config n = config_default\<lparr>cf_writer_batch_size := n, cf_compression := CompNone\<rparr>"

definition plain_engine :: "nat \<Rightarrow> ((query_cache_key \<times> search_results) list, unit) engine" where
  "plain_engine n = (case assemble plain_engine_env empty_world schema_new (plain_config n) of Inr self \<Rightarrow> self)"

lemma plain_engine_assembled: "assemble plain_engine_env empty_world schema_new (plain_config n) = Ok (plain_engine n)"
proof -
  have "\<exists>self. assemble plain_engine_env empty_world schema_new (plain_config n) = Ok self"
    by (simp add: assemble_def Let_def query_cache_new_def plain_config_def config_default_def)
  then show ?thesis by (auto simp: plain_engine_def)
qed

lemma plain_engine_env_laws:
  "env_laws (ee_env plain_engine_env) (cf_compression (plain_config n))" "lru_laws (ee_lru plain_engine_env)"
  "small_id i \<Longrightarrow> document_laws (ev_codec (ee_env plain_engine_env)) (cf_compression (plain_config n)) (document_new i)"
  "cf_writer_batch_size (plain_config n) = n" "cf_max_readers (plain_config n) = 10"
  using plain_env_laws list_lru_laws plain_codec_document_laws
  by (simp_all add: plain_engine_env_def plain_config_def config_default_def plain_env_def)

lemma parse_nothing: "parse (ee_value_parsers plain_engine_env) query_parser_new [] = Ok MatchAll"
  "parse (ee_value_parsers plain_engine_env) query_parser_new '' '' = Ok MatchAll"
  by code_simp+

lemma validate_all: "validate validation_config_default MatchAll = Ok ()"
  by (simp add: validate_def validate_depth_recursive.simps validation_config_default_def)

lemma spec_one: "foldl (spec_step 1) spec_empty [AddCommand d] = \<lparr>sp_published = [[d]], sp_buffer = [], sp_deleted = {}\<rparr>"
  by (simp add: spec_empty_def spec_add_def spec_flush_def)

theorem search_end_to_end_witness:
  "\<exists>self1 hits self2. engine_run plain_engine_env (plain_engine 1) [AddCommand (document_new 4)] = (Ok (), self1) \<and>
     search_n plain_engine_env self1 [] 10 = (Ok hits, self2) \<and> length hits = 1"
proof -
  have laws: "\<forall>d. AddCommand d \<in> set [AddCommand (document_new 4)] \<longrightarrow>
      document_laws (ev_codec (ee_env plain_engine_env)) (cf_compression (plain_config 1)) d"
    using plain_engine_env_laws(3) by (simp add: small_id_def)
  let ?sp = "foldl (spec_step (cf_writer_batch_size (plain_config 1))) spec_empty [AddCommand (document_new 4)]"
  let ?found = "filter (\<lambda>d. satisfies ((ee_context plain_engine_env)\<lparr>mx_index := inverted_index_new\<rparr>) d MatchAll \<and>
    alive (sp_deleted ?sp) d) (concat (sp_published ?sp))"
  have found: "?found = [document_new 4]" unfolding plain_engine_env_laws(4) spec_one by simp
  have "cf_writer_batch_size (plain_config 1) < 2 ^ 32" "length [AddCommand (document_new 4)] < 2 ^ 64" "optimize_query MatchAll = Ok MatchAll"
    by (simp_all add: plain_engine_env_laws(4) optimize_query_def plan_def optimize_def optimizer_rules_def filter_pushdown_def limit_merge_def)
  from search_end_to_end [OF plain_engine_assembled plain_engine_env_laws(1,2) this(1,2) laws parse_nothing(1) validate_all this(3) refl refl refl, of 10]
  show ?thesis unfolding found by auto
qed

lemma plain_first_search:
  "\<exists>r self1. run_search plain_engine_env (plain_engine 1) [] 10 execution_config_default = (Ok r, self1) \<and> sr_hits r = []"
proof -
  note f = assemble_fields [OF plain_engine_assembled [of 1]]
  obtain reader pool where rd: "get_reader (ev_codec (ee_env plain_engine_env)) (iw_world (en_writer (plain_engine 1))) mvcc_new
      (en_reader_pool (plain_engine 1)) = Ok (reader, pool)" "ir_segments reader = []"
    unfolding f(2) using reader_of_nothing by blast
  have "validate (qx_validator_config (en_executor (plain_engine 1))) MatchAll = Ok ()"
    using validate_all f(3) by (simp add: query_executor_new_def)
  note ex = execute_no_segments [OF rd(2) this]
  have "lru_peek (ee_lru plain_engine_env) (qc_cache (en_cache (plain_engine 1))) k = None" for k
    using f(5) plain_engine_env_laws(2) by (simp add: lru_laws_def)
  from search_miss [OF this _ _ ex, of "[]"] rd(1) f(4,8) parse_nothing show ?thesis by fastforce
qed

theorem stale_search_after_writes_witness:
  "\<exists>r self1. run_search plain_engine_env (plain_engine 1) [] 10 execution_config_default = (Ok r, self1) \<and> sr_hits r = [] \<and>
     fst (run_search plain_engine_env (snd (engine_run plain_engine_env self1 [AddCommand (document_new 4)])) [] 10
       execution_config_default) = Ok r"
proof -
  obtain r self1 where s: "run_search plain_engine_env (plain_engine 1) [] 10 execution_config_default = (Ok r, self1)" "sr_hits r = []"
    using plain_first_search by blast
  from stale_search_after_writes [OF plain_engine_env_laws(2) s(1), of "[AddCommand (document_new 4)]"] s
  show ?thesis by (metis prod.collapse)
qed

theorem reopening_finds_nothing_witness:
  "st_total_documents (collect_stats plain_engine_env 60 (plain_engine 1)) = 0 \<and>
   fst (search_n plain_engine_env (plain_engine 1) [] 10) = Ok []"
  by (rule reopening_finds_nothing [OF plain_engine_assembled plain_engine_env_laws(2) parse_nothing(1) validate_all])

theorem first_search_hides_first_snapshot_witness:
  "\<exists>self1 self2. search_n plain_engine_env (plain_engine 1) [] 10 = (Ok [], self1) \<and>
     engine_run plain_engine_env self1 [AddCommand (document_new 4)] = (Ok (), self2) \<and>
     writer_rep plain_env (en_writer self2) \<lparr>sp_published = [[document_new 4]], sp_buffer = [], sp_deleted = {}\<rparr> \<and>
     fst (search_n plain_engine_env self2 '' '' 10) = Ok []"
proof -
  let ?cs = "[AddCommand (document_new 4)]" and ?ee = plain_engine_env
  have laws: "\<forall>d. AddCommand d \<in> set ?cs \<longrightarrow> document_laws (ev_codec (ee_env ?ee)) (cf_compression (plain_config 1)) d"
    using plain_engine_env_laws(3) by (simp add: small_id_def)
  note f = assemble_fields [OF plain_engine_assembled [of 1]]
  obtain r self1 where s: "run_search ?ee (plain_engine 1) [] 10 execution_config_default = (Ok r, self1)" "sr_hits r = []"
    using plain_first_search by blast
  then have first: "search_n ?ee (plain_engine 1) [] 10 = (Ok [], self1)" by (simp add: search_n_def)
  note same = run_search_Ok [OF s(1) plain_engine_env_laws(2)]
  have "unat (version (en_writer (plain_engine 1))) + length ?cs < 2 ^ 64" by (simp add: f mvcc_new_def del: One_nat_def)
  from writer_run_refines [OF f(9) _ _ this] laws plain_engine_env_laws(1) obtain writer where
    w: "writer_run (ee_env ?ee) (en_writer (plain_engine 1)) ?cs = (Ok (), writer)" "unat (version writer) \<le> 1"
    by (auto simp: f plain_engine_env_laws mvcc_new_def simp del: One_nat_def)
  obtain self2 where s2: "engine_run ?ee self1 ?cs = (Ok (), self2)" "en_writer self2 = writer"
    using engine_run_writer [of self1 ?ee ?cs] same f(1) w(1) by auto
  have "version (en_writer self2) \<le> 1" using s2(2) w(2) by (simp add: word_le_nat_alt)
  note hidden = first_search_hides_first_snapshot [OF plain_engine_assembled plain_engine_env_laws(1,2) _ _ _ laws first s2(1) this
      parse_nothing(2) validate_all, of 10, unfolded plain_engine_env_laws(4,5) spec_one]
  have "ee_env plain_engine_env = plain_env" "(ee_hash plain_engine_env '' '', 10 :: nat) \<noteq> (ee_hash plain_engine_env [], 10)"
    by (simp_all add: plain_engine_env_def)
  with hidden first s2(1) show ?thesis by auto
qed

theorem with_transaction_runs_commands_witness:
  "\<exists>tx self1 tx1 tx2. engine_begin_transaction (plain_engine 1) ReadCommitted = (tx, self1) \<and>
     tx_insert tx (document_new 4) = (Ok (), tx1) \<and>
     tx_commit plain_codec (\<lambda>ds. ds) (iw_world (en_writer self1)) (iw_mvcc (en_writer self1)) tx1 = (Ok [Insert (document_new 4)], tx2) \<and>
     with_transaction plain_engine_env (plain_engine 1) ReadCommitted (\<lambda>w tx. tx_insert tx (document_new 4)) =
       (case engine_run plain_engine_env self1 [AddCommand (document_new 4), FlushCommand] of
          (Inl e, self2) \<Rightarrow> (Err e, self2)
        | (Inr _, self2) \<Rightarrow> (Ok (), self2))"
proof -
  obtain tx self1 where b: "engine_begin_transaction (plain_engine 1) ReadCommitted = (tx, self1)" by fastforce
  then have tx: "tx_state tx = Active" "tx_operations tx = []" "tx_isolation_level tx = ReadCommitted"
    by (auto simp: engine_begin_transaction_def tx_begin_def)
  obtain tx1 where i: "tx_insert tx (document_new 4) = (Ok (), tx1)" "tx_state tx1 = Active"
    "tx_operations tx1 = [Insert (document_new 4)]" "tx_isolation_level tx1 = ReadCommitted"
    using tx by (auto simp: tx_insert_def check_active_def)
  obtain tx2 where c: "tx_commit (ev_codec (ee_env plain_engine_env)) (ee_order plain_engine_env) (iw_world (en_writer self1))
      (iw_mvcc (en_writer self1)) tx1 = (Ok [Insert (document_new 4)], tx2)"
    using i by (auto simp: tx_commit_def)
  from with_transaction_runs_commands [of "plain_engine 1" ReadCommitted tx self1 "\<lambda>w tx. tx_insert tx (document_new 4)", OF b i(1) c]
  show ?thesis using b i(1) c by (auto simp: plain_engine_env_def plain_env_def)
qed

theorem transaction_update_keeps_old_witness:
  "\<exists>self'. with_transaction plain_engine_env (plain_engine 2) ReadCommitted (\<lambda>w tx. tx_update tx 4 (document_new 4)) = (Ok (), self') \<and>
     writer_rep plain_env (en_writer self') \<lparr>sp_published = [[document_new 4]], sp_buffer = [], sp_deleted = {}\<rparr>"
proof -
  note f = assemble_fields [OF plain_engine_assembled [of 2]]
  have "document_laws (ev_codec (ee_env plain_engine_env)) (iw_compression (en_writer (plain_engine 2))) (document_new 4)"
    using plain_engine_env_laws(3) f(7) by (simp add: small_id_def)
  from transaction_update_keeps_old [OF f(1,9) _ _ _ _ _ this, of 4] plain_engine_env_laws(1)
  show ?thesis by (simp add: f plain_engine_env_laws(4) mvcc_new_def spec_empty_def) (simp add: plain_engine_env_def)
qed

theorem delete_blocks_writes_witness:
  "\<exists>self2. engine_write_document plain_engine_env
      (snd (delete_document_by_id plain_engine_env
        (enable_low_memory_mode (plain_engine 1)
          \<lparr>lm_heap_limit = 1000000, lm_buffer_size = 0, lm_cache_size = 0, lm_batch_size = 0, lm_enable_compression = False,
           lm_swap_to_disk = False, lm_gc_threshold = Fin 1\<rparr>) 4)) (document_new 4) = (Err out_of_memory, self2)"
proof -
  let ?l = "\<lparr>lm_heap_limit = 1000000, lm_buffer_size = 0, lm_cache_size = 0, lm_batch_size = 0, lm_enable_compression = False,
     lm_swap_to_disk = False, lm_gc_threshold = Fin 1\<rparr>"
  have small: "lm_heap_limit ?l < 2 ^ 63" by simp
  have doc: "document_size (document_new 4) < 500" by (simp add: document_size_def document_new_def)
  show ?thesis
    using delete_blocks_writes [OF small doc surjective_pairing, where ee = plain_engine_env and self = "plain_engine 1" and d = 4] by blast
qed

theorem balancer_fair_witness:
  "choices 3 (read_load_balancer_new 3) = [Ok 0, Ok 1, Ok 2] \<and>
   mset (choices 3 (read_load_balancer_new 3)) = mset (map Ok [0..<3])"
proof -
  have "choices 3 (read_load_balancer_new 3) = [Ok 0, Ok 1, Ok 2]" by code_simp
  then show ?thesis using balancer_fair [of "read_load_balancer_new 3"] by (simp add: read_load_balancer_new_def)
qed

end
