(* ===== verification/Index_Files.thy ===== *)
theory Index_Files
  imports Index_Writer
begin

section \<open>Index files\<close>

text \<open>
  The model of \<^verbatim>\<open>src/index/index_writer.rs\<close>, \<^verbatim>\<open>index_reader.rs\<close>, \<^verbatim>\<open>lazy_index_reader.rs\<close>,
  \<^verbatim>\<open>hybrid_index_reader.rs\<close>, \<^verbatim>\<open>index_cache.rs\<close> and \<^verbatim>\<open>hybrid_index_cache.rs\<close>: the inverted index of a segment
  in its file, readers that load it at once or on demand, and caches of readers.  The
  \<^verbatim>\<open>lru\<close> crate's cache of postings is the argument \<open>posting_lru\<close>.  A file handle is the path it was
  opened with.  The hit rates, quotients of the counters, are left out.
\<close>

record index_codec =
  ic_codec :: codec
  de_index :: "byte_vec \<Rightarrow> (string \<times> posting list) list result"
  ser_postings :: "posting list \<Rightarrow> byte_vec"

subsection \<open>Building an index\<close>

record term_index_writer =
  tw_analyzer :: analyzer
  tw_inverted_index :: "(string \<times> posting list) list"

definition term_index_writer_new :: "analyzer \<Rightarrow> term_index_writer" where
  "term_index_writer_new an = \<lparr>tw_analyzer = an, tw_inverted_index = []\<rparr>"

definition tw_index_document ::
  "env \<Rightarrow> term_index_writer \<Rightarrow> document \<Rightarrow> unit result \<times> term_index_writer" where
  "tw_index_document ev self doc =
     (case index_batch (tw_analyzer self) [doc] of
        Inl e \<Rightarrow> (Err e, self)
      | Inr [] \<Rightarrow> (Ok (), self)
      | Inr (x # _) \<Rightarrow>
          (let term_positions = group_positions (map tk_text (xd_tokens x))
           in (Ok (), self\<lparr>tw_inverted_index :=
                 foldl (\<lambda>m (t, ps). push_entry t (document_posting (d_id doc) (length (xd_terms x)) ps) m)
                   (tw_inverted_index self) (ev_hash_order ev term_positions)\<rparr>)))"

fun tw_index_documents_batch ::
  "env \<Rightarrow> term_index_writer \<Rightarrow> document list \<Rightarrow> unit result \<times> term_index_writer" where
  "tw_index_documents_batch ev self [] = (Ok (), self)"
| "tw_index_documents_batch ev self (doc # docs) =
     (case tw_index_document ev self doc of
        (Inl e, self) \<Rightarrow> (Err e, self)
      | (Inr _, self) \<Rightarrow> tw_index_documents_batch ev self docs)"

definition take_index :: "term_index_writer \<Rightarrow> (string \<times> posting list) list \<times> term_index_writer" where
  "take_index self = (tw_inverted_index self, self\<lparr>tw_inverted_index := []\<rparr>)"

definition tw_clear :: "term_index_writer \<Rightarrow> term_index_writer" where
  "tw_clear self = self\<lparr>tw_inverted_index := []\<rparr>"

subsection \<open>Reading a whole index\<close>

text \<open>The bytes of an index file: a compressed block that holds the serialised map.\<close>

definition decode_index :: "index_codec \<Rightarrow> byte_vec \<Rightarrow> (string \<times> posting list) list result" where
  "decode_index ic content =
     and_then (de_block (ic_codec ic) content) (\<lambda>block.
     and_then (decompress (codec_compressors (ic_codec ic)) block) (\<lambda>decompressed.
       de_index ic decompressed))"

record term_index_reader =
  tr_segment_id :: segment_id
  tr_inverted_index :: "(string \<times> posting list) list"

definition tr_open :: "index_codec \<Rightarrow> world \<Rightarrow> segment_id \<Rightarrow> term_index_reader result" where
  "tr_open ic w i =
     (case w_files w (IndexPath i) of
        None \<Rightarrow> Ok \<lparr>tr_segment_id = i, tr_inverted_index = []\<rparr>
      | Some content \<Rightarrow>
          and_then (decode_index ic content) (\<lambda>m. Ok \<lparr>tr_segment_id = i, tr_inverted_index = m\<rparr>))"

definition tr_get_postings :: "term_index_reader \<Rightarrow> string \<Rightarrow> posting list option" where
  "tr_get_postings self t = map_of (tr_inverted_index self) t"

definition tr_contains_term :: "term_index_reader \<Rightarrow> string \<Rightarrow> bool" where
  "tr_contains_term self t \<longleftrightarrow> map_of (tr_inverted_index self) t \<noteq> None"

definition tr_terms :: "term_index_reader \<Rightarrow> string list" where
  "tr_terms self = map fst (tr_inverted_index self)"

definition tr_stats :: "term_index_reader \<Rightarrow> nat \<times> nat" where
  "tr_stats self = (length (tr_inverted_index self), sum_list (map (\<lambda>(t, ps). length ps) (tr_inverted_index self)))"

subsection \<open>Reading on demand\<close>

record 'l posting_lru =
  pl_new :: "nat \<Rightarrow> 'l"
  pl_peek :: "'l \<Rightarrow> string \<Rightarrow> posting list option"
  pl_get :: "'l \<Rightarrow> string \<Rightarrow> posting list option \<times> 'l"
  pl_put :: "'l \<Rightarrow> string \<Rightarrow> posting list \<Rightarrow> 'l"
  pl_len :: "'l \<Rightarrow> nat"

record term_offset =
  to_offset :: u64
  to_length :: u64

text \<open>Without an index file the handle is that of the empty device, here no path.\<close>

record 'l lazy_index_reader =
  lz_segment_id :: segment_id
  lz_term_offsets :: "(string \<times> term_offset) list"
  lz_handle :: "path option"
  lz_cache :: 'l
  lz_cache_hits :: u64
  lz_cache_misses :: u64

definition lz_open :: "'l posting_lru \<Rightarrow> index_codec \<Rightarrow> world \<Rightarrow> segment_id \<Rightarrow> nat \<Rightarrow> 'l lazy_index_reader result" where
  "lz_open ops ic w i cache_size =
     (case w_files w (IndexPath i) of
        None \<Rightarrow> Ok \<lparr>lz_segment_id = i, lz_term_offsets = [], lz_handle = None, lz_cache = pl_new ops 1,
                   lz_cache_hits = 0, lz_cache_misses = 0\<rparr>
      | Some content \<Rightarrow>
          and_then (decode_index ic content) (\<lambda>full_index.
            Ok \<lparr>lz_segment_id = i,
                lz_term_offsets =
                  map (\<lambda>(t, ps). (t, \<lparr>to_offset = 0, to_length = of_nat (length (ser_postings ic ps))\<rparr>)) full_index,
                lz_handle = Some (IndexPath i), lz_cache = pl_new ops (if cache_size = 0 then 1000 else cache_size),
                lz_cache_hits = 0, lz_cache_misses = 0\<rparr>))"

definition load_postings_for_term ::
  "index_codec \<Rightarrow> world \<Rightarrow> 'l lazy_index_reader \<Rightarrow> string \<Rightarrow> posting list option result" where
  "load_postings_for_term ic w self t =
     and_then (decode_index ic (case lz_handle self of None \<Rightarrow> [] | Some p \<Rightarrow> file_content w p)) (\<lambda>full_index.
       Ok (map_of full_index t))"

definition lz_get_postings ::
  "'l posting_lru \<Rightarrow> index_codec \<Rightarrow> world \<Rightarrow> 'l lazy_index_reader \<Rightarrow> string
     \<Rightarrow> posting list option result \<times> 'l lazy_index_reader" where
  "lz_get_postings ops ic w self t =
     (case pl_get ops (lz_cache self) t of
        (Some postings, cache) \<Rightarrow>
          (Ok (Some postings), self\<lparr>lz_cache := cache, lz_cache_hits := lz_cache_hits self + 1\<rparr>)
      | (None, cache) \<Rightarrow>
          (let self = self\<lparr>lz_cache := cache, lz_cache_misses := lz_cache_misses self + 1\<rparr>
           in case map_of (lz_term_offsets self) t of
                None \<Rightarrow> (Ok None, self)
              | Some _ \<Rightarrow>
                  (case load_postings_for_term ic w self t of
                     Inl e \<Rightarrow> (Err e, self)
                   | Inr None \<Rightarrow> (Ok None, self)
                   | Inr (Some postings) \<Rightarrow>
                       (Ok (Some postings), self\<lparr>lz_cache := pl_put ops (lz_cache self) t postings\<rparr>))))"

definition lz_contains_term :: "'l lazy_index_reader \<Rightarrow> string \<Rightarrow> bool" where
  "lz_contains_term self t \<longleftrightarrow> map_of (lz_term_offsets self) t \<noteq> None"

definition lz_terms :: "'l lazy_index_reader \<Rightarrow> string list" where
  "lz_terms self = map fst (lz_term_offsets self)"

record lazy_cache_stats =
  lq_hits :: u64
  lq_misses :: u64
  lq_hit_rate :: fval
  lq_size :: nat

definition lz_cache_stats :: "'l posting_lru \<Rightarrow> 'l lazy_index_reader \<Rightarrow> lazy_cache_stats" where
  "lz_cache_stats ops self =
     (let hits = lz_cache_hits self;
          misses = lz_cache_misses self;
          total = hits + misses
      in \<lparr>lq_hits = hits, lq_misses = misses,
          lq_hit_rate = (if total > 0 then d_div (d_of_nat (unat hits)) (d_of_nat (unat total)) else Fin 0),
          lq_size = pl_len ops (lz_cache self)\<rparr>)"

definition lz_stats :: "'l lazy_index_reader \<Rightarrow> nat" where
  "lz_stats self = length (lz_term_offsets self)"

subsection \<open>Choosing a strategy\<close>

datatype loading_strategy = Eager | Lazy | Adaptive

datatype 'l hybrid_index_reader = EagerReader term_index_reader | LazyReader "'l lazy_index_reader"

definition actual_strategy :: "world \<Rightarrow> segment_id \<Rightarrow> loading_strategy \<Rightarrow> loading_strategy" where
  "actual_strategy w i strategy =
     (case strategy of
        Adaptive \<Rightarrow>
          (case w_files w (IndexPath i) of
             Some content \<Rightarrow> if length content div (1024 * 1024) < 50 then Eager else Lazy
           | None \<Rightarrow> Eager)
      | other \<Rightarrow> other)"

definition hybrid_open_with_cache_size ::
  "'l posting_lru \<Rightarrow> index_codec \<Rightarrow> world \<Rightarrow> segment_id \<Rightarrow> loading_strategy \<Rightarrow> nat \<Rightarrow> 'l hybrid_index_reader result" where
  "hybrid_open_with_cache_size ops ic w i strategy cache_size =
     (case actual_strategy w i strategy of
        Eager \<Rightarrow> and_then (tr_open ic w i) (\<lambda>reader. Ok (EagerReader reader))
      | Lazy \<Rightarrow> and_then (lz_open ops ic w i cache_size) (\<lambda>reader. Ok (LazyReader reader))
      | Adaptive \<Rightarrow> Err Panic)"

definition hybrid_open ::
  "'l posting_lru \<Rightarrow> index_codec \<Rightarrow> world \<Rightarrow> segment_id \<Rightarrow> loading_strategy \<Rightarrow> 'l hybrid_index_reader result" where
  "hybrid_open ops ic w i strategy = hybrid_open_with_cache_size ops ic w i strategy 1000"

fun hybrid_get_postings ::
  "'l posting_lru \<Rightarrow> index_codec \<Rightarrow> world \<Rightarrow> 'l hybrid_index_reader \<Rightarrow> string
     \<Rightarrow> posting list option result \<times> 'l hybrid_index_reader" where
  "hybrid_get_postings ops ic w (EagerReader reader) t = (Ok (tr_get_postings reader t), EagerReader reader)"
| "hybrid_get_postings ops ic w (LazyReader reader) t =
     (case lz_get_postings ops ic w reader t of (r, reader) \<Rightarrow> (r, LazyReader reader))"

fun hybrid_contains_term :: "'l hybrid_index_reader \<Rightarrow> string \<Rightarrow> bool" where
  "hybrid_contains_term (EagerReader reader) t = tr_contains_term reader t"
| "hybrid_contains_term (LazyReader reader) t = lz_contains_term reader t"

fun hybrid_terms :: "'l hybrid_index_reader \<Rightarrow> string list" where
  "hybrid_terms (EagerReader reader) = tr_terms reader"
| "hybrid_terms (LazyReader reader) = lz_terms reader"

fun hybrid_segment_id :: "'l hybrid_index_reader \<Rightarrow> segment_id" where
  "hybrid_segment_id (EagerReader reader) = tr_segment_id reader"
| "hybrid_segment_id (LazyReader reader) = lz_segment_id reader"

fun hybrid_strategy :: "'l hybrid_index_reader \<Rightarrow> loading_strategy" where
  "hybrid_strategy (EagerReader _) = Eager"
| "hybrid_strategy (LazyReader _) = Lazy"

text \<open>The number of terms and of postings, which is not known on demand.\<close>

record hybrid_index_stats =
  hs_unique_terms :: nat
  hs_total_postings :: nat
  hs_strategy :: loading_strategy
  hs_cache_hit_rate :: "fval option"

fun hybrid_cache_stats :: "'l posting_lru \<Rightarrow> 'l hybrid_index_reader \<Rightarrow> lazy_cache_stats option" where
  "hybrid_cache_stats ops (LazyReader reader) = Some (lz_cache_stats ops reader)"
| "hybrid_cache_stats ops (EagerReader _) = None"

fun hybrid_stats :: "'l posting_lru \<Rightarrow> 'l hybrid_index_reader \<Rightarrow> hybrid_index_stats" where
  "hybrid_stats ops (EagerReader reader) =
     \<lparr>hs_unique_terms = fst (tr_stats reader), hs_total_postings = snd (tr_stats reader), hs_strategy = Eager,
      hs_cache_hit_rate = None\<rparr>"
| "hybrid_stats ops (LazyReader reader) =
     \<lparr>hs_unique_terms = lz_stats reader, hs_total_postings = 0, hs_strategy = Lazy,
      hs_cache_hit_rate = Some (lq_hit_rate (lz_cache_stats ops reader))\<rparr>"

subsection \<open>Caches of readers\<close>

text \<open>
  Both caches are hash maps from segments to readers that remove some entry, the first in the map's
  iteration order \<open>ord\<close>, when they are full.
\<close>

type_synonym key_order = "segment_id list \<Rightarrow> segment_id list"

record 'r index_cache =
  xc_cache :: "(segment_id \<times> 'r) list"
  xc_max_size :: nat

definition index_cache_new :: "nat \<Rightarrow> 'r index_cache" where
  "index_cache_new max_size = \<lparr>xc_cache = [], xc_max_size = max_size\<rparr>"

definition insert_reader :: "key_order \<Rightarrow> 'r index_cache \<Rightarrow> segment_id \<Rightarrow> 'r \<Rightarrow> 'r index_cache" where
  "insert_reader ord self i reader =
     (let cache = (if length (xc_cache self) \<ge> xc_max_size self
                   then case ord (map fst (xc_cache self)) of
                          [] \<Rightarrow> xc_cache self
                        | key # _ \<Rightarrow> AList.delete key (xc_cache self)
                   else xc_cache self)
      in self\<lparr>xc_cache := AList.update i reader cache\<rparr>)"

definition get_or_load_with ::
  "key_order \<Rightarrow> (segment_id \<Rightarrow> 'r result) \<Rightarrow> 'r index_cache \<Rightarrow> segment_id \<Rightarrow> 'r result \<times> 'r index_cache" where
  "get_or_load_with ord load self i =
     (case map_of (xc_cache self) i of
        Some reader \<Rightarrow> (Ok reader, self)
      | None \<Rightarrow>
          (case load i of
             Inl e \<Rightarrow> (Err e, self)
           | Inr reader \<Rightarrow> (Ok reader, insert_reader ord self i reader)))"

definition index_cache_get_or_load ::
  "key_order \<Rightarrow> index_codec \<Rightarrow> world \<Rightarrow> term_index_reader index_cache \<Rightarrow> segment_id
     \<Rightarrow> term_index_reader result \<times> term_index_reader index_cache" where
  "index_cache_get_or_load ord ic w self i = get_or_load_with ord (tr_open ic w) self i"

definition xc_invalidate :: "'r index_cache \<Rightarrow> segment_id \<Rightarrow> 'r index_cache" where
  "xc_invalidate self i = self\<lparr>xc_cache := AList.delete i (xc_cache self)\<rparr>"

definition xc_clear :: "'r index_cache \<Rightarrow> 'r index_cache" where
  "xc_clear self = self\<lparr>xc_cache := []\<rparr>"

definition xc_stats :: "'r index_cache \<Rightarrow> nat \<times> nat" where
  "xc_stats self = (length (xc_cache self), xc_max_size self)"

record 'l hybrid_index_cache =
  hx_cache :: "'l hybrid_index_reader index_cache"
  hx_default_strategy :: loading_strategy
  hx_lazy_cache_size :: nat

definition hybrid_index_cache_new :: "nat \<Rightarrow> loading_strategy \<Rightarrow> nat \<Rightarrow> 'l hybrid_index_cache" where
  "hybrid_index_cache_new max_size default_strategy lazy_cache_size =
     \<lparr>hx_cache = index_cache_new max_size, hx_default_strategy = default_strategy, hx_lazy_cache_size = lazy_cache_size\<rparr>"

definition hybrid_index_cache_new_adaptive :: "nat \<Rightarrow> 'l hybrid_index_cache" where
  "hybrid_index_cache_new_adaptive max_size = hybrid_index_cache_new max_size Adaptive 1000"

definition hx_get_or_load_with_strategy ::
  "key_order \<Rightarrow> 'l posting_lru \<Rightarrow> index_codec \<Rightarrow> world \<Rightarrow> 'l hybrid_index_cache \<Rightarrow> segment_id \<Rightarrow> loading_strategy
     \<Rightarrow> 'l hybrid_index_reader result \<times> 'l hybrid_index_cache" where
  "hx_get_or_load_with_strategy ord ops ic w self i strategy =
     (case get_or_load_with ord (\<lambda>i. hybrid_open_with_cache_size ops ic w i strategy (hx_lazy_cache_size self)) (hx_cache self) i of
        (r, cache) \<Rightarrow> (r, self\<lparr>hx_cache := cache\<rparr>))"

definition hx_get_or_load ::
  "key_order \<Rightarrow> 'l posting_lru \<Rightarrow> index_codec \<Rightarrow> world \<Rightarrow> 'l hybrid_index_cache \<Rightarrow> segment_id
     \<Rightarrow> 'l hybrid_index_reader result \<times> 'l hybrid_index_cache" where
  "hx_get_or_load ord ops ic w self i =
     (case get_or_load_with ord
             (\<lambda>i. hybrid_open_with_cache_size ops ic w i (hx_default_strategy self) (hx_lazy_cache_size self)) (hx_cache self) i of
        (r, cache) \<Rightarrow> (r, self\<lparr>hx_cache := cache\<rparr>))"

text \<open>
  The cache and its clients share a reader, which a request changes in place: a request of any client
  that holds the reader of a segment in the cache is a request on the cached reader.
\<close>

definition hx_request ::
  "'l posting_lru \<Rightarrow> index_codec \<Rightarrow> world \<Rightarrow> 'l hybrid_index_cache \<Rightarrow> segment_id \<Rightarrow> string
     \<Rightarrow> posting list option result option \<times> 'l hybrid_index_cache" where
  "hx_request ops ic w self i t =
     (case map_of (xc_cache (hx_cache self)) i of
        None \<Rightarrow> (None, self)
      | Some reader \<Rightarrow>
          (case hybrid_get_postings ops ic w reader t of
             (r, reader) \<Rightarrow>
               (Some r, self\<lparr>hx_cache := (hx_cache self)\<lparr>xc_cache := AList.update i reader (xc_cache (hx_cache self))\<rparr>\<rparr>)))"

definition hx_invalidate :: "'l hybrid_index_cache \<Rightarrow> segment_id \<Rightarrow> 'l hybrid_index_cache" where
  "hx_invalidate self i = self\<lparr>hx_cache := xc_invalidate (hx_cache self) i\<rparr>"

definition hx_clear :: "'l hybrid_index_cache \<Rightarrow> 'l hybrid_index_cache" where
  "hx_clear self = self\<lparr>hx_cache := xc_clear (hx_cache self)\<rparr>"

record hybrid_cache_summary =
  hy_total_segments :: nat
  hy_eager_segments :: nat
  hy_lazy_segments :: nat
  hy_max_size :: nat
  hy_default_strategy :: loading_strategy
  hy_avg_lazy_cache_hit_rate :: "fval option"

text \<open>The counters of the loop over the cached readers, which visits them in the order \<open>ord\<close>.\<close>

record reader_tally =
  ty_eager_count :: nat
  ty_lazy_count :: nat
  ty_total_cache_hit_rate :: fval
  ty_lazy_readers_count :: nat

definition tally_reader :: "'l posting_lru \<Rightarrow> reader_tally \<Rightarrow> 'l hybrid_index_reader \<Rightarrow> reader_tally" where
  "tally_reader ops t reader =
     (case hybrid_strategy reader of
        Eager \<Rightarrow> t\<lparr>ty_eager_count := ty_eager_count t + 1\<rparr>
      | Lazy \<Rightarrow>
          (let t = t\<lparr>ty_lazy_count := ty_lazy_count t + 1\<rparr>
           in case hybrid_cache_stats ops reader of
                Some cache_stats \<Rightarrow>
                  t\<lparr>ty_total_cache_hit_rate := d_add (ty_total_cache_hit_rate t) (lq_hit_rate cache_stats),
                    ty_lazy_readers_count := ty_lazy_readers_count t + 1\<rparr>
              | None \<Rightarrow> t)
      | Adaptive \<Rightarrow> t)"

definition hx_stats :: "key_order \<Rightarrow> 'l posting_lru \<Rightarrow> 'l hybrid_index_cache \<Rightarrow> hybrid_cache_summary" where
  "hx_stats ord ops self =
     (let cache = xc_cache (hx_cache self);
          readers = List.map_filter (map_of cache) (ord (map fst cache));
          t = foldl (tally_reader ops)
                \<lparr>ty_eager_count = 0, ty_lazy_count = 0, ty_total_cache_hit_rate = Fin 0, ty_lazy_readers_count = 0\<rparr> readers
      in \<lparr>hy_total_segments = length cache, hy_eager_segments = ty_eager_count t, hy_lazy_segments = ty_lazy_count t,
          hy_max_size = xc_max_size (hx_cache self), hy_default_strategy = hx_default_strategy self,
          hy_avg_lazy_cache_hit_rate =
            (if ty_lazy_readers_count t > 0
             then Some (d_div (ty_total_cache_hit_rate t) (d_of_nat (ty_lazy_readers_count t))) else None)\<rparr>)"

subsection \<open>All readers give the same postings\<close>

text \<open>A reader answers a sequence of requests, and may change with each.\<close>

fun requests :: "('r \<Rightarrow> string \<Rightarrow> posting list option result \<times> 'r) \<Rightarrow> 'r \<Rightarrow> string list \<Rightarrow> posting list option result list" where
  "requests get r [] = []"
| "requests get r (t # ts) = (case get r t of (answer, r) \<Rightarrow> answer # requests get r ts)"

text \<open>
  The contract of a reader of the inverted index \<open>m\<close>: it answers with the postings of \<open>m\<close> and goes on
  being a reader of \<open>m\<close>.
\<close>

locale posting_source =
  fixes reads :: "'r \<Rightarrow> (string \<times> posting list) list \<Rightarrow> bool"
    and get :: "'r \<Rightarrow> string \<Rightarrow> posting list option result \<times> 'r"
  assumes get_reads: "reads r m \<Longrightarrow> fst (get r t) = Ok (map_of m t) \<and> reads (snd (get r t)) m"
begin

lemma requests_exact: "reads r m \<Longrightarrow> requests get r ts = map (\<lambda>t. Ok (map_of m t)) ts"
proof (induction ts arbitrary: r)
  case (Cons t ts)
  obtain answer r' where g: "get r t = (answer, r')" by fastforce
  with get_reads [OF Cons.prems, of t] Cons.IH show ?case by simp
qed simp

end

definition eager_reads :: "term_index_reader \<Rightarrow> (string \<times> posting list) list \<Rightarrow> bool" where
  "eager_reads r m \<longleftrightarrow> map_of (tr_inverted_index r) = map_of m"

interpretation eager: posting_source eager_reads "\<lambda>r t. (Ok (tr_get_postings r t), r)"
  by unfold_locales (simp add: eager_reads_def tr_get_postings_def)

text \<open>What the code relies on of the least-recently-used cache of postings.\<close>

definition posting_lru_laws :: "'l posting_lru \<Rightarrow> bool" where
  "posting_lru_laws ops \<longleftrightarrow>
     (\<forall>n t. pl_peek ops (pl_new ops n) t = None) \<and>
     (\<forall>l t. fst (pl_get ops l t) = pl_peek ops l t) \<and>
     (\<forall>l t t'. pl_peek ops (snd (pl_get ops l t)) t' = pl_peek ops l t') \<and>
     (\<forall>l t ps t'. pl_peek ops (pl_put ops l t ps) t' \<in> (if t' = t then {Some ps} else {pl_peek ops l t', None}))"

definition lazy_reads ::
  "'l posting_lru \<Rightarrow> index_codec \<Rightarrow> world \<Rightarrow> 'l lazy_index_reader \<Rightarrow> (string \<times> posting list) list \<Rightarrow> bool" where
  "lazy_reads ops ic w self m \<longleftrightarrow>
     posting_lru_laws ops \<and>
     (\<forall>t. map_of (lz_term_offsets self) t = None \<longleftrightarrow> map_of m t = None) \<and>
     (\<forall>t ps. pl_peek ops (lz_cache self) t = Some ps \<longrightarrow> map_of m t = Some ps) \<and>
     (m \<noteq> [] \<longrightarrow> (\<exists>m'. decode_index ic (case lz_handle self of None \<Rightarrow> [] | Some p \<Rightarrow> file_content w p) = Ok m' \<and>
                        map_of m' = map_of m))"

interpretation ondemand: posting_source "lazy_reads ops ic w" "lz_get_postings ops ic w"
proof
  fix self :: "'a lazy_index_reader" and m t
  assume ok: "lazy_reads ops ic w self m"
  obtain found cache where g: "pl_get ops (lz_cache self) t = (found, cache)" by fastforce
  have found: "found = pl_peek ops (lz_cache self) t" and same: "pl_peek ops cache t' = pl_peek ops (lz_cache self) t'" for t'
    using ok g unfolding lazy_reads_def posting_lru_laws_def by (metis fst_conv, metis snd_conv)
  show "fst (lz_get_postings ops ic w self t) = Ok (map_of m t) \<and> lazy_reads ops ic w (snd (lz_get_postings ops ic w self t)) m"
  proof (cases found)
    case (Some ps)
    then have "map_of m t = Some ps" using ok found by (simp add: lazy_reads_def)
    then show ?thesis using ok Some by (simp add: lz_get_postings_def g lazy_reads_def same)
  next
    case None
    show ?thesis
    proof (cases "map_of m t")
      case None
      then have "map_of (lz_term_offsets self) t = None" using ok by (simp add: lazy_reads_def)
      then have "lz_get_postings ops ic w self t =
          (Ok None, self\<lparr>lz_cache := cache, lz_cache_misses := lz_cache_misses self + 1\<rparr>)"
        using \<open>found = None\<close> by (simp add: lz_get_postings_def g Let_def)
      then show ?thesis using ok None by (simp add: lazy_reads_def same)
    next
      case (Some ps)
      then obtain offs where offs: "map_of (lz_term_offsets self) t = Some offs" using ok by (cases "map_of (lz_term_offsets self) t") (auto simp: lazy_reads_def)
      have load: "load_postings_for_term ic w (self\<lparr>lz_cache := cache, lz_cache_misses := lz_cache_misses self + 1\<rparr>) t = Ok (Some ps)"
        using ok Some by (auto simp: lazy_reads_def load_postings_for_term_def)
      have "lz_get_postings ops ic w self t =
          (Ok (Some ps), self\<lparr>lz_cache := pl_put ops cache t ps, lz_cache_misses := lz_cache_misses self + 1\<rparr>)"
        by (simp add: lz_get_postings_def g None offs load Let_def)
      moreover have "map_of m t' = Some ps'" if "pl_peek ops (pl_put ops cache t ps) t' = Some ps'" for t' ps'
      proof -
        have "pl_peek ops (pl_put ops cache t ps) t' \<in> (if t' = t then {Some ps} else {pl_peek ops cache t', None})"
          using ok by (simp add: lazy_reads_def posting_lru_laws_def)
        with that have "t' = t \<and> ps' = ps \<or> pl_peek ops (lz_cache self) t' = Some ps'" by (auto simp: same split: if_splits)
        then show ?thesis using Some ok by (auto simp: lazy_reads_def)
      qed
      ultimately show ?thesis using ok Some by (simp add: lazy_reads_def)
    qed
  qed
qed

fun hybrid_reads ::
  "'l posting_lru \<Rightarrow> index_codec \<Rightarrow> world \<Rightarrow> 'l hybrid_index_reader \<Rightarrow> (string \<times> posting list) list \<Rightarrow> bool" where
  "hybrid_reads ops ic w (EagerReader reader) m = eager_reads reader m"
| "hybrid_reads ops ic w (LazyReader reader) m = lazy_reads ops ic w reader m"

interpretation hybrid: posting_source "hybrid_reads ops ic w" "hybrid_get_postings ops ic w"
proof
  fix r m t
  assume "hybrid_reads ops ic w r m"
  then show "fst (hybrid_get_postings ops ic w r t) = Ok (map_of m t) \<and> hybrid_reads ops ic w (snd (hybrid_get_postings ops ic w r t)) m"
  proof (cases r)
    case (LazyReader reader)
    with \<open>hybrid_reads ops ic w r m\<close> ondemand.get_reads [of ops ic w reader m t] show ?thesis
      by (cases "lz_get_postings ops ic w reader t") simp
  qed (simp add: eager_reads_def tr_get_postings_def)
qed

lemma actual_strategy_cases: "actual_strategy w i strategy = Eager \<or> actual_strategy w i strategy = Lazy"
  by (cases strategy) (auto simp: actual_strategy_def split: option.split)

lemma map_of_offsets: "map_of (map (\<lambda>(t, ps). (t, f ps)) m) t = map_option f (map_of m t)"
  by (induction m) auto

lemma hybrid_open_reads:
  assumes "posting_lru_laws ops"
  shows "case tr_open ic w i of
           Inl e \<Rightarrow> hybrid_open_with_cache_size ops ic w i strategy n = Err e
         | Inr reader \<Rightarrow> \<exists>r. hybrid_open_with_cache_size ops ic w i strategy n = Ok r \<and>
             hybrid_reads ops ic w r (tr_inverted_index reader) \<and> hybrid_terms r = tr_terms reader \<and>
             hybrid_segment_id r = i"
proof (cases "tr_open ic w i")
  case (Inl e)
  then show ?thesis
    using actual_strategy_cases [of w i strategy]
    by (auto simp: hybrid_open_with_cache_size_def tr_open_def lz_open_def split: option.splits and_then_splits)
next
  case (Inr reader)
  have lazy: "\<exists>r. lz_open ops ic w i n = Ok r \<and> lazy_reads ops ic w r (tr_inverted_index reader) \<and>
      lz_terms r = tr_terms reader \<and> lz_segment_id r = i"
  proof (cases "w_files w (IndexPath i)")
    case None
    with Inr assms show ?thesis
      by (simp add: tr_open_def lz_open_def lazy_reads_def posting_lru_laws_def lz_terms_def tr_terms_def) auto
  next
    case (Some content)
    with Inr have m: "decode_index ic content = Ok (tr_inverted_index reader)" by (auto simp: tr_open_def and_then_Ok_iff)
    define r where "r = \<lparr>lz_segment_id = i,
      lz_term_offsets = map (\<lambda>(t, ps). (t, \<lparr>to_offset = 0, to_length = of_nat (length (ser_postings ic ps))\<rparr>)) (tr_inverted_index reader),
      lz_handle = Some (IndexPath i), lz_cache = pl_new ops (if n = 0 then 1000 else n), lz_cache_hits = 0, lz_cache_misses = 0\<rparr>"
    have "lz_open ops ic w i n = Ok r" by (simp add: lz_open_def Some m r_def)
    moreover have "pl_peek ops (lz_cache r) t = None" for t using assms by (simp add: r_def posting_lru_laws_def)
    moreover have "map fst (map (\<lambda>(t, ps). (t, f ps)) xs) = map fst xs" for f and xs :: "(string \<times> posting list) list"
      by (induction xs) auto
    ultimately show ?thesis
      using assms m Some by (auto simp: lazy_reads_def r_def map_of_offsets lz_terms_def tr_terms_def file_content_def)
  qed
  from Inr show ?thesis
    using actual_strategy_cases [of w i strategy] lazy
    by (auto simp: hybrid_open_with_cache_size_def eager_reads_def tr_open_def and_then_Ok_iff split: option.splits)
qed

text \<open>
  The loading strategy does not matter.  For every file, strategy and cache size, opening a hybrid
  reader fails exactly when the plain reader fails, with the same error; otherwise it lists the same
  terms, and every sequence of requests gets the postings that the plain reader gives, however many
  of them come from the cache or are loaded again from the file.
\<close>

theorem loading_strategies_agree:
  assumes "posting_lru_laws ops"
  shows "(\<forall>e. tr_open ic w i = Err e \<longrightarrow> hybrid_open_with_cache_size ops ic w i strategy n = Err e) \<and>
         (\<forall>reader. tr_open ic w i = Ok reader \<longrightarrow>
            (\<exists>r. hybrid_open_with_cache_size ops ic w i strategy n = Ok r \<and> hybrid_terms r = tr_terms reader \<and>
                 requests (hybrid_get_postings ops ic w) r ts = map (\<lambda>t. Ok (tr_get_postings reader t)) ts))"
  using hybrid_open_reads [OF assms, of ic w i strategy n] hybrid.requests_exact [of ops ic w]
  by (fastforce simp: tr_get_postings_def split: sum.splits)

subsection \<open>From documents to the index file and back\<close>

text \<open>What the writer of a segment does with each document's index entries.\<close>

definition indexed :: "analyzer \<Rightarrow> document \<Rightarrow> indexed_doc" where
  "indexed an d = \<lparr>xd_doc_id = d_id d, xd_terms = terms_of an d, xd_tokens = concat (map (field_tokens an) (d_fields d))\<rparr>"

definition index_all :: "env \<Rightarrow> analyzer \<Rightarrow> segment_writer \<Rightarrow> document list \<Rightarrow> segment_writer" where
  "index_all ev an sw docs = foldl (\<lambda>sw d. index_entries ev sw [indexed an d] d) sw docs"

lemma push_posting_entry: "push_posting t p m = push_entry t p m"
  by (induction t p m rule: push_posting.induct) auto

lemma index_entries_index:
  "sw_inverted_index (index_entries ev sw [indexed an d] d) =
     add_indexed_doc (ev_hash_order ev) (sw_inverted_index sw) (indexed an d)"
proof -
  have "sw_inverted_index (foldl (\<lambda>sw (t, ps). add_index_entry sw t (f ps)) sw es) =
      foldl (\<lambda>m (t, ps). push_entry t (f ps) m) (sw_inverted_index sw) es" for f and es :: "(string \<times> u32 list) list"
    by (induction es arbitrary: sw) (auto simp: add_index_entry_def push_posting_entry)
  moreover have "map tk_text (xd_tokens (indexed an d)) = xd_terms (indexed an d)" by (simp add: indexed_def terms_of_def)
  ultimately show ?thesis by (simp add: index_entries_def add_indexed_doc_def) (simp add: indexed_def)
qed

lemma index_all_index:
  "sw_inverted_index (index_all ev an sw docs) =
     foldl (add_indexed_doc (ev_hash_order ev)) (sw_inverted_index sw) (map (indexed an) docs)"
  "sw_segment (index_all ev an sw docs) = sw_segment sw" "sw_compression (index_all ev an sw docs) = sw_compression sw"
  by (induction docs arbitrary: sw) (simp_all add: index_all_def index_entries_index index_entries_fields)

lemma add_indexed_doc_grouped: "grouped m \<Longrightarrow> grouped (add_indexed_doc ord m x)"
proof -
  assume "grouped m"
  then have "grouped (foldl (\<lambda>m (t, ps). push_entry t (f ps) m) m es)" for f and es :: "(string \<times> u32 list) list"
    by (induction es arbitrary: m) (auto simp: push_entry_grouped)
  then show ?thesis by (simp add: add_indexed_doc_def)
qed

text \<open>The postings of a term in a list of documents, in the order of their ids.\<close>

definition postings_of :: "analyzer \<Rightarrow> document list \<Rightarrow> string \<Rightarrow> posting list" where
  "postings_of an docs t =
     sort_key doc_id (map (\<lambda>d. document_posting (d_id d) (length (terms_of an d)) (occurrences t (terms_of an d)))
       (filter (\<lambda>d. t \<in> set (terms_of an d)) docs))"

lemma indexed_entries:
  assumes "\<And>m. mset (ord m) = mset m"
  shows "grouped (foldl (add_indexed_doc ord) [] (map (indexed an) docs))"
    "sort_key doc_id (entries_of (foldl (add_indexed_doc ord) [] (map (indexed an) docs)) t) = postings_of an docs t"
proof -
  show "grouped (foldl (add_indexed_doc ord) [] (map (indexed an) docs))"
    by (induction docs rule: rev_induct) (simp_all add: add_indexed_doc_grouped, simp add: grouped_def)
  have "entries_of (foldl (add_indexed_doc ord) [] (map (indexed an) docs)) t =
      map (\<lambda>d. document_posting (d_id d) (length (terms_of an d)) (occurrences t (terms_of an d)))
        (filter (\<lambda>d. t \<in> set (terms_of an d)) docs)"
    by (induction docs rule: rev_induct) (simp_all add: add_indexed_doc_entries [OF assms] indexed_def)
  then show "sort_key doc_id (entries_of (foldl (add_indexed_doc ord) [] (map (indexed an) docs)) t) = postings_of an docs t"
    by (simp add: postings_of_def)
qed

lemma index_all_entries:
  assumes "\<And>m. mset (ev_hash_order ev m) = mset m" "sw_inverted_index sw = []"
  shows "grouped (sw_inverted_index (index_all ev an sw docs))"
    "sort_key doc_id (entries_of (sw_inverted_index (index_all ev an sw docs)) t) = postings_of an docs t"
  unfolding index_all_index assms(2) by (rule indexed_entries [OF assms(1)])+

text \<open>The round trips of the libraries for an index: of bincode, up to the order of the map, and of
  the compressor.\<close>

definition index_laws :: "index_codec \<Rightarrow> compression_type \<Rightarrow> (string \<times> posting list) list \<Rightarrow> bool" where
  "index_laws ic c m \<longleftrightarrow>
     (\<exists>b m'. compress (codec_compressors (ic_codec ic)) (ser_index (ic_codec ic) m) c = Ok b \<and>
             decompress (codec_compressors (ic_codec ic)) b = Ok (ser_index (ic_codec ic) m) \<and>
             de_block (ic_codec ic) (ser_block (ic_codec ic) b) = Ok b \<and>
             de_index ic (ser_index (ic_codec ic) m) = Ok m' \<and> map_of m' = map_of m)"

lemma write_inverted_index_read:
  assumes "index_laws ic (sw_compression sw) (map (\<lambda>(t, ps). (t, sort_key doc_id ps)) (sw_inverted_index sw))"
  shows "\<exists>w' rd. write_inverted_index (ic_codec ic) w sw = (Ok (), w') \<and> tr_open ic w' (sg_id (sw_segment sw)) = Ok rd \<and>
           (\<forall>t. tr_get_postings rd t = map_option (sort_key doc_id) (map_of (sw_inverted_index sw) t))"
  using assms
  by (auto simp: index_laws_def write_inverted_index_def Let_def tr_open_def write_file_def decode_index_def
      tr_get_postings_def map_of_offsets [of "sort_key doc_id"])

lemma map_of_grouped: "grouped m \<Longrightarrow> map_of m t = (if entries_of m t = [] then None else Some (entries_of m t))"
  by (auto simp: entries_of_def grouped_def split: option.splits dest: map_of_SomeD)

lemma postings_of_empty: "postings_of an docs t = [] \<longleftrightarrow> (\<forall>d \<in> set docs. t \<notin> set (terms_of an d))"
proof -
  have "sort_key f xs = [] \<longleftrightarrow> xs = []" for f :: "posting \<Rightarrow> doc_id" and xs by (metis length_sort length_0_conv)
  then show ?thesis by (simp add: postings_of_def filter_empty_conv)
qed

text \<open>
  C23: The index file of a segment is complete and exact.  After the documents of a segment are indexed
  and the index is written, a reader opened on the file, whatever its strategy and cache, answers
  every sequence of requests: a term that no document contains has no postings, and any other term
  has exactly one posting for each document that contains it, in the order of the ids, with the
  positions and the frequency of the term; whatever the iteration order of the hash maps.
\<close>

theorem index_file_exact:
  assumes "\<And>m. mset (ev_hash_order ev m) = mset m" "posting_lru_laws ops" "sw_inverted_index sw = []"
    and "sw' = index_all ev an sw docs"
    and "index_laws ic (sw_compression sw) (map (\<lambda>(t, ps). (t, sort_key doc_id ps)) (sw_inverted_index sw'))"
  shows "\<exists>w' r. write_inverted_index (ic_codec ic) w sw' = (Ok (), w') \<and>
           hybrid_open_with_cache_size ops ic w' (sg_id (sw_segment sw)) strategy n = Ok r \<and>
           requests (hybrid_get_postings ops ic w') r ts =
             map (\<lambda>t. Ok (if \<exists>d \<in> set docs. t \<in> set (terms_of an d) then Some (postings_of an docs t) else None)) ts"
proof -
  note entries = index_all_entries [where ev = ev, OF assms(1,3), of an docs]
  have same: "sw_segment sw' = sw_segment sw" "sw_compression sw' = sw_compression sw" by (simp_all add: assms(4) index_all_index)
  obtain w' rd where rd: "write_inverted_index (ic_codec ic) w sw' = (Ok (), w')" "tr_open ic w' (sg_id (sw_segment sw)) = Ok rd"
    "\<And>t. tr_get_postings rd t = map_option (sort_key doc_id) (map_of (sw_inverted_index sw') t)"
    using write_inverted_index_read [of ic sw' w] assms(5) same by auto
  have "tr_get_postings rd t =
      (if \<exists>d \<in> set docs. t \<in> set (terms_of an d) then Some (postings_of an docs t) else None)" for t
  proof -
    have "entries_of (sw_inverted_index sw') t = [] \<longleftrightarrow> postings_of an docs t = []"
      using entries(2) [of t] assms(4) by (metis length_0_conv length_sort)
    then show ?thesis
      using entries(2) [of t] assms(4) postings_of_empty [of an docs t]
      by (auto simp: rd(3) map_of_grouped [OF entries(1)])
  qed
  then show ?thesis
    using rd(1,2) hybrid_open_reads [OF assms(2), of ic w' "sg_id (sw_segment sw)" strategy n] hybrid.requests_exact [of ops ic w']
    by (fastforce simp: tr_get_postings_def)
qed

text \<open>The writer of the index alone builds the same map.\<close>

lemma tw_index_documents_batch_entries:
  assumes "\<And>m. mset (ev_hash_order ev m) = mset m"
  shows "\<exists>self. tw_index_documents_batch ev (term_index_writer_new an) docs = (Ok (), self) \<and>
           (\<forall>t. sort_key doc_id (entries_of (fst (take_index self)) t) = postings_of an docs t)"
proof -
  have one: "tw_index_document ev self d =
      (Ok (), self\<lparr>tw_inverted_index := add_indexed_doc (ev_hash_order ev) (tw_inverted_index self) (indexed an d)\<rparr>)"
    if "tw_analyzer self = an" for self d
    using that by (simp add: tw_index_document_def index_batch_Ok add_indexed_doc_def indexed_def terms_of_def)
  have "tw_index_documents_batch ev self docs = (Ok (), self\<lparr>tw_inverted_index :=
      foldl (add_indexed_doc (ev_hash_order ev)) (tw_inverted_index self) (map (indexed an) docs)\<rparr>)"
    if "tw_analyzer self = an" for self
    using that by (induction docs arbitrary: self) (simp_all add: one)
  then show ?thesis
    using indexed_entries(2) [of "ev_hash_order ev", OF assms] by (simp add: term_index_writer_new_def take_index_def)
qed

subsection \<open>Caches are transparent and bounded\<close>

datatype cache_call = LoadCall segment_id | InvalidateCall segment_id | ClearCall

datatype hybrid_call = CacheCall cache_call | LoadWithCall segment_id loading_strategy | RequestCall segment_id string

fun index_cache_step ::
  "key_order \<Rightarrow> index_codec \<Rightarrow> world \<Rightarrow> term_index_reader index_cache \<Rightarrow> cache_call \<Rightarrow> term_index_reader index_cache" where
  "index_cache_step ord ic w self (LoadCall i) = snd (index_cache_get_or_load ord ic w self i)"
| "index_cache_step ord ic w self (InvalidateCall i) = xc_invalidate self i"
| "index_cache_step ord ic w self ClearCall = xc_clear self"

fun hybrid_cache_step ::
  "key_order \<Rightarrow> 'l posting_lru \<Rightarrow> index_codec \<Rightarrow> world \<Rightarrow> 'l hybrid_index_cache \<Rightarrow> hybrid_call \<Rightarrow> 'l hybrid_index_cache" where
  "hybrid_cache_step ord ops ic w self (CacheCall (LoadCall i)) = snd (hx_get_or_load ord ops ic w self i)"
| "hybrid_cache_step ord ops ic w self (CacheCall (InvalidateCall i)) = hx_invalidate self i"
| "hybrid_cache_step ord ops ic w self (CacheCall ClearCall) = hx_clear self"
| "hybrid_cache_step ord ops ic w self (LoadWithCall i strategy) = snd (hx_get_or_load_with_strategy ord ops ic w self i strategy)"
| "hybrid_cache_step ord ops ic w self (RequestCall i t) = snd (hx_request ops ic w self i t)"

text \<open>A cache in which every reader fits its segment.\<close>

definition cache_ok :: "(segment_id \<Rightarrow> 'r \<Rightarrow> bool) \<Rightarrow> nat \<Rightarrow> 'r index_cache \<Rightarrow> bool" where
  "cache_ok fits n self \<longleftrightarrow>
     xc_max_size self = n \<and> distinct (map fst (xc_cache self)) \<and> length (xc_cache self) \<le> max 1 n \<and>
     (\<forall>(i, r) \<in> set (xc_cache self). fits i r)"

lemma delete_length: "distinct (map fst xs) \<Longrightarrow> k \<in> fst ` set xs \<Longrightarrow> length (AList.delete k xs) + 1 = length xs"
proof (induction xs)
  case (Cons x xs)
  have "AList.delete k xs = xs" if "k \<notin> fst ` set xs" using that by (simp add: AList.delete_id)
  with Cons show ?case by (cases x) (auto simp: rev_image_eqI)
qed simp

lemma update_absent: "k \<notin> fst ` set xs \<Longrightarrow> AList.update k v xs = xs @ [(k, v)]"
  by (induction xs) auto

lemma insert_reader_ok:
  assumes "\<And>ks. set (ord ks) = set ks" "cache_ok fits n self" "map_of (xc_cache self) i = None" "fits i r"
  shows "cache_ok fits n (insert_reader ord self i r)"
proof -
  define kept where "kept = (if length (xc_cache self) \<ge> n
      then case ord (map fst (xc_cache self)) of [] \<Rightarrow> xc_cache self | key # _ \<Rightarrow> AList.delete key (xc_cache self)
      else xc_cache self)"
  have max: "xc_max_size self = n" "distinct (map fst (xc_cache self))" "length (xc_cache self) \<le> max 1 n"
    using assms(2) by (auto simp: cache_ok_def)
  have "set kept \<subseteq> set (xc_cache self)" "distinct (map fst kept)" "length kept + 1 \<le> max 1 n"
  proof -
    show "set kept \<subseteq> set (xc_cache self)"
      by (auto simp: kept_def AList.delete_eq split: list.splits)
    show "distinct (map fst kept)" using max(2) by (simp add: kept_def AList.distinct_delete split: list.split)
    show "length kept + 1 \<le> max 1 n"
    proof (cases "length (xc_cache self) \<ge> n")
      case True
      show ?thesis
      proof (cases "ord (map fst (xc_cache self))")
        case Nil
        then have "xc_cache self = []" using assms(1) [of "map fst (xc_cache self)"] by simp
        then show ?thesis using Nil by (simp add: kept_def)
      next
        case (Cons key rest)
        then have "key \<in> fst ` set (xc_cache self)" using assms(1) [of "map fst (xc_cache self)"] by auto
        from delete_length [OF max(2) this] True Cons max(3) show ?thesis by (simp add: kept_def)
      qed
    qed (use max(3) in \<open>simp add: kept_def\<close>)
  qed
  moreover from this have "i \<notin> fst ` set kept" using assms(3) by (auto simp: map_of_eq_None_iff)
  moreover have "insert_reader ord self i r = self\<lparr>xc_cache := AList.update i r kept\<rparr>"
    by (simp add: insert_reader_def kept_def max(1))
  ultimately show ?thesis
    using assms(2,4) max(1) by (auto simp: cache_ok_def update_absent)
qed

lemma get_or_load_ok:
  assumes "\<And>ks. set (ord ks) = set ks" "cache_ok fits n self" "\<And>r. load i = Ok r \<Longrightarrow> fits i r"
  shows "cache_ok fits n (snd (get_or_load_with ord load self i))"
    "fst (get_or_load_with ord load self i) = Ok r \<Longrightarrow> fits i r"
    "fst (get_or_load_with ord load self i) = Err e \<Longrightarrow> load i = Err e"
proof -
  have "cache_ok fits n (snd (get_or_load_with ord load self i)) \<and>
      (\<forall>r. fst (get_or_load_with ord load self i) = Ok r \<longrightarrow> fits i r) \<and>
      (\<forall>e. fst (get_or_load_with ord load self i) = Err e \<longrightarrow> load i = Err e)"
  proof (cases "map_of (xc_cache self) i")
    case None
    then show ?thesis
      using insert_reader_ok [OF assms(1,2) None assms(3)] assms(2,3) by (auto simp: get_or_load_with_def split: sum.split)
  next
    case (Some r)
    then have "fits i r" using assms(2) by (auto simp: cache_ok_def dest: map_of_SomeD)
    then show ?thesis using Some assms(2) by (simp add: get_or_load_with_def)
  qed
  then show "cache_ok fits n (snd (get_or_load_with ord load self i))"
    "fst (get_or_load_with ord load self i) = Ok r \<Longrightarrow> fits i r"
    "fst (get_or_load_with ord load self i) = Err e \<Longrightarrow> load i = Err e" by blast+
qed

lemma cache_ok_forget: "cache_ok fits n self \<Longrightarrow> cache_ok fits n (xc_invalidate self i)" "cache_ok fits n self \<Longrightarrow> cache_ok fits n (xc_clear self)"
proof -
  assume ok: "cache_ok fits n self"
  have "length (AList.delete i (xc_cache self)) \<le> length (xc_cache self)" by (rule AList.length_delete_le)
  moreover have "set (AList.delete i (xc_cache self)) \<subseteq> set (xc_cache self)" by (auto simp: AList.delete_eq)
  moreover have "distinct (map fst (AList.delete i (xc_cache self)))"
    using ok by (simp add: cache_ok_def AList.distinct_delete)
  ultimately show "cache_ok fits n (xc_invalidate self i)"
    using ok unfolding cache_ok_def xc_invalidate_def by fastforce
qed (simp add: cache_ok_def xc_clear_def)

lemma cache_ok_new: "cache_ok fits n (index_cache_new n)"
  by (simp add: cache_ok_def index_cache_new_def)

lemma set_update: "set (AList.update k v xs) \<subseteq> insert (k, v) (set xs)"
  by (induction xs) auto

lemma cache_ok_replace:
  assumes "cache_ok fits n self" "map_of (xc_cache self) i = Some r" "fits i r'"
  shows "cache_ok fits n (self\<lparr>xc_cache := AList.update i r' (xc_cache self)\<rparr>)"
proof -
  have "i \<in> fst ` set (xc_cache self)" using map_of_SomeD [OF assms(2)] by force
  then have keys: "map fst (AList.update i r' (xc_cache self)) = map fst (xc_cache self)" by (simp add: AList.update_keys)
  have "length (AList.update i r' (xc_cache self)) = length (xc_cache self)" using arg_cong [OF keys, of length] by simp
  moreover have "\<forall>x \<in> set (AList.update i r' (xc_cache self)). case x of (i, r) \<Rightarrow> fits i r"
    using set_update [of i r' "xc_cache self"] assms(1,3) unfolding cache_ok_def by blast
  ultimately show ?thesis using assms(1) by (simp add: cache_ok_def keys)
qed

lemma index_cache_run_ok:
  assumes "\<And>ks. set (ord ks) = set ks"
  shows "cache_ok (\<lambda>i r. tr_open ic w i = Ok r) n (foldl (index_cache_step ord ic w) (index_cache_new n) calls)"
proof (induction calls rule: rev_induct)
  case (snoc c calls)
  then show ?case
    using get_or_load_ok(1) [OF assms] by (cases c) (auto simp: index_cache_get_or_load_def intro: cache_ok_forget)
qed (simp add: cache_ok_new)

text \<open>The reader of a segment answers from what the file of the segment holds.\<close>

definition segment_reads :: "'l posting_lru \<Rightarrow> index_codec \<Rightarrow> world \<Rightarrow> segment_id \<Rightarrow> 'l hybrid_index_reader \<Rightarrow> bool" where
  "segment_reads ops ic w i r \<longleftrightarrow> (\<exists>reader. tr_open ic w i = Ok reader \<and> hybrid_reads ops ic w r (tr_inverted_index reader))"

lemma hybrid_open_segment:
  assumes "posting_lru_laws ops" "hybrid_open_with_cache_size ops ic w i strategy k = Ok r"
  shows "segment_reads ops ic w i r"
  using hybrid_open_reads [OF assms(1), of ic w i strategy k] assms(2) by (auto simp: segment_reads_def split: sum.splits)

lemma segment_reads_request:
  "segment_reads ops ic w i r \<Longrightarrow> segment_reads ops ic w i (snd (hybrid_get_postings ops ic w r t))"
  using hybrid.get_reads [of ops ic w r _ t] by (auto simp: segment_reads_def)

lemma hybrid_cache_run_ok:
  assumes "\<And>ks. set (ord ks) = set ks" "posting_lru_laws ops"
  shows "cache_ok (segment_reads ops ic w) n
           (hx_cache (foldl (hybrid_cache_step ord ops ic w) (hybrid_index_cache_new n strategy k) calls))"
proof (induction calls rule: rev_induct)
  case (snoc c calls)
  let ?self = "foldl (hybrid_cache_step ord ops ic w) (hybrid_index_cache_new n strategy k) calls"
  note load = get_or_load_ok(1) [OF assms(1) snoc hybrid_open_segment [OF assms(2)]]
  show ?case
  proof (cases c)
    case (CacheCall c')
    with load snoc show ?thesis
      by (cases c') (auto simp: hx_get_or_load_def hx_invalidate_def hx_clear_def case_prod_beta intro: cache_ok_forget)
  next
    case (LoadWithCall i s)
    with load show ?thesis by (simp add: hx_get_or_load_with_strategy_def case_prod_beta)
  next
    case (RequestCall i t)
    show ?thesis
    proof (cases "map_of (xc_cache (hx_cache ?self)) i")
      case (Some r)
      then have "segment_reads ops ic w i r" using snoc by (auto simp: cache_ok_def dest: map_of_SomeD)
      from cache_ok_replace [OF snoc Some segment_reads_request [OF this]] RequestCall Some show ?thesis
        by (simp add: hx_request_def case_prod_beta)
    qed (use RequestCall snoc in \<open>simp add: hx_request_def\<close>)
  qed
qed (simp add: hybrid_index_cache_new_def cache_ok_new)

lemma loaded_reader:
  assumes "posting_lru_laws ops" "\<And>ks. set (ord ks) = set ks" "cache_ok (segment_reads ops ic w) n self"
    and "x = fst (get_or_load_with ord (\<lambda>i. hybrid_open_with_cache_size ops ic w i strategy k) self i)"
  shows "case tr_open ic w i of
           Inl e \<Rightarrow> x = Err e
         | Inr reader \<Rightarrow> \<exists>r. x = Ok r \<and> (\<forall>ts. requests (hybrid_get_postings ops ic w) r ts = map (\<lambda>t. Ok (tr_get_postings reader t)) ts)"
proof -
  let ?load = "\<lambda>i. hybrid_open_with_cache_size ops ic w i strategy k"
  note load = get_or_load_ok(2,3) [OF assms(2,3) hybrid_open_segment [OF assms(1), of ic w i strategy k], of ?load, folded assms(4)]
  note opened = hybrid_open_reads [OF assms(1), of ic w i strategy k]
  show ?thesis
  proof (cases "tr_open ic w i")
    case (Inl e)
    then have "\<not> segment_reads ops ic w i r" for r by (simp add: segment_reads_def)
    with load(1) obtain e' where "x = Err e'" by (cases x) auto
    with load(2) opened Inl show ?thesis by auto
  next
    case (Inr reader)
    with load(2) opened obtain r where r: "x = Ok r" by (cases x) auto
    with load(1) Inr have "hybrid_reads ops ic w r (tr_inverted_index reader)" by (auto simp: segment_reads_def)
    with r Inr show ?thesis using hybrid.requests_exact [of ops ic w r] by (simp add: tr_get_postings_def)
  qed
qed

text \<open>
  C24: The caches of readers change no answer, as long as the files stay as they are.  After any sequence
  of loads (with the default or another strategy), of requests on the cached readers, of invalidations
  and clears, loading a segment from the cache of plain readers gives exactly what opening its file
  gives; and loading it from the hybrid cache, with whatever strategy, fails exactly when opening the
  file with the plain reader fails, with the same error, and otherwise gives a reader, of whatever
  strategy it was cached with, that answers every sequence of requests with the postings in the file.
  A cache holds at most the configured number of readers, or one when that is zero, whichever entry
  the hash map names first when one has to go.
\<close>

theorem reader_caches_transparent:
  assumes "\<And>ks. set (ord ks) = set ks" "posting_lru_laws ops"
    and "eager = foldl (index_cache_step ord ic w) (index_cache_new n) calls"
    and "cache = foldl (hybrid_cache_step ord ops ic w) (hybrid_index_cache_new n strategy k) hybrid_calls"
    and "x = fst (hx_get_or_load ord ops ic w cache i) \<or> x = fst (hx_get_or_load_with_strategy ord ops ic w cache i strategy')"
  shows "fst (index_cache_get_or_load ord ic w eager i) = tr_open ic w i \<and> fst (xc_stats eager) \<le> max 1 n \<and>
         (case tr_open ic w i of
            Inl e \<Rightarrow> x = Err e
          | Inr reader \<Rightarrow> \<exists>r. x = Ok r \<and> (\<forall>ts. requests (hybrid_get_postings ops ic w) r ts = map (\<lambda>t. Ok (tr_get_postings reader t)) ts)) \<and>
         hy_total_segments (hx_stats ord ops cache) \<le> max 1 n"
proof -
  have e: "cache_ok (\<lambda>i r. tr_open ic w i = Ok r) n eager" unfolding assms(3) by (rule index_cache_run_ok [OF assms(1)])
  have h: "cache_ok (segment_reads ops ic w) n (hx_cache cache)" unfolding assms(4) by (rule hybrid_cache_run_ok [OF assms(1,2)])
  have "fst (index_cache_get_or_load ord ic w eager i) = tr_open ic w i"
    using get_or_load_ok(2,3) [OF assms(1) e, of "tr_open ic w" i]
    by (cases "fst (get_or_load_with ord (tr_open ic w) eager i)") (auto simp: index_cache_get_or_load_def)
  moreover have "\<exists>s. x = fst (get_or_load_with ord (\<lambda>i. hybrid_open_with_cache_size ops ic w i s (hx_lazy_cache_size cache)) (hx_cache cache) i)"
    using assms(5) by (auto simp: hx_get_or_load_def hx_get_or_load_with_strategy_def case_prod_beta)
  then have "case tr_open ic w i of
      Inl e \<Rightarrow> x = Err e
    | Inr reader \<Rightarrow> \<exists>r. x = Ok r \<and> (\<forall>ts. requests (hybrid_get_postings ops ic w) r ts = map (\<lambda>t. Ok (tr_get_postings reader t)) ts)"
    using loaded_reader [OF assms(2,1) h] by blast
  moreover have "fst (xc_stats eager) \<le> max 1 n" "hy_total_segments (hx_stats ord ops cache) \<le> max 1 n"
    using e h by (simp_all add: xc_stats_def hx_stats_def Let_def cache_ok_def)
  ultimately show ?thesis by blast
qed

subsection \<open>Instances\<close>

definition list_posting_lru :: "(string \<times> posting list) list posting_lru" where
  "list_posting_lru = \<lparr>pl_new = (\<lambda>n. []), pl_peek = map_of, pl_get = (\<lambda>l t. (map_of l t, l)), pl_put = (\<lambda>l t ps. (t, ps) # l),
     pl_len = length\<rparr>"

lemma list_posting_lru_laws: "posting_lru_laws list_posting_lru"
  by (simp add: posting_lru_laws_def list_posting_lru_def)

definition sample_posting :: posting where
  "sample_posting = \<lparr>doc_id = 1, term_freq = 1, positions = [0], field_norm = Fin 1\<rparr>"

text \<open>A codec that knows one index.\<close>

definition sample_index_codec :: index_codec where
  "sample_index_codec = \<lparr>ic_codec = plain_codec, de_index = (\<lambda>bs. Ok [(''x'', [sample_posting])]), ser_postings = (\<lambda>ps. [])\<rparr>"

definition sample_world :: world where
  "sample_world = write_file empty_world (IndexPath 0) (ser_block plain_codec \<lparr>cb_data = [], cb_original_size = 0, cb_compression = CompNone\<rparr>)"

lemma sample_open: "tr_open sample_index_codec sample_world 0 = Ok \<lparr>tr_segment_id = 0, tr_inverted_index = [(''x'', [sample_posting])]\<rparr>"
  by (simp add: tr_open_def sample_world_def sample_index_codec_def write_file_def decode_index_def) code_simp

theorem loading_strategies_agree_witness:
  "\<exists>r. hybrid_open_with_cache_size list_posting_lru sample_index_codec sample_world 0 Lazy 10 = Ok r \<and>
     requests (hybrid_get_postings list_posting_lru sample_index_codec sample_world) r [''x'', ''y'', ''x''] =
       [Ok (Some [sample_posting]), Ok None, Ok (Some [sample_posting])]"
proof -
  obtain r where "hybrid_open_with_cache_size list_posting_lru sample_index_codec sample_world 0 Lazy 10 = Ok r"
    "requests (hybrid_get_postings list_posting_lru sample_index_codec sample_world) r [''x'', ''y'', ''x''] =
       map (\<lambda>t. Ok (tr_get_postings \<lparr>tr_segment_id = 0, tr_inverted_index = [(''x'', [sample_posting])]\<rparr> t)) [''x'', ''y'', ''x'']"
    using loading_strategies_agree [OF list_posting_lru_laws, of sample_index_codec sample_world 0 Lazy 10 "[''x'', ''y'', ''x'']"]
      sample_open by blast
  then show ?thesis by (simp add: tr_get_postings_def)
qed

theorem index_file_exact_witness:
  "\<exists>w' r. write_inverted_index plain_codec empty_world
        (index_all plain_env (analyzer_new ''a'' (\<lambda>s. [token_new s 0 0])) (fst (new_segment_writer plain_env empty_world CompNone))
          [\<lparr>d_id = 1, d_fields = [(''f'', FText ''x'')]\<rparr>]) = (Ok (), w') \<and>
     hybrid_open_with_cache_size list_posting_lru sample_index_codec w' 0 Adaptive 10 = Ok r \<and>
     requests (hybrid_get_postings list_posting_lru sample_index_codec w') r [''x'', ''y''] = [Ok (Some [sample_posting]), Ok None]"
proof -
  let ?an = "analyzer_new ''a'' (\<lambda>s. [token_new s 0 0])" and ?docs = "[\<lparr>d_id = 1, d_fields = [(''f'', FText ''x'')]\<rparr>]"
  let ?sw = "fst (new_segment_writer plain_env empty_world CompNone)"
  have order: "mset (ev_hash_order plain_env m) = mset m" for m by (simp add: plain_env_def)
  have sw: "sw_inverted_index ?sw = []" "sw_compression ?sw = CompNone" "sg_id (sw_segment ?sw) = 0" by code_simp+
  have terms: "terms_of ?an \<lparr>d_id = 1, d_fields = [(''f'', FText ''x'')]\<rparr> = [''x'']" by code_simp
  have ix: "sw_inverted_index (index_all plain_env ?an ?sw ?docs) = [(''x'', [sample_posting])]"
    unfolding index_all_index sw(1)
    by (simp add: add_indexed_doc_def indexed_def terms group_positions_def document_posting_def
        field_norm_of_1 [unfolded One_nat_def] sample_posting_def plain_env_def)
  have "index_laws sample_index_codec (sw_compression ?sw)
      (map (\<lambda>(t, ps). (t, sort_key doc_id ps)) (sw_inverted_index (index_all plain_env ?an ?sw ?docs)))"
    unfolding ix sw(2) index_laws_def
    by (intro exI [of _ "\<lparr>cb_data = [], cb_original_size = 0, cb_compression = CompNone\<rparr>"] exI [of _ "[(''x'', [sample_posting])]"])
      (simp add: sample_index_codec_def compress_def decompress_def plain_codec_def)
  from index_file_exact [of plain_env list_posting_lru ?sw _ ?an ?docs sample_index_codec empty_world Adaptive 10 "[''x'', ''y'']",
      OF order list_posting_lru_laws sw(1) refl this]
  have "\<exists>w' r. write_inverted_index (ic_codec sample_index_codec) empty_world (index_all plain_env ?an ?sw ?docs) = (Ok (), w') \<and>
      hybrid_open_with_cache_size list_posting_lru sample_index_codec w' 0 Adaptive 10 = Ok r \<and>
      requests (hybrid_get_postings list_posting_lru sample_index_codec w') r [''x'', ''y''] =
        map (\<lambda>t. Ok (if \<exists>d \<in> set ?docs. t \<in> set (terms_of ?an d) then Some (postings_of ?an ?docs t) else None))
          [''x'', ''y'']"
    unfolding sw(3) .
  moreover have "occurrences ''x'' [''x''] = [0]" by code_simp
  then have "postings_of ?an ?docs ''x'' = [sample_posting]"
    by (simp add: postings_of_def terms document_posting_def field_norm_of_1 [unfolded One_nat_def] sample_posting_def)
  ultimately show ?thesis by (simp add: terms) (simp add: sample_index_codec_def)
qed

theorem reader_caches_transparent_witness:
  "\<exists>r. fst (hx_get_or_load id list_posting_lru sample_index_codec sample_world
         (foldl (hybrid_cache_step id list_posting_lru sample_index_codec sample_world) (hybrid_index_cache_new 1 Eager 10)
            [LoadWithCall 0 Lazy, RequestCall 0 ''x'']) 0) = Ok r \<and>
       requests (hybrid_get_postings list_posting_lru sample_index_codec sample_world) r [''x'', ''y''] =
         [Ok (Some [sample_posting]), Ok None]"
proof -
  let ?cache = "foldl (hybrid_cache_step id list_posting_lru sample_index_codec sample_world) (hybrid_index_cache_new 1 Eager 10)
            [LoadWithCall 0 Lazy, RequestCall 0 ''x'']"
  have "\<And>ks. set (id ks) = set ks" by simp
  from reader_caches_transparent [OF this list_posting_lru_laws, where ic = sample_index_codec and w = sample_world and n = 1
      and calls = "[]" and strategy = Eager and k = 10 and hybrid_calls = "[LoadWithCall 0 Lazy, RequestCall 0 ''x'']" and i = 0,
      OF refl refl disjI1 [OF refl]]
  have "\<exists>r. fst (hx_get_or_load id list_posting_lru sample_index_codec sample_world ?cache 0) = Ok r \<and>
      (\<forall>ts. requests (hybrid_get_postings list_posting_lru sample_index_codec sample_world) r ts =
         map (\<lambda>t. Ok (tr_get_postings \<lparr>tr_segment_id = 0, tr_inverted_index = [(''x'', [sample_posting])]\<rparr> t)) ts)"
    by (simp only: sample_open sum.case)
  then obtain r where "fst (hx_get_or_load id list_posting_lru sample_index_codec sample_world ?cache 0) = Ok r"
    "requests (hybrid_get_postings list_posting_lru sample_index_codec sample_world) r [''x'', ''y''] =
       map (\<lambda>t. Ok (tr_get_postings \<lparr>tr_segment_id = 0, tr_inverted_index = [(''x'', [sample_posting])]\<rparr> t)) [''x'', ''y'']"
    by blast
  then show ?thesis by (intro exI [of _ r]) (simp add: tr_get_postings_def)
qed

end
