(* ===== verification/Parallel_Writer.thy ===== *)
theory Parallel_Writer
  imports Write_Session Memory Index_Files
begin

section \<open>Lazy segments, streaming and the parallel writer\<close>

text \<open>
  The model of \<^verbatim>\<open>src/reader/lazy.rs\<close>, \<^verbatim>\<open>src/search/streaming.rs\<close> and \<^verbatim>\<open>src/writer/parallel_writer.rs\<close>.  The
  threads of the parallel writer and its callers are interleaved at the points where they take a
  lock or use a channel; the tasks of one \<^verbatim>\<open>rayon\<close> scope end before the next document is received.  A
  poisoned lock needs a panic inside it and is left out.
\<close>

subsection \<open>Segments loaded in parts\<close>

datatype index_part = Dictionary | Postings | DocStore | Positions

record part_metadata =
  pm_id :: segment_id
  pm_doc_count :: u32
  pm_dict_size :: u64
  pm_postings_size :: u64
  pm_docs_size :: u64
  pm_positions_size :: u64

record lazy_segment_reader =
  ls_segment_id :: segment_id
  ls_metadata :: part_metadata
  ls_loaded_parts :: "(index_part \<times> byte_vec) list"
  ls_file_path :: path

definition no_such_file :: error where
  "no_such_file = Error Io ''No such file or directory (os error 2)''"

definition read_metadata :: "(byte_vec \<Rightarrow> part_metadata result) \<Rightarrow> world \<Rightarrow> path \<Rightarrow> part_metadata result" where
  "read_metadata de_metadata w p =
     (case w_files w p of
        None \<Rightarrow> Err no_such_file
      | Some content \<Rightarrow>
          (case read_exact 256 content of
             None \<Rightarrow> Err io_eof
           | Some (header, rest) \<Rightarrow> de_metadata header))"

definition lazy_segment_open ::
  "(byte_vec \<Rightarrow> part_metadata result) \<Rightarrow> world \<Rightarrow> path \<Rightarrow> lazy_segment_reader result" where
  "lazy_segment_open de_metadata w p =
     and_then (read_metadata de_metadata w p) (\<lambda>metadata.
       Ok \<lparr>ls_segment_id = pm_id metadata, ls_metadata = metadata, ls_loaded_parts = [], ls_file_path = p\<rparr>)"

fun get_part_offset :: "part_metadata \<Rightarrow> index_part \<Rightarrow> u64" where
  "get_part_offset md Dictionary = 256"
| "get_part_offset md Postings = 256 + pm_dict_size md"
| "get_part_offset md DocStore = 256 + pm_dict_size md + pm_postings_size md"
| "get_part_offset md Positions = 256 + pm_dict_size md + pm_postings_size md + pm_docs_size md"

fun get_part_size :: "part_metadata \<Rightarrow> index_part \<Rightarrow> nat" where
  "get_part_size md Dictionary = unat (pm_dict_size md)"
| "get_part_size md Postings = unat (pm_postings_size md)"
| "get_part_size md DocStore = unat (pm_docs_size md)"
| "get_part_size md Positions = unat (pm_positions_size md)"

text \<open>
  A seek takes a signed offset, and the buffer for a part cannot be larger than the greatest
  signed size; seeking past the end is possible, reading there is not.
\<close>

definition load_part ::
  "world \<Rightarrow> lazy_segment_reader \<Rightarrow> index_part \<Rightarrow> byte_vec result \<times> lazy_segment_reader" where
  "load_part w self part =
     (case map_of (ls_loaded_parts self) part of
        Some data \<Rightarrow> (Ok data, self)
      | None \<Rightarrow>
          (case w_files w (ls_file_path self) of
             None \<Rightarrow> (Err no_such_file, self)
           | Some content \<Rightarrow>
               let offset = unat (get_part_offset (ls_metadata self) part);
                   n = get_part_size (ls_metadata self) part
               in if offset \<ge> 2 ^ 63 then (Err (Error Io ''Invalid argument (os error 22)''), self)
                  else if n \<ge> 2 ^ 63 then (Err Panic, self)
                  else case read_exact n (drop offset content) of
                         None \<Rightarrow> (Err io_eof, self)
                       | Some (data, rest) \<Rightarrow>
                           (Ok data, self\<lparr>ls_loaded_parts := AList.update part data (ls_loaded_parts self)\<rparr>)))"

definition unload_part :: "lazy_segment_reader \<Rightarrow> index_part \<Rightarrow> lazy_segment_reader" where
  "unload_part self part = self\<lparr>ls_loaded_parts := AList.delete part (ls_loaded_parts self)\<rparr>"

definition find_in_dictionary :: "lazy_segment_reader \<Rightarrow> byte_vec \<Rightarrow> string \<Rightarrow> u64 option" where
  "find_in_dictionary self dict_data t = None"

definition read_posting_at :: "lazy_segment_reader \<Rightarrow> u64 \<Rightarrow> byte_vec \<Rightarrow> posting_list result" where
  "read_posting_at self offset data = posting_list_new []"

definition search_lazy ::
  "world \<Rightarrow> lazy_segment_reader \<Rightarrow> string \<Rightarrow> posting_list option result \<times> lazy_segment_reader" where
  "search_lazy w self t =
     (case load_part w self Dictionary of
        (Inl e, self) \<Rightarrow> (Err e, self)
      | (Inr dict_data, self) \<Rightarrow>
          (case find_in_dictionary self dict_data t of
             None \<Rightarrow> (Ok None, self)
           | Some posting_offset \<Rightarrow>
               (case load_part w self Postings of
                  (Inl e, self) \<Rightarrow> (Err e, self)
                | (Inr postings_data, self) \<Rightarrow>
                    (and_then (read_posting_at self posting_offset postings_data) (\<lambda>pl. Ok (Some pl)), self))))"

subsection \<open>Streaming\<close>

record streaming_processor =
  st_batch_size :: nat
  st_buffer_size :: nat
  st_enable_compression :: bool

record streaming_cursor =
  cu_query :: query
  cu_position :: nat
  cu_batch_size :: nat
  cu_exhausted :: bool

record streaming_results =
  sr_cursor :: streaming_cursor
  sr_processor :: streaming_processor

definition streaming_processor_new :: "low_memory_config \<Rightarrow> streaming_processor" where
  "streaming_processor_new cfg =
     \<lparr>st_batch_size = lm_batch_size cfg, st_buffer_size = lm_buffer_size cfg, st_enable_compression = lm_enable_compression cfg\<rparr>"

definition streaming_cursor_new :: "query \<Rightarrow> nat \<Rightarrow> streaming_cursor" where
  "streaming_cursor_new q batch_size = \<lparr>cu_query = q, cu_position = 0, cu_batch_size = batch_size, cu_exhausted = False\<rparr>"

definition process_streaming :: "streaming_processor \<Rightarrow> query \<Rightarrow> streaming_results" where
  "process_streaming self q = \<lparr>sr_cursor = streaming_cursor_new q (st_batch_size self), sr_processor = self\<rparr>"

definition fetch_batch :: "streaming_results \<Rightarrow> streaming_cursor \<Rightarrow> document list result" where
  "fetch_batch self cursor = Ok []"

definition next_batch :: "streaming_results \<Rightarrow> document list option result \<times> streaming_results" where
  "next_batch self =
     (let cursor = sr_cursor self
      in if cu_exhausted cursor then (Ok None, self)
         else case fetch_batch self cursor of
                Inl e \<Rightarrow> (Err e, self)
              | Inr batch \<Rightarrow>
                  (let cursor = (if length batch < cu_batch_size cursor then cursor\<lparr>cu_exhausted := True\<rparr> else cursor);
                       cursor = cursor\<lparr>cu_position := cu_position cursor + length batch\<rparr>
                   in (Ok (Some batch), self\<lparr>sr_cursor := cursor\<rparr>)))"

definition streaming_reset :: "streaming_results \<Rightarrow> streaming_results" where
  "streaming_reset self = self\<lparr>sr_cursor := (sr_cursor self)\<lparr>cu_position := 0, cu_exhausted := False\<rparr>\<rparr>"

subsection \<open>The parallel writer\<close>

text \<open>
  What the worker is doing: waiting for a document, or with the two tasks for one.  While the data
  task waits for room in the channel of segments, it holds the lock of the data writer.
\<close>

datatype data_task = DataPending document | SendPending segment | DataDone

datatype index_task = IndexPending document | IndexDone

datatype worker = Waiting | Busy data_task index_task

record parallel_writer =
  pw_data_writer :: data_writer
  pw_index_writer :: term_index_writer
  pw_docs :: "document list"
  pw_segments :: "segment list"
  pw_worker :: worker

definition parallel_writer_new :: "data_writer \<Rightarrow> term_index_writer \<Rightarrow> parallel_writer" where
  "parallel_writer_new dw iw = \<lparr>pw_data_writer = dw, pw_index_writer = iw, pw_docs = [], pw_segments = [], pw_worker = Waiting\<rparr>"

abbreviation doc_capacity :: nat where
  "doc_capacity \<equiv> 1000"

abbreviation segment_capacity :: nat where
  "segment_capacity \<equiv> 10"

text \<open>The data task up to the point where it has a segment to send.\<close>

definition run_data_task :: "env \<Rightarrow> data_writer \<Rightarrow> document \<Rightarrow> segment option \<times> data_writer" where
  "run_data_task ev writer doc =
     (case dw_write_document ev writer doc of
        (r, writer) \<Rightarrow>
          if should_flush writer
          then case dw_flush ev writer of
                 (Inr s, writer) \<Rightarrow> (Some s, writer)
               | (Inl e, writer) \<Rightarrow> (None, writer)
          else (None, writer))"

definition pw_flush :: "env \<Rightarrow> parallel_writer \<Rightarrow> segment option result \<times> parallel_writer" where
  "pw_flush ev self =
     (case dw_flush ev (pw_data_writer self) of
        (Inl e, writer) \<Rightarrow> (Err e, self\<lparr>pw_data_writer := writer\<rparr>)
      | (Inr s, writer) \<Rightarrow>
          (Ok (Some s), self\<lparr>pw_data_writer := writer, pw_index_writer := tw_clear (pw_index_writer self)\<rparr>))"

definition try_recv_segment :: "parallel_writer \<Rightarrow> segment option \<times> parallel_writer" where
  "try_recv_segment self =
     (case pw_segments self of
        [] \<Rightarrow> (None, self)
      | s # rest \<Rightarrow> (Some s, self\<lparr>pw_segments := rest\<rparr>))"

text \<open>What a step shows: a document sent, a segment cut by the worker, one returned by a flush, one
  received, or a flush that failed.\<close>

datatype pw_event = Sent document | Cut segment | FlushReturned segment | Delivered segment | FlushFailed error | Silent

fun holds_data_lock :: "worker \<Rightarrow> bool" where
  "holds_data_lock (Busy (SendPending s) t) = True"
| "holds_data_lock _ = False"

inductive pw_step :: "env \<Rightarrow> parallel_writer \<Rightarrow> pw_event \<Rightarrow> parallel_writer \<Rightarrow> bool" for ev where
  send: "length (pw_docs s) < doc_capacity \<Longrightarrow> pw_step ev s (Sent d) (s\<lparr>pw_docs := pw_docs s @ [d]\<rparr>)"
| receive: "pw_worker s = Waiting \<Longrightarrow> pw_docs s = d # ds \<Longrightarrow>
    pw_step ev s Silent (s\<lparr>pw_docs := ds, pw_worker := Busy (DataPending d) (IndexPending d)\<rparr>)"
| store: "pw_worker s = Busy (DataPending d) t \<Longrightarrow> run_data_task ev (pw_data_writer s) d = (None, dw) \<Longrightarrow>
    pw_step ev s Silent (s\<lparr>pw_data_writer := dw, pw_worker := Busy DataDone t\<rparr>)"
| store_cut: "pw_worker s = Busy (DataPending d) t \<Longrightarrow> run_data_task ev (pw_data_writer s) d = (Some g, dw) \<Longrightarrow>
    pw_step ev s (Cut g) (s\<lparr>pw_data_writer := dw, pw_worker := Busy (SendPending g) t\<rparr>)"
| deliver: "pw_worker s = Busy (SendPending g) t \<Longrightarrow> length (pw_segments s) < segment_capacity \<Longrightarrow>
    pw_step ev s Silent (s\<lparr>pw_segments := pw_segments s @ [g], pw_worker := Busy DataDone t\<rparr>)"
| index: "pw_worker s = Busy t (IndexPending d) \<Longrightarrow>
    pw_step ev s Silent (s\<lparr>pw_index_writer := snd (tw_index_document ev (pw_index_writer s) d), pw_worker := Busy t IndexDone\<rparr>)"
| finish: "pw_worker s = Busy DataDone IndexDone \<Longrightarrow> pw_step ev s Silent (s\<lparr>pw_worker := Waiting\<rparr>)"
| take: "try_recv_segment s = (Some g, s') \<Longrightarrow> pw_step ev s (Delivered g) s'"
| flush: "\<not> holds_data_lock (pw_worker s) \<Longrightarrow> pw_flush ev s = (Ok (Some g), s') \<Longrightarrow> pw_step ev s (FlushReturned g) s'"
| flush_error: "\<not> holds_data_lock (pw_worker s) \<Longrightarrow> pw_flush ev s = (Err e, s') \<Longrightarrow> pw_step ev s (FlushFailed e) s'"

text \<open>Runs with their events, oldest first.\<close>

inductive pw_run :: "env \<Rightarrow> parallel_writer \<Rightarrow> pw_event list \<Rightarrow> parallel_writer \<Rightarrow> bool" for ev s0 where
  start: "pw_run ev s0 [] s0"
| step: "pw_run ev s0 tr s \<Longrightarrow> pw_step ev s e s' \<Longrightarrow> pw_run ev s0 (tr @ [e]) s'"

inductive_cases pw_stepE: "pw_step ev s e s'"

subsection \<open>Parts of a segment file\<close>

datatype part_call = LoadCallPart index_part | UnloadCall index_part | SearchCall string

fun part_step :: "world \<Rightarrow> lazy_segment_reader \<Rightarrow> part_call \<Rightarrow> lazy_segment_reader" where
  "part_step w self (LoadCallPart part) = snd (load_part w self part)"
| "part_step w self (UnloadCall part) = unload_part self part"
| "part_step w self (SearchCall t) = snd (search_lazy w self t)"

definition part_bytes :: "byte_vec \<Rightarrow> byte_vec \<Rightarrow> byte_vec \<Rightarrow> byte_vec \<Rightarrow> index_part \<Rightarrow> byte_vec" where
  "part_bytes dict posts docs poss part =
     (case part of Dictionary \<Rightarrow> dict | Postings \<Rightarrow> posts | DocStore \<Rightarrow> docs | Positions \<Rightarrow> poss)"

definition sizes_fit :: "part_metadata \<Rightarrow> byte_vec \<Rightarrow> byte_vec \<Rightarrow> byte_vec \<Rightarrow> byte_vec \<Rightarrow> bool" where
  "sizes_fit md dict posts docs poss \<longleftrightarrow>
     unat (pm_dict_size md) = length dict \<and> unat (pm_postings_size md) = length posts \<and>
     unat (pm_docs_size md) = length docs \<and> unat (pm_positions_size md) = length poss \<and>
     256 + length dict + length posts + length docs + length poss < 2 ^ 63"

lemma part_location:
  assumes "sizes_fit md dict posts docs poss" "length header = 256"
  shows "unat (get_part_offset md part) < 2 ^ 63" "get_part_size md part < 2 ^ 63"
    "read_exact (get_part_size md part) (drop (unat (get_part_offset md part)) (header @ dict @ posts @ docs @ poss)) =
       Some (part_bytes dict posts docs poss part, drop (get_part_size md part)
         (drop (unat (get_part_offset md part)) (header @ dict @ posts @ docs @ poss)))"
proof -
  have u: "unat (256 + pm_dict_size md) = 256 + length dict"
    "unat (256 + pm_dict_size md + pm_postings_size md) = 256 + length dict + length posts"
    "unat (256 + pm_dict_size md + pm_postings_size md + pm_docs_size md) = 256 + length dict + length posts + length docs"
    using assms(1) by (simp_all add: sizes_fit_def unat_add_u64)
  then show "unat (get_part_offset md part) < 2 ^ 63" "get_part_size md part < 2 ^ 63"
    using assms(1) by (cases part; simp add: sizes_fit_def)+
  show "read_exact (get_part_size md part) (drop (unat (get_part_offset md part)) (header @ dict @ posts @ docs @ poss)) =
       Some (part_bytes dict posts docs poss part, drop (get_part_size md part)
         (drop (unat (get_part_offset md part)) (header @ dict @ posts @ docs @ poss)))"
    using assms u by (cases part) (simp_all add: sizes_fit_def read_exact_def part_bytes_def)
qed

definition parts_ok :: "path \<Rightarrow> part_metadata \<Rightarrow> (index_part \<Rightarrow> byte_vec) \<Rightarrow> lazy_segment_reader \<Rightarrow> bool" where
  "parts_ok p md bytes self \<longleftrightarrow>
     ls_metadata self = md \<and> ls_file_path self = p \<and> (\<forall>part data. map_of (ls_loaded_parts self) part = Some data \<longrightarrow> data = bytes part)"

lemma load_part_ok:
  assumes "parts_ok p md (part_bytes dict posts docs poss) self" "sizes_fit md dict posts docs poss" "length header = 256"
    "w_files w p = Some (header @ dict @ posts @ docs @ poss)"
  shows "fst (load_part w self part) = Ok (part_bytes dict posts docs poss part) \<and>
         parts_ok p md (part_bytes dict posts docs poss) (snd (load_part w self part))"
proof (cases "map_of (ls_loaded_parts self) part")
  case None
  note loc = part_location [OF assms(2,3), of part]
  have "load_part w self part = (Ok (part_bytes dict posts docs poss part),
      self\<lparr>ls_loaded_parts := AList.update part (part_bytes dict posts docs poss part) (ls_loaded_parts self)\<rparr>)"
    using assms(1,4) None loc(1,2) by (simp add: load_part_def parts_ok_def loc(3) Let_def del: drop_append)
  then show ?thesis using assms(1) by (simp add: parts_ok_def AList.update_conv)
next
  case (Some data)
  then show ?thesis using assms(1) by (simp add: load_part_def parts_ok_def)
qed

lemma unload_part_ok: "parts_ok p md bytes self \<Longrightarrow> parts_ok p md bytes (unload_part self part)"
  by (auto simp: unload_part_def parts_ok_def AList.delete_conv' restrict_map_def split: if_splits)

text \<open>
  A segment file is read part by part.  If the file is a header of 256 bytes followed by the
  dictionary, the postings, the documents and the positions, with the sizes that the header states,
  then after any sequence of loading, unloading and searching each part is loaded as exactly its
  bytes.  A search, however, never finds anything: looking up a term in the dictionary is not
  implemented.
\<close>

theorem lazy_parts_exact:
  assumes "w_files w p = Some (header @ dict @ posts @ docs @ poss)" "length header = 256"
    "de_metadata header = Ok md" "sizes_fit md dict posts docs poss"
  shows "\<exists>self. lazy_segment_open de_metadata w p = Ok self \<and>
           fst (load_part w (foldl (part_step w) self calls) part) = Ok (part_bytes dict posts docs poss part) \<and>
           fst (search_lazy w (foldl (part_step w) self calls) t) = Ok None"
proof -
  let ?ok = "parts_ok p md (part_bytes dict posts docs poss)"
  define self where "self = \<lparr>ls_segment_id = pm_id md, ls_metadata = md, ls_loaded_parts = [], ls_file_path = p\<rparr>"
  have "lazy_segment_open de_metadata w p = Ok self"
    using assms(1-3) by (simp add: lazy_segment_open_def read_metadata_def read_exact_def self_def)
  note load = load_part_ok [OF _ assms(4,2,1)]
  have search: "fst (search_lazy w s t) = Ok None \<and> ?ok (snd (search_lazy w s t))" if "?ok s" for s t
    using load [OF that, of Dictionary]
    by (cases "load_part w s Dictionary") (auto simp: search_lazy_def find_in_dictionary_def)
  have "?ok (foldl (part_step w) self calls)"
  proof (induction calls rule: rev_induct)
    case (snoc c calls)
    then show ?case
      using load search unload_part_ok by (cases c) simp_all
  qed (simp add: self_def parts_ok_def)
  from load [OF this, of part] search [OF this, of t] \<open>lazy_segment_open de_metadata w p = Ok self\<close>
  show ?thesis by blast
qed

theorem lazy_parts_exact_witness:
  "\<exists>self. lazy_segment_open (\<lambda>bs. Ok \<lparr>pm_id = 0, pm_doc_count = 0, pm_dict_size = 1, pm_postings_size = 2, pm_docs_size = 0, pm_positions_size = 0\<rparr>)
       (write_file empty_world (SegmentPath 0) (replicate 256 0 @ [1] @ [2, 3])) (SegmentPath 0) = Ok self \<and>
     fst (load_part (write_file empty_world (SegmentPath 0) (replicate 256 0 @ [1] @ [2, 3])) self Postings) = Ok [2, 3]"
proof -
  let ?md = "\<lparr>pm_id = 0, pm_doc_count = 0, pm_dict_size = 1, pm_postings_size = 2, pm_docs_size = 0, pm_positions_size = 0\<rparr>"
  let ?w = "write_file empty_world (SegmentPath 0) (replicate 256 0 @ [1] @ [2, 3])"
  have w: "w_files ?w (SegmentPath 0) = Some (replicate 256 0 @ [1] @ [2, 3] @ [] @ [])" by (simp add: write_file_def)
  have fit: "sizes_fit ?md [1] [2, 3] [] []" by (simp add: sizes_fit_def)
  from lazy_parts_exact [OF w _ _ fit, of "\<lambda>bs. Ok ?md" "[]" Postings] show ?thesis by (auto simp: part_bytes_def)
qed

subsection \<open>Streaming\<close>

text \<open>
  Fetching is not implemented, so the first batch of a stream is empty; and with a batch size of zero
  so is every later one, because no batch is then shorter than asked for.
\<close>

lemma stream_has_no_documents:
  "fst (next_batch (process_streaming self q)) = Ok (Some [])"
  "st_batch_size self = 0 \<Longrightarrow> next_batch (process_streaming self q) = (Ok (Some []), process_streaming self q)"
  by (simp_all add: next_batch_def fetch_batch_def process_streaming_def streaming_cursor_new_def Let_def)

subsection \<open>The data writer keeps documents\<close>

text \<open>
  The segments handed out so far hold the documents of \<open>docss\<close> on disk, and the open one those of \<open>cur\<close>.
\<close>

definition dw_rep :: "env \<Rightarrow> data_writer \<Rightarrow> segment list \<Rightarrow> document list list \<Rightarrow> document list \<Rightarrow> bool" where
  "dw_rep ev self segs docss cur \<longleftrightarrow>
     writer_holds (ev_codec ev) (dw_world self) (dw_segment_writer self) cur \<and>
     sw_compression (dw_segment_writer self) = LZ4 \<and>
     sg_id (sw_segment (dw_segment_writer self)) < w_next_id (dw_world self) \<and>
     segments_hold ev LZ4 (dw_world self) (sg_id (sw_segment (dw_segment_writer self))) segs docss \<and>
     (\<exists>n. wl_file (dw_wal self) = WalPath n)"

lemma dw_rep_new: "dw_rep ev (data_writer_new ev w n) [] [] []"
proof -
  obtain sw w1 where new: "new_segment_writer ev w LZ4 = (sw, w1)" by fastforce
  obtain lg w2 where lg: "wal_open w1 0 = (lg, w2)" by fastforce
  note nw = new_segment_writer_facts [OF new]
  have wal: "untouched {WalPath 0} w1 w2" "wl_file lg = WalPath 0"
    using lg by (auto simp: wal_open_def Let_def untouched_def write_file_def create_file_def split: option.splits if_splits)
  then have "writer_holds (ev_codec ev) w2 sw []" "w_next_id w1 \<le> w_next_id w2"
    using writer_holds_untouched [OF nw(1) wal(1)] by (auto simp: sw_path_def untouched_def)
  with nw wal(2) new lg show ?thesis by (simp add: dw_rep_def data_writer_new_def segments_hold_def)
qed

lemma dw_log_rep:
  assumes "dw_rep ev self segs docss cur"
  shows "dw_rep ev (dw_log ev self doc) segs docss cur"
proof -
  obtain n where n: "wl_file (dw_wal self) = WalPath n" using assms by (auto simp: dw_rep_def)
  obtain lg w where lg: "wal_append (ev_wal_codec ev) (dw_world self) (dw_wal self) (AddDocument doc) = (lg, w)" by fastforce
  from wal_append_untouched [OF lg] n have same: "untouched {WalPath n} (dw_world self) w" "wl_file lg = WalPath n" by auto
  let ?i = "sg_id (sw_segment (dw_segment_writer self))"
  have "writer_holds (ev_codec ev) w (dw_segment_writer self) cur" "segments_hold ev LZ4 w ?i segs docss"
    using assms writer_holds_untouched [OF _ same(1)] segments_hold_untouched [OF _ same(1), of ev LZ4 ?i segs docss ?i]
    by (auto simp: dw_rep_def sw_path_def)
  moreover have "w_next_id (dw_world self) \<le> w_next_id w" using same(1) by (simp add: untouched_def)
  ultimately show ?thesis using assms same(2) by (simp add: dw_rep_def dw_log_def lg)
qed

lemma dw_store_rep:
  assumes "dw_rep ev self segs docss cur" "document_laws (ev_codec ev) LZ4 doc"
  shows "\<exists>self'. dw_store ev self doc = (Ok (), self') \<and> dw_rep ev self' segs docss (cur @ [doc]) \<and>
           dw_batch_size self' = dw_batch_size self"
proof -
  let ?sw = "dw_segment_writer self"
  have "writer_holds (ev_codec ev) (dw_world self) ?sw cur" "document_laws (ev_codec ev) (sw_compression ?sw) doc"
    using assms by (auto simp: dw_rep_def)
  from write_document_holds [OF this] obtain off sw w where
    wd: "write_document (ev_codec ev) (dw_world self) ?sw doc = Ok (off, sw, w)"
    "writer_holds (ev_codec ev) w sw (cur @ [doc])" "sw_compression sw = LZ4" "sg_id (sw_segment sw) = sg_id (sw_segment ?sw)"
    using assms(1) by (auto simp: dw_rep_def)
  note same = write_document_untouched [OF wd(1)]
  have "segments_hold ev LZ4 w (sg_id (sw_segment sw)) segs docss"
    using assms(1) wd(4) segments_hold_untouched [OF _ same, of ev LZ4] by (auto simp: dw_rep_def sw_path_def)
  moreover have "w_next_id (dw_world self) \<le> w_next_id w" using same by (simp add: untouched_def)
  ultimately show ?thesis using assms(1) wd by (auto simp: dw_rep_def dw_store_def)
qed

lemma dw_flush_rep:
  assumes "dw_rep ev self segs docss cur" "env_laws ev LZ4"
  shows "\<exists>s self'. dw_flush ev self = (Ok s, self') \<and> dw_rep ev self' (segs @ [s]) (docss @ [cur]) [] \<and>
           dw_batch_size self' = dw_batch_size self"
proof -
  let ?cd = "ev_codec ev" and ?old = "dw_segment_writer self"
  obtain new w1 where new: "new_segment_writer ev (dw_world self) LZ4 = (new, w1)" by fastforce
  note nw = new_segment_writer_facts [OF new]
  have core: "writer_holds ?cd (dw_world self) ?old cur" "sw_compression ?old = LZ4"
    "sg_id (sw_segment ?old) < w_next_id (dw_world self)" "\<exists>n. wl_file (dw_wal self) = WalPath n"
    "segments_hold ev LZ4 (dw_world self) (sg_id (sw_segment ?old)) segs docss"
    using assms(1) by (simp_all add: dw_rep_def)
  have old: "writer_holds ?cd w1 ?old cur"
    using writer_holds_untouched [OF core(1) nw(5)] core(3) by (auto simp: sw_path_def)
  obtain s w2 where s: "sw_finish ?cd w1 ?old = (Ok s, w2)" "sg_id s = sg_id (sw_segment ?old)"
    "segment_file_holds ?cd w2 (sg_id s) LZ4 cur" "untouched {SegmentPath (sg_id s), IndexPath (sg_id s)} w1 w2"
    using sw_finish_indexed [OF old] core(2) assms(2) by auto
  have newid: "sg_id (sw_segment new) = w_next_id (dw_world self)" "w_next_id (dw_world self) < w_next_id w2"
    using nw(3,4) s(4) by (auto simp: untouched_def)
  have both: "untouched ({SegmentPath (w_next_id (dw_world self))} \<union> {SegmentPath (sg_id s), IndexPath (sg_id s)}) (dw_world self) w2"
    using untouched_trans [OF nw(5) s(4)] by simp
  have "segments_hold ev LZ4 w2 (sg_id (sw_segment new)) segs docss"
    using segments_hold_untouched [OF core(5) both, of "sg_id (sw_segment new)"] newid(1) s(2) by auto
  then have "segments_hold ev LZ4 w2 (sg_id (sw_segment new)) (segs @ [s]) (docss @ [cur])"
    using s(2,3) core(3) newid unfolding segments_hold_def by (intro list_all2_appendI) auto
  moreover have "writer_holds ?cd w2 new []"
    using writer_holds_untouched [OF nw(1) s(4)] core(3) newid(1) s(2) by (auto simp: sw_path_def)
  ultimately show ?thesis using nw(2) newid core(4) by (simp add: dw_flush_def new s(1) dw_rep_def)
qed

subsection \<open>The parallel writer loses nothing it was sent\<close>

fun sent :: "pw_event list \<Rightarrow> document list" where
  "sent [] = []"
| "sent (Sent d # tr) = d # sent tr"
| "sent (_ # tr) = sent tr"

fun cut_segments :: "pw_event list \<Rightarrow> segment list" where
  "cut_segments [] = []"
| "cut_segments (Cut g # tr) = g # cut_segments tr"
| "cut_segments (_ # tr) = cut_segments tr"

fun delivered :: "pw_event list \<Rightarrow> segment list" where
  "delivered [] = []"
| "delivered (Delivered g # tr) = g # delivered tr"
| "delivered (_ # tr) = delivered tr"

fun produced :: "pw_event list \<Rightarrow> segment list" where
  "produced [] = []"
| "produced (Cut g # tr) = g # produced tr"
| "produced (FlushReturned g # tr) = g # produced tr"
| "produced (_ # tr) = produced tr"

fun in_flight :: "worker \<Rightarrow> document list" where
  "in_flight (Busy (DataPending d) t) = [d]"
| "in_flight _ = []"

fun unsent :: "worker \<Rightarrow> segment list" where
  "unsent (Busy (SendPending g) t) = [g]"
| "unsent _ = []"

lemma trace_append [simp]:
  "sent (tr @ [e]) = sent tr @ sent [e]" "cut_segments (tr @ [e]) = cut_segments tr @ cut_segments [e]"
  "delivered (tr @ [e]) = delivered tr @ delivered [e]" "produced (tr @ [e]) = produced tr @ produced [e]"
  by (induction tr rule: sent.induct; simp)+

lemma worker_split:
  "holds_data_lock wk \<or> unsent wk = []" "wk = Busy (DataPending d) t \<Longrightarrow> unsent wk = []"
  by (cases wk rule: holds_data_lock.cases; simp)+

lemma worker_index [simp]:
  "in_flight (Busy t (IndexPending d)) = in_flight (Busy t IndexDone)" "unsent (Busy t (IndexPending d)) = unsent (Busy t IndexDone)"
  by (cases t; simp)+

definition dw_batch_rep :: "env \<Rightarrow> nat \<Rightarrow> data_writer \<Rightarrow> segment list \<Rightarrow> document list list \<Rightarrow> document list \<Rightarrow> bool" where
  "dw_batch_rep ev n self segs docss cur \<longleftrightarrow>
     dw_rep ev self segs docss cur \<and> dw_batch_size self = n \<and> length cur < max 1 n \<and> (\<forall>docs \<in> set docss. length docs \<le> max 1 n)"

lemma should_flush_iff:
  assumes "dw_rep ev self segs docss cur" "dw_batch_size self < 2 ^ 32" "length cur < 2 ^ 32"
  shows "should_flush self \<longleftrightarrow> dw_batch_size self \<le> length cur"
  using assms by (simp add: should_flush_def dw_rep_def writer_holds_def word_le_nat_alt unat_of_nat)

lemma run_data_task_rep:
  assumes "dw_batch_rep ev n self segs docss cur" "env_laws ev LZ4" "n < 2 ^ 32" "document_laws (ev_codec ev) LZ4 doc"
  shows "\<exists>r self'. run_data_task ev self doc = (r, self') \<and>
           (case r of None \<Rightarrow> dw_batch_rep ev n self' segs docss (cur @ [doc])
            | Some g \<Rightarrow> dw_batch_rep ev n self' (segs @ [g]) (docss @ [cur @ [doc]]) [])"
proof -
  have rep: "dw_rep ev self segs docss cur" "dw_batch_size self = n" "length cur < max 1 n"
    "\<forall>docs \<in> set docss. length docs \<le> max 1 n"
    using assms(1) by (auto simp: dw_batch_rep_def)
  obtain dw where dw: "dw_store ev (dw_log ev self doc) doc = (Ok (), dw)" "dw_rep ev dw segs docss (cur @ [doc])" "dw_batch_size dw = n"
    using dw_store_rep [OF dw_log_rep [OF rep(1)] assms(4), of doc] rep(2) by (auto simp: dw_log_def split: prod.splits)
  obtain g dw' where g: "dw_flush ev dw = (Ok g, dw')" "dw_rep ev dw' (segs @ [g]) (docss @ [cur @ [doc]]) []" "dw_batch_size dw' = n"
    using dw_flush_rep [OF dw(2) assms(2)] dw(3) by auto
  have "should_flush dw \<longleftrightarrow> n \<le> length (cur @ [doc])"
    using should_flush_iff [OF dw(2)] dw(3) assms(3) rep(3) by auto
  then show ?thesis
    using dw g rep(3,4) by (auto simp: run_data_task_def dw_write_document_def dw_batch_rep_def)
qed

definition pw_inv :: "env \<Rightarrow> nat \<Rightarrow> pw_event list \<Rightarrow> parallel_writer \<Rightarrow> bool" where
  "pw_inv ev n tr s \<longleftrightarrow>
     length (pw_docs s) \<le> doc_capacity \<and> length (pw_segments s) \<le> segment_capacity \<and>
     delivered tr @ pw_segments s @ unsent (pw_worker s) = cut_segments tr \<and>
     (\<exists>docss cur. dw_batch_rep ev n (pw_data_writer s) (produced tr) docss cur \<and>
        concat docss @ cur @ in_flight (pw_worker s) @ pw_docs s = sent tr)"

lemma pw_inv_step:
  assumes "pw_inv ev n tr s" "pw_step ev s e s'" "env_laws ev LZ4" "n < 2 ^ 32"
    "\<forall>d \<in> set (sent tr). document_laws (ev_codec ev) LZ4 d"
  shows "pw_inv ev n (tr @ [e]) s'"
proof -
  from assms(1) obtain docss cur where
    inv: "length (pw_docs s) \<le> doc_capacity" "length (pw_segments s) \<le> segment_capacity"
      "delivered tr @ pw_segments s @ unsent (pw_worker s) = cut_segments tr"
    and rep: "dw_batch_rep ev n (pw_data_writer s) (produced tr) docss cur"
    and all: "concat docss @ cur @ in_flight (pw_worker s) @ pw_docs s = sent tr"
    by (auto simp: pw_inv_def)
  from rep have rep': "dw_rep ev (pw_data_writer s) (produced tr) docss cur" "dw_batch_size (pw_data_writer s) = n"
    by (auto simp: dw_batch_rep_def)
  have laws: "document_laws (ev_codec ev) LZ4 d" if "pw_worker s = Busy (DataPending d) t" for d t
    using all assms(5) that by (metis Un_iff in_flight.simps(1) list.set_intros(1) set_append)
  obtain g dw where fl: "dw_flush ev (pw_data_writer s) = (Ok g, dw)" "dw_batch_rep ev n dw (produced tr @ [g]) (docss @ [cur]) []"
    using dw_flush_rep [OF rep'(1) assms(3)] rep by (fastforce simp: dw_batch_rep_def)
  from assms(2) show ?thesis
  proof cases
    case (store d t dw)
    then have "dw_batch_rep ev n dw (produced tr) docss (cur @ [d])"
      using run_data_task_rep [OF rep assms(3,4) laws] by fastforce
    with store inv all show ?thesis by (fastforce simp: pw_inv_def)
  next
    case (store_cut d t g dw)
    then have "dw_batch_rep ev n dw (produced tr @ [g]) (docss @ [cur @ [d]]) []"
      using run_data_task_rep [OF rep assms(3,4) laws] by fastforce
    with store_cut inv all show ?thesis by (fastforce simp: pw_inv_def)
  next
    case (flush g')
    with fl all inv worker_split(1) [of "pw_worker s"] show ?thesis
      by (fastforce simp: pw_inv_def pw_flush_def)
  qed (use inv rep all fl in \<open>(fastforce simp: pw_inv_def try_recv_segment_def pw_flush_def split: list.splits)\<close>)+
qed

lemma pw_inv_run:
  assumes "pw_run ev (parallel_writer_new (data_writer_new ev w n) iw) tr s" "env_laws ev LZ4" "n < 2 ^ 32"
    "\<forall>d \<in> set (sent tr). document_laws (ev_codec ev) LZ4 d"
  shows "pw_inv ev n tr s"
  using assms(1,4)
proof induction
  case start
  have "dw_batch_rep ev n (data_writer_new ev w n) [] [] []"
    using dw_rep_new [of ev w n] by (auto simp: dw_batch_rep_def data_writer_new_def split: prod.splits)
  then show ?case by (auto simp: pw_inv_def parallel_writer_new_def)
next
  case (step tr s e s')
  then show ?case using pw_inv_step [OF _ _ assms(2,3)] by simp
qed

text \<open>
  C15: The parallel writer loses no document.  In every interleaving of its callers and its worker, the
  documents sent are, in the order they were sent, those of the segments handed out so far, which
  are on disk, then those of the open segment, the one the worker has in hand, and those that still
  wait.  The segments that the worker cut are, in order, those received, those in the channel and the
  one it waits to send; segments handed out by a flush do not pass through the channel.  No segment
  is larger than a batch and both channels keep their bounds.
\<close>

theorem parallel_writer_keeps_documents:
  assumes "pw_run ev (parallel_writer_new (data_writer_new ev w n) iw) tr s" "env_laws ev LZ4" "n < 2 ^ 32"
    "\<forall>d \<in> set (sent tr). document_laws (ev_codec ev) LZ4 d"
  shows "(\<exists>docss cur.
            list_all2 (\<lambda>g docs. segment_file_holds (ev_codec ev) (dw_world (pw_data_writer s)) (sg_id g) LZ4 docs) (produced tr) docss \<and>
            writer_holds (ev_codec ev) (dw_world (pw_data_writer s)) (dw_segment_writer (pw_data_writer s)) cur \<and>
            concat docss @ cur @ in_flight (pw_worker s) @ pw_docs s = sent tr \<and>
            length cur < max 1 n \<and> (\<forall>docs \<in> set docss. length docs \<le> max 1 n)) \<and>
         delivered tr @ pw_segments s @ unsent (pw_worker s) = cut_segments tr \<and>
         length (pw_docs s) \<le> doc_capacity \<and> length (pw_segments s) \<le> segment_capacity"
proof -
  from pw_inv_run [OF assms] obtain docss cur where
    "dw_batch_rep ev n (pw_data_writer s) (produced tr) docss cur" "concat docss @ cur @ in_flight (pw_worker s) @ pw_docs s = sent tr"
    and rest: "delivered tr @ pw_segments s @ unsent (pw_worker s) = cut_segments tr"
      "length (pw_docs s) \<le> doc_capacity" "length (pw_segments s) \<le> segment_capacity"
    by (auto simp: pw_inv_def)
  then have "\<exists>docss cur.
      list_all2 (\<lambda>g docs. segment_file_holds (ev_codec ev) (dw_world (pw_data_writer s)) (sg_id g) LZ4 docs) (produced tr) docss \<and>
      writer_holds (ev_codec ev) (dw_world (pw_data_writer s)) (dw_segment_writer (pw_data_writer s)) cur \<and>
      concat docss @ cur @ in_flight (pw_worker s) @ pw_docs s = sent tr \<and>
      length cur < max 1 n \<and> (\<forall>docs \<in> set docss. length docs \<le> max 1 n)"
    by (intro exI [of _ docss] exI [of _ cur]) (auto simp: dw_batch_rep_def dw_rep_def segments_hold_def elim: list_all2_mono)
  with rest show ?thesis by blast
qed

theorem parallel_writer_keeps_documents_witness:
  "\<exists>tr s g. pw_run lz4_env (parallel_writer_new (data_writer_new lz4_env empty_world 1) (term_index_writer_new (analyzer_new ''plain'' (\<lambda>t. [])))) tr s \<and>
     produced tr = [g] \<and> segment_file_holds (ev_codec lz4_env) (dw_world (pw_data_writer s)) (sg_id g) LZ4 [document_new 4]"
proof -
  let ?dw = "data_writer_new lz4_env empty_world 1" and ?d = "document_new 4"
  let ?s0 = "parallel_writer_new ?dw (term_index_writer_new (analyzer_new ''plain'' (\<lambda>t. [])))"
  define s1 where "s1 = ?s0\<lparr>pw_docs := [?d]\<rparr>"
  define s2 where "s2 = s1\<lparr>pw_docs := [], pw_worker := Busy (DataPending ?d) (IndexPending ?d)\<rparr>"
  have law: "document_laws (ev_codec lz4_env) LZ4 ?d" by (simp add: lz4_env_laws small_id_def)
  have "dw_batch_rep lz4_env 1 ?dw [] [] []"
    using dw_rep_new [of lz4_env empty_world 1] by (auto simp: dw_batch_rep_def data_writer_new_def split: prod.splits)
  from run_data_task_rep [OF this lz4_env_laws(1) _ law] obtain g dw where
    "run_data_task lz4_env ?dw ?d = (Some g, dw)"
    by (auto simp: dw_batch_rep_def split: option.splits)
  then have cut: "pw_step lz4_env s2 (Cut g) (s2\<lparr>pw_data_writer := dw, pw_worker := Busy (SendPending g) (IndexPending ?d)\<rparr>)"
    by (intro pw_step.store_cut) (simp_all add: s1_def s2_def parallel_writer_new_def)
  have "pw_step lz4_env ?s0 (Sent ?d) s1" using pw_step.send [of ?s0 lz4_env ?d] by (simp add: s1_def parallel_writer_new_def)
  moreover have "pw_step lz4_env s1 Silent s2"
    using pw_step.receive [of s1 ?d "[]" lz4_env] by (simp add: s1_def s2_def parallel_writer_new_def)
  ultimately have "pw_run lz4_env ?s0 ((([] @ [Sent ?d]) @ [Silent]) @ [Cut g])
      (s2\<lparr>pw_data_writer := dw, pw_worker := Busy (SendPending g) (IndexPending ?d)\<rparr>)"
    using cut pw_run.step [OF pw_run.step [OF pw_run.step [OF pw_run.start]]] by blast
  then have run: "pw_run lz4_env ?s0 [Sent ?d, Silent, Cut g]
      (s2\<lparr>pw_data_writer := dw, pw_worker := Busy (SendPending g) (IndexPending ?d)\<rparr>)" by simp
  from parallel_writer_keeps_documents [OF this lz4_env_laws(1)] law
  have "segment_file_holds (ev_codec lz4_env) (dw_world dw) (sg_id g) LZ4 [?d]"
    by (auto simp: s1_def s2_def parallel_writer_new_def list_all2_Cons1)
  with run show ?thesis by (intro exI [of _ "[Sent ?d, Silent, Cut g]"] exI conjI) auto
qed

subsection \<open>Progress of the parallel writer\<close>

text \<open>A step of the worker, or of a client that only receives.\<close>

fun quiet :: "pw_event \<Rightarrow> bool" where
  "quiet Silent = True"
| "quiet (Cut g) = True"
| "quiet (Delivered g) = True"
| "quiet _ = False"

fun worker_work :: "worker \<Rightarrow> nat" where
  "worker_work Waiting = 0"
| "worker_work (Busy dt it) =
     1 + (case dt of DataPending d \<Rightarrow> 4 | SendPending g \<Rightarrow> 3 | DataDone \<Rightarrow> 0) + (case it of IndexPending d \<Rightarrow> 1 | IndexDone \<Rightarrow> 0)"

definition pw_work :: "parallel_writer \<Rightarrow> nat" where
  "pw_work s = 7 * length (pw_docs s) + worker_work (pw_worker s) + length (pw_segments s)"

lemma pw_work_step: "pw_step ev s e s' \<Longrightarrow> quiet e \<Longrightarrow> pw_work s' < pw_work s"
  by (erule pw_stepE) (auto simp: pw_work_def try_recv_segment_def split: list.splits)

lemma pw_work_run:
  assumes "pw_run ev s tr s'" "list_all quiet tr"
  shows "length tr + pw_work s' \<le> pw_work s"
  using assms
proof induction
  case (step tr s1 e s2)
  then show ?case using pw_work_step [of ev s1 e s2] by simp
qed simp

definition pw_idle :: "parallel_writer \<Rightarrow> bool" where
  "pw_idle s \<longleftrightarrow> pw_docs s = [] \<and> pw_segments s = [] \<and> pw_worker s = Waiting"

lemma pw_progress:
  assumes "\<not> pw_idle s"
  shows "\<exists>e s'. quiet e \<and> pw_step ev s e s'"
proof (cases "pw_segments s")
  case (Cons g gs)
  then have "pw_step ev s (Delivered g) (s\<lparr>pw_segments := gs\<rparr>)" by (intro pw_step.take) (simp add: try_recv_segment_def)
  then show ?thesis using quiet.simps(3) by blast
next
  case Nil
  show ?thesis
  proof (cases "pw_worker s")
    case Waiting
    with Nil assms obtain d ds where "pw_docs s = d # ds" by (cases "pw_docs s") (auto simp: pw_idle_def)
    with Waiting show ?thesis using pw_step.receive quiet.simps(1) by blast
  next
    case (Busy dt it)
    show ?thesis
    proof (cases dt)
      case (DataPending d)
      obtain r dw where "run_data_task ev (pw_data_writer s) d = (r, dw)" by fastforce
      with Busy DataPending show ?thesis using pw_step.store pw_step.store_cut quiet.simps(1,2) by (cases r) blast+
    next
      case (SendPending g)
      with Busy Nil show ?thesis using pw_step.deliver [of s g it ev] by (intro exI [of _ Silent]) auto
    next
      case DataDone
      with Busy show ?thesis using pw_step.index pw_step.finish quiet.simps(1) by (cases it) blast+
    qed
  qed
qed

text \<open>
  C25: The parallel writer drains.  While nobody sends or flushes, every run of the worker and of a
  client that receives segments is finite, with a bound that the state gives; and it can go on until
  every document is stored and indexed, every segment is received and the worker waits again.
\<close>

theorem parallel_writer_drains:
  assumes "pw_run ev s tr s'" "list_all quiet tr"
  shows "length tr \<le> pw_work s \<and>
         (pw_docs s' = [] \<and> pw_segments s' = [] \<and> pw_worker s' = Waiting \<or> (\<exists>e s''. quiet e \<and> pw_step ev s' e s''))"
  using pw_work_run [OF assms] pw_progress [of s' ev] by (auto simp: pw_idle_def)

definition queued_writer :: parallel_writer where
  "queued_writer = (parallel_writer_new (data_writer_new lz4_env empty_world 1) (term_index_writer_new (analyzer_new ''plain'' (\<lambda>t. []))))\<lparr>pw_docs := [document_new 4]\<rparr>"

theorem parallel_writer_drains_witness:
  "\<exists>s'. pw_run lz4_env queued_writer [Silent] s' \<and> pw_work queued_writer = 7 \<and> (\<exists>e s''. quiet e \<and> pw_step lz4_env s' e s'')"
proof -
  let ?d = "document_new 4"
  have "pw_step lz4_env queued_writer Silent (queued_writer\<lparr>pw_docs := [], pw_worker := Busy (DataPending ?d) (IndexPending ?d)\<rparr>)"
    by (rule pw_step.receive) (simp_all add: queued_writer_def parallel_writer_new_def)
  from pw_run.step [OF pw_run.start this]
  have run: "pw_run lz4_env queued_writer [Silent] (queued_writer\<lparr>pw_docs := [], pw_worker := Busy (DataPending ?d) (IndexPending ?d)\<rparr>)"
    by simp
  have "pw_work queued_writer = 7" by (simp add: pw_work_def queued_writer_def parallel_writer_new_def)
  with run parallel_writer_drains [OF run] show ?thesis by auto
qed

definition pw_blocked :: "parallel_writer \<Rightarrow> bool" where
  "pw_blocked s \<longleftrightarrow> holds_data_lock (pw_worker s) \<and> segment_capacity \<le> length (pw_segments s)"

lemma pw_blocked_step:
  assumes "pw_step ev s e s'" "pw_blocked s"
  shows "(\<exists>g. e = Delivered g) \<or> ((\<exists>d. e = Sent d) \<or> e = Silent) \<and> pw_blocked s' \<and> pw_data_writer s' = pw_data_writer s"
  using assms(1)
proof cases
  case (index t d)
  then show ?thesis using assms(2) by (cases t) (auto simp: pw_blocked_def)
qed (use assms(2) in \<open>auto simp: pw_blocked_def\<close>)

text \<open>
  A full channel of segments stops flushing.  The worker sends a segment while it holds the lock of
  the data writer; when ten segments wait, no flush returns and no document is stored until somebody
  receives a segment, whatever the callers do.
\<close>

theorem full_channel_blocks_flush:
  assumes "pw_run ev s tr s'" "pw_worker s = Busy (SendPending g) t" "segment_capacity \<le> length (pw_segments s)"
    "delivered tr = []"
  shows "produced tr = [] \<and> (\<forall>e. FlushFailed e \<notin> set tr) \<and> pw_data_writer s' = pw_data_writer s"
proof -
  from assms(1,4) have "produced tr = [] \<and> (\<forall>e. FlushFailed e \<notin> set tr) \<and> pw_data_writer s' = pw_data_writer s \<and> pw_blocked s'"
  proof induction
    case start
    show ?case using assms(2,3) by (simp add: pw_blocked_def)
  next
    case (step tr s1 e s2)
    then have "pw_blocked s1" "delivered [e] = []" by auto
    from pw_blocked_step [OF step.hyps(2) this(1)] this(2) step show ?case by auto
  qed
  then show ?thesis by blast
qed

definition stalled_writer :: parallel_writer where
  "stalled_writer = queued_writer\<lparr>pw_docs := [], pw_segments := replicate 10 (sw_segment (dw_segment_writer (pw_data_writer queued_writer))), pw_worker := Busy (SendPending (sw_segment (dw_segment_writer (pw_data_writer queued_writer)))) IndexDone\<rparr>"

theorem full_channel_blocks_flush_witness:
  "\<exists>s'. pw_run lz4_env stalled_writer [Sent (document_new 5)] s' \<and> pw_data_writer s' = pw_data_writer stalled_writer"
proof -
  let ?d = "document_new 5"
  have "pw_step lz4_env stalled_writer (Sent ?d) (stalled_writer\<lparr>pw_docs := pw_docs stalled_writer @ [?d]\<rparr>)"
    by (rule pw_step.send) (simp add: stalled_writer_def)
  from pw_run.step [OF pw_run.start this]
  have run: "pw_run lz4_env stalled_writer [Sent ?d] (stalled_writer\<lparr>pw_docs := pw_docs stalled_writer @ [?d]\<rparr>)" by simp
  have "pw_worker stalled_writer = Busy (SendPending (sw_segment (dw_segment_writer (pw_data_writer queued_writer)))) IndexDone" "10 \<le> length (pw_segments stalled_writer)"
    by (simp_all add: stalled_writer_def)
  from full_channel_blocks_flush [OF run this] run show ?thesis by auto
qed

end
