(* ===== verification/Os_Files.thy ===== *)
theory Os_Files
  imports Parallel_Writer
begin

section \<open>File locks and page caches\<close>

text \<open>
  The model of \<^verbatim>\<open>src/storage/file_lock.rs\<close> and \<^verbatim>\<open>src/mmap/mmap_file.rs\<close>.  The system call \<^verbatim>\<open>flock\<close> and
  the mapping of a file by \<^verbatim>\<open>memmap2\<close> are parameters.
\<close>

subsection \<open>File locks\<close>

datatype lock_mode = Shared | Exclusive

datatype lock_operation = LockEx | LockSh | LockUn

text \<open>What \<^verbatim>\<open>acquire\<close> finds: whether the lock file is there, the next file handle, and the kernel's lock table.\<close>

record 'k lock_env =
  le_lock_file :: bool
  le_next_handle :: nat
  le_kernel :: 'k

record file_lock =
  fl_handle :: nat
  fl_exclusive :: bool

definition acquire ::
  "('k \<Rightarrow> nat \<Rightarrow> lock_operation \<Rightarrow> int \<times> 'k) \<Rightarrow> 'k lock_env \<Rightarrow> bool \<Rightarrow> file_lock result \<times> 'k lock_env" where
  "acquire flock env exclusive =
     (if \<not> exclusive \<and> \<not> le_lock_file env then (Err no_such_file, env)
      else let handle = le_next_handle env;
               operation = (if exclusive then LockEx else LockSh);
               (r, k) = flock (le_kernel env) handle operation;
               env = \<lparr>le_lock_file = True, le_next_handle = handle + 1, le_kernel = k\<rparr>
           in if r \<noteq> 0 then (Err (Error Io ''Failed to acquire lock''), env)
              else (Ok \<lparr>fl_handle = handle, fl_exclusive = exclusive\<rparr>, env))"

definition drop_lock ::
  "('k \<Rightarrow> nat \<Rightarrow> lock_operation \<Rightarrow> int \<times> 'k) \<Rightarrow> 'k lock_env \<Rightarrow> file_lock \<Rightarrow> 'k lock_env" where
  "drop_lock flock env self = env\<lparr>le_kernel := snd (flock (le_kernel env) (fl_handle self) LockUn)\<rparr>"

text \<open>
  What \<^verbatim>\<open>flock\<close> documents, for a view of the locks that the kernel's table holds: on a handle without a
  lock, a call that returns 0 sets the lock of the handle and finds no lock of another handle in its
  way, and a call that fails changes nothing; and unlocking removes the lock.  (A failed call on a
  handle that has a lock may lose it, but the code locks each handle once.)
\<close>

definition flock_laws ::
  "('k \<Rightarrow> nat \<Rightarrow> lock_operation \<Rightarrow> int \<times> 'k) \<Rightarrow> ('k \<Rightarrow> nat \<rightharpoonup> lock_mode) \<Rightarrow> bool" where
  "flock_laws flock held \<longleftrightarrow>
     (\<forall>k h. held k h = None \<longrightarrow> (case flock k h LockEx of (r, k') \<Rightarrow>
        if r = 0 then held k' = (held k)(h \<mapsto> Exclusive) \<and> (\<forall>h'. h' \<noteq> h \<longrightarrow> held k h' = None) else held k' = held k)) \<and>
     (\<forall>k h. held k h = None \<longrightarrow> (case flock k h LockSh of (r, k') \<Rightarrow>
        if r = 0 then held k' = (held k)(h \<mapsto> Shared) \<and> (\<forall>h'. h' \<noteq> h \<longrightarrow> held k h' \<noteq> Some Exclusive) else held k' = held k)) \<and>
     (\<forall>k h. held (snd (flock k h LockUn)) = (held k)(h := None))"

text \<open>The processes that lock one directory: the locks acquired and not yet dropped.\<close>

inductive lock_reachable ::
  "('k \<Rightarrow> nat \<Rightarrow> lock_operation \<Rightarrow> int \<times> 'k) \<Rightarrow> 'k lock_env \<Rightarrow> 'k lock_env \<Rightarrow> file_lock list \<Rightarrow> bool"
  for flock env0 where
  start: "lock_reachable flock env0 env0 []"
| acquired: "lock_reachable flock env0 env live \<Longrightarrow> acquire flock env exclusive = (Ok l, env') \<Longrightarrow>
    lock_reachable flock env0 env' (live @ [l])"
| refused: "lock_reachable flock env0 env live \<Longrightarrow> acquire flock env exclusive = (Err e, env') \<Longrightarrow>
    lock_reachable flock env0 env' live"
| dropped: "lock_reachable flock env0 env live \<Longrightarrow> l \<in> set live \<Longrightarrow>
    lock_reachable flock env0 (drop_lock flock env l) (remove1 l live)"

subsection \<open>Pages of a mapped file\<close>

record page_id =
  pi_segment_id :: u32
  pi_page_num :: u32

record page =
  pg_id :: page_id
  pg_data :: byte_vec

record mmap_file =
  mm_mmap :: byte_vec
  mm_len :: nat
  mm_read_only :: bool

record page_cache =
  pc_pages :: "page_id \<rightharpoonup> page"
  pc_dirty_pages :: "page_id set"
  pc_max_pages :: nat

abbreviation page_size :: nat where
  "page_size \<equiv> 4096"

definition open_read_only ::
  "(byte_vec \<Rightarrow> nat \<Rightarrow> byte_vec result) \<Rightarrow> world \<Rightarrow> path \<Rightarrow> mmap_file result" where
  "open_read_only map_file w p =
     (case w_files w p of
        None \<Rightarrow> Err no_such_file
      | Some content \<Rightarrow>
          and_then (map_file content (length content)) (\<lambda>mmap.
            Ok \<lparr>mm_mmap = mmap, mm_len = length content, mm_read_only = True\<rparr>))"

definition mmap_data :: "mmap_file \<Rightarrow> byte_vec" where
  "mmap_data self = mm_mmap self"

text \<open>The slice of a page that the mapping does not hold in full is a panic.\<close>

definition get_page :: "page_cache \<Rightarrow> page_id \<Rightarrow> mmap_file \<Rightarrow> page result \<times> page_cache" where
  "get_page self pid mmap =
     (case pc_pages self pid of
        Some p \<Rightarrow> (Ok p, self)
      | None \<Rightarrow>
          let offset = unat (pi_page_num pid) * page_size
          in if offset + page_size > length (mmap_data mmap) then (Err Panic, self)
             else let p = \<lparr>pg_id = pid, pg_data = take page_size (drop offset (mmap_data mmap))\<rparr>
                  in (Ok p, self\<lparr>pc_pages := (pc_pages self)(pid \<mapsto> p)\<rparr>))"

subsection \<open>A single writer\<close>

definition lock_mode_of :: "file_lock \<Rightarrow> lock_mode" where
  "lock_mode_of l = (if fl_exclusive l then Exclusive else Shared)"

definition locks_ok :: "('k \<Rightarrow> nat \<rightharpoonup> lock_mode) \<Rightarrow> 'k lock_env \<Rightarrow> file_lock list \<Rightarrow> bool" where
  "locks_ok held env live \<longleftrightarrow>
     distinct (map fl_handle live) \<and> (\<forall>l \<in> set live. fl_handle l < le_next_handle env) \<and>
     (\<forall>h m. held (le_kernel env) h = Some m \<longleftrightarrow> (\<exists>l \<in> set live. fl_handle l = h \<and> lock_mode_of l = m)) \<and>
     (\<forall>l \<in> set live. fl_exclusive l \<longrightarrow> live = [l])"

lemma acquire_cases:
  assumes "flock_laws flock held" "acquire flock env exclusive = (r, env')" "held (le_kernel env) (le_next_handle env) = None"
  obtains (refused) "isl r" "held (le_kernel env') = held (le_kernel env)" "le_next_handle env \<le> le_next_handle env'"
  | (acquired) "r = Ok \<lparr>fl_handle = le_next_handle env, fl_exclusive = exclusive\<rparr>"
      "held (le_kernel env') = (held (le_kernel env))(le_next_handle env \<mapsto> if exclusive then Exclusive else Shared)"
      "le_next_handle env' = le_next_handle env + 1"
      "\<And>h. h \<noteq> le_next_handle env \<Longrightarrow> exclusive \<Longrightarrow> held (le_kernel env) h = None"
      "\<And>h. h \<noteq> le_next_handle env \<Longrightarrow> held (le_kernel env) h \<noteq> Some Exclusive"
proof -
  obtain i k where fl: "flock (le_kernel env) (le_next_handle env) (if exclusive then LockEx else LockSh) = (i, k)" by fastforce
  let ?h = "le_next_handle env"
  have laws: "if i = 0 then held k = (held (le_kernel env))(?h \<mapsto> if exclusive then Exclusive else Shared) \<and>
      (\<forall>h'. h' \<noteq> ?h \<longrightarrow> (exclusive \<longrightarrow> held (le_kernel env) h' = None) \<and> held (le_kernel env) h' \<noteq> Some Exclusive)
      else held k = held (le_kernel env)"
    using assms(1,3) fl unfolding flock_laws_def by (cases exclusive; fastforce split: prod.splits)
  show thesis
  proof (cases "\<not> exclusive \<and> \<not> le_lock_file env \<or> i \<noteq> 0")
    case True
    then show thesis using assms(2) fl laws by (intro refused) (auto simp: acquire_def Let_def split: if_splits)
  next
    case False
    then show thesis using assms(2) fl laws by (intro acquired) (auto simp: acquire_def Let_def)
  qed
qed

lemma locks_ok_acquire:
  assumes "flock_laws flock held" "locks_ok held env live" "acquire flock env exclusive = (r, env')"
  shows "locks_ok held env' (live @ (case r of Inl e \<Rightarrow> [] | Inr l \<Rightarrow> [l]))"
proof -
  have "held (le_kernel env) (le_next_handle env) = None"
    using assms(2) by (cases "held (le_kernel env) (le_next_handle env)") (auto simp: locks_ok_def)
  with assms(1,3) show ?thesis
  proof (cases rule: acquire_cases)
    case refused
    then show ?thesis using assms(2) by (cases r) (auto simp: locks_ok_def)
  next
    case acquired
    let ?h = "le_next_handle env"
    have fresh: "fl_handle l \<noteq> ?h" "held (le_kernel env) (fl_handle l) = Some (lock_mode_of l)" if "l \<in> set live" for l
      using assms(2) that by (auto simp: locks_ok_def)
    have "live = []" if exclusive using fresh acquired(4) that by (cases live) force+
    moreover have "\<not> fl_exclusive l" if "l \<in> set live" for l
      using fresh [OF that] acquired(5) by (auto simp: lock_mode_of_def)
    ultimately have "\<forall>l \<in> set (live @ [\<lparr>fl_handle = ?h, fl_exclusive = exclusive\<rparr>]). fl_exclusive l \<longrightarrow>
        live @ [\<lparr>fl_handle = ?h, fl_exclusive = exclusive\<rparr>] = [l]" by auto
    moreover have "held (le_kernel env') h = Some m \<longleftrightarrow>
        (\<exists>l \<in> set (live @ [\<lparr>fl_handle = ?h, fl_exclusive = exclusive\<rparr>]). fl_handle l = h \<and> lock_mode_of l = m)" for h m
      using assms(2) fresh(1) unfolding acquired(2) locks_ok_def by (auto simp: lock_mode_of_def)
    moreover have "distinct (map fl_handle (live @ [\<lparr>fl_handle = ?h, fl_exclusive = exclusive\<rparr>]))"
      using assms(2) fresh(1) by (auto simp: locks_ok_def)
    ultimately show ?thesis
      using assms(2) acquired(1,3) unfolding locks_ok_def by (auto simp: less_Suc_eq)
  qed
qed

lemma locks_ok_drop:
  assumes "flock_laws flock held" "locks_ok held env live" "l \<in> set live"
  shows "locks_ok held (drop_lock flock env l) (remove1 l live)"
proof -
  have "held (le_kernel (drop_lock flock env l)) = (held (le_kernel env))(fl_handle l := None)"
    using assms(1) by (simp add: flock_laws_def drop_lock_def)
  moreover have live: "distinct (map fl_handle live)" "\<forall>l' \<in> set live. fl_exclusive l' \<longrightarrow> live = [l']"
    using assms(2) by (auto simp: locks_ok_def)
  moreover have "set (remove1 l live) = {l' \<in> set live. fl_handle l' \<noteq> fl_handle l}"
    using live(1) assms(3) by (auto simp: distinct_map set_remove1_eq inj_on_def)
  moreover have "distinct (map fl_handle (remove1 l live))"
    using live(1) by (auto simp: distinct_map inj_on_def dest: notin_set_remove1)
  ultimately show ?thesis
    using assms(2) unfolding locks_ok_def by (auto simp: drop_lock_def)
qed

text \<open>
  C26: The file lock admits one writer.  If \<^verbatim>\<open>flock\<close> does what it documents, then whatever locks are
  acquired, refused and dropped, an exclusive lock is the only lock held.
\<close>

theorem file_lock_single_writer:
  assumes "flock_laws flock held" "held (le_kernel env0) = Map.empty" "lock_reachable flock env0 env live"
    "l \<in> set live" "fl_exclusive l"
  shows "live = [l]"
proof -
  from assms(3) have "locks_ok held env live"
  proof induction
    case start
    then show ?case using assms(2) by (simp add: locks_ok_def)
  next
    case (acquired env live exclusive l env')
    then show ?case using locks_ok_acquire [OF assms(1), of env live exclusive "Ok l" env'] by simp
  next
    case (refused env live exclusive e env')
    then show ?case using locks_ok_acquire [OF assms(1), of env live exclusive "Err e" env'] by simp
  qed (rule locks_ok_drop [OF assms(1)])
  with assms(4,5) show ?thesis by (simp add: locks_ok_def)
qed

text \<open>A lock table that is a list of handles with their locks.\<close>

fun table_flock :: "(nat \<times> lock_mode) list \<Rightarrow> nat \<Rightarrow> lock_operation \<Rightarrow> int \<times> (nat \<times> lock_mode) list" where
  "table_flock k h LockEx = (if \<forall>(h', m) \<in> set k. h' = h then (0, [(h, Exclusive)]) else (- 1, k))"
| "table_flock k h LockSh = (if \<forall>(h', m) \<in> set k. h' = h \<or> m = Shared then (0, AList.update h Shared k) else (- 1, k))"
| "table_flock k h LockUn = (0, AList.delete h k)"

lemma map_of_single_key: "\<forall>(h', m) \<in> set k. h' = h \<Longrightarrow> h' \<noteq> h \<Longrightarrow> map_of k h' = None"
  by (auto simp: map_of_eq_None_iff)

lemma table_flock_laws: "flock_laws table_flock map_of"
  by (auto simp: flock_laws_def AList.update_conv AList.delete_conv' restrict_map_def fun_eq_iff map_of_single_key
      dest: map_of_SomeD split: prod.splits)

theorem file_lock_single_writer_witness:
  "\<exists>env. lock_reachable table_flock \<lparr>le_lock_file = False, le_next_handle = 0, le_kernel = []\<rparr> env [\<lparr>fl_handle = 0, fl_exclusive = True\<rparr>] \<and>
     isl (fst (acquire table_flock env False))"
proof -
  let ?start = "\<lparr>le_lock_file = False, le_next_handle = 0, le_kernel = []\<rparr> :: (nat \<times> lock_mode) list lock_env"
  let ?l = "\<lparr>fl_handle = 0, fl_exclusive = True\<rparr>" and ?env = "\<lparr>le_lock_file = True, le_next_handle = 1, le_kernel = [(0, Exclusive)]\<rparr>"
  have "acquire table_flock ?start True = (Ok ?l, ?env)" by (simp add: acquire_def)
  from lock_reachable.acquired [OF lock_reachable.start this]
  have run: "lock_reachable table_flock ?start ?env [?l]" by simp
  have "isl (fst (acquire table_flock ?env False))"
  proof (rule ccontr)
    assume "\<not> ?thesis"
    then obtain l env' where l: "acquire table_flock ?env False = (Ok l, env')" by (metis prod.collapse sum.collapse(2))
    from lock_reachable.acquired [OF run l] have "lock_reachable table_flock ?start env' [?l, l]" by simp
    from file_lock_single_writer [OF table_flock_laws _ this, where l = ?l] show False by simp
  qed
  with run show ?thesis by blast
qed

subsection \<open>The page cache\<close>

definition page_cache_new :: "nat \<Rightarrow> page_cache" where
  "page_cache_new n = \<lparr>pc_pages = Map.empty, pc_dirty_pages = {}, pc_max_pages = n\<rparr>"

definition page_in :: "mmap_file \<Rightarrow> u32 \<Rightarrow> bool" where
  "page_in mmap i \<longleftrightarrow> (unat i + 1) * page_size \<le> length (mmap_data mmap)"

definition page_bytes :: "mmap_file \<Rightarrow> u32 \<Rightarrow> byte_vec" where
  "page_bytes mmap i = take page_size (drop (unat i * page_size) (mmap_data mmap))"

definition page_requests :: "(u32 \<Rightarrow> mmap_file) \<Rightarrow> page_cache \<Rightarrow> page_id list \<Rightarrow> page_cache" where
  "page_requests mapped = foldl (\<lambda>self pid. snd (get_page self pid (mapped (pi_segment_id pid))))"

lemma page_requests_pages:
  "pc_pages (page_requests mapped (page_cache_new n) pids) =
     (\<lambda>pid. if pid \<in> set pids \<and> page_in (mapped (pi_segment_id pid)) (pi_page_num pid)
            then Some \<lparr>pg_id = pid, pg_data = page_bytes (mapped (pi_segment_id pid)) (pi_page_num pid)\<rparr> else None)"
proof (induction pids rule: rev_induct)
  case Nil
  then show ?case by (simp add: page_requests_def page_cache_new_def)
next
  case (snoc pid pids)
  then show ?case
    by (auto simp: page_requests_def get_page_def Let_def page_in_def page_bytes_def fun_eq_iff split: option.splits)
qed

text \<open>
  The page cache is transparent and unbounded.  Whatever was asked for before, a page of a mapped
  segment is its bytes; a page that the file does not fill is a panic.  The cache keeps every page that
  was ever read: its configured maximum plays no role.
\<close>

theorem page_cache_exact:
  "fst (get_page (page_requests mapped (page_cache_new n) pids) pid (mapped (pi_segment_id pid))) =
     (if page_in (mapped (pi_segment_id pid)) (pi_page_num pid)
      then Ok \<lparr>pg_id = pid, pg_data = page_bytes (mapped (pi_segment_id pid)) (pi_page_num pid)\<rparr> else Err Panic) \<and>
   dom (pc_pages (page_requests mapped (page_cache_new n) pids)) =
     {pid \<in> set pids. page_in (mapped (pi_segment_id pid)) (pi_page_num pid)}"
proof
  show "fst (get_page (page_requests mapped (page_cache_new n) pids) pid (mapped (pi_segment_id pid))) =
     (if page_in (mapped (pi_segment_id pid)) (pi_page_num pid)
      then Ok \<lparr>pg_id = pid, pg_data = page_bytes (mapped (pi_segment_id pid)) (pi_page_num pid)\<rparr> else Err Panic)"
    unfolding get_page_def page_requests_pages by (auto simp: Let_def page_in_def page_bytes_def)
qed (auto simp: page_requests_pages split: if_splits)

end
