(* ===== verification/Levenshtein_Dfa.thy ===== *)
theory Levenshtein_Dfa
  imports Edit_Distance
begin

section \<open>The Levenshtein automaton\<close>

text \<open>
  The model of \<^verbatim>\<open>LevenshteinDFA\<close> in \<^verbatim>\<open>src/search/fuzzy.rs\<close>: states numbered by position and distance,
  a table of transitions, and matching by walking through it.  Bytes are characters, as in strings.
\<close>

record dfa_state =
  ds_id :: nat
  ds_is_final :: bool
  ds_distance :: u8

record levenshtein_dfa =
  ld_states :: "dfa_state list"
  ld_transitions :: "nat \<times> char \<rightharpoonup> nat"
  ld_max_distance :: u8

text \<open>The lowest byte of a character's code point, from its UTF-8 bytes.\<close>

definition char_as_u8 :: "string \<Rightarrow> char" where
  "char_as_u8 ch =
     (if length ch = 1 then hd ch
      else char_of ((of_char (last (butlast ch)) mod 4) * 64 + of_char (last ch) mod 64 :: nat))"

definition ascii_bytes :: "char list" where
  "ascii_bytes = map char_of [0..<128 :: nat]"

definition or_insert :: "('k \<rightharpoonup> 'v) \<Rightarrow> 'k \<Rightarrow> 'v \<Rightarrow> ('k \<rightharpoonup> 'v)" where
  "or_insert m k v = (case m k of None \<Rightarrow> m(k \<mapsto> v) | Some _ \<Rightarrow> m)"

definition blank_state :: dfa_state where
  "blank_state = \<lparr>ds_id = 0, ds_is_final = False, ds_distance = 0\<rparr>"

definition get_or_create_state :: "levenshtein_dfa \<Rightarrow> nat \<Rightarrow> nat \<Rightarrow> nat \<times> levenshtein_dfa" where
  "get_or_create_state self pos distance =
     (let id = pos * (unat (ld_max_distance self) + 1) + distance
      in (id,
          if id \<ge> length (ld_states self)
          then self\<lparr>ld_states := (ld_states self @ replicate (id + 1 - length (ld_states self)) blank_state)
                      [id := \<lparr>ds_id = id, ds_is_final = False, ds_distance = of_nat distance\<rparr>]\<rparr>
          else self))"

text \<open>One transition to the state of a position and a distance, unless there is one already.\<close>

definition try_transition :: "nat \<Rightarrow> nat \<Rightarrow> nat \<Rightarrow> levenshtein_dfa \<Rightarrow> char \<Rightarrow> levenshtein_dfa" where
  "try_transition state_id pos distance self c =
     (case get_or_create_state self pos distance of
        (next_state, self) \<Rightarrow> self\<lparr>ld_transitions := or_insert (ld_transitions self) (state_id, c) next_state\<rparr>)"

definition build_transitions :: "nat \<Rightarrow> nat \<Rightarrow> char \<Rightarrow> levenshtein_dfa \<Rightarrow> nat \<Rightarrow> levenshtein_dfa" where
  "build_transitions pattern_len pos ch self distance =
     (let (state_id, self) = get_or_create_state self pos distance;
          self = (if distance = 0
                  then case get_or_create_state self (pos + 1) distance of
                         (next_state, self) \<Rightarrow> self\<lparr>ld_transitions := (ld_transitions self)((state_id, ch) \<mapsto> next_state)\<rparr>
                  else self);
          self = (if distance < unat (ld_max_distance self)
                  then foldl (try_transition state_id pos (distance + 1)) self ascii_bytes else self);
          self = (if distance < unat (ld_max_distance self) \<and> pos < pattern_len
                  then try_transition state_id (pos + 1) (distance + 1) self (char_of (0 :: nat)) else self)
      in if distance < unat (ld_max_distance self)
         then foldl (try_transition state_id (pos + 1) (distance + 1)) self (filter (\<lambda>c. c \<noteq> ch) ascii_bytes) else self)"

definition build_position :: "nat \<Rightarrow> levenshtein_dfa \<Rightarrow> nat \<times> string \<Rightarrow> levenshtein_dfa" where
  "build_position pattern_len self pc =
     foldl (build_transitions pattern_len (fst pc) (char_as_u8 (snd pc))) self [0..<unat (ld_max_distance self) + 1]"

definition build_from_pattern :: "levenshtein_dfa \<Rightarrow> string \<Rightarrow> levenshtein_dfa" where
  "build_from_pattern self pattern =
     (let self = self\<lparr>ld_states := ld_states self @ [blank_state]\<rparr>;
          self = foldl (build_position (length pattern)) self (enumerate 0 (utf8_chars pattern))
      in self\<lparr>ld_states := map (\<lambda>s. if ds_id s \<ge> length pattern * (unat (ld_max_distance self) + 1)
                                      then s\<lparr>ds_is_final := True\<rparr> else s) (ld_states self)\<rparr>)"

definition levenshtein_dfa_build :: "string \<Rightarrow> u8 \<Rightarrow> levenshtein_dfa" where
  "levenshtein_dfa_build pattern max_distance =
     build_from_pattern \<lparr>ld_states = [], ld_transitions = Map.empty, ld_max_distance = max_distance\<rparr> pattern"

fun dfa_walk :: "levenshtein_dfa \<Rightarrow> nat \<Rightarrow> string \<Rightarrow> nat option" where
  "dfa_walk self current_state [] = Some current_state"
| "dfa_walk self current_state (ch # text) =
     (case ld_transitions self (current_state, ch) of
        Some next_state \<Rightarrow> dfa_walk self next_state text
      | None \<Rightarrow> None)"

definition levenshtein_dfa_matches :: "levenshtein_dfa \<Rightarrow> string \<Rightarrow> u8 option" where
  "levenshtein_dfa_matches self text =
     (case dfa_walk self 0 text of
        None \<Rightarrow> None
      | Some current_state \<Rightarrow>
          if current_state < length (ld_states self) \<and> ds_is_final (ld_states self ! current_state)
          then Some (ds_distance (ld_states self ! current_state)) else None)"

subsection \<open>What the automaton accepts\<close>

text \<open>
  The transitions of the finished automaton in closed form: in a state without an edit the expected
  byte leads to the next position and every other ASCII byte counts as an insertion; after an edit every
  ASCII byte is one more insertion.
\<close>

definition dfa_delta :: "nat \<Rightarrow> char list \<Rightarrow> nat \<Rightarrow> char \<Rightarrow> nat option" where
  "dfa_delta m chs i c =
     (if i mod (m + 1) = 0 \<and> c = chs ! (i div (m + 1)) then Some (i + (m + 1))
      else if i mod (m + 1) < m \<and> c \<in> set ascii_bytes then Some (i + 1) else None)"

lemma get_or_create_state_same [simp]:
  "fst (get_or_create_state self pos dd) = pos * (unat (ld_max_distance self) + 1) + dd"
  "ld_transitions (snd (get_or_create_state self pos dd)) = ld_transitions self"
  "ld_max_distance (snd (get_or_create_state self pos dd)) = ld_max_distance self"
  by (simp_all add: get_or_create_state_def Let_def)

lemma try_transition_same [simp]:
  "ld_max_distance (try_transition i pos dd self c) = ld_max_distance self"
  "ld_transitions (try_transition i pos dd self c) =
     or_insert (ld_transitions self) (i, c) (pos * (unat (ld_max_distance self) + 1) + dd)"
  "ld_states (try_transition i pos dd self c) = ld_states (snd (get_or_create_state self pos dd))"
  by (simp_all add: try_transition_def split_beta)

lemma try_transitions:
  "ld_max_distance (foldl (try_transition i pos dd) self cs) = ld_max_distance self"
  "ld_transitions (foldl (try_transition i pos dd) self cs) =
     (\<lambda>(j, c). if ld_transitions self (j, c) = None \<and> j = i \<and> c \<in> set cs
               then Some (pos * (unat (ld_max_distance self) + 1) + dd) else ld_transitions self (j, c))"
  by (induction cs arbitrary: self) (auto simp: or_insert_def fun_eq_iff split: option.splits)

lemma build_transitions_max [simp]: "ld_max_distance (build_transitions n pos ch self dd) = ld_max_distance self"
  by (simp add: build_transitions_def Let_def split_beta try_transitions)

lemma zero_ascii: "char_of (0 :: nat) \<in> set ascii_bytes"
  by (auto simp: ascii_bytes_def)

lemma div_mod_cell: "dd < w \<Longrightarrow> (pos * w + dd) div w = pos \<and> (pos * w + dd) mod w = dd" for w :: nat
  by simp

lemma build_transitions_delta:
  assumes "ld_transitions self = (\<lambda>(i, c). if i < pos * (m + 1) + dd then dfa_delta m chs i c else None)"
    "unat (ld_max_distance self) = m" "dd \<le> m" "pos < length chs" "ch = chs ! pos"
  shows "ld_transitions (build_transitions n pos ch self dd) =
           (\<lambda>(i, c). if i < pos * (m + 1) + dd + 1 then dfa_delta m chs i c else None)"
proof -
  have i: "(pos * (m + 1) + dd) div (m + 1) = pos" "(pos * (m + 1) + dd) mod (m + 1) = dd"
    using div_mod_cell [of dd "m + 1" pos] assms(3) by auto
  have "ld_transitions (build_transitions n pos ch self dd) (j, c) =
      (if j < pos * (m + 1) + dd + 1 then dfa_delta m chs j c else None)" for j c
  proof (cases "j = pos * (m + 1) + dd")
    case True
    show ?thesis
      using assms zero_ascii i True
      by (auto simp: build_transitions_def Let_def split_beta try_transitions or_insert_def dfa_delta_def split: option.splits)
  next
    case False
    then show ?thesis
      using assms by (auto simp: build_transitions_def Let_def split_beta try_transitions or_insert_def split: option.splits)
  qed
  then show ?thesis by auto
qed

lemma build_position_max [simp]: "ld_max_distance (build_position n self pc) = ld_max_distance self"
proof -
  have "ld_max_distance (foldl (build_transitions n pos ch) self ds) = ld_max_distance self" for pos ch ds
    by (induction ds rule: rev_induct) auto
  then show ?thesis by (simp add: build_position_def)
qed

lemma build_position_delta:
  assumes "ld_transitions self = (\<lambda>(i, c). if i < pos * (m + 1) then dfa_delta m chs i c else None)"
    "unat (ld_max_distance self) = m" "pos < length chs" "char_as_u8 ch = chs ! pos"
  shows "ld_transitions (build_position n self (pos, ch)) =
           (\<lambda>(i, c). if i < (pos + 1) * (m + 1) then dfa_delta m chs i c else None)"
proof -
  let ?f = "\<lambda>dd. foldl (build_transitions n pos (char_as_u8 ch)) self [0..<dd]"
  have "ld_transitions (?f dd) = (\<lambda>(i, c). if i < pos * (m + 1) + dd then dfa_delta m chs i c else None) \<and>
      ld_max_distance (?f dd) = ld_max_distance self" if "dd \<le> m + 1" for dd
    using that
  proof (induction dd)
    case (Suc dd)
    then show ?case using build_transitions_delta [of "?f dd" pos m dd chs "char_as_u8 ch" n] assms(2-4) by simp
  qed (use assms(1) in simp)
  from this [of "m + 1"] assms(2) show ?thesis by (simp add: build_position_def ac_simps)
qed

text \<open>
  The states with number \<open>p * w\<close> for \<open>p \<le> k\<close> are there with their number and distance 0; no state has a
  number above its index.
\<close>

definition states_ok :: "nat \<Rightarrow> nat \<Rightarrow> dfa_state list \<Rightarrow> bool" where
  "states_ok w k ss \<longleftrightarrow>
     k * w < length ss \<and> (\<forall>i < length ss. ds_id (ss ! i) \<le> i \<and> \<not> ds_is_final (ss ! i)) \<and>
     (\<forall>p. p * w < length ss \<longrightarrow> ss ! (p * w) = \<lparr>ds_id = p * w, ds_is_final = False, ds_distance = 0\<rparr>)"

lemma get_or_create_state_ok:
  assumes "states_ok w k (ld_states self)" "w = unat (ld_max_distance self) + 1" "dd < w" "q \<le> k \<or> q = k + 1 \<and> dd = 0" "k' \<le> k \<or> k' \<le> q"
  shows "states_ok w k' (ld_states (snd (get_or_create_state self q dd)))"
proof -
  let ?ss = "ld_states self" and ?id = "q * w + dd"
  let ?new = "(?ss @ replicate (?id + 1 - length ?ss) blank_state)[?id := \<lparr>ds_id = ?id, ds_is_final = False, ds_distance = of_nat dd\<rparr>]"
  have k: "k * w < length ?ss" using assms(1) by (simp add: states_ok_def)
  have st: "ld_states (snd (get_or_create_state self q dd)) = (if ?id \<ge> length ?ss then ?new else ?ss)"
    using assms(2) by (simp add: get_or_create_state_def Let_def)
  have le: "k' * w \<le> k * w \<or> k' * w \<le> ?id" using assms(5) by (metis mult_le_mono1 trans_le_add1)
  show ?thesis
  proof (cases "?id \<ge> length ?ss")
    case True
    have len: "length ?new = ?id + 1" using True by simp
    have nth: "?new ! i = (if i = ?id then \<lparr>ds_id = ?id, ds_is_final = False, ds_distance = of_nat dd\<rparr>
        else if i < length ?ss then ?ss ! i else blank_state)" if "i \<le> ?id" for i
      using True that by (auto simp: nth_list_update nth_append)
    have "p * w < length ?ss \<or> dd = 0 \<and> p = q" if "p * w \<le> ?id" for p
    proof -
      have "p \<le> q"
      proof (rule ccontr)
        assume "\<not> p \<le> q"
        then have "(q + 1) * w \<le> p * w" by (intro mult_le_mono1) simp
        with that assms(3) show False by simp
      qed
      moreover have "p * w < length ?ss" if "p \<le> k" using mult_le_mono1 [OF that, of w] k by linarith
      ultimately show ?thesis using assms(4) by (cases "p \<le> k") auto
    qed
    note mult = this
    have ok: "ds_id (?ss ! i) \<le> i" "\<not> ds_is_final (?ss ! i)" if "i < length ?ss" for i
      using assms(1) that by (auto simp: states_ok_def)
    have root: "?ss ! (p * w) = \<lparr>ds_id = p * w, ds_is_final = False, ds_distance = 0\<rparr>" if "p * w < length ?ss" for p
      using assms(1) that by (simp add: states_ok_def)
    have "ds_id (?new ! i) \<le> i \<and> \<not> ds_is_final (?new ! i)" if "i \<le> ?id" for i
      unfolding nth [OF that] using ok [of i] by (simp add: blank_state_def)
    moreover have "?new ! (p * w) = \<lparr>ds_id = p * w, ds_is_final = False, ds_distance = 0\<rparr>" if "p * w \<le> ?id" for p
      unfolding nth [OF that] using mult [OF that] root [of p] True by auto
    moreover have "k' * w < ?id + 1" using le True k by linarith
    ultimately show ?thesis unfolding st states_ok_def using True by (simp only: len if_True) (simp add: less_Suc_eq_le)
  next
    case False
    then have "k' * w < length ?ss" using le k by linarith
    with False show ?thesis unfolding st using assms(1) by (simp add: states_ok_def)
  qed
qed

lemma try_transitions_ok:
  assumes "states_ok w k (ld_states self)" "w = unat (ld_max_distance self) + 1" "dd < w" "q \<le> k"
  shows "states_ok w k (ld_states (foldl (try_transition i q dd) self cs))"
  using assms(1,2)
proof (induction cs arbitrary: self)
  case (Cons c cs)
  have "states_ok w k (ld_states (try_transition i q dd self c))"
    using get_or_create_state_ok [OF Cons.prems assms(3), of q k] assms(4) by simp
  then show ?case using Cons.IH [of "try_transition i q dd self c"] Cons.prems(2) by simp
qed simp

lemma build_transitions_ok:
  assumes "states_ok w (if dd = 0 then pos else pos + 1) (ld_states self)" "w = unat (ld_max_distance self) + 1" "dd < w"
  shows "states_ok w (pos + 1) (ld_states (build_transitions n pos ch self dd))"
proof -
  define s1 where "s1 = snd (get_or_create_state self pos dd)"
  define s2 where "s2 = (if dd = 0 then (snd (get_or_create_state s1 (pos + 1) dd))\<lparr>ld_transitions :=
      (ld_transitions s1)((pos * w + dd, ch) \<mapsto> (pos + 1) * w + dd)\<rparr> else s1)"
  have s1: "states_ok w (if dd = 0 then pos else pos + 1) (ld_states s1)" "ld_max_distance s1 = ld_max_distance self"
    using get_or_create_state_ok [OF assms(1-3), of pos] by (auto simp: s1_def)
  have s2: "states_ok w (pos + 1) (ld_states s2)" "ld_max_distance s2 = ld_max_distance self"
    using s1 get_or_create_state_ok [of w pos s1 0 "pos + 1" "pos + 1"] assms(2,3) by (auto simp: s2_def)
  define s3 where "s3 = (if dd < unat (ld_max_distance s2)
      then foldl (try_transition (pos * w + dd) pos (dd + 1)) s2 ascii_bytes else s2)"
  have s3: "states_ok w (pos + 1) (ld_states s3)" "ld_max_distance s3 = ld_max_distance self"
    using s2 try_transitions_ok [of w "pos + 1" s2 "dd + 1" pos] assms(2) by (auto simp: s3_def try_transitions)
  define s4 where "s4 = (if dd < unat (ld_max_distance s3) \<and> pos < n
      then try_transition (pos * w + dd) (pos + 1) (dd + 1) s3 (char_of (0 :: nat)) else s3)"
  have s4: "states_ok w (pos + 1) (ld_states s4)" "ld_max_distance s4 = ld_max_distance self"
    using s3 get_or_create_state_ok [of w "pos + 1" s3 "dd + 1" "pos + 1" "pos + 1"] assms(2) by (auto simp: s4_def)
  have "build_transitions n pos ch self dd = (if dd < unat (ld_max_distance s4)
      then foldl (try_transition (pos * w + dd) (pos + 1) (dd + 1)) s4 (filter (\<lambda>c. c \<noteq> ch) ascii_bytes) else s4)"
    unfolding build_transitions_def s4_def s3_def s2_def s1_def Let_def split_beta assms(2) by simp
  then show ?thesis using s4 try_transitions_ok [of w "pos + 1" s4 "dd + 1" "pos + 1"] assms(2) by auto
qed

lemma build_position_ok:
  assumes "states_ok w pos (ld_states self)" "w = unat (ld_max_distance self) + 1"
  shows "states_ok w (pos + 1) (ld_states (build_position n self (pos, ch)))"
proof -
  let ?f = "\<lambda>dd. foldl (build_transitions n pos (char_as_u8 ch)) self [0..<dd]"
  have "states_ok w (if dd = 0 then pos else pos + 1) (ld_states (?f dd)) \<and> ld_max_distance (?f dd) = ld_max_distance self"
    if "dd \<le> w" for dd
    using that
  proof (induction dd)
    case (Suc dd)
    then show ?case using build_transitions_ok [of w dd pos "?f dd" n] assms(2) by simp
  qed (use assms(1) in simp)
  from this [of w] assms(2) show ?thesis by (simp add: build_position_def)
qed

lemma build_from_pattern_ok:
  assumes "is_ascii pattern" "m = unat maxd"
  defines "dfa \<equiv> levenshtein_dfa_build pattern maxd"
  shows "ld_transitions dfa = (\<lambda>(i, c). if i < length pattern * (m + 1) then dfa_delta m pattern i c else None)"
    "i < length pattern * (m + 1) \<Longrightarrow> i < length (ld_states dfa) \<and> \<not> ds_is_final (ld_states dfa ! i)"
    "length pattern * (m + 1) < length (ld_states dfa)"
    "ld_states dfa ! (length pattern * (m + 1)) = \<lparr>ds_id = length pattern * (m + 1), ds_is_final = True, ds_distance = 0\<rparr>"
proof -
  let ?w = "m + 1" and ?n = "length pattern"
  let ?start = "\<lparr>ld_states = [blank_state], ld_transitions = Map.empty, ld_max_distance = maxd\<rparr>"
  let ?f = "\<lambda>k. foldl (build_position ?n) ?start (take k (enumerate 0 (utf8_chars pattern)))"
  have chars: "enumerate 0 (utf8_chars pattern) = map (\<lambda>k. (k, [pattern ! k])) [0..<?n]"
    using utf8_chars_ascii [OF assms(1)] by (auto simp: enumerate_eq_zip intro: nth_equalityI)
  have inv: "ld_transitions (?f k) = (\<lambda>(i, c). if i < k * ?w then dfa_delta m pattern i c else None) \<and>
      ld_max_distance (?f k) = maxd \<and> states_ok ?w k (ld_states (?f k))" if "k \<le> ?n" for k
    using that
  proof (induction k)
    case 0
    then show ?case by (auto simp: states_ok_def blank_state_def)
  next
    case (Suc k)
    have fk: "?f (Suc k) = build_position ?n (?f k) (k, [pattern ! k])"
      using Suc.prems by (simp add: chars take_Suc_conv_app_nth)
    have u: "char_as_u8 [pattern ! k] = pattern ! k" by (simp add: char_as_u8_def)
    show ?case
      unfolding fk using Suc assms(2) u build_position_delta [of "?f k" k m pattern "[pattern ! k]" ?n]
        build_position_ok [of ?w k "?f k" ?n "[pattern ! k]"] by simp
  qed
  let ?g = "?f ?n"
  have "dfa = ?g\<lparr>ld_states := map (\<lambda>s. if ds_id s \<ge> ?n * ?w then s\<lparr>ds_is_final := True\<rparr> else s) (ld_states ?g)\<rparr>"
    using inv [of ?n] assms(2) by (simp add: dfa_def levenshtein_dfa_build_def build_from_pattern_def Let_def chars)
  then have tr: "ld_transitions dfa = ld_transitions ?g"
    and st: "ld_states dfa = map (\<lambda>s. if ds_id s \<ge> ?n * ?w then s\<lparr>ds_is_final := True\<rparr> else s) (ld_states ?g)"
    by simp_all
  define N where "N = ?n * ?w"
  have ok: "N < length (ld_states ?g)" "\<And>i. i < length (ld_states ?g) \<Longrightarrow> ds_id (ld_states ?g ! i) \<le> i \<and> \<not> ds_is_final (ld_states ?g ! i)"
    "ld_states ?g ! N = \<lparr>ds_id = N, ds_is_final = False, ds_distance = 0\<rparr>"
    using inv [of ?n] unfolding states_ok_def N_def by blast+
  show "ld_transitions dfa = (\<lambda>(i, c). if i < ?n * ?w then dfa_delta m pattern i c else None)"
    using tr inv [of ?n] by simp
  have "N < length (ld_states dfa)" "ld_states dfa ! N = \<lparr>ds_id = N, ds_is_final = True, ds_distance = 0\<rparr>"
    using ok(1,3) unfolding st N_def [symmetric] by simp_all
  then show "?n * ?w < length (ld_states dfa)"
    "ld_states dfa ! (?n * ?w) = \<lparr>ds_id = ?n * ?w, ds_is_final = True, ds_distance = 0\<rparr>"
    unfolding N_def by blast+
  have "i < length (ld_states dfa) \<and> \<not> ds_is_final (ld_states dfa ! i)" if "i < N"
    using ok(1) ok(2) [of i] that unfolding st N_def [symmetric] by simp
  then show "i < ?n * ?w \<Longrightarrow> i < length (ld_states dfa) \<and> \<not> ds_is_final (ld_states dfa ! i)" unfolding N_def .
qed

lemma dfa_walk_after_edit:
  assumes "is_ascii pattern" "m = unat maxd" "k < length pattern" "0 < j" "j \<le> m"
    "dfa_walk (levenshtein_dfa_build pattern maxd) (k * (m + 1) + j) input = Some s"
  shows "s < length pattern * (m + 1)"
  using assms(4-6)
proof (induction input arbitrary: j)
  case Nil
  have "(k + 1) * (m + 1) \<le> length pattern * (m + 1)" using assms(3) by (intro mult_le_mono1) simp
  with Nil show ?case by simp
next
  case (Cons c input)
  have "(k + 1) * (m + 1) \<le> length pattern * (m + 1)" using assms(3) by (intro mult_le_mono1) simp
  then have "k * (m + 1) + j < length pattern * (m + 1)" using Cons.prems(2) by simp
  then have "ld_transitions (levenshtein_dfa_build pattern maxd) (k * (m + 1) + j, c) =
      (if j < m \<and> c \<in> set ascii_bytes then Some (k * (m + 1) + (j + 1)) else None)"
    using div_mod_cell [of j "m + 1" k] Cons.prems(1,2)
    unfolding build_from_pattern_ok(1) [OF assms(1,2)] by (simp add: dfa_delta_def)
  with Cons.IH [of "j + 1"] Cons.prems show ?case by (auto split: if_splits)
qed

lemma dfa_walk_exact:
  assumes "is_ascii pattern" "m = unat maxd" "k \<le> length pattern"
  shows "if input = drop k pattern
         then dfa_walk (levenshtein_dfa_build pattern maxd) (k * (m + 1)) input = Some (length pattern * (m + 1))
         else \<forall>s. dfa_walk (levenshtein_dfa_build pattern maxd) (k * (m + 1)) input = Some s \<longrightarrow> s < length pattern * (m + 1)"
  using assms(3)
proof (induction input arbitrary: k)
  case Nil
  have "k * (m + 1) < length pattern * (m + 1)" if "k < length pattern" using that by (intro mult_less_mono1) simp_all
  with Nil show ?case by (cases "k = length pattern") auto
next
  case (Cons c input)
  let ?dfa = "levenshtein_dfa_build pattern maxd"
  note tr = build_from_pattern_ok(1) [OF assms(1,2)]
  show ?case
  proof (cases "k < length pattern")
    case True
    have lt: "k * (m + 1) < length pattern * (m + 1)" using True by (intro mult_less_mono1) simp_all
    have drop: "drop k pattern = pattern ! k # drop (k + 1) pattern" using True by (simp add: Cons_nth_drop_Suc)
    have step: "ld_transitions ?dfa (k * (m + 1), c) =
        (if c = pattern ! k then Some ((k + 1) * (m + 1))
         else if 0 < m \<and> c \<in> set ascii_bytes then Some (k * (m + 1) + 1) else None)"
      using lt div_mod_cell [of 0 "m + 1" k] unfolding tr by (simp add: dfa_delta_def)
    show ?thesis
    proof (cases "c = pattern ! k")
      case eq: True
      then show ?thesis using Cons.IH [of "k + 1"] True drop step by (simp split: if_splits)
    next
      case False
      then show ?thesis
        using dfa_walk_after_edit [OF assms(1,2) True, of 1 input] drop step by (auto split: if_splits)
    qed
  next
    case False
    then have "ld_transitions ?dfa (k * (m + 1), c) = None" using Cons.prems unfolding tr by (simp add: le_antisym)
    then show ?thesis using False by simp
  qed
qed

text \<open>
  The Levenshtein automaton accepts one text only.  For an ASCII pattern and every maximal distance
  it accepts exactly the pattern itself, at distance 0: after an edit no transition leads to a later
  position, since every ASCII byte is already taken by an insertion.
\<close>

theorem levenshtein_dfa_exact_only:
  assumes "is_ascii pattern"
  shows "levenshtein_dfa_matches (levenshtein_dfa_build pattern maxd) input = (if input = pattern then Some 0 else None)"
proof -
  let ?dfa = "levenshtein_dfa_build pattern maxd"
  note ok = build_from_pattern_ok [OF assms refl, where maxd = maxd]
  note walk = dfa_walk_exact [OF assms refl, where maxd = maxd and k = 0 and input = input]
  show ?thesis
  proof (cases "input = pattern")
    case True
    then have "dfa_walk ?dfa 0 input = Some (length pattern * (unat maxd + 1))" using walk by simp
    then show ?thesis using ok(3,4) True unfolding levenshtein_dfa_matches_def by (simp del: mult_Suc_right)
  next
    case False
    then have "\<forall>s. dfa_walk ?dfa 0 input = Some s \<longrightarrow> s < length pattern * (unat maxd + 1)" using walk by simp
    then show ?thesis using ok(2) False unfolding levenshtein_dfa_matches_def by (simp split: option.splits)
  qed
qed

theorem levenshtein_dfa_exact_only_witness:
  "levenshtein_dfa_matches (levenshtein_dfa_build ''the'' 2) ''the'' = Some 0 \<and>
   levenshtein_dfa_matches (levenshtein_dfa_build ''the'' 2) ''thx'' = None"
  using levenshtein_dfa_exact_only [of "''the''" 2 "''the''"] levenshtein_dfa_exact_only [of "''the''" 2 "''thx''"]
  by (simp add: is_ascii_def)

end
