(* ===== verification/Public_Api.thy ===== *)
theory Public_Api
  imports Engine
begin

section \<open>The public interface\<close>

text \<open>
  The methods of \<^verbatim>\<open>src/core/facade.rs\<close> and the handles of \<^verbatim>\<open>src/core/database_rw.rs\<close> as calls on one engine,
  and what every sequence of calls does: it runs commands, batches, compactions and recoveries on the
  writer, so the refinement of the writer's specification extends to the whole interface.  Merges, which
  a flush starts in threads of their own, are no calls and do not run in between.
\<close>

subsection \<open>The index and its handles\<close>

definition index_open :: "('l, 'm) engine_env \<Rightarrow> world \<Rightarrow> schema \<Rightarrow> config \<Rightarrow> ('l, 'm) engine result" where
  "index_open ee w schema cfg = engine_new ee w schema cfg"

definition index_open_with_schema :: "('l, 'm) engine_env \<Rightarrow> world \<Rightarrow> schema \<Rightarrow> config \<Rightarrow> ('l, 'm) engine result" where
  "index_open_with_schema ee w schema cfg = index_open ee w schema cfg"

definition index_add_document :: "('l, 'm) engine_env \<Rightarrow> ('l, 'm) engine \<Rightarrow> document \<Rightarrow> unit result \<times> ('l, 'm) engine" where
  "index_add_document ee self doc = engine_write_document ee self doc"

definition index_delete_document :: "('l, 'm) engine_env \<Rightarrow> ('l, 'm) engine \<Rightarrow> doc_id \<Rightarrow> unit result \<times> ('l, 'm) engine" where
  "index_delete_document ee self d = delete_document_by_id ee self d"

definition index_delete_by_query :: "('l, 'm) engine_env \<Rightarrow> ('l, 'm) engine \<Rightarrow> string \<Rightarrow> nat result \<times> ('l, 'm) engine" where
  "index_delete_by_query ee self query_str = delete_by_query ee self query_str"

definition index_compact :: "('l, 'm) engine_env \<Rightarrow> ('l, 'm) engine \<Rightarrow> unit result \<times> ('l, 'm) engine" where
  "index_compact ee self = engine_compact ee self"

definition index_flush :: "('l, 'm) engine_env \<Rightarrow> ('l, 'm) engine \<Rightarrow> unit result \<times> ('l, 'm) engine" where
  "index_flush ee self = flush_segments ee self"

definition index_commit :: "('l, 'm) engine_env \<Rightarrow> ('l, 'm) engine \<Rightarrow> unit result \<times> ('l, 'm) engine" where
  "index_commit ee self = commit_wal ee self"

definition index_recover :: "('l, 'm) engine_env \<Rightarrow> string list \<Rightarrow> ('l, 'm) engine \<Rightarrow> unit result \<times> ('l, 'm) engine" where
  "index_recover ee names self = engine_recover ee names self"

definition search_with_limit ::
  "('l, 'm) engine_env \<Rightarrow> ('l, 'm) engine \<Rightarrow> string \<Rightarrow> nat \<Rightarrow> scored_document list result \<times> ('l, 'm) engine" where
  "search_with_limit ee self query_str limit = search_n ee self query_str limit"

definition index_transaction ::
  "('l, 'm) engine_env \<Rightarrow> ('l, 'm) engine \<Rightarrow> isolation_level \<Rightarrow> (world \<Rightarrow> transaction \<Rightarrow> 'r result \<times> transaction)
     \<Rightarrow> 'r result \<times> ('l, 'm) engine" where
  "index_transaction ee self isolation f = with_transaction ee self isolation f"

definition index_with_transaction ::
  "('l, 'm) engine_env \<Rightarrow> ('l, 'm) engine \<Rightarrow> isolation_level \<Rightarrow> (world \<Rightarrow> transaction \<Rightarrow> 'r result \<times> transaction)
     \<Rightarrow> 'r result \<times> ('l, 'm) engine" where
  "index_with_transaction ee self isolation f = with_transaction ee self isolation f"

definition index_begin_transaction :: "('l, 'm) engine \<Rightarrow> isolation_level \<Rightarrow> transaction \<times> ('l, 'm) engine" where
  "index_begin_transaction self isolation = engine_begin_transaction self isolation"

definition index_stats :: "('l, 'm) engine_env \<Rightarrow> u64 \<Rightarrow> ('l, 'm) engine \<Rightarrow> database_stats" where
  "index_stats ee uptime_secs self = collect_stats ee uptime_secs self"

definition index_health_check ::
  "('l, 'm) engine_env \<Rightarrow> bool \<Rightarrow> ('l, 'm) engine \<Rightarrow> (health_status \<times> health_check list) \<times> ('l, 'm) engine" where
  "index_health_check ee lock_free self = run_health_check ee lock_free self"

definition index_enable_low_memory_mode :: "('l, 'm) engine \<Rightarrow> low_memory_config \<Rightarrow> ('l, 'm) engine" where
  "index_enable_low_memory_mode self cfg = enable_low_memory_mode self cfg"

definition index_get_memory_pressure :: "('l, 'm) engine \<Rightarrow> fval option" where
  "index_get_memory_pressure self = get_memory_pressure self"

definition index_maybe_reclaim_memory :: "('l, 'm) engine \<Rightarrow> unit result \<times> ('l, 'm) engine" where
  "index_maybe_reclaim_memory self = maybe_reclaim_memory self"

definition index_schema :: "('l, 'm) engine \<Rightarrow> schema" where
  "index_schema self = en_schema self"

definition replica_search :: "('l, 'm) engine_env \<Rightarrow> ('l, 'm) engine \<Rightarrow> string \<Rightarrow> scored_document list result \<times> ('l, 'm) engine" where
  "replica_search ee self query_str = replica_search_with_limit ee self query_str 10"

definition reader_stats :: "('l, 'm) engine \<Rightarrow> nat \<times> nat" where
  "reader_stats self = (0, rp_max_readers (en_reader_pool self))"

definition master_slave_stats :: "('l, 'm) engine_env \<Rightarrow> u64 \<Rightarrow> ('l, 'm) master_slave \<Rightarrow> database_stats" where
  "master_slave_stats ee uptime_secs self = index_stats ee uptime_secs (ms_master self)"

definition master_slave_health_check ::
  "('l, 'm) engine_env \<Rightarrow> bool \<Rightarrow> ('l, 'm) master_slave \<Rightarrow> (health_status \<times> health_check list) \<times> ('l, 'm) master_slave" where
  "master_slave_health_check ee lock_free self =
     (case index_health_check ee lock_free (ms_master self) of (r, master) \<Rightarrow> (r, self\<lparr>ms_master := master\<rparr>))"

subsection \<open>Calls\<close>

datatype api_call =
  AddCall document
| DeleteCall doc_id
| DeleteByQueryCall string
| FlushCall
| CommitCall
| CompactCall
| RecoverCall "string list"
| SearchCall string nat
| DebugSearchCall string nat
| HealthCall bool
| BeginCall isolation_level
| TransactionCall isolation_level "world \<Rightarrow> transaction \<Rightarrow> unit result \<times> transaction"
| LowMemoryCall low_memory_config
| ReclaimCall
| ReplicaSearchCall string
| WriterAddCall document
| WriterBatchCall "document list"
| WriterDeleteCall doc_id
| WriterFlushCall
| WriterCommitCall
| WriterCompactCall

fun api_step :: "('l, 'm) engine_env \<Rightarrow> ('l, 'm) engine \<Rightarrow> api_call \<Rightarrow> ('l, 'm) engine" where
  "api_step ee self (AddCall doc) = snd (index_add_document ee self doc)"
| "api_step ee self (DeleteCall d) = snd (index_delete_document ee self d)"
| "api_step ee self (DeleteByQueryCall q) = snd (index_delete_by_query ee self q)"
| "api_step ee self FlushCall = snd (index_flush ee self)"
| "api_step ee self CommitCall = snd (index_commit ee self)"
| "api_step ee self CompactCall = snd (index_compact ee self)"
| "api_step ee self (RecoverCall names) = snd (index_recover ee names self)"
| "api_step ee self (SearchCall q limit) = snd (search_with_limit ee self q limit)"
| "api_step ee self (DebugSearchCall q limit) = snd (search_debug ee self q limit)"
| "api_step ee self (HealthCall lock_free) = snd (index_health_check ee lock_free self)"
| "api_step ee self (BeginCall isolation) = snd (index_begin_transaction self isolation)"
| "api_step ee self (TransactionCall isolation f) = snd (index_transaction ee self isolation f)"
| "api_step ee self (LowMemoryCall cfg) = index_enable_low_memory_mode self cfg"
| "api_step ee self ReclaimCall = snd (index_maybe_reclaim_memory self)"
| "api_step ee self (ReplicaSearchCall q) = snd (replica_search ee self q)"
| "api_step ee self (WriterAddCall doc) = snd (write_database_add_document ee self doc)"
| "api_step ee self (WriterBatchCall docs) = snd (write_database_add_documents_batch ee self docs)"
| "api_step ee self (WriterDeleteCall d) = snd (write_database_delete_document ee self d)"
| "api_step ee self WriterFlushCall = snd (write_database_flush ee self)"
| "api_step ee self WriterCommitCall = snd (write_database_commit ee self)"
| "api_step ee self WriterCompactCall = snd (write_database_compact ee self)"

subsection \<open>The commands that reach the writer\<close>

text \<open>The memory accounting before a document is written; when it fails, the writer is not called.\<close>

definition admit_document :: "('l, 'm) engine \<Rightarrow> document \<Rightarrow> unit result \<times> ('l, 'm) engine" where
  "admit_document self doc =
     (case track_allocation self (document_size doc) of
        (Inl e, self) \<Rightarrow> (Err e, self)
      | (Inr _, self) \<Rightarrow>
          (case get_memory_pressure self of
             Some pressure \<Rightarrow> if f_lt (round_f32 (8 / 10)) pressure then maybe_reclaim_memory self else (Ok (), self)
           | None \<Rightarrow> (Ok (), self)))"

fun reaching :: "('l, 'm) engine \<Rightarrow> command \<Rightarrow> command list" where
  "reaching self (AddCommand d) = (if isl (fst (admit_document self d)) then [] else [AddCommand d])"
| "reaching self c = [c]"

fun run_commands :: "('l, 'm) engine_env \<Rightarrow> ('l, 'm) engine \<Rightarrow> command list \<Rightarrow> command list" where
  "run_commands ee self [] = []"
| "run_commands ee self (c # cs) =
     reaching self c @ (case engine_step ee self c of (Inl e, self) \<Rightarrow> [] | (Inr _, self) \<Rightarrow> run_commands ee self cs)"

definition query_commands :: "('l, 'm) engine_env \<Rightarrow> ('l, 'm) engine \<Rightarrow> string \<Rightarrow> command list" where
  "query_commands ee self query_str =
     (case parse (ee_value_parsers ee) (en_parser self) query_str of
        Inl e \<Rightarrow> []
      | Inr q \<Rightarrow>
          (case engine_reader ee self of
             Inl e \<Rightarrow> []
           | Inr (reader, self) \<Rightarrow>
               (case reader_search (ev_codec (ee_env ee)) reader q of
                  Inl e \<Rightarrow> []
                | Inr results \<Rightarrow> run_commands ee self (map (\<lambda>h. DeleteCommand (sd_doc_id h)) (sr_hits results)))))"

definition transaction_commands ::
  "('l, 'm) engine_env \<Rightarrow> ('l, 'm) engine \<Rightarrow> isolation_level \<Rightarrow> (world \<Rightarrow> transaction \<Rightarrow> unit result \<times> transaction) \<Rightarrow> command list" where
  "transaction_commands ee self isolation f =
     (let (tx, self) = engine_begin_transaction self isolation
      in case f (iw_world (en_writer self)) tx of
           (Inl e, tx) \<Rightarrow> []
         | (Inr _, tx) \<Rightarrow>
             (case tx_commit (ev_codec (ee_env ee)) (ee_order ee) (iw_world (en_writer self)) (iw_mvcc (en_writer self)) tx of
                (Inl e, tx) \<Rightarrow> []
              | (Inr ops, tx) \<Rightarrow> run_commands ee self (concat (map op_commands ops) @ [FlushCommand])))"

fun api_commands :: "('l, 'm) engine_env \<Rightarrow> ('l, 'm) engine \<Rightarrow> api_call \<Rightarrow> command list" where
  "api_commands ee self (AddCall doc) = reaching self (AddCommand doc)"
| "api_commands ee self (DeleteCall d) = [DeleteCommand d]"
| "api_commands ee self (DeleteByQueryCall q) = query_commands ee self q"
| "api_commands ee self FlushCall = [FlushCommand]"
| "api_commands ee self CommitCall = [CommitCommand]"
| "api_commands ee self (TransactionCall isolation f) = transaction_commands ee self isolation f"
| "api_commands ee self (WriterAddCall doc) = [AddCommand doc]"
| "api_commands ee self (WriterDeleteCall d) = [DeleteCommand d]"
| "api_commands ee self WriterFlushCall = [FlushCommand]"
| "api_commands ee self WriterCommitCall = [CommitCommand]"
| "api_commands ee self _ = []"

text \<open>Batches, compaction and recovery are not commands, but moves of the writer of their own.\<close>

fun by_commands :: "api_call \<Rightarrow> bool" where
  "by_commands CompactCall = False"
| "by_commands WriterCompactCall = False"
| "by_commands (WriterBatchCall docs) = False"
| "by_commands (RecoverCall names) = False"
| "by_commands _ = True"

fun api_moves :: "('l, 'm) engine_env \<Rightarrow> ('l, 'm) engine \<Rightarrow> api_call \<Rightarrow> writer_move list" where
  "api_moves ee self CompactCall = [CompactMove]"
| "api_moves ee self WriterCompactCall = [CompactMove]"
| "api_moves ee self (WriterBatchCall docs) = [BatchMove docs]"
| "api_moves ee self (RecoverCall names) = [RecoverMove names]"
| "api_moves ee self call = map CommandMove (api_commands ee self call)"

fun api_trace :: "('l, 'm) engine_env \<Rightarrow> ('l, 'm) engine \<Rightarrow> api_call list \<Rightarrow> writer_move list" where
  "api_trace ee self [] = []"
| "api_trace ee self (call # calls) = api_moves ee self call @ api_trace ee (api_step ee self call) calls"

subsection \<open>Calls refine the writer's specification\<close>

definition writer_do :: "env \<Rightarrow> index_writer \<Rightarrow> command list \<Rightarrow> index_writer" where
  "writer_do ev = foldl (\<lambda>w c. snd (writer_step ev w c))"

lemma writer_do_simps [simp]:
  "writer_do ev w [] = w" "writer_do ev w (c # cs) = writer_do ev (snd (writer_step ev w c)) cs"
  "writer_do ev w (cs @ ds) = writer_do ev (writer_do ev w cs) ds"
  by (simp_all add: writer_do_def)

lemma writer_run_do: "writer_run ev w cs = (Ok (), w') \<Longrightarrow> w' = writer_do ev w cs"
  by (induction cs arbitrary: w) (auto split: prod.splits sum.splits)

lemma with_writer_snd: "en_writer (snd (with_writer f self)) = snd (f (en_writer self))"
  by (simp add: with_writer_def split: prod.splits)

lemma memory_keeps_writer:
  "en_writer (snd (track_allocation self n)) = en_writer self" "en_writer (snd (maybe_reclaim_memory self)) = en_writer self"
  "en_writer (track_release self n) = en_writer self"
  by (auto simp: track_allocation_def maybe_reclaim_memory_def track_release_def split: option.splits prod.splits)

lemma admit_document_writer: "en_writer (snd (admit_document self doc)) = en_writer self"
  using memory_keeps_writer(1) [of self "document_size doc"]
  by (auto simp: admit_document_def memory_keeps_writer(2) split: prod.splits sum.splits option.splits)

lemma admit_document_count: "isl (fst (admit_document (self\<lparr>en_write_count := n\<rparr>) doc)) = isl (fst (admit_document self doc))"
  by (auto simp: admit_document_def track_allocation_def get_memory_pressure_def maybe_reclaim_memory_def
      split: prod.splits sum.splits option.splits)

lemma engine_write_admits:
  "engine_write_document ee self doc =
     (case admit_document (self\<lparr>en_write_count := en_write_count self + 1\<rparr>) doc of
        (Inl e, self) \<Rightarrow> (Err e, self)
      | (Inr _, self) \<Rightarrow> with_writer (\<lambda>w. iw_add_document (ee_env ee) w doc) self)"
  by (auto simp: engine_write_document_def admit_document_def Let_def split: prod.splits sum.splits)

lemma engine_step_do:
  "en_writer (snd (engine_step ee self c)) = writer_do (ee_env ee) (en_writer self) (reaching self c)"
proof (cases c)
  case (AddCommand doc)
  let ?self = "self\<lparr>en_write_count := en_write_count self + 1\<rparr>"
  have same: "en_writer (snd (admit_document ?self doc)) = en_writer self" using admit_document_writer [of ?self doc] by simp
  have "isl (fst (admit_document ?self doc)) = isl (fst (admit_document self doc))" by (rule admit_document_count)
  then show ?thesis
    using AddCommand same
    by (cases "admit_document ?self doc"; cases "fst (admit_document ?self doc)") (auto simp: engine_write_admits with_writer_snd)
qed (simp_all add: delete_document_by_id_def Let_def flush_segments_def commit_wal_def with_writer_snd memory_keeps_writer)

lemma engine_run_do:
  "en_writer (snd (engine_run ee self cs)) = writer_do (ee_env ee) (en_writer self) (run_commands ee self cs)"
proof (induction cs arbitrary: self)
  case (Cons c cs)
  obtain r self1 where st: "engine_step ee self c = (r, self1)" by fastforce
  with engine_step_do [of ee self c] Cons.IH [of self1] show ?case by (cases r) auto
qed simp

lemma delete_all_run:
  "snd (delete_all ee self ds n) = snd (engine_run ee self (map DeleteCommand ds))"
proof (induction ds arbitrary: self n)
  case (Cons d ds)
  then show ?case by (auto split: prod.splits sum.splits)
qed simp

lemma engine_reader_writer: "engine_reader ee self = Ok (reader, self') \<Longrightarrow> en_writer self' = en_writer self"
  by (auto simp: engine_reader_def and_then_Ok_iff)

lemma delete_by_query_writer:
  "en_writer (snd (delete_by_query ee self q)) = writer_do (ee_env ee) (en_writer self) (query_commands ee self q)"
  by (auto simp: delete_by_query_def query_commands_def delete_all_run engine_run_do comp_def
      dest: engine_reader_writer split: sum.splits prod.splits)

lemma run_search_writer: "en_writer (snd (run_search ee self q limit cfg)) = en_writer self"
  by (auto simp: run_search_def Let_def dest: engine_reader_writer split: sum.splits prod.splits option.splits)

lemma search_n_writer: "en_writer (snd (search_n ee self q limit)) = en_writer self"
  by (simp add: search_n_def case_prod_beta run_search_writer)

lemma replica_search_writer: "en_writer (snd (replica_search_with_limit ee self q limit)) = en_writer self"
  by (auto simp: replica_search_with_limit_def Let_def dest: engine_reader_writer split: sum.splits prod.splits option.splits)

lemma health_check_writer: "en_writer (snd (run_health_check ee lock_free self)) = en_writer self"
  by (auto simp: run_health_check_def check_reader_pool_def Let_def dest: engine_reader_writer split: sum.splits prod.splits)

lemma begin_transaction_writer: "engine_begin_transaction self isolation = (tx, self') \<Longrightarrow> en_writer self' = en_writer self"
  by (auto simp: engine_begin_transaction_def split: prod.splits)

lemma begin_transaction_snd: "en_writer (snd (engine_begin_transaction self isolation)) = en_writer self"
  by (rule begin_transaction_writer [OF prod.collapse [symmetric]])

lemma transaction_writer:
  "en_writer (snd (with_transaction ee self isolation f)) =
     writer_do (ee_env ee) (en_writer self) (transaction_commands ee self isolation f)"
proof -
  obtain tx self1 where bg: "engine_begin_transaction self isolation = (tx, self1)" by fastforce
  obtain r tx1 where f: "f (iw_world (en_writer self1)) tx = (r, tx1)" by fastforce
  show ?thesis
  proof (cases r)
    case (Inl e)
    then show ?thesis
      using bg f begin_transaction_writer [OF bg]
      by (simp add: with_transaction_def transaction_commands_def split: prod.splits)
  next
    case (Inr u)
    obtain c tx2 where c: "tx_commit (ev_codec (ee_env ee)) (ee_order ee) (iw_world (en_writer self1)) (iw_mvcc (en_writer self1)) tx1 = (c, tx2)"
      by fastforce
    have "snd (with_transaction ee self isolation f) = (case c of Inl e \<Rightarrow> self1 |
        Inr ops \<Rightarrow> snd (engine_run ee self1 (concat (map op_commands ops) @ [FlushCommand])))"
      using bg f c Inr
      by (auto simp: with_transaction_def apply_transaction_ops_run engine_run_append split: sum.splits prod.splits)
    then show ?thesis
      using bg f c Inr begin_transaction_writer [OF bg]
      by (auto simp: transaction_commands_def engine_run_do split: sum.splits)
  qed
qed

lemmas api_writer = engine_step_do [of _ _ "AddCommand _", simplified] engine_step_do [of _ _ "DeleteCommand _", simplified]
  delete_by_query_writer run_search_writer search_n_writer replica_search_writer health_check_writer transaction_writer memory_keeps_writer with_writer_snd

lemma api_step_writer:
  assumes "by_commands call"
  shows "en_writer (api_step ee self call) = writer_do (ee_env ee) (en_writer self) (api_commands ee self call)"
  using assms
  by (cases call)
    (auto simp: api_writer index_add_document_def index_delete_document_def index_delete_by_query_def index_flush_def index_commit_def
      search_with_limit_def search_debug_def index_transaction_def index_health_check_def index_enable_low_memory_mode_def index_maybe_reclaim_memory_def enable_low_memory_mode_def replica_search_def
      index_begin_transaction_def begin_transaction_snd
      write_database_add_document_def write_database_delete_document_def write_database_flush_def write_database_commit_def
      flush_segments_def commit_wal_def split: prod.splits)

lemma command_moves: "foldl (move_step ev) w (map CommandMove cs) = writer_do ev w cs"
  by (induction cs arbitrary: w) simp_all

lemma api_step_moves: "en_writer (api_step ee self call) = foldl (move_step (ee_env ee)) (en_writer self) (api_moves ee self call)"
proof (cases "by_commands call")
  case True
  then have "api_moves ee self call = map CommandMove (api_commands ee self call)" by (cases call) auto
  then show ?thesis by (simp add: api_step_writer [OF True] command_moves)
next
  case False
  then show ?thesis
    by (cases call) (simp_all add: index_compact_def index_recover_def engine_compact_def engine_recover_def
        write_database_add_documents_batch_def write_database_compact_def with_writer_snd)
qed

lemma api_trace_writer:
  "en_writer (foldl (api_step ee) self calls) = foldl (move_step (ee_env ee)) (en_writer self) (api_trace ee self calls)"
  by (induction calls arbitrary: self) (simp_all add: api_step_moves)

text \<open>
  C3: The public interface refines the writer's specification.  Whatever calls are made on an opened
  index, of the index, of a replica, of the write handle and of transactions, in any order and with
  whatever errors, the writer ends in a state that represents the specification after exactly the
  moves that the calls stand for: a search, a health check, beginning a transaction and memory
  management stand for none, an addition that the memory limit refuses for none, a deletion by query
  for one deletion for each hit, a committed transaction for its operations and a flush, a batch for
  its additions; a recovery leaves the specification as it is, and a compaction too, unless nothing
  is published, when it forgets the deleted ids.
\<close>

theorem public_calls_refine:
  assumes "index_open ee w schema cfg = Ok self" "env_laws (ee_env ee) (cf_compression cfg)" "bincode_layout (ev_codec (ee_env ee))"
    "cf_writer_batch_size cfg < 2 ^ 32" "sum_list (map move_versions (api_trace ee self calls)) < 2 ^ 64"
    "\<forall>m \<in> set (api_trace ee self calls). \<forall>d \<in> set (move_documents m). document_laws (ev_codec (ee_env ee)) (cf_compression cfg) d"
  shows "writer_rep (ee_env ee) (en_writer (foldl (api_step ee) self calls))
           (foldl (spec_move (cf_writer_batch_size cfg)) spec_empty (api_trace ee self calls))"
proof -
  have "assemble ee w schema cfg = Ok self" using assms(1) by (simp add: index_open_def engine_new_def)
  note f = assemble_fields [OF this]
  have "spec_ok n D spec_empty" for n D by (simp add: spec_ok_def spec_within_def spec_empty_def)
  then show ?thesis
    using moves_refine [OF f(9), of "api_trace ee self calls"] assms(2-6) f(6,7,8) api_trace_writer [of ee self calls]
    by (simp add: mvcc_new_def)
qed

theorem public_calls_refine_witness:
  "writer_rep plain_env (en_writer (foldl (api_step plain_engine_env) (plain_engine 1)
      [AddCall (document_new 4), DeleteCall 4, SearchCall [] 10, CompactCall, WriterBatchCall [document_new 5]]))
     \<lparr>sp_published = [[document_new 4], [document_new 5]], sp_buffer = [], sp_deleted = {}\<rparr>"
proof -
  let ?calls = "[AddCall (document_new 4), DeleteCall 4, SearchCall [] 10, CompactCall, WriterBatchCall [document_new 5]]"
  let ?ms = "[CommandMove (AddCommand (document_new 4)), CommandMove (DeleteCommand 4), CompactMove, BatchMove [document_new 5]]"
  note f = assemble_fields [OF plain_engine_assembled [of 1]]
  have open_ok: "index_open plain_engine_env empty_world schema_new (plain_config 1) = Ok (plain_engine 1)"
    by (simp add: index_open_def engine_new_def plain_engine_assembled)
  have trace: "api_trace plain_engine_env (plain_engine 1) ?calls = ?ms"
    using f(1) by (simp add: admit_document_def track_allocation_def get_memory_pressure_def)
  have spec: "foldl (spec_move 1) spec_empty ?ms = \<lparr>sp_published = [[document_new 4], [document_new 5]], sp_buffer = [], sp_deleted = {}\<rparr>"
    by (simp add: spec_empty_def spec_add_def spec_flush_def spec_compact_def)
  have env: "ee_env plain_engine_env = plain_env" "cf_writer_batch_size (plain_config 1) = 1"
    by (simp_all add: plain_engine_env_def plain_engine_env_laws(4))
  have "bincode_layout (ev_codec (ee_env plain_engine_env))" by (simp add: env plain_env_def plain_codec_layout)
  moreover have "sum_list (map move_versions ?ms) < 2 ^ 64" by (simp add: move_versions_def)
  moreover have "\<forall>m \<in> set ?ms. \<forall>d \<in> set (move_documents m).
      document_laws (ev_codec (ee_env plain_engine_env)) (cf_compression (plain_config 1)) d"
    using plain_engine_env_laws(3) [where n = 1] by (simp add: small_id_def)
  ultimately show ?thesis
    using public_calls_refine [OF open_ok plain_engine_env_laws(1), of ?calls] unfolding trace env spec by simp
qed

subsection \<open>What no call changes\<close>

text \<open>The parts that writing and memory management leave alone.\<close>

definition engine_parts :: "('l, 'm) engine \<Rightarrow> config \<times> schema \<times> query_parser \<times> query_executor \<times> 'm reader_pool" where
  "engine_parts self = (en_config self, en_schema self, en_parser self, en_executor self, en_reader_pool self)"

text \<open>
  The type of an engine: its fixed parts, and a reader cache within its bound in which every reader is kept
  once, under the version of its snapshot and with the deletions of that snapshot.
\<close>

definition engine_typed :: "config \<Rightarrow> schema \<Rightarrow> 'm match_context \<Rightarrow> ('l, 'm) engine \<Rightarrow> bool" where
  "engine_typed cfg schema cx self \<longleftrightarrow>
     (case engine_parts self of (c, s, p, x, pool) \<Rightarrow>
        c = cfg \<and> s = schema \<and> p = query_parser_new \<and> x = query_executor_new \<and>
        rp_max_readers pool = cf_max_readers cfg \<and> rp_context pool = cx \<and> distinct (map fst (rp_reader_cache pool)) \<and>
        length (rp_reader_cache pool) \<le> cf_max_readers cfg \<and>
        (\<forall>(v, r) \<in> set (rp_reader_cache pool).
           sn_version (ir_snapshot r) = v \<and> ir_deleted_docs r = sn_deleted_docs (ir_snapshot r) \<and> ir_context r = cx))"

lemma engine_typed_parts: "engine_parts self' = engine_parts self \<Longrightarrow> engine_typed cfg schema cx self' = engine_typed cfg schema cx self"
  by (simp add: engine_typed_def)

lemma with_writer_parts: "engine_parts (snd (with_writer f self)) = engine_parts self"
  by (simp add: with_writer_def engine_parts_def split: prod.splits)

lemma memory_parts:
  "engine_parts (snd (track_allocation self n)) = engine_parts self" "engine_parts (snd (maybe_reclaim_memory self)) = engine_parts self"
  "engine_parts (track_release self n) = engine_parts self" "engine_parts (self\<lparr>en_write_count := k\<rparr>) = engine_parts self"
  "engine_parts (self\<lparr>en_query_count := k\<rparr>) = engine_parts self" "engine_parts (self\<lparr>en_cache := cache\<rparr>) = engine_parts self"
  "engine_parts (self\<lparr>en_transactions := k\<rparr>) = engine_parts self" "engine_parts (enable_low_memory_mode self lm) = engine_parts self"
  by (auto simp: track_allocation_def maybe_reclaim_memory_def track_release_def enable_low_memory_mode_def engine_parts_def
      split: option.splits prod.splits)

lemma admit_document_parts: "engine_parts (snd (admit_document self doc)) = engine_parts self"
  using memory_parts(1) [of self "document_size doc"]
  by (auto simp: admit_document_def memory_parts(2) split: prod.splits sum.splits option.splits)

lemma engine_step_parts: "engine_parts (snd (engine_step ee self c)) = engine_parts self"
proof (cases c)
  case (AddCommand doc)
  let ?self = "self\<lparr>en_write_count := en_write_count self + 1\<rparr>"
  have "engine_parts (snd (admit_document ?self doc)) = engine_parts self" by (simp add: admit_document_parts memory_parts)
  then show ?thesis
    using AddCommand
    by (cases "admit_document ?self doc"; cases "fst (admit_document ?self doc)") (auto simp: engine_write_admits with_writer_parts)
qed (simp_all add: delete_document_by_id_def Let_def flush_segments_def commit_wal_def with_writer_parts memory_parts)

lemma engine_run_parts: "engine_parts (snd (engine_run ee self cs)) = engine_parts self"
proof (induction cs arbitrary: self)
  case (Cons c cs)
  obtain r self1 where st: "engine_step ee self c = (r, self1)" by fastforce
  with engine_step_parts [of ee self c] Cons.IH [of self1] show ?case by (cases r) auto
qed simp

lemma engine_reader_typed:
  assumes "engine_typed cfg schema cx self" "engine_reader ee self = Ok (reader, self')"
  shows "engine_typed cfg schema cx self'"
proof -
  let ?pool = "en_reader_pool self" and ?m = "iw_mvcc (en_writer self)"
  let ?P = "\<lambda>v r. sn_version (ir_snapshot r) = v \<and> ir_deleted_docs r = sn_deleted_docs (ir_snapshot r) \<and> ir_context r = cx"
  have pool: "distinct (map fst (rp_reader_cache ?pool))" "length (rp_reader_cache ?pool) \<le> rp_max_readers ?pool"
    "\<forall>(v, r) \<in> set (rp_reader_cache ?pool). ?P v r" "rp_context ?pool = cx"
    using assms(1) by (auto simp: engine_typed_def engine_parts_def)
  obtain pool' where got: "get_reader (ev_codec (ee_env ee)) (iw_world (en_writer self)) ?m ?pool = Ok (reader, pool')"
    "self' = self\<lparr>en_reader_pool := pool'\<rparr>"
    using assms(2) by (auto simp: engine_reader_def and_then_Ok_iff)
  have new: "?P (sn_version (current_snapshot ?m)) \<lparr>ir_snapshot = current_snapshot ?m, ir_segments = rs,
      ir_deleted_docs = sn_deleted_docs (current_snapshot ?m), ir_context = rp_context ?pool\<rparr>" for rs
    using pool(4) by simp
  from get_reader_keeps [of ?pool ?P ?m, OF pool(1-3) new] got(1)
  have "distinct (map fst (rp_reader_cache pool'))" "length (rp_reader_cache pool') \<le> rp_max_readers ?pool"
    "\<forall>(v, r) \<in> set (rp_reader_cache pool'). ?P v r" "rp_max_readers pool' = rp_max_readers ?pool" "rp_context pool' = rp_context ?pool"
    by (metis (no_types, lifting) old.sum.inject(2) prod.inject)+
  with assms(1) got(2) show ?thesis by (simp add: engine_typed_def engine_parts_def)
qed

lemma search_typed:
  assumes "engine_typed cfg schema cx self"
  shows "engine_typed cfg schema cx (snd (run_search ee self q limit c))"
    "engine_typed cfg schema cx (snd (replica_search_with_limit ee self q limit))"
    "engine_typed cfg schema cx (snd (run_health_check ee lock_free self))"
    "engine_typed cfg schema cx (snd (delete_by_query ee self q))"
proof -
  have typed: "engine_typed cfg schema cx (self\<lparr>en_query_count := k, en_cache := ca\<rparr>)" "engine_typed cfg schema cx (self\<lparr>en_cache := ca\<rparr>)" for k ca
    using assms by (simp_all add: engine_typed_def engine_parts_def)
  have put: "engine_typed cfg schema cx (s\<lparr>en_cache := ca\<rparr>) = engine_typed cfg schema cx s" for s ca
    by (simp add: engine_typed_def engine_parts_def)
  show "engine_typed cfg schema cx (snd (run_search ee self q limit c))"
    using typed engine_reader_typed [OF typed(1)]
    by (auto simp: run_search_def Let_def put split: prod.splits option.splits sum.splits)
  show "engine_typed cfg schema cx (snd (replica_search_with_limit ee self q limit))"
    using typed engine_reader_typed [OF typed(2)]
    by (auto simp: replica_search_with_limit_def Let_def put split: prod.splits option.splits sum.splits)
  show "engine_typed cfg schema cx (snd (run_health_check ee lock_free self))"
    using assms engine_reader_typed [OF assms]
    by (auto simp: run_health_check_def check_reader_pool_def Let_def split: prod.splits sum.splits)
  show "engine_typed cfg schema cx (snd (delete_by_query ee self q))"
    using assms engine_reader_typed [OF assms]
    by (auto simp: delete_by_query_def delete_all_run engine_typed_parts [OF engine_run_parts] split: prod.splits sum.splits)
qed

lemma begin_transaction_parts: "engine_parts (snd (engine_begin_transaction self isolation)) = engine_parts self"
  by (simp add: engine_begin_transaction_def engine_parts_def split: prod.splits)

lemma transaction_parts: "engine_parts (snd (with_transaction ee self isolation f)) = engine_parts self"
proof -
  obtain tx self1 where bg: "engine_begin_transaction self isolation = (tx, self1)" by fastforce
  then have "engine_parts self1 = engine_parts self" by (auto simp: engine_begin_transaction_def engine_parts_def split: prod.splits)
  moreover have "engine_parts (snd (apply_transaction_ops ee self1 ops)) = engine_parts self1" for ops
    by (simp add: apply_transaction_ops_run engine_run_parts)
  then have "apply_transaction_ops ee self1 ops = (r, s) \<Longrightarrow> engine_parts s = engine_parts self1" for ops r s by (metis snd_conv)
  moreover have "flush_segments ee s = (r, s') \<Longrightarrow> engine_parts s' = engine_parts s" for s r s'
    using with_writer_parts [of _ s] by (metis flush_segments_def snd_conv)
  ultimately show ?thesis
    by (auto simp: with_transaction_def bg split: prod.splits sum.splits)
qed

lemma api_step_typed:
  assumes "engine_typed cfg schema cx self"
  shows "engine_typed cfg schema cx (api_step ee self call)"
proof -
  have search: "engine_typed cfg schema cx (snd (search_n ee self q limit))" for q limit
    using search_typed(1) [OF assms] by (simp add: search_n_def case_prod_beta)
  note keep = engine_typed_parts [THEN iffD2, OF _ assms]
  show ?thesis
    using search_typed [OF assms] search keep [OF engine_step_parts [of ee self "AddCommand _"]]
      keep [OF engine_step_parts [of ee self "DeleteCommand _"]]
    by (cases call)
      (auto simp: index_add_document_def index_delete_document_def index_delete_by_query_def index_flush_def index_commit_def
        index_compact_def index_recover_def search_with_limit_def search_debug_def index_transaction_def index_health_check_def index_enable_low_memory_mode_def index_maybe_reclaim_memory_def replica_search_def
        write_database_add_document_def write_database_delete_document_def write_database_flush_def write_database_commit_def
        write_database_add_documents_batch_def write_database_compact_def index_begin_transaction_def
        flush_segments_def commit_wal_def engine_compact_def engine_recover_def
        intro!: keep with_writer_parts transaction_parts memory_parts begin_transaction_parts)
qed

text \<open>
  C16: No call leaves the types of an engine.  After every sequence of public calls, compaction and
  recovery included, configuration, schema, parser and executor are those the engine was opened with, and
  the reader cache is within its bound and has each reader under the version of its snapshot, with
  the deletions of that snapshot.
\<close>

theorem public_calls_typed:
  assumes "index_open ee w schema cfg = Ok self"
  shows "engine_typed cfg schema ((ee_context ee)\<lparr>mx_index := inverted_index_new\<rparr>) (foldl (api_step ee) self calls)"
proof (induction calls rule: rev_induct)
  case Nil
  have "assemble ee w schema cfg = Ok self" using assms by (simp add: index_open_def engine_new_def)
  moreover from this have "en_config self = cfg" "en_schema self = schema"
    by (auto simp: assemble_def Let_def and_then_Ok_iff)
  ultimately show ?case
    using assemble_fields [of ee w schema cfg self] by (simp add: engine_typed_def engine_parts_def reader_pool_new_def)
qed (simp add: api_step_typed)

theorem public_calls_typed_witness:
  "engine_typed (plain_config 1) schema_new ((ee_context plain_engine_env)\<lparr>mx_index := inverted_index_new\<rparr>)
     (foldl (api_step plain_engine_env) (plain_engine 1) [AddCall (document_new 4), CompactCall, SearchCall [] 10])"
proof -
  have "index_open plain_engine_env empty_world schema_new (plain_config 1) = Ok (plain_engine 1)"
    by (simp add: index_open_def engine_new_def plain_engine_assembled)
  from public_calls_typed [OF this] show ?thesis .
qed

end
