(* ===== verification/Storage_Ports.thy ===== *)
theory Storage_Ports
  imports Compaction Write_Session Readers
begin

section \<open>The storage interfaces\<close>

text \<open>
  The traits \<^verbatim>\<open>SegmentSink\<close> and \<^verbatim>\<open>SegmentStore\<close> of \<^verbatim>\<open>src/writer/segment_store.rs\<close> and \<^verbatim>\<open>SegmentOpener\<close> and
  \<^verbatim>\<open>SegmentRead\<close> of \<^verbatim>\<open>src/reader/segment_opener.rs\<close> as locales, and their implementations on disk in
  \<^verbatim>\<open>src/storage/disk_segment_store.rs\<close>, \<^verbatim>\<open>disk_segment_opener.rs\<close> and \<^verbatim>\<open>src/writer/disk_wal.rs\<close>.
\<close>

subsection \<open>The implementations on disk\<close>

definition sink_write_document ::
  "env \<Rightarrow> world \<Rightarrow> segment_writer \<Rightarrow> document \<Rightarrow> unit result \<times> segment_writer \<times> world" where
  "sink_write_document ev w self doc =
     (case write_document (ev_codec ev) w self doc of
        Inl e \<Rightarrow> (Err e, self, w)
      | Inr (off, self, w) \<Rightarrow> (Ok (), self, w))"

definition sink_add_index_entry :: "segment_writer \<Rightarrow> string \<Rightarrow> posting \<Rightarrow> segment_writer" where
  "sink_add_index_entry self t p = add_index_entry self t p"

definition sink_doc_count :: "segment_writer \<Rightarrow> u32" where
  "sink_doc_count self = sg_doc_count (sw_segment self)"

definition sink_finish :: "env \<Rightarrow> world \<Rightarrow> segment_writer \<Rightarrow> segment result \<times> world" where
  "sink_finish ev w self = sw_finish (ev_codec ev) w self"

definition opener_open :: "codec \<Rightarrow> world \<Rightarrow> segment_id \<Rightarrow> segment_reader result" where
  "opener_open cd w i = segment_open cd w i"

definition read_segment_id :: "segment_reader \<Rightarrow> segment_id" where
  "read_segment_id self = rd_segment_id self"

definition read_doc_count :: "segment_reader \<Rightarrow> u32" where
  "read_doc_count self = sh_doc_count (rd_header self)"

definition read_search :: "codec \<Rightarrow> 'm match_context \<Rightarrow> segment_reader \<Rightarrow> query \<Rightarrow> scored_document list result" where
  "read_search cd cx self q = segment_search cd cx self q"

definition read_get_document :: "codec \<Rightarrow> segment_reader \<Rightarrow> doc_id \<Rightarrow> document option result" where
  "read_get_document cd self d = get_document cd self d"

subsection \<open>Writing through a store\<close>

text \<open>What a client does with a sink before it finishes it.\<close>

datatype sink_call = SinkDocument document | SinkEntry string posting

fun sink_documents :: "sink_call list \<Rightarrow> document list" where
  "sink_documents [] = []"
| "sink_documents (SinkDocument d # calls) = d # sink_documents calls"
| "sink_documents (SinkEntry t p # calls) = sink_documents calls"

fun sink_run ::
  "('w \<Rightarrow> 's \<Rightarrow> document \<Rightarrow> unit result \<times> 's \<times> 'w) \<Rightarrow> ('s \<Rightarrow> string \<Rightarrow> posting \<Rightarrow> 's) \<Rightarrow> 'w \<Rightarrow> 's \<Rightarrow> sink_call list
     \<Rightarrow> unit result \<times> 's \<times> 'w" where
  "sink_run write_doc add_entry w s [] = (Ok (), s, w)"
| "sink_run write_doc add_entry w s (SinkDocument d # calls) =
     (case write_doc w s d of
        (Inl e, s, w) \<Rightarrow> (Err e, s, w)
      | (Inr _, s, w) \<Rightarrow> sink_run write_doc add_entry w s calls)"
| "sink_run write_doc add_entry w s (SinkEntry t p # calls) = sink_run write_doc add_entry w (add_entry s t p) calls"

locale segment_sink =
  fixes holds :: "'w \<Rightarrow> 's \<Rightarrow> document list \<Rightarrow> bool" and storable :: "document \<Rightarrow> bool"
    and write_doc :: "'w \<Rightarrow> 's \<Rightarrow> document \<Rightarrow> unit result \<times> 's \<times> 'w" and add_entry :: "'s \<Rightarrow> string \<Rightarrow> posting \<Rightarrow> 's"
    and doc_count :: "'s \<Rightarrow> u32" and finish :: "'w \<Rightarrow> 's \<Rightarrow> segment result \<times> 'w"
    and stored :: "'w \<Rightarrow> segment \<Rightarrow> document list \<Rightarrow> bool"
  assumes write_holds: "holds w s docs \<Longrightarrow> storable d \<Longrightarrow>
      \<exists>s' w'. write_doc w s d = (Ok (), s', w') \<and> holds w' s' (docs @ [d])"
    and entry_holds: "holds w s docs \<Longrightarrow> holds w (add_entry s t p) docs"
    and count_holds: "holds w s docs \<Longrightarrow> doc_count s = of_nat (length docs)"
    and finish_stored: "holds w s docs \<Longrightarrow> length docs < 2 ^ 32 \<Longrightarrow> \<exists>g w'. finish w s = (Ok g, w') \<and> stored w' g docs"
begin

lemma run_holds:
  "holds w s docs \<Longrightarrow> \<forall>d \<in> set (sink_documents calls). storable d \<Longrightarrow>
     \<exists>s' w'. sink_run write_doc add_entry w s calls = (Ok (), s', w') \<and> holds w' s' (docs @ sink_documents calls)"
proof (induction calls arbitrary: w s docs rule: sink_documents.induct)
  case (2 d calls)
  obtain s1 w1 where "write_doc w s d = (Ok (), s1, w1)" "holds w1 s1 (docs @ [d])"
    using write_holds [OF "2.prems"(1), of d] "2.prems"(2) by auto
  with "2.IH" [of w1 s1 "docs @ [d]"] "2.prems"(2) show ?case by auto
next
  case (3 t p calls)
  then show ?case using entry_holds [of w s docs t p] by auto
qed auto

end

text \<open>
  A store makes empty sinks, and a finished segment can be opened: the reader counts its documents and
  finds those that satisfy a query.
\<close>

locale segment_store = segment_sink holds storable write_doc add_entry doc_count finish stored
  for holds :: "'w \<Rightarrow> 's \<Rightarrow> document list \<Rightarrow> bool" and storable write_doc add_entry doc_count finish stored +
  fixes ready :: bool and create :: "'w \<Rightarrow> 's \<times> 'w" and open_segment :: "'w \<Rightarrow> segment \<Rightarrow> 'r result"
    and read_count :: "'r \<Rightarrow> u32" and search_segment :: "'r \<Rightarrow> 'q \<Rightarrow> scored_document list result"
    and fits :: "'q \<Rightarrow> document \<Rightarrow> bool"
  assumes create_holds: "ready \<Longrightarrow> create w = (s, w') \<Longrightarrow> holds w' s []"
    and open_stored: "stored w g docs \<Longrightarrow> \<exists>r. open_segment w g = Ok r \<and> unat (read_count r) = length docs \<and>
      (\<forall>q. search_segment r q = Ok (map hit (filter (fits q) docs)))"
begin

lemma store_roundtrip:
  assumes "ready" "create w = (s, w0)" "\<forall>d \<in> set (sink_documents calls). storable d" "length (sink_documents calls) < 2 ^ 32"
  shows "\<exists>s1 w1 g w2 r. sink_run write_doc add_entry w0 s calls = (Ok (), s1, w1) \<and>
           doc_count s1 = of_nat (length (sink_documents calls)) \<and> finish w1 s1 = (Ok g, w2) \<and>
           stored w2 g (sink_documents calls) \<and> open_segment w2 g = Ok r \<and>
           unat (read_count r) = length (sink_documents calls) \<and>
           (\<forall>q. search_segment r q = Ok (map hit (filter (fits q) (sink_documents calls))))"
proof -
  obtain s1 w1 where run: "sink_run write_doc add_entry w0 s calls = (Ok (), s1, w1)" "holds w1 s1 (sink_documents calls)"
    using run_holds [OF create_holds [OF assms(1,2)] assms(3)] by auto
  then obtain g w2 where fin: "finish w1 s1 = (Ok g, w2)" "stored w2 g (sink_documents calls)"
    using finish_stored [OF run(2) assms(4)] by blast
  with run count_holds [OF run(2)] open_stored [OF fin(2)] show ?thesis by blast
qed

end

definition sink_holds :: "env \<Rightarrow> 'm match_context \<Rightarrow> world \<Rightarrow> segment_writer \<Rightarrow> document list \<Rightarrow> bool" where
  "sink_holds ev cx w self docs \<longleftrightarrow>
     env_laws ev LZ4 \<and> index_ok (mx_index cx) \<and> writer_holds (ev_codec ev) w self docs \<and> sw_compression self = LZ4 \<and>
     (\<forall>d \<in> set docs. document_laws (ev_codec ev) LZ4 d)"

definition disk_stored :: "env \<Rightarrow> 'm match_context \<Rightarrow> world \<Rightarrow> segment \<Rightarrow> document list \<Rightarrow> bool" where
  "disk_stored ev cx w g docs \<longleftrightarrow>
     env_laws ev LZ4 \<and> index_ok (mx_index cx) \<and> segment_file_holds (ev_codec ev) w (sg_id g) LZ4 docs \<and> length docs < 2 ^ 32 \<and>
     (\<forall>d \<in> set docs. document_laws (ev_codec ev) LZ4 d)"

text \<open>Opening a segment file that holds documents and searching in it.\<close>

lemma opened_segment:
  assumes "header_laws (ev_codec ev)" "index_ok (mx_index cx)" "segment_file_holds (ev_codec ev) w i c docs"
    "length docs < 2 ^ 32" "\<forall>d \<in> set docs. document_laws (ev_codec ev) c d"
  shows "\<exists>r. opener_open (ev_codec ev) w i = Ok r \<and> unat (read_doc_count r) = length docs \<and>
           (\<forall>q. read_search (ev_codec ev) cx r q = Ok (map hit (filter (\<lambda>d. satisfies cx d q) docs)))"
proof -
  obtain rd where rd: "segment_open (ev_codec ev) w i = Ok rd" "unat (sh_doc_count (rd_header rd)) = length docs"
    using segment_open_holds [OF assms(3,1,4)] by blast
  moreover have "segment_search (ev_codec ev) cx rd q = Ok (map hit (filter (\<lambda>d. satisfies cx d q) docs))" for q
    using segment_found [OF assms, of q] rd(1) by auto
  ultimately show ?thesis by (auto simp: opener_open_def read_doc_count_def read_search_def)
qed

interpretation disk_store: segment_store "sink_holds ev cx" "document_laws (ev_codec ev) LZ4" "sink_write_document ev"
  sink_add_index_entry sink_doc_count "sink_finish ev" "disk_stored ev cx" "env_laws ev LZ4 \<and> index_ok (mx_index cx)"
  "create_sink ev" "\<lambda>w g. opener_open (ev_codec ev) w (sg_id g)" read_doc_count "read_search (ev_codec ev) cx"
  "\<lambda>q d. satisfies cx d q"
proof unfold_locales
  fix w s docs d
  assume h: "sink_holds ev cx w s docs" "document_laws (ev_codec ev) LZ4 d"
  then have "writer_holds (ev_codec ev) w s docs" "document_laws (ev_codec ev) (sw_compression s) d" by (simp_all add: sink_holds_def)
  from write_document_holds [OF this] h
  show "\<exists>s' w'. sink_write_document ev w s d = (Ok (), s', w') \<and> sink_holds ev cx w' s' (docs @ [d])"
    by (auto simp: sink_write_document_def sink_holds_def)
next
  fix w s docs t p
  assume "sink_holds ev cx w s docs"
  then show "sink_holds ev cx w (sink_add_index_entry s t p) docs"
    by (simp add: sink_holds_def sink_add_index_entry_def add_index_entry_def writer_holds_def sw_path_def)
next
  fix w s docs
  assume h: "sink_holds ev cx w s docs"
  then show "sink_doc_count s = of_nat (length docs)" by (simp add: sink_holds_def sink_doc_count_def writer_holds_def)
  assume "length docs < 2 ^ 32"
  with h sw_finish_indexed [of ev w s docs]
  show "\<exists>g w'. sink_finish ev w s = (Ok g, w') \<and> disk_stored ev cx w' g docs"
    by (auto simp: sink_holds_def sink_finish_def disk_stored_def)
next
  fix w s w'
  assume "env_laws ev LZ4 \<and> index_ok (mx_index cx)" "create_sink ev w = (s, w')"
  then show "sink_holds ev cx w' s []"
    using new_segment_writer_facts [of ev w LZ4 s w'] by (simp add: create_sink_def sink_holds_def)
next
  fix w g docs
  assume "disk_stored ev cx w g docs"
  then show "\<exists>r. opener_open (ev_codec ev) w (sg_id g) = Ok r \<and> unat (read_doc_count r) = length docs \<and>
      (\<forall>q. read_search (ev_codec ev) cx r q = Ok (map hit (filter (\<lambda>d. satisfies cx d q) docs)))"
    by (intro opened_segment [where c = LZ4]) (auto simp: disk_stored_def env_laws_def)
qed

text \<open>
  Iterating over a stored segment does not give back its documents: the iterator skips more bytes than
  the header has, and the first item is an error.
\<close>

lemma store_iter_misreads:
  assumes "disk_stored ev cx w g docs" "bincode_layout (ev_codec ev)" "docs \<noteq> []"
  shows "\<exists>e items. store_iter_documents (ev_codec ev) w g deleted = Ok (Err e # items)"
proof -
  have h: "header_laws (ev_codec ev)" "segment_file_holds (ev_codec ev) w (sg_id g) LZ4 docs" "length docs < 2 ^ 32"
    "\<forall>d \<in> set docs. document_laws (ev_codec ev) LZ4 d"
    using assms(1) by (simp_all add: disk_stored_def env_laws_def)
  obtain rd where rd: "segment_open (ev_codec ev) w (sg_id g) = Ok rd" using segment_open_holds [OF h(2,1,3)] by blast
  obtain e items where "iter_documents (ev_codec ev) rd = Err e # items"
    using header_size_misread [OF assms(2) h(1,4,3) assms(3) h(2) rd] by blast
  with rd show ?thesis by (simp add: store_iter_documents_def)
qed

text \<open>
  C22: What is written through a sink of the disk store is found by a reader from the opener.  Whatever
  documents and index entries are written to a new sink, in any order, the sink counts the documents
  and finishing it succeeds; opening the segment succeeds, the reader reports the number of the
  documents, and for every query its search gives exactly the documents that match, in order.  The
  store's own iterator does not: with bincode's layout of the header its first item is an error,
  unless there are no documents.
\<close>

theorem disk_store_roundtrip:
  assumes "env_laws ev LZ4" "index_ok (mx_index cx)" "create_sink ev w = (s, w0)"
    "\<forall>d \<in> set (sink_documents calls). document_laws (ev_codec ev) LZ4 d" "length (sink_documents calls) < 2 ^ 32"
  shows "\<exists>s1 w1 g w2 r. sink_run (sink_write_document ev) sink_add_index_entry w0 s calls = (Ok (), s1, w1) \<and>
           sink_doc_count s1 = of_nat (length (sink_documents calls)) \<and> sink_finish ev w1 s1 = (Ok g, w2) \<and>
           opener_open (ev_codec ev) w2 (sg_id g) = Ok r \<and> unat (read_doc_count r) = length (sink_documents calls) \<and>
           (\<forall>q. read_search (ev_codec ev) cx r q = Ok (map hit (filter (\<lambda>d. satisfies cx d q) (sink_documents calls)))) \<and>
           (bincode_layout (ev_codec ev) \<and> sink_documents calls \<noteq> [] \<longrightarrow>
              (\<exists>e items. store_iter_documents (ev_codec ev) w2 g deleted = Ok (Err e # items)))"
  using disk_store.store_roundtrip [of ev cx w s w0 calls] assms store_iter_misreads [of ev cx _ _ "sink_documents calls" deleted]
  by blast

subsection \<open>Reading through an opener\<close>

text \<open>
  A read guard searches its segments one after the other.  What a reader promises of a stored segment: opening it succeeds, with the number of its documents,
  and searching it finds those that satisfy the query.
\<close>

fun guard_search ::
  "('r \<Rightarrow> 'q \<Rightarrow> scored_document list result) \<Rightarrow> 'q \<Rightarrow> 'r list \<Rightarrow> scored_document list \<Rightarrow> scored_document list result" where
  "guard_search search_segment q [] results = Ok results"
| "guard_search search_segment q (r # rs) results =
     and_then (search_segment r q) (\<lambda>hits. guard_search search_segment q rs (results @ hits))"

locale segment_read =
  fixes stored :: "'g \<Rightarrow> document list \<Rightarrow> bool" and open_segment :: "'g \<Rightarrow> 'r result" and doc_count :: "'r \<Rightarrow> u32"
    and search_segment :: "'r \<Rightarrow> 'q \<Rightarrow> scored_document list result" and fits :: "'q \<Rightarrow> document \<Rightarrow> bool"
  assumes open_stored: "stored g docs \<Longrightarrow> \<exists>r. open_segment g = Ok r \<and> unat (doc_count r) = length docs \<and>
      (\<forall>q. search_segment r q = Ok (map hit (filter (fits q) docs)))"
begin

lemma guard_exact:
  assumes "list_all2 stored gs docss"
  shows "\<exists>rs. try_map open_segment gs = Ok rs \<and> (\<forall>q acc. guard_search search_segment q rs acc = Ok (acc @ map hit (filter (fits q) (concat docss)))) \<and>
           sum_list (map (\<lambda>r. unat (doc_count r)) rs) = length (concat docss)"
  using assms
proof (induction rule: list_all2_induct)
  case (Cons g gs docs docss)
  then obtain rs where rs: "try_map open_segment gs = Ok rs" "\<And>q acc. guard_search search_segment q rs acc = Ok (acc @ map hit (filter (fits q) (concat docss)))"
    "sum_list (map (\<lambda>r. unat (doc_count r)) rs) = length (concat docss)" by blast
  obtain r where "open_segment g = Ok r" "unat (doc_count r) = length docs" "\<And>q. search_segment r q = Ok (map hit (filter (fits q) docs))"
    using open_stored [OF Cons.hyps(1)] by blast
  with rs show ?case by (intro exI [of _ "r # rs"]) simp
qed simp

end

definition disk_readable :: "env \<Rightarrow> 'm match_context \<Rightarrow> world \<Rightarrow> compression_type \<Rightarrow> segment_id \<Rightarrow> document list \<Rightarrow> bool" where
  "disk_readable ev cx w c i docs \<longleftrightarrow>
     header_laws (ev_codec ev) \<and> index_ok (mx_index cx) \<and> segment_file_holds (ev_codec ev) w i c docs \<and> length docs < 2 ^ 32 \<and>
     (\<forall>d \<in> set docs. document_laws (ev_codec ev) c d)"

interpretation disk_read: segment_read "disk_readable ev cx w c" "opener_open (ev_codec ev) w" read_doc_count
  "read_search (ev_codec ev) cx" "\<lambda>q d. satisfies cx d q"
  by unfold_locales (rule opened_segment, auto simp: disk_readable_def)

lemma read_guard_generic: "search_all cd cx q rds acc = guard_search (read_search cd cx) q rds acc"
  by (induction rds arbitrary: acc) (simp_all add: read_search_def)

text \<open>
  A read guard over the disk is exact.  If the segment files hold certain documents, opening all of
  them succeeds, the readers count the documents, and for every query the guard returns exactly the
  documents that satisfy it, segment by segment and in order.
\<close>

theorem read_guard_exact:
  assumes "env_laws ev c" "index_ok (mx_index cx)"
    "list_all2 (\<lambda>i docs. segment_file_holds (ev_codec ev) w i c docs \<and> length docs < 2 ^ 32 \<and>
       (\<forall>d \<in> set docs. document_laws (ev_codec ev) c d)) ids docss"
  shows "\<exists>rds. try_map (opener_open (ev_codec ev) w) ids = Ok rds \<and>
           sum_list (map (\<lambda>r. unat (read_doc_count r)) rds) = length (concat docss) \<and>
           (\<forall>q. read_guard_search (ev_codec ev) cx \<lparr>rg_snapshot = sn, rg_segments = rds\<rparr> q =
                  Ok (map hit (filter (\<lambda>d. satisfies cx d q) (concat docss))))"
proof -
  have "list_all2 (disk_readable ev cx w c) ids docss"
    by (rule list_all2_mono [OF assms(3)]) (use assms(1,2) in \<open>simp add: disk_readable_def env_laws_def\<close>)
  from disk_read.guard_exact [OF this] show ?thesis by (auto simp: read_guard_search_def read_guard_generic)
qed

subsection \<open>A store and a reader at work\<close>

theorem read_guard_exact_witness:
  "\<exists>w (g :: segment) rds. segment_file_holds (ev_codec lz4_env) w (sg_id g) LZ4 [document_new 4] \<and>
     try_map (opener_open (ev_codec lz4_env) w) [sg_id g] = Ok rds \<and>
     read_guard_search (ev_codec lz4_env) empty_context \<lparr>rg_snapshot = snapshot_default, rg_segments = rds\<rparr> MatchAll = Ok [hit (document_new 4)]"
proof -
  have laws: "\<forall>d \<in> set [document_new 4]. document_laws (ev_codec lz4_env) LZ4 d" by (simp add: lz4_env_laws small_id_def)
  have "header_laws (ev_codec lz4_env)" using lz4_env_laws(1) by (simp add: env_laws_def)
  from write_segment_holds [OF this laws, of empty_world] obtain g :: segment and w where g: "segment_file_holds (ev_codec lz4_env) w (sg_id g) LZ4 [document_new 4]" by blast
  then have "list_all2 (\<lambda>i docs. segment_file_holds (ev_codec lz4_env) w i LZ4 docs \<and> length docs < 2 ^ 32 \<and>
      (\<forall>d \<in> set docs. document_laws (ev_codec lz4_env) LZ4 d)) [sg_id g] [[document_new 4]]"
    using laws by simp
  from read_guard_exact [OF lz4_env_laws(1) _ this, of empty_context snapshot_default] obtain rds where
    "try_map (opener_open (ev_codec lz4_env) w) [sg_id g] = Ok rds"
    "\<And>q. read_guard_search (ev_codec lz4_env) empty_context \<lparr>rg_snapshot = snapshot_default, rg_segments = rds\<rparr> q =
       Ok (map hit (filter (\<lambda>d. satisfies empty_context d q) [document_new 4]))"
    by (auto simp: empty_context_def index_ok_new)
  with g show ?thesis by (intro exI [of _ w] exI [of _ g] exI [of _ rds]) simp
qed

theorem disk_store_roundtrip_witness:
  "\<exists>s w0 s1 w1 g w2 r. create_sink lz4_env empty_world = (s, w0) \<and>
     sink_run (sink_write_document lz4_env) sink_add_index_entry w0 s
       [SinkDocument (document_new 4), SinkDocument (document_new 5)] = (Ok (), s1, w1) \<and>
     sink_finish lz4_env w1 s1 = (Ok g, w2) \<and> opener_open (ev_codec lz4_env) w2 (sg_id g) = Ok r \<and>
     read_search (ev_codec lz4_env) empty_context r MatchAll = Ok [hit (document_new 4), hit (document_new 5)]"
proof -
  let ?calls = "[SinkDocument (document_new 4), SinkDocument (document_new 5)]"
  obtain s w0 where cr: "create_sink lz4_env empty_world = (s, w0)" by fastforce
  have laws: "\<forall>d \<in> set (sink_documents ?calls). document_laws (ev_codec lz4_env) LZ4 d"
    using lz4_env_laws(2) by (simp add: small_id_def)
  have ok: "index_ok (mx_index empty_context)" by (simp add: empty_context_def index_ok_new)
  have "filter (\<lambda>d. satisfies empty_context d MatchAll) (sink_documents ?calls) = sink_documents ?calls" by simp
  with disk_store_roundtrip [OF lz4_env_laws(1) ok cr laws] cr show ?thesis by fastforce
qed

end
