(* ===== verification/Builders.thy ===== *)
theory Builders
  imports Executor Write_Session
begin

section \<open>Visitors, builders and statistics\<close>

text \<open>
  The dispatch of \<^verbatim>\<open>Query::accept\<close> (\<^verbatim>\<open>src/query/ast.rs\<close>, \<^verbatim>\<open>src/query/visitor.rs\<close>) with its three
  visitors, the builders of boolean queries, of the search pipeline (\<^verbatim>\<open>src/search/pipeline.rs\<close>) and of a
  writer context (\<^verbatim>\<open>src/writer/builder.rs\<close>), and the statistics of the inverted index.
\<close>

subsection \<open>The query visitor\<close>

text \<open>An implementation of the trait \<^verbatim>\<open>QueryVisitor\<close> is one function for each kind of query.\<close>

record 'o query_visitor =
  qv_term :: "term_query \<Rightarrow> 'o result"
  qv_phrase :: "phrase_query \<Rightarrow> 'o result"
  qv_bool :: "query \<Rightarrow> 'o result"
  qv_range :: "range_query \<Rightarrow> 'o result"
  qv_prefix :: "prefix_query \<Rightarrow> 'o result"
  qv_wildcard :: "wildcard_query \<Rightarrow> 'o result"
  qv_fuzzy :: "fuzzy_query \<Rightarrow> 'o result"
  qv_match_all :: "'o result"

fun accept :: "query \<Rightarrow> 'o query_visitor \<Rightarrow> 'o result" where
  "accept (Term q) visitor = qv_term visitor q"
| "accept (Phrase q) visitor = qv_phrase visitor q"
| "accept (Bool must should must_not filters msm boost) visitor = qv_bool visitor (Bool must should must_not filters msm boost)"
| "accept (Range q) visitor = qv_range visitor q"
| "accept (Prefix q) visitor = qv_prefix visitor q"
| "accept (Wildcard q) visitor = qv_wildcard visitor q"
| "accept (Fuzzy q) visitor = qv_fuzzy visitor q"
| "accept MatchAll visitor = qv_match_all visitor"

text \<open>The three visitors; each visits the clauses of a boolean query with \<open>visit\<close>, its own dispatch.\<close>

definition match_visitor :: "'m match_context \<Rightarrow> document \<Rightarrow> (query \<Rightarrow> bool result) \<Rightarrow> bool query_visitor" where
  "match_visitor cx doc visit =
     \<lparr>qv_term = visit_term cx doc, qv_phrase = visit_phrase cx doc,
      qv_bool = (\<lambda>q.
        and_then (try_all visit (bq_must q)) (\<lambda>b. if \<not> b then Ok False else
        and_then (try_any visit (bq_must_not q)) (\<lambda>b. if b then Ok False else
        and_then (if bq_should q \<noteq> [] then try_any visit (bq_should q) else Ok True) (\<lambda>b.
          if \<not> b then Ok False else try_all visit (bq_filter q))))),
      qv_range = visit_range doc, qv_prefix = visit_prefix doc, qv_wildcard = visit_wildcard cx doc,
      qv_fuzzy = visit_fuzzy cx doc, qv_match_all = Ok True\<rparr>"

definition validation_visitor :: "validation_config \<Rightarrow> (query \<Rightarrow> unit result) \<Rightarrow> unit query_visitor" where
  "validation_visitor cfg visit =
     \<lparr>qv_term = (\<lambda>q. Ok ()), qv_phrase = (\<lambda>q. Ok ()),
      qv_bool = (\<lambda>q.
        let total_clauses = length (bq_must q) + length (bq_should q) + length (bq_must_not q)
        in if total_clauses > vc_max_bool_clauses cfg
           then Err (Error InvalidInput (''Boolean query has '' @ show_nat total_clauses @
                       '' clauses, max is '' @ show_nat (vc_max_bool_clauses cfg)))
           else try_each visit (bq_must q @ bq_should q @ bq_must_not q)),
      qv_range = (\<lambda>q. Ok ()), qv_prefix = (\<lambda>q. Ok ()), qv_wildcard = (\<lambda>q. Ok ()), qv_fuzzy = (\<lambda>q. Ok ()),
      qv_match_all = Ok ()\<rparr>"

definition plan_visitor :: "(query \<Rightarrow> logical_plan result) \<Rightarrow> logical_plan query_visitor" where
  "plan_visitor visit =
     \<lparr>qv_term = (\<lambda>q. Ok (IndexSeek (tq_field q) (tq_value q))), qv_phrase = (\<lambda>q. Ok (Scan ''content'')),
      qv_bool = (\<lambda>q.
        if bq_must q \<noteq> [] then and_then (try_map visit (bq_must q)) (\<lambda>inputs. Ok (Intersection inputs))
        else if bq_should q \<noteq> [] then and_then (try_map visit (bq_should q)) (\<lambda>inputs. Ok (Union inputs))
        else Ok (Scan ''content'')),
      qv_range = (\<lambda>q. Ok (Scan ''content'')), qv_prefix = (\<lambda>q. Ok (Scan ''content'')),
      qv_wildcard = (\<lambda>q. Ok (Scan ''content'')), qv_fuzzy = (\<lambda>q. Ok (Scan ''content'')),
      qv_match_all = Ok (Scan ''content'')\<rparr>"

text \<open>
  Matching, validation and planning are the dispatch to their visitors, in every query: a function that
  satisfies the dispatch of one of them is that function.
\<close>

lemma matching_is_accept: "matches cx doc q = accept q (match_visitor cx doc (matches cx doc))"
  by (cases q) (simp_all add: match_visitor_def Let_def cong: if_cong)

lemma validation_is_accept: "validate_clauses cfg q = accept q (validation_visitor cfg (validate_clauses cfg))"
  by (cases q) (simp_all add: validation_visitor_def Let_def cong: if_cong)

lemma planning_is_accept: "plan_visit q = accept q (plan_visitor plan_visit)"
  by (cases q) (simp_all add: plan_visitor_def Let_def cong: if_cong)

lemma try_cong:
  "(\<And>q. q \<in> set qs \<Longrightarrow> f q = g q) \<Longrightarrow> try_all f qs = try_all g qs"
  "(\<And>q. q \<in> set qs \<Longrightarrow> f q = g q) \<Longrightarrow> try_any f qs = try_any g qs"
  by (induction qs) (simp_all cong: if_cong)

lemma accept_determines_matching:
  assumes "\<forall>q. visit q = accept q (match_visitor cx doc visit)"
  shows "visit q = matches cx doc q"
proof (induction q)
  case (Bool must should must_not filters msm boost)
  have "try_all visit must = try_all (matches cx doc) must" "try_any visit must_not = try_any (matches cx doc) must_not"
    "try_any visit should = try_any (matches cx doc) should" "try_all visit filters = try_all (matches cx doc) filters"
    using Bool by (auto intro!: try_cong)
  then show ?case using assms by (simp add: match_visitor_def cong: if_cong)
qed (use assms in \<open>simp_all add: match_visitor_def\<close>)

subsection \<open>Building boolean queries\<close>

fun with_must :: "query \<Rightarrow> query \<Rightarrow> query" where
  "with_must (Bool must should must_not filters msm boost) q = Bool (must @ [q]) should must_not filters msm boost"
| "with_must self q = self"

fun with_should :: "query \<Rightarrow> query \<Rightarrow> query" where
  "with_should (Bool must should must_not filters msm boost) q = Bool must (should @ [q]) must_not filters msm boost"
| "with_should self q = self"

fun with_must_not :: "query \<Rightarrow> query \<Rightarrow> query" where
  "with_must_not (Bool must should must_not filters msm boost) q = Bool must should (must_not @ [q]) filters msm boost"
| "with_must_not self q = self"

fun with_filter :: "query \<Rightarrow> query \<Rightarrow> query" where
  "with_filter (Bool must should must_not filters msm boost) q = Bool must should must_not (filters @ [q]) msm boost"
| "with_filter self q = self"

datatype clause = Must query | Should query | MustNot query | Filtering query

fun add_clause :: "query \<Rightarrow> clause \<Rightarrow> query" where
  "add_clause self (Must q) = with_must self q"
| "add_clause self (Should q) = with_should self q"
| "add_clause self (MustNot q) = with_must_not self q"
| "add_clause self (Filtering q) = with_filter self q"

fun clause_holds :: "(query \<Rightarrow> bool) \<Rightarrow> clause \<Rightarrow> bool" where
  "clause_holds P (Must q) = P q"
| "clause_holds P (Should q) = True"
| "clause_holds P (MustNot q) = (\<not> P q)"
| "clause_holds P (Filtering q) = P q"

fun proposed :: "clause \<Rightarrow> query list" where
  "proposed (Should q) = [q]"
| "proposed _ = []"

lemma matches_built:
  assumes "index_ok (mx_index cx)"
  shows "matches cx doc (foldl add_clause (Bool must should must_not filters msm boost) cs) =
           Ok ((\<forall>q \<in> set must. satisfies cx doc q) \<and> (\<forall>q \<in> set must_not. \<not> satisfies cx doc q) \<and>
               (\<forall>q \<in> set filters. satisfies cx doc q) \<and> (\<forall>c \<in> set cs. clause_holds (satisfies cx doc) c) \<and>
               (should @ concat (map proposed cs) \<noteq> [] \<longrightarrow>
                  (\<exists>q \<in> set (should @ concat (map proposed cs)). satisfies cx doc q)))"
proof (induction cs arbitrary: must should must_not filters)
  case Nil
  note all = try_all_Ok [of _ "matches cx doc" "satisfies cx doc", OF matches_total [OF assms]]
  note any = try_any_Ok [of _ "matches cx doc" "satisfies cx doc", OF matches_total [OF assms]]
  show ?case by (auto simp: all any)
next
  case (Cons c cs)
  then show ?case by (cases c) auto
qed

text \<open>
  A query that is built clause by clause, in whatever order, matches a document exactly when all its must and
  filter clauses match, none of its must-not clauses, and one of its should clauses if it has any.
\<close>

lemma built_query_matches:
  assumes "index_ok (mx_index cx)"
  shows "matches cx doc (foldl add_clause bool_query_new cs) =
           Ok ((\<forall>c \<in> set cs. clause_holds (satisfies cx doc) c) \<and>
               (concat (map proposed cs) \<noteq> [] \<longrightarrow> (\<exists>q \<in> set (concat (map proposed cs)). satisfies cx doc q)))"
  using matches_built [OF assms, of doc "[]" "[]" "[]" "[]" None None cs] by (simp add: bool_query_new_def)

subsection \<open>Building a search pipeline\<close>

text \<open>
  The builder keeps an index that the pipeline never reads: a run takes the index of its reader, so
  the model of the pipeline has no index of its own.
\<close>

record 'm pipeline_builder =
  pb_index :: "'m inverted_index"
  pb_config :: pipeline_config

definition pipeline_builder_new :: "'m inverted_index \<Rightarrow> 'm pipeline_builder" where
  "pipeline_builder_new ix = \<lparr>pb_index = ix, pb_config = pipeline_config_default\<rparr>"

definition pipeline_builder_config :: "'m pipeline_builder \<Rightarrow> pipeline_config \<Rightarrow> 'm pipeline_builder" where
  "pipeline_builder_config self config = self\<lparr>pb_config := config\<rparr>"

text \<open>The default pipeline is the generic one with the default scorer and a collector of the best hits.\<close>

lemma default_pipeline_is_generic:
  "build_default (pb_config self) limit =
     build_pipeline (pb_config self) (bm25_score_ctx bm25_default) top_k_ops (top_k_new limit)"
  by (simp add: build_default_def build_pipeline_def)

subsection \<open>Building a writer context\<close>

definition wb_set_storage where
  "wb_set_storage x self = self\<lparr>wb_storage := Some x\<rparr>"

definition wb_set_mvcc where
  "wb_set_mvcc x self = self\<lparr>wb_mvcc := Some x\<rparr>"

definition wb_set_buffer_pool where
  "wb_set_buffer_pool x self = self\<lparr>wb_buffer_pool := Some x\<rparr>"

definition wb_set_parallel_indexer where
  "wb_set_parallel_indexer x self = self\<lparr>wb_parallel_indexer := Some x\<rparr>"

definition wb_set_analyzer where
  "wb_set_analyzer x self = self\<lparr>wb_analyzer := Some x\<rparr>"

definition wb_set_merge_policy where
  "wb_set_merge_policy x self = self\<lparr>wb_merge_policy := Some x\<rparr>"

definition wb_set_config where
  "wb_set_config x self = self\<lparr>wb_config := Some x\<rparr>"

definition wb_set_segment_store where
  "wb_set_segment_store x self = self\<lparr>wb_segment_store := Some x\<rparr>"

lemmas wb_set_defs = wb_set_storage_def wb_set_mvcc_def wb_set_buffer_pool_def wb_set_parallel_indexer_def wb_set_analyzer_def
  wb_set_merge_policy_def wb_set_config_def wb_set_segment_store_def

datatype ('st, 'mv, 'bp, 'pi, 'an, 'mp, 'cf, 'ss) setting =
    SetStorage 'st | SetMvcc 'mv | SetBufferPool 'bp | SetParallelIndexer 'pi | SetAnalyzer 'an
  | SetMergePolicy 'mp | SetConfig 'cf | SetSegmentStore 'ss

fun configure ::
  "('st, 'mv, 'bp, 'pi, 'an, 'mp, 'cf, 'ss) write_pipeline_builder \<Rightarrow> ('st, 'mv, 'bp, 'pi, 'an, 'mp, 'cf, 'ss) setting
     \<Rightarrow> ('st, 'mv, 'bp, 'pi, 'an, 'mp, 'cf, 'ss) write_pipeline_builder" where
  "configure self (SetStorage x) = wb_set_storage x self"
| "configure self (SetMvcc x) = wb_set_mvcc x self"
| "configure self (SetBufferPool x) = wb_set_buffer_pool x self"
| "configure self (SetParallelIndexer x) = wb_set_parallel_indexer x self"
| "configure self (SetAnalyzer x) = wb_set_analyzer x self"
| "configure self (SetMergePolicy x) = wb_set_merge_policy x self"
| "configure self (SetConfig x) = wb_set_config x self"
| "configure self (SetSegmentStore x) = wb_set_segment_store x self"

lemma ok_or_Ok: "ok_or x what = Ok v \<longleftrightarrow> x = Some v"
  by (auto simp: ok_or_def split: option.splits)

lemma foldl_sets:
  assumes "\<And>b c. f (g b c) \<noteq> None \<longleftrightarrow> f b \<noteq> None \<or> P c"
  shows "f (foldl g b cs) \<noteq> None \<longleftrightarrow> f b \<noteq> None \<or> (\<exists>c \<in> set cs. P c)"
proof (induction cs arbitrary: b)
  case (Cons c cs)
  show ?case unfolding foldl.simps Cons.IH assms by auto
qed simp

lemma configure_sets:
  "wb_storage (configure b c) \<noteq> None \<longleftrightarrow> wb_storage b \<noteq> None \<or> (\<exists>x. c = SetStorage x)"
  "wb_mvcc (configure b c) \<noteq> None \<longleftrightarrow> wb_mvcc b \<noteq> None \<or> (\<exists>x. c = SetMvcc x)"
  "wb_buffer_pool (configure b c) \<noteq> None \<longleftrightarrow> wb_buffer_pool b \<noteq> None \<or> (\<exists>x. c = SetBufferPool x)"
  "wb_parallel_indexer (configure b c) \<noteq> None \<longleftrightarrow> wb_parallel_indexer b \<noteq> None \<or> (\<exists>x. c = SetParallelIndexer x)"
  "wb_analyzer (configure b c) \<noteq> None \<longleftrightarrow> wb_analyzer b \<noteq> None \<or> (\<exists>x. c = SetAnalyzer x)"
  "wb_segment_store (configure b c) \<noteq> None \<longleftrightarrow> wb_segment_store b \<noteq> None \<or> (\<exists>x. c = SetSegmentStore x)"
  by (cases c; simp add: wb_set_defs)+

lemmas configured =
  foldl_sets [where f = wb_storage and g = configure and P = "\<lambda>c. \<exists>x. c = SetStorage x", OF configure_sets(1)]
  foldl_sets [where f = wb_mvcc and g = configure and P = "\<lambda>c. \<exists>x. c = SetMvcc x", OF configure_sets(2)]
  foldl_sets [where f = wb_buffer_pool and g = configure and P = "\<lambda>c. \<exists>x. c = SetBufferPool x", OF configure_sets(3)]
  foldl_sets [where f = wb_parallel_indexer and g = configure and P = "\<lambda>c. \<exists>x. c = SetParallelIndexer x", OF configure_sets(4)]
  foldl_sets [where f = wb_analyzer and g = configure and P = "\<lambda>c. \<exists>x. c = SetAnalyzer x", OF configure_sets(5)]
  foldl_sets [where f = wb_segment_store and g = configure and P = "\<lambda>c. \<exists>x. c = SetSegmentStore x", OF configure_sets(6)]

lemma build_context_Ok:
  "build_context p c b = Ok cx \<longleftrightarrow>
     (\<exists>st mv bp pi an ss. wb_storage b = Some st \<and> wb_mvcc b = Some mv \<and> wb_buffer_pool b = Some bp \<and>
        wb_parallel_indexer b = Some pi \<and> wb_analyzer b = Some an \<and> wb_segment_store b = Some ss \<and>
        cx = \<lparr>wx_storage = st, wx_mvcc = mv, wx_buffer_pool = bp, wx_parallel_indexer = pi, wx_analyzer = an,
              wx_merge_policy = unwrap_or p (wb_merge_policy b), wx_config = unwrap_or c (wb_config b), wx_segment_store = ss\<rparr>)"
  by (simp add: build_context_def and_then_Ok_iff ok_or_Ok) blast

text \<open>
  A context is built exactly when the six required parts have been set, whatever the order and the
  number of the settings.
\<close>

lemma build_context_complete:
  "(\<exists>cx. build_context p c (foldl configure write_pipeline_builder_new cs) = Ok cx) \<longleftrightarrow>
     (\<exists>x. SetStorage x \<in> set cs) \<and> (\<exists>x. SetMvcc x \<in> set cs) \<and> (\<exists>x. SetBufferPool x \<in> set cs) \<and>
     (\<exists>x. SetParallelIndexer x \<in> set cs) \<and> (\<exists>x. SetAnalyzer x \<in> set cs) \<and> (\<exists>x. SetSegmentStore x \<in> set cs)"
proof -
  let ?b = "foldl configure write_pipeline_builder_new cs"
  have "(\<exists>cx. build_context p c ?b = Ok cx) \<longleftrightarrow>
      wb_storage ?b \<noteq> None \<and> wb_mvcc ?b \<noteq> None \<and> wb_buffer_pool ?b \<noteq> None \<and> wb_parallel_indexer ?b \<noteq> None \<and>
      wb_analyzer ?b \<noteq> None \<and> wb_segment_store ?b \<noteq> None"
    by (simp add: build_context_Ok) blast
  then show ?thesis by (simp only: configured) (auto simp: write_pipeline_builder_new_def)
qed

subsection \<open>Statistics of the inverted index\<close>

record index_summary =
  su_doc_count :: nat
  su_total_tokens :: nat
  su_unique_terms :: nat
  su_avg_doc_length :: fval

definition inverted_index_stats :: "'m inverted_index \<Rightarrow> index_summary" where
  "inverted_index_stats self =
     (let unique_terms = term_count (ix_dictionary self);
          avg_doc_length = (if ix_doc_count self > 0
                            then f_div (f_of_nat (ix_total_tokens self)) (f_of_nat (ix_doc_count self)) else Fin 0)
      in \<lparr>su_doc_count = ix_doc_count self, su_total_tokens = ix_total_tokens self, su_unique_terms = unique_terms,
          su_avg_doc_length = avg_doc_length\<rparr>)"

text \<open>The keys of the map of posting lists, in the order \<open>ord\<close> in which the map yields them.\<close>

definition index_terms_iter :: "(string set \<Rightarrow> string list) \<Rightarrow> 'm inverted_index \<Rightarrow> string list" where
  "index_terms_iter ord self = ord (dom (ix_postings self))"

text \<open>
  In an index that satisfies the invariant the dictionary has one entry for each term with postings, so its
  two lengths and the number of terms agree.
\<close>

lemma inverted_index_stats_agree:
  assumes "index_ok ix"
  shows "su_unique_terms (inverted_index_stats ix) = card (dom (ix_postings ix)) \<and>
         dictionary_len (ix_dictionary ix) = card (dom (ix_postings ix)) \<and>
         (dictionary_is_empty (ix_dictionary ix) \<longleftrightarrow> ix_postings ix = Map.empty)"
proof -
  let ?tm = "td_term_map (ix_dictionary ix)" and ?infos = "td_term_infos (ix_dictionary ix)"
  have tm: "distinct (map fst ?tm)" "map snd ?tm = [0..<length ?infos]" "fst ` set ?tm = dom (ix_postings ix)"
    using assms by (simp_all add: index_ok_def dictionary_ok_def Let_def)
  from distinct_card [OF tm(1)] tm(3) have "length ?tm = card (dom (ix_postings ix))" by simp
  moreover from arg_cong [OF tm(2), of length] have "length ?infos = length ?tm" by simp
  moreover from this have "?infos = [] \<longleftrightarrow> ?tm = []" by (metis length_0_conv)
  moreover have "?tm = [] \<longleftrightarrow> dom (ix_postings ix) = {}" unfolding tm(3) [symmetric] by simp
  ultimately show ?thesis
    by (simp add: dom_eq_empty_conv inverted_index_stats_def Let_def term_count_def dictionary_len_def dictionary_is_empty_def)
qed

end
