(* ===== verification/Concurrent_Transactions.thy ===== *)
theory Concurrent_Transactions
  imports Public_Api "HOL-Library.Sublist"
begin

section \<open>Concurrent transactions\<close>

text \<open>
  Several threads inside \<^verbatim>\<open>with_transaction\<close> of \<^verbatim>\<open>src/core/engine.rs\<close> on one shared engine, while other threads use
  the index.  The method takes no lock over its whole body: it begins the transaction, runs the
  closure, commits (which validates), and then writes each operation and the flush under a lock of
  their own.  So a thread is a small state machine that moves from one lock section to the next, and
  between two moves of a thread all others may move.
\<close>

subsection \<open>Threads\<close>

text \<open>The commands that are still to be run; a thread that has returned remembers its operations if it committed.\<close>

datatype client =
    Waiting isolation_level
  | Working transaction
  | Applying "transaction_op list" "command list"
  | Returned "transaction_op list option" "unit result"

datatype client_move = Start | Use tx_call | Succeed | Fail error | Proceed

definition transaction_run :: "transaction_op list \<Rightarrow> command list" where
  "transaction_run ops = concat (map op_commands ops) @ [FlushCommand]"

text \<open>
  One move of a thread: the engine and the thread after it, and the commands that reached the
  writer.  The closure may make any calls on its transaction, even commit it or roll it back, and
  then succeeds or fails.
\<close>

fun client_step ::
  "('l, 'm) engine_env \<Rightarrow> ('l, 'm) engine \<Rightarrow> client \<Rightarrow> client_move \<Rightarrow> (('l, 'm) engine \<times> client \<times> command list) option" where
  "client_step ee self (Waiting isolation) Start =
     (case engine_begin_transaction self isolation of (tx, self) \<Rightarrow> Some (self, Working tx, []))"
| "client_step ee self (Working tx) (Use call) =
     Some (self, Working (snd (tx_call_step (ev_codec (ee_env ee)) (ee_order ee) (iw_world (en_writer self))
                                 (iw_mvcc (en_writer self)) call tx)), [])"
| "client_step ee self (Working tx) Succeed =
     (case tx_commit (ev_codec (ee_env ee)) (ee_order ee) (iw_world (en_writer self)) (iw_mvcc (en_writer self)) tx of
        (Inl e, tx) \<Rightarrow> Some (self, Returned None (Err e), [])
      | (Inr ops, tx) \<Rightarrow> Some (self, Applying ops (transaction_run ops), []))"
| "client_step ee self (Working tx) (Fail e) =
     (case tx_rollback tx of (r, tx) \<Rightarrow> Some (self, Returned None (and_then r (\<lambda>_. Err e)), []))"
| "client_step ee self (Applying ops (c # cs)) Proceed =
     (case engine_step ee self c of
        (Inl e, self') \<Rightarrow> Some (self', Returned (Some ops) (Err e), reaching self c)
      | (Inr _, self') \<Rightarrow> Some (self', Applying ops cs, reaching self c))"
| "client_step ee self (Applying ops []) Proceed = Some (self, Returned (Some ops) (Ok ()), [])"
| "client_step ee self _ _ = None"

text \<open>A call of another thread that takes the writer's lock at most once.\<close>

fun single_section :: "api_call \<Rightarrow> bool" where
  "single_section (DeleteByQueryCall q) = False"
| "single_section (TransactionCall isolation f) = False"
| "single_section call = by_commands call"

text \<open>
  The runs of the whole system, with the commands in the order in which they reached the writer,
  each with the thread that issued it.
\<close>

type_synonym ('l, 'm) system = "('l, 'm) engine \<times> client list"

inductive system_run ::
  "('l, 'm) engine_env \<Rightarrow> ('l, 'm) system \<Rightarrow> (nat option \<times> command) list \<Rightarrow> ('l, 'm) system \<Rightarrow> bool" for ee s where
  at_rest: "system_run ee s [] s"
| client_moves:
    "system_run ee s t (self, clients) \<Longrightarrow> i < length clients \<Longrightarrow>
     client_step ee self (clients ! i) move = Some (self', client, cs) \<Longrightarrow>
     system_run ee s (t @ map (Pair (Some i)) cs) (self', clients[i := client])"
| other_calls:
    "system_run ee s t (self, clients) \<Longrightarrow> single_section call \<Longrightarrow>
     system_run ee s (t @ map (Pair None) (api_commands ee self call)) (api_step ee self call, clients)"

inductive_cases system_runE: "system_run ee s t s'"

definition commands_of :: "nat option \<Rightarrow> (nat option \<times> command) list \<Rightarrow> command list" where
  "commands_of who t = map snd (filter (\<lambda>(j, c). j = who) t)"

lemma commands_of_simps [simp]:
  "commands_of who [] = []" "commands_of who (t @ u) = commands_of who t @ commands_of who u"
  "commands_of who (map (Pair j) cs) = (if j = who then cs else [])"
  by (auto simp: commands_of_def filter_map comp_def)

subsection \<open>What a thread has done so far\<close>

fun client_progress :: "client \<Rightarrow> command list \<Rightarrow> bool" where
  "client_progress (Waiting isolation) cs = (cs = [])"
| "client_progress (Working tx) cs = (cs = [])"
| "client_progress (Applying ops rest) cs = (cs @ rest = transaction_run ops)"
| "client_progress (Returned None r) cs = (cs = [] \<and> isl r)"
| "client_progress (Returned (Some ops) (Inr _)) cs = (cs = transaction_run ops)"
| "client_progress (Returned (Some ops) (Inl e)) cs = prefix cs (transaction_run ops)"

lemma reaching_ok: "engine_step ee self c = (Inr u, self') \<Longrightarrow> reaching self c = [c]"
proof (cases c)
  case (AddCommand doc)
  assume st: "engine_step ee self c = (Inr u, self')"
  have "isl (fst (admit_document (self\<lparr>en_write_count := en_write_count self + 1\<rparr>) doc)) = isl (fst (admit_document self doc))"
    by (rule admit_document_count)
  then show ?thesis
    using st AddCommand by (auto simp: engine_write_admits split: prod.splits sum.splits)
qed simp_all

lemma reaching_prefix: "cs @ c # cs' = full \<Longrightarrow> prefix (cs @ reaching self c) full"
  by (cases c) auto

lemma client_step_progress:
  assumes "client_progress client cs" "client_step ee self client move = Some (self', client', cs')"
  shows "client_progress client' (cs @ cs')"
  using assms
  by (cases "(ee, self, client, move)" rule: client_step.cases)
    (auto simp: tx_rollback_def dest: reaching_ok reaching_prefix split: prod.splits sum.splits)

lemma client_step_writer:
  assumes "client_step ee self client move = Some (self', client', cs)"
  shows "en_writer self' = writer_do (ee_env ee) (en_writer self) cs"
  using assms
proof (cases "(ee, self, client, move)" rule: client_step.cases)
  case (5 ee self ops c cs')
  then show ?thesis
    using assms engine_step_do [of ee self c] by (cases "engine_step ee self c") (auto split: sum.splits)
qed (auto dest: begin_transaction_writer split: prod.splits sum.splits)

lemma single_section_by_commands: "single_section call \<Longrightarrow> by_commands call"
  by (cases call) simp_all

lemma system_run_writer:
  assumes "system_run ee (self, clients) t (self', clients')"
  shows "en_writer self' = writer_do (ee_env ee) (en_writer self) (map snd t)"
  using assms
  by (induction t "(self', clients')" arbitrary: self' clients' rule: system_run.induct)
    (auto simp: client_step_writer comp_def api_step_writer [OF single_section_by_commands])

lemma system_run_progress:
  assumes "system_run ee (self, map Waiting isolations) t (self', clients)"
  shows "length clients = length isolations \<and>
         (\<forall>i < length clients. client_progress (clients ! i) (commands_of (Some i) t))"
  using assms
proof (induction t "(self', clients)" arbitrary: self' clients rule: system_run.induct)
  case (client_moves t self1 clients i move self' client cs)
  then have "client_progress client (commands_of (Some i) t @ cs)" by (auto intro: client_step_progress)
  with client_moves show ?case by (auto simp: nth_list_update)
qed simp_all

text \<open>
  C4: Concurrent transactions.  Any number of threads run transactions on one engine, each thread at any point
  of its work when another moves, and further threads add, delete, flush, commit and search.  At every
  moment the writer represents the specification after one sequence of commands, a merge of
  what the threads have sent.  In it a thread that has not committed, or whose closure or validation
  failed, has no command at all; one that has returned successfully has the commands of all its
  operations, in order and each once, and then its flush; one that is writing has a beginning of them
  of which the rest is still to come, and one whose write failed has stopped within them.
\<close>

theorem concurrent_transactions_refine:
  assumes "system_run ee (self, map Waiting isolations) t (self', clients)"
    and "writer_rep (ee_env ee) (en_writer self) sp" "env_laws (ee_env ee) (iw_compression (en_writer self))"
    and "iw_batch_size (en_writer self) < 2 ^ 32" "unat (version (en_writer self)) + length t < 2 ^ 64"
    and "\<forall>d. AddCommand d \<in> snd ` set t \<longrightarrow>
           document_laws (ev_codec (ee_env ee)) (iw_compression (en_writer self)) d"
  shows "writer_rep (ee_env ee) (en_writer self') (foldl (spec_step (iw_batch_size (en_writer self))) sp (map snd t)) \<and>
         length clients = length isolations \<and>
         (\<forall>i < length clients. client_progress (clients ! i) (commands_of (Some i) t))"
proof -
  obtain w where "writer_run (ee_env ee) (en_writer self) (map snd t) = (Ok (), w)"
    "writer_rep (ee_env ee) w (foldl (spec_step (iw_batch_size (en_writer self))) sp (map snd t))"
    using writer_run_refines [OF assms(2-4), of "map snd t"] assms(5,6) by auto
  then show ?thesis using writer_run_do system_run_writer [OF assms(1)] system_run_progress [OF assms(1)] by metis
qed

subsection \<open>Snapshots under concurrent writers\<close>

text \<open>A command of the writer publishes at most one snapshot, and that one keeps the segments of the current one.\<close>

lemma finish_segment_mvcc: "iw_mvcc (snd (finish_segment ev self)) = iw_mvcc self"
  by (auto simp: finish_segment_def split: prod.splits sum.splits)

lemma store_document_mvcc: "iw_mvcc (snd (store_document ev self d)) = iw_mvcc self"
  by (auto simp: store_document_def split: prod.splits sum.splits)

lemma merge_segments_async_mvcc: "iw_mvcc (merge_segments_async ev self segs) = iw_mvcc self"
  by (auto simp: merge_segments_async_def Let_def)

definition published_by :: "mvcc \<Rightarrow> mvcc \<Rightarrow> bool" where
  "published_by m m' \<longleftrightarrow>
     m' = m \<or> (\<exists>new dels. m' = snd (create_snapshot_with_deletes m (sn_segments (current_snapshot m) @ new) dels))"

lemma published_by_refl: "published_by m m"
  by (simp add: published_by_def)

lemma publish_published:
  "iw_mvcc self = m \<Longrightarrow> published_by m (iw_mvcc (publish self (sn_segments (current_snapshot m) @ [s])))"
  by (auto simp: published_by_def publish_def create_snapshot_def)

lemma iw_flush_published: "published_by (iw_mvcc self) (iw_mvcc (snd (iw_flush ev self)))"
proof -
  obtain r self1 where f: "finish_segment ev self = (r, self1)" by fastforce
  have "iw_mvcc self1 = iw_mvcc self" using finish_segment_mvcc [of ev self] by (simp add: f)
  then show ?thesis
    by (auto simp: iw_flush_def f Let_def with_segment_def merge_segments_async_mvcc publish_published published_by_refl split: sum.splits)
qed

lemma add_document_published: "published_by (iw_mvcc self) (iw_mvcc (snd (add_document_internal ev self d write_wal)))"
proof -
  let ?self = "if write_wal then log_operation ev self (AddDocument d) else self"
  have lg: "iw_mvcc ?self = iw_mvcc self" by (simp add: log_operation_same)
  obtain r self1 where st: "store_document ev ?self d = (r, self1)" by fastforce
  with store_document_mvcc [of ev ?self d] lg have m1: "iw_mvcc self1 = iw_mvcc self" by simp
  define self2 where "self2 xs = self1\<lparr>iw_segment_writer := index_entries ev (iw_segment_writer self1) xs d\<rparr>" for xs
  have fin: "iw_mvcc (snd (finish_segment ev (self2 xs))) = iw_mvcc self" for xs
    using finish_segment_mvcc [of ev "self2 xs"] m1 by (simp add: self2_def)
  have "published_by (iw_mvcc self) (iw_mvcc (snd (
      if batch_is_full (self2 xs)
      then case finish_segment ev (self2 xs) of
             (Inl e, self) \<Rightarrow> (Inl e, self)
           | (Inr s, self) \<Rightarrow> (Ok (), if sg_doc_count s > 0 then publish self (with_segment self s) else self)
      else (Ok (), self2 xs))))" for xs
    using fin [of xs] m1 published_by_refl publish_published
    by (cases "finish_segment ev (self2 xs)"; cases "fst (finish_segment ev (self2 xs))")
      (auto simp: with_segment_def self2_def)
  moreover obtain xs where xs: "index_batch (iw_analyzer self) [d] = Ok xs" by (simp add: index_batch_def)
  ultimately show ?thesis
    unfolding add_document_internal_def xs sum.case Let_def st prod.case self2_def
    using m1 published_by_refl by (cases r) auto
qed

lemma writer_step_published: "published_by (iw_mvcc self) (iw_mvcc (snd (writer_step ev self c)))"
proof (cases c)
  case (DeleteCommand i)
  then show ?thesis
    by (auto simp: published_by_def delete_document_def delete_document_internal_def Let_def log_operation_same intro!: exI [of _ "[]"])
next
  case CommitCommand
  with iw_flush_published [of self ev] show ?thesis
    by (auto simp: iw_commit_def sync_log_def log_operation_same split: sum.splits prod.splits)
qed (auto simp: iw_add_document_def add_document_published iw_flush_published)

lemma published_by_segments:
  assumes "mvcc_wf m" "mv_current_version m \<noteq> - 1" "published_by m m'"
  shows "prefix (sn_segments (current_snapshot m)) (sn_segments (current_snapshot m'))"
  using assms(3)
proof (unfold published_by_def, elim disjE exE)
  fix new dels
  assume m': "m' = snd (create_snapshot_with_deletes m (sn_segments (current_snapshot m) @ new) dels)"
  obtain s where "create_snapshot_with_deletes m (sn_segments (current_snapshot m) @ new) dels = (s, m')"
    by (cases "create_snapshot_with_deletes m (sn_segments (current_snapshot m) @ new) dels") (simp add: m')
  from create_wf [OF assms(1,2) this] show ?thesis by simp
qed simp

lemma writer_run_segments:
  assumes "writer_rep ev self sp" "env_laws ev (iw_compression self)" "iw_batch_size self < 2 ^ 32"
    "unat (version self) + length cs < 2 ^ 64"
    "\<forall>d. AddCommand d \<in> set cs \<longrightarrow> document_laws (ev_codec ev) (iw_compression self) d"
  shows "prefix (sn_segments (current_snapshot (iw_mvcc self))) (sn_segments (current_snapshot (iw_mvcc (writer_do ev self cs))))"
  using assms
proof (induction cs arbitrary: self sp)
  case (Cons c cs)
  obtain r self1 where st: "writer_step ev self c = (r, self1)" by fastforce
  have v: "version self \<noteq> - 1" using version_below(2) [of "version self" "version self" "length cs"] Cons.prems(4) by simp
  with writer_step_refines [of ev self sp c] Cons.prems have
    "refines_step ev self (r, self1) (spec_step (iw_batch_size self) sp c)" by (simp add: st)
  then have step: "writer_rep ev self1 (spec_step (iw_batch_size self) sp c)"
    "iw_batch_size self1 = iw_batch_size self" "iw_compression self1 = iw_compression self"
    "version self1 = version self \<or> version self1 = version self + 1"
    by (auto simp: refines_step_def)
  have "unat (version self1) + length cs < 2 ^ 64" using version_below(1) [OF step(4)] Cons.prems(4) by simp
  with Cons.IH [OF step(1)] step(2,3) Cons.prems(2,3,5)
  have "prefix (sn_segments (current_snapshot (iw_mvcc self1))) (sn_segments (current_snapshot (iw_mvcc (writer_do ev self1 cs))))"
    by simp
  moreover have "mvcc_wf (iw_mvcc self)" using Cons.prems(1) by (simp add: writer_rep_def writer_core_def)
  from published_by_segments [OF this v writer_step_published [of self ev c, unfolded st snd_conv]]
  have "prefix (sn_segments (current_snapshot (iw_mvcc self))) (sn_segments (current_snapshot (iw_mvcc self1)))" .
  ultimately show ?case using st by (auto intro: prefix_order.trans)
qed simp

lemma spec_published_prefix: "prefix (sp_published sp) (sp_published (foldl (spec_step n) sp cs))"
proof (induction cs arbitrary: sp)
  case (Cons c cs)
  have "prefix (sp_published sp) (sp_published (spec_step n sp c))"
    by (cases c) (auto simp: spec_add_def spec_flush_def Let_def)
  with Cons [of "spec_step n sp c"] show ?case by (auto intro: prefix_order.trans)
qed simp

definition spec_visible :: "writer_spec \<Rightarrow> doc_id \<Rightarrow> document option" where
  "spec_visible sp = visible (sp_deleted sp) (sp_published sp)"

text \<open>The calls of the closure keep the snapshot and the isolation level.\<close>

lemma tx_call_step_keeps:
  "tx_snapshot (snd (tx_call_step cd order w m c tx)) = tx_snapshot tx \<and>
   tx_isolation_level (snd (tx_call_step cd order w m c tx)) = tx_isolation_level tx"
  by (cases c) (auto simp: tx_defs Let_def split: option.splits sum.splits bool.splits)

fun works_from :: "transaction \<Rightarrow> client \<Rightarrow> bool" where
  "works_from start (Waiting isolation) = False"
| "works_from start (Working tx) =
     (tx_ok tx \<and> tx_snapshot tx = tx_snapshot start \<and> tx_isolation_level tx = tx_isolation_level start)"
| "works_from start _ = True"

lemma client_step_works:
  assumes "works_from start client" "client_step ee self client move = Some (self', client', cs)"
  shows "works_from start client'"
  using assms
  by (cases "(ee, self, client, move)" rule: client_step.cases)
    (auto simp: tx_call_step_keeps tx_ok_step split: prod.splits sum.splits)

lemma system_run_works:
  assumes "system_run ee (self, clients) t (self', clients')" "i < length clients" "works_from start (clients ! i)"
  shows "length clients' = length clients \<and> works_from start (clients' ! i)"
  using assms
  by (induction t "(self', clients')" arbitrary: self' clients' rule: system_run.induct)
    (auto simp: nth_list_update intro: client_step_works)

lemma list_all2_prefix:
  "list_all2 P (xs @ xs') (ys @ ys') \<Longrightarrow> length xs = length ys \<Longrightarrow> list_all2 P xs ys"
  by (simp add: list_all2_append)

lemma old_snapshot_readable:
  assumes "writer_rep ev self sp" "env_laws ev (iw_compression self)" "iw_batch_size self < 2 ^ 32"
    "unat (version self) + length cs < 2 ^ 64"
    "\<forall>d. AddCommand d \<in> set cs \<longrightarrow> document_laws (ev_codec ev) (iw_compression self) d"
    "spec_within (iw_batch_size self) {d. document_laws (ev_codec ev) (iw_compression self) d} sp"
  defines "self' \<equiv> writer_do ev self cs" and "sp' \<equiv> foldl (spec_step (iw_batch_size self)) sp cs"
  shows "snapshot_readable (ev_codec ev) (iw_compression self) (iw_world self') (current_snapshot (iw_mvcc self)) (sp_published sp)"
    "snapshot_readable (ev_codec ev) (iw_compression self) (iw_world self') (current_snapshot (iw_mvcc self')) (sp_published sp')"
    "sn_deleted_docs (current_snapshot (iw_mvcc self)) = sp_deleted sp"
    "sn_deleted_docs (current_snapshot (iw_mvcc self')) = sp_deleted sp'"
proof -
  let ?P = "\<lambda>g docs. segment_file_holds (ev_codec ev) (iw_world self') (sg_id g) (iw_compression self) docs \<and>
    length docs < 2 ^ 32 \<and> (\<forall>doc \<in> set docs. document_laws (ev_codec ev) (iw_compression self) doc)"
  have rep: "writer_rep ev self' sp'" "iw_compression self' = iw_compression self"
    using writer_run_refines [OF assms(1-5)] writer_run_do unfolding self'_def sp'_def by metis+
  have within: "spec_within (iw_batch_size self) {d. document_laws (ev_codec ev) (iw_compression self) d} sp'"
    unfolding sp'_def using assms(5) by (intro spec_run_within [OF assms(6)]) auto
  then have small: "\<forall>docs \<in> set (sp_published sp'). length docs < 2 ^ 32 \<and> (\<forall>doc \<in> set docs. document_laws (ev_codec ev) (iw_compression self) doc)"
    using assms(3) by (fastforce simp: spec_within_def max_def split: if_splits)
  have now: "list_all2 ?P (sn_segments (current_snapshot (iw_mvcc self'))) (sp_published sp')"
    using rep small by (auto simp: writer_rep_def writer_core_def segments_hold_def list_all2_conv_all_nth)
  then show "snapshot_readable (ev_codec ev) (iw_compression self) (iw_world self') (current_snapshot (iw_mvcc self')) (sp_published sp')"
    by (simp add: snapshot_readable_def)
  have len: "length (sn_segments (current_snapshot (iw_mvcc self))) = length (sp_published sp)"
    using assms(1) by (auto simp: writer_rep_def writer_core_def segments_hold_def dest: list_all2_lengthD)
  obtain xs ys where "sn_segments (current_snapshot (iw_mvcc self')) = sn_segments (current_snapshot (iw_mvcc self)) @ xs"
    "sp_published sp' = sp_published sp @ ys"
    using writer_run_segments [OF assms(1-5)] spec_published_prefix unfolding self'_def sp'_def prefix_def by blast
  with now len show "snapshot_readable (ev_codec ev) (iw_compression self) (iw_world self') (current_snapshot (iw_mvcc self)) (sp_published sp)"
    by (auto simp: snapshot_readable_def dest: list_all2_prefix)
  show "sn_deleted_docs (current_snapshot (iw_mvcc self)) = sp_deleted sp"
    "sn_deleted_docs (current_snapshot (iw_mvcc self')) = sp_deleted sp'"
    using assms(1) rep(1) by (simp_all add: writer_rep_def writer_core_def)
qed

lemma tx_commit_active:
  assumes "tx_state tx = Active" "validate_reads cd order w m (tx\<lparr>tx_state := Preparing\<rparr>) = Ok ok"
  shows "fst (tx_commit cd order w m tx) =
           (if tx_isolation_level tx = ReadCommitted \<or> ok then Ok (tx_operations tx) else Err validation_failed)"
  using assms by (cases ok) (auto simp: tx_commit_def Let_def tx_abort_def)

text \<open>
  C5: Snapshot isolation under concurrency, at every isolation level.  From the moment a transaction begins
  until it commits, other threads run any number of transactions and of calls that take the writer's
  lock at most once and are commands: additions, deletions, flushes, commits, searches, health checks
  and memory management (not batches, compaction, recovery or deletion by query).  Whatever they do,
  the transaction reads its own last write of a document and otherwise the document as it was published
  when the transaction began, at the level \<^verbatim>\<open>ReadCommitted\<close> too, where the design documents a read of
  the latest committed snapshot.  Its commit succeeds exactly when the level asks for no validation,
  or the current snapshot still has the version of the first one, or every document that the
  transaction has read or written is now published as it was then; otherwise it fails with the
  validation error and writes nothing.
\<close>

theorem concurrent_snapshot_isolation:
  assumes "writer_rep (ee_env ee) (en_writer self) sp" "env_laws (ee_env ee) (iw_compression (en_writer self))"
    and "iw_batch_size (en_writer self) < 2 ^ 32" "unat (version (en_writer self)) + length t < 2 ^ 64"
    and "\<forall>d. AddCommand d \<in> snd ` set t \<longrightarrow> document_laws (ev_codec (ee_env ee)) (iw_compression (en_writer self)) d"
    and "spec_within (iw_batch_size (en_writer self))
           {d. document_laws (ev_codec (ee_env ee)) (iw_compression (en_writer self)) d} sp"
    and "\<forall>ds. set (ee_order ee ds) = set ds"
    and "engine_begin_transaction self isolation = (start, self0)" "clients ! i = Working start" "i < length clients"
    and "system_run ee (self0, clients) t (self', clients')" "clients' ! i = Working tx" "tx_state tx = Active"
    and "now = foldl (spec_step (iw_batch_size (en_writer self))) sp (map snd t)"
  shows "fst (tx_read (ev_codec (ee_env ee)) (iw_world (en_writer self')) tx d) =
           Ok (case last_write (tx_operations tx) d of Some doc \<Rightarrow> Some doc | None \<Rightarrow> spec_visible sp d) \<and>
         client_step ee self' (Working tx) Succeed =
           Some (self',
             if isolation = ReadCommitted \<or>
                sn_version (current_snapshot (iw_mvcc (en_writer self'))) =
                  sn_version (current_snapshot (iw_mvcc (en_writer self))) \<or>
                (\<forall>d \<in> set (tracked_doc_ids tx). documents_equal (spec_visible sp d) (spec_visible now d))
             then Applying (tx_operations tx) (transaction_run (tx_operations tx))
             else Returned None (Err validation_failed), [])"
proof -
  let ?cd = "ev_codec (ee_env ee)" and ?w = "iw_world (en_writer self')" and ?m = "iw_mvcc (en_writer self')"
  let ?s = "current_snapshot (iw_mvcc (en_writer self))"
  have start: "tx_snapshot start = ?s" "tx_isolation_level start = isolation" "tx_ok start"
    using assms(8) tx_begin_facts [of "en_transactions self" "iw_mvcc (en_writer self)" isolation]
    by (auto simp: engine_begin_transaction_def split: prod.splits)
  have tx: "tx_ok tx" "tx_snapshot tx = ?s" "tx_isolation_level tx = isolation"
    using system_run_works [OF assms(11,10), of start] assms(9,12) start by auto
  have "en_writer self' = writer_do (ee_env ee) (en_writer self) (map snd t)"
    using system_run_writer [OF assms(11)] begin_transaction_writer [OF assms(8)] by simp
  note old = old_snapshot_readable [OF assms(1-3), of "map snd t", folded this assms(14)]
  have hdr: "header_laws ?cd" using assms(2) by (simp add: env_laws_def)
  have readable: "snapshot_readable ?cd (iw_compression (en_writer self)) ?w ?s (sp_published sp)"
    "snapshot_readable ?cd (iw_compression (en_writer self)) ?w (current_snapshot ?m) (sp_published now)"
    "sn_deleted_docs ?s = sp_deleted sp" "sn_deleted_docs (current_snapshot ?m) = sp_deleted now"
    using old assms(4-6) by auto
  have "map_of (tx_write_set tx) d = last_write (tx_operations tx) d"
    using tx(1) by (simp add: tx_ok_def write_set_lookup)
  then have reads: "fst (tx_read ?cd ?w tx d) =
      Ok (case last_write (tx_operations tx) d of Some doc \<Rightarrow> Some doc | None \<Rightarrow> spec_visible sp d)"
    using assms(13) tx(2) read_from_snapshot_holds [OF hdr readable(1), of d] readable(3)
    by (auto simp: tx_read_def spec_visible_def split: option.splits)
  have tracked: "tracked_doc_ids (tx\<lparr>tx_state := Preparing\<rparr>) = tracked_doc_ids tx" by (simp add: tracked_doc_ids_def)
  have "validate_reads ?cd (ee_order ee) ?w ?m (tx\<lparr>tx_state := Preparing\<rparr>) =
      Ok (sn_version (current_snapshot ?m) = sn_version ?s \<or>
          (\<forall>d \<in> set (tracked_doc_ids tx). documents_equal (spec_visible sp d) (spec_visible now d)))"
    using validate_loop_holds [OF hdr readable(1,2)] readable(3,4) assms(7) tx(2)
    by (simp add: validate_reads_def Let_def tracked spec_visible_def)
  from tx_commit_active [OF assms(13) this] tx(3) reads show ?thesis
    by (cases "tx_commit ?cd (ee_order ee) ?w ?m tx") (auto split: if_splits)
qed

subsection \<open>A thread on its own\<close>

lemma client_moves_on:
  assumes "system_run ee s t (self, clients)" "i < length clients" "clients ! i = client"
    "client_step ee self client move = Some (self', client', cs)"
  shows "system_run ee s (t @ map (Pair (Some i)) cs) (self', clients[i := client'])"
  using assms by (intro client_moves) auto

text \<open>Writing to the end, with no other thread between.\<close>

lemma client_applies:
  assumes "system_run ee s t (self, clients)" "i < length clients" "clients ! i = Applying ops cs"
    and "engine_run ee self cs = (r, self')"
  shows "system_run ee s (t @ map (Pair (Some i)) (run_commands ee self cs)) (self', clients[i := Returned (Some ops) r])"
  using assms
proof (induction cs arbitrary: t self clients)
  case Nil
  then show ?case using client_moves_on [OF Nil(1-3), of Proceed self "Returned (Some ops) (Ok ())" "[]"] by simp
next
  case (Cons c cs)
  obtain q self1 where st: "engine_step ee self c = (q, self1)" by fastforce
  show ?case
  proof (cases q)
    case (Inl e)
    then show ?thesis
      using client_moves_on [OF Cons.prems(1-3), of Proceed self1 "Returned (Some ops) (Err e)" "reaching self c"] st Cons.prems(4)
      by auto
  next
    case (Inr u)
    from client_moves_on [OF Cons.prems(1-3), of Proceed self1 "Applying ops cs" "reaching self c"] st Inr
    have "system_run ee s (t @ map (Pair (Some i)) (reaching self c)) (self1, clients[i := Applying ops cs])" by simp
    from Cons.IH [OF this] Cons.prems(2,4) st Inr show ?thesis by simp
  qed
qed

fun commits_nothing :: "tx_call \<Rightarrow> bool" where
  "commits_nothing Transaction.CommitCall = False"
| "commits_nothing call = True"

text \<open>The closure that makes the given calls, none of which commits, and then returns \<open>r\<close>.\<close>

definition closure :: "('l, 'm) engine_env \<Rightarrow> tx_call list \<Rightarrow> unit result \<Rightarrow> world \<Rightarrow> transaction \<Rightarrow> unit result \<times> transaction" where
  "closure ee calls r w tx =
     (r, foldl (\<lambda>tx call. snd (tx_call_step (ev_codec (ee_env ee)) (ee_order ee) w mvcc_new call tx)) tx calls)"

lemma tx_call_step_mvcc:
  "commits_nothing call \<Longrightarrow> tx_call_step cd order w m call tx = tx_call_step cd order w m' call tx"
  by (cases call) simp_all

lemma client_uses:
  assumes "system_run ee s t (self, clients)" "i < length clients" "clients ! i = Working tx" "list_all commits_nothing calls"
  shows "system_run ee s t (self, clients[i := Working (snd (closure ee calls r (iw_world (en_writer self)) tx))])"
  using assms
proof (induction calls arbitrary: tx clients)
  case Nil
  then have "clients[i := Working tx] = clients" by (metis list_update_id)
  with Nil show ?case by (simp add: closure_def)
next
  case (Cons call calls)
  let ?tx = "snd (tx_call_step (ev_codec (ee_env ee)) (ee_order ee) (iw_world (en_writer self)) mvcc_new call tx)"
  from Cons.prems(4) have "commits_nothing call" by simp
  note same = tx_call_step_mvcc [OF this, of "ev_codec (ee_env ee)" "ee_order ee" "iw_world (en_writer self)" "iw_mvcc (en_writer self)" tx mvcc_new]
  from client_moves_on [OF Cons.prems(1-3), of "Use call" self "Working ?tx" "[]"] same
  have "system_run ee s t (self, clients[i := Working ?tx])" by simp
  from Cons.IH [OF this, of ?tx] Cons.prems(2,4) show ?case by (simp add: closure_def)
qed

text \<open>
  C12: A thread that is not disturbed does what \<open>with_transaction\<close> does: from the waiting thread the system
  can go, with moves of this thread only, to the engine and the result of the method.
\<close>

theorem alone_is_with_transaction:
  assumes "list_all commits_nothing calls" "i < length clients" "clients ! i = Waiting isolation"
    and "with_transaction ee self isolation (closure ee calls r) = (r', self')"
  shows "\<exists>committed. system_run ee (self, clients)
           (map (Pair (Some i)) (transaction_commands ee self isolation (closure ee calls r)))
           (self', clients[i := Returned committed r'])"
proof -
  let ?s = "(self, clients)"
  obtain tx self1 where b: "engine_begin_transaction self isolation = (tx, self1)" by fastforce
  define tx1 where "tx1 = snd (closure ee calls r (iw_world (en_writer self1)) tx)"
  have f: "closure ee calls r (iw_world (en_writer self1)) tx = (r, tx1)" by (simp add: tx1_def closure_def)
  have "system_run ee ?s [] (self1, clients[i := Working tx])"
    using client_moves_on [OF at_rest assms(2,3), of ee self Start self1 "Working tx" "[]"] b by simp
  from client_uses [OF this, of i tx calls r] assms(1,2)
  have w: "system_run ee ?s [] (self1, clients[i := Working tx1])" by (simp add: tx1_def)
  have moves: "system_run ee ?s [] (self1, clients[i := client])"
    if "client_step ee self1 (Working tx1) move = Some (self1, client, [])" for move client
    using client_moves_on [OF w _ _ that, of i] assms(2) by simp
  show ?thesis
  proof (cases r)
    case (Inl e)
    then show ?thesis
      using moves [of "Fail e"] b f assms(4)
      by (auto simp: with_transaction_def transaction_commands_def tx_rollback_def)
  next
    case (Inr u)
    obtain c tx2 where c: "tx_commit (ev_codec (ee_env ee)) (ee_order ee) (iw_world (en_writer self1)) (iw_mvcc (en_writer self1)) tx1 = (c, tx2)"
      by fastforce
    show ?thesis
    proof (cases c)
      case (Inl e)
      then show ?thesis
        using moves [of Succeed] b f c Inr assms(4) by (auto simp: with_transaction_def transaction_commands_def)
    next
      case (Inr ops)
      obtain q self2 where run: "engine_run ee self1 (transaction_run ops) = (q, self2)" by fastforce
      from moves [of Succeed] c Inr have "system_run ee ?s [] (self1, clients[i := Applying ops (transaction_run ops)])" by simp
      from client_applies [OF this _ _ run, of i] assms(2)
      have run_all: "system_run ee ?s (map (Pair (Some i)) (run_commands ee self1 (transaction_run ops)))
        (self2, clients[i := Returned (Some ops) q])" by simp
      have "r' = q \<and> self' = self2"
        using with_transaction_runs_commands [where f = "closure ee calls r", OF b f c] run assms(4) Inr \<open>r = Inr u\<close> by (cases q) (auto simp: transaction_run_def)
      with run_all show ?thesis
        using b f c Inr \<open>r = Inr u\<close> by (auto simp: transaction_commands_def transaction_run_def)
    qed
  qed
qed

subsection \<open>Lost updates\<close>

lemma engine_run_low_memory: "en_low_memory self = None \<Longrightarrow> en_low_memory (snd (engine_run ee self cs)) = None"
proof (induction cs arbitrary: self)
  case (Cons c cs)
  then show ?case using engine_step_writer [OF Cons.prems, of ee c] by (auto split: prod.splits sum.splits)
qed simp

lemma published_transaction:
  assumes "en_low_memory self = None" "writer_rep (ee_env ee) (en_writer self) sp"
    and "env_laws (ee_env ee) (iw_compression (en_writer self))" "2 \<le> iw_batch_size (en_writer self)"
    and "iw_batch_size (en_writer self) < 2 ^ 32" "unat (version (en_writer self)) + (3 + n) < 2 ^ 64" "sp_buffer sp = []"
    and "document_laws (ev_codec (ee_env ee)) (iw_compression (en_writer self)) doc"
  shows "\<exists>self'. engine_run ee self (transaction_run [Update d doc]) = (Ok (), self') \<and> en_low_memory self' = None \<and>
           iw_compression (en_writer self') = iw_compression (en_writer self) \<and>
           iw_batch_size (en_writer self') = iw_batch_size (en_writer self) \<and>
           unat (version (en_writer self')) + n < 2 ^ 64 \<and>
           writer_rep (ee_env ee) (en_writer self') \<lparr>sp_published = sp_published sp @ [[doc]], sp_buffer = [], sp_deleted = {}\<rparr>"
proof -
  let ?cs = "transaction_run [Update d doc]"
  have cs: "?cs = [DeleteCommand d, AddCommand doc, FlushCommand]" by (simp add: transaction_run_def)
  obtain w where w: "writer_run (ee_env ee) (en_writer self) ?cs = (Ok (), w)" "iw_compression w = iw_compression (en_writer self)"
    "iw_batch_size w = iw_batch_size (en_writer self)" "unat (version w) \<le> unat (version (en_writer self)) + 3"
    "writer_rep (ee_env ee) w (foldl (spec_step (iw_batch_size (en_writer self))) sp ?cs)"
    using writer_run_refines [OF assms(2,3,5), of ?cs] assms(6,8) by (auto simp: cs)
  have "foldl (spec_step (iw_batch_size (en_writer self))) sp ?cs =
      \<lparr>sp_published = sp_published sp @ [[doc]], sp_buffer = [], sp_deleted = {}\<rparr>"
    using assms(4,7) by (cases sp) (simp add: cs spec_add_def spec_flush_def)
  with w engine_run_writer [OF assms(1), of ee ?cs] engine_run_low_memory [OF assms(1), of ee ?cs] assms(6)
  show ?thesis by auto
qed

text \<open>A thread that has read a document and then updated it, on an engine whose writer has not moved.\<close>

lemma reads_and_updates:
  assumes "engine_begin_transaction self isolation = (tx, self0)"
  shows "\<exists>tx'. snd (closure ee [ReadCall d, UpdateCall d doc] r w tx) = tx' \<and> tx_state tx' = Active \<and>
           d \<in> fst ` set (tx_read_set tx') \<and> tx_operations tx' = [Update d doc] \<and>
           tx_snapshot tx' = current_snapshot (iw_mvcc (en_writer self))"
  using assms
  by (auto simp: engine_begin_transaction_def tx_begin_def closure_def tx_read_def tx_update_def check_active_def dom_update)

lemma two_threads_ready:
  "\<exists>self1 txa txb. system_run ee (self, [Waiting isolation, Waiting isolation']) [] (self1, [Working txa, Working txb]) \<and>
     en_writer self1 = en_writer self \<and> en_low_memory self1 = en_low_memory self \<and>
     d \<in> fst ` set (tx_read_set txa) \<and> d \<in> fst ` set (tx_read_set txb) \<and>
     client_step ee self1 (Working txa) Succeed = Some (self1, Applying [Update d a] (transaction_run [Update d a]), []) \<and>
     client_step ee self1 (Working txb) Succeed = Some (self1, Applying [Update d b] (transaction_run [Update d b]), [])"
proof -
  let ?s = "(self, [Waiting isolation, Waiting isolation'])"
  obtain tx0 self0 where b0: "engine_begin_transaction self isolation = (tx0, self0)" by fastforce
  obtain tx1 self1 where b1: "engine_begin_transaction self0 isolation' = (tx1, self1)" by fastforce
  have same: "en_writer self0 = en_writer self" "en_writer self1 = en_writer self" "en_low_memory self1 = en_low_memory self"
    using b0 b1 by (auto simp: engine_begin_transaction_def split: prod.splits)
  let ?w = "iw_world (en_writer self1)" and ?now = "current_snapshot (iw_mvcc (en_writer self1))"
  obtain txa where a: "snd (closure ee [ReadCall d, UpdateCall d a] (Ok ()) ?w tx0) = txa" "tx_state txa = Active"
    "d \<in> fst ` set (tx_read_set txa)" "tx_operations txa = [Update d a]" "tx_snapshot txa = ?now"
    using reads_and_updates [OF b0] same by metis
  obtain txb where b: "snd (closure ee [ReadCall d, UpdateCall d b] (Ok ()) ?w tx1) = txb" "tx_state txb = Active"
    "d \<in> fst ` set (tx_read_set txb)" "tx_operations txb = [Update d b]" "tx_snapshot txb = ?now"
    using reads_and_updates [OF b1] same by metis
  have "system_run ee ?s [] (self0, [Working tx0, Waiting isolation'])"
    using client_moves_on [OF at_rest [of ee ?s], of 0 "Waiting isolation" Start self0 "Working tx0" "[]"] b0 by simp
  from client_moves_on [OF this, of 1 "Waiting isolation'" Start self1 "Working tx1" "[]"] b1
  have "system_run ee ?s [] (self1, [Working tx0, Working tx1])" by simp
  from client_uses [OF this, of 0 tx0 "[ReadCall d, UpdateCall d a]" "Ok ()"] a(1)
  have "system_run ee ?s [] (self1, [Working txa, Working tx1])" by simp
  from client_uses [OF this, of 1 tx1 "[ReadCall d, UpdateCall d b]" "Ok ()"] b(1)
  have "system_run ee ?s [] (self1, [Working txa, Working txb])" by simp
  moreover have commits: "client_step ee self1 (Working tx) Succeed = Some (self1, Applying (tx_operations tx) (transaction_run (tx_operations tx)), [])"
    if "tx_state tx = Active" "tx_snapshot tx = ?now" for tx
    using that by (simp add: tx_commit_def validate_reads_def Let_def)
  note commits [OF a(2,5), unfolded a(4)] commits [OF b(2,5), unfolded b(4)]
  ultimately show ?thesis using same(2,3) a(3) b(3) by blast
qed

lemma run_commands_ok: "engine_run ee self cs = (Ok (), self') \<Longrightarrow> run_commands ee self cs = cs"
  by (induction cs arbitrary: self) (auto dest: reaching_ok split: prod.splits sum.splits)

text \<open>
  Validation and writing are not one step.  Two transactions of whatever level, serializable ones
  too, read the same document and update it; both validate before either writes.  Then both succeed,
  and both new versions are published one after the other: the second has not seen the first.
\<close>

theorem concurrent_lost_update:
  assumes "en_low_memory self = None" "writer_rep (ee_env ee) (en_writer self) sp"
    and "env_laws (ee_env ee) (iw_compression (en_writer self))" "2 \<le> iw_batch_size (en_writer self)"
    and "iw_batch_size (en_writer self) < 2 ^ 32" "unat (version (en_writer self)) + 6 < 2 ^ 64" "sp_buffer sp = []"
    and "document_laws (ev_codec (ee_env ee)) (iw_compression (en_writer self)) a"
    and "document_laws (ev_codec (ee_env ee)) (iw_compression (en_writer self)) b"
  shows "\<exists>self1 txa txb self'.
           system_run ee (self, [Waiting isolation, Waiting isolation']) [] (self1, [Working txa, Working txb]) \<and>
           d \<in> fst ` set (tx_read_set txa) \<and> d \<in> fst ` set (tx_read_set txb) \<and>
           system_run ee (self1, [Working txa, Working txb])
             (map (Pair (Some 0)) (transaction_run [Update d a]) @ map (Pair (Some 1)) (transaction_run [Update d b]))
             (self', [Returned (Some [Update d a]) (Ok ()), Returned (Some [Update d b]) (Ok ())]) \<and>
           writer_rep (ee_env ee) (en_writer self')
             \<lparr>sp_published = sp_published sp @ [[a], [b]], sp_buffer = [], sp_deleted = {}\<rparr>"
proof -
  let ?a = "Applying [Update d a] (transaction_run [Update d a])" and ?b = "Applying [Update d b] (transaction_run [Update d b])"
  obtain self1 txa txb where
    ready: "system_run ee (self, [Waiting isolation, Waiting isolation']) [] (self1, [Working txa, Working txb])"
    and same: "en_writer self1 = en_writer self" "en_low_memory self1 = None"
    and reads: "d \<in> fst ` set (tx_read_set txa)" "d \<in> fst ` set (tx_read_set txb)"
    and commits: "client_step ee self1 (Working txa) Succeed = Some (self1, ?a, [])"
      "client_step ee self1 (Working txb) Succeed = Some (self1, ?b, [])"
    using two_threads_ready [of ee self isolation isolation' d a b] assms(1) by metis
  let ?s = "(self1, [Working txa, Working txb])"
  have "system_run ee ?s [] (self1, [?a, Working txb])"
    using client_moves_on [OF at_rest [of ee ?s] _ _ commits(1), of 0] by simp
  from client_moves_on [OF this _ _ commits(2), of 1] have both: "system_run ee ?s [] (self1, [?a, ?b])" by simp
  obtain self2 where r2: "engine_run ee self1 (transaction_run [Update d a]) = (Ok (), self2)" "en_low_memory self2 = None"
    "iw_compression (en_writer self2) = iw_compression (en_writer self)" "iw_batch_size (en_writer self2) = iw_batch_size (en_writer self)"
    "unat (version (en_writer self2)) + 3 < 2 ^ 64"
    "writer_rep (ee_env ee) (en_writer self2) \<lparr>sp_published = sp_published sp @ [[a]], sp_buffer = [], sp_deleted = {}\<rparr>"
    using published_transaction [OF same(2), of ee sp 3 a d] assms same by auto
  obtain self3 where r3: "engine_run ee self2 (transaction_run [Update d b]) = (Ok (), self3)"
    "writer_rep (ee_env ee) (en_writer self3) \<lparr>sp_published = (sp_published sp @ [[a]]) @ [[b]], sp_buffer = [], sp_deleted = {}\<rparr>"
    using published_transaction [OF r2(2,6), of 0 b d] assms r2(3-5) by auto
  have "system_run ee ?s (map (Pair (Some 0)) (transaction_run [Update d a])) (self2, [Returned (Some [Update d a]) (Ok ()), ?b])"
    using client_applies [OF both _ _ r2(1), of 0 "[Update d a]"] run_commands_ok [OF r2(1)] by simp
  from client_applies [OF this _ _ r3(1), of 1 "[Update d b]"] run_commands_ok [OF r3(1)] ready reads r3(2)
  show ?thesis by (intro exI conjI) (assumption | simp)+
qed

subsection \<open>Instances\<close>

lemma plain_engine_facts:
  "env_laws (ee_env plain_engine_env) (iw_compression (en_writer (plain_engine n)))"
  "iw_batch_size (en_writer (plain_engine n)) = n" "version (en_writer (plain_engine n)) = 0"
  "en_low_memory (plain_engine n) = None" "ee_env plain_engine_env = plain_env" "ee_order plain_engine_env = (\<lambda>ds. ds)"
  "writer_rep (ee_env plain_engine_env) (en_writer (plain_engine n)) spec_empty"
  "small_id i \<Longrightarrow> document_laws (ev_codec (ee_env plain_engine_env)) (iw_compression (en_writer (plain_engine n))) (document_new i)"
  using assemble_fields [OF plain_engine_assembled [of n]] plain_engine_env_laws(1,3) [where n = n] plain_engine_env_laws(4) [of n]
  by (auto simp: mvcc_new_def plain_engine_env_def)

theorem concurrent_lost_update_witness:
  "\<exists>self1 txa txb self'.
     system_run plain_engine_env (plain_engine 2, [Waiting Serializable, Waiting Serializable]) [] (self1, [Working txa, Working txb]) \<and>
     system_run plain_engine_env (self1, [Working txa, Working txb])
       (map (Pair (Some 0)) (transaction_run [Update 4 (document_new 4)]) @ map (Pair (Some 1)) (transaction_run [Update 4 (document_new 5)]))
       (self', [Returned (Some [Update 4 (document_new 4)]) (Ok ()), Returned (Some [Update 4 (document_new 5)]) (Ok ())])"
proof -
  have "small_id 4" "small_id 5" by (simp_all add: small_id_def)
  note laws = this [THEN plain_engine_facts(8) [where n = 2]]
  show ?thesis
    using concurrent_lost_update [OF plain_engine_facts(4,7,1) _ _ _ _ laws, of Serializable Serializable 4]
    by (simp add: plain_engine_facts(2,3) spec_empty_def) blast
qed

theorem concurrent_transactions_refine_witness:
  "\<exists>self'. system_run plain_engine_env (plain_engine 1, [Waiting Serializable])
       [(Some 0, AddCommand (document_new 4)), (Some 0, FlushCommand)] (self', [Returned (Some [Insert (document_new 4)]) (Ok ())]) \<and>
     writer_rep plain_env (en_writer self') \<lparr>sp_published = [[document_new 4]], sp_buffer = [], sp_deleted = {}\<rparr>"
proof -
  let ?ee = plain_engine_env and ?s = "(plain_engine 1, [Waiting Serializable])" and ?ops = "[Insert (document_new 4)]"
  let ?t = "[(Some 0, AddCommand (document_new 4)), (Some 0, FlushCommand)]"
  have cs: "transaction_run ?ops = [AddCommand (document_new 4), FlushCommand]" by (simp add: transaction_run_def)
  have laws: "document_laws (ev_codec (ee_env ?ee)) (iw_compression (en_writer (plain_engine 1))) (document_new 4)"
    by (rule plain_engine_facts(8)) (simp add: small_id_def)
  obtain tx self0 where b: "engine_begin_transaction (plain_engine 1) Serializable = (tx, self0)" by fastforce
  then have same: "en_writer self0 = en_writer (plain_engine 1)" "en_low_memory self0 = None"
    using plain_engine_facts(4) by (auto simp: engine_begin_transaction_def split: prod.splits)
  let ?tx = "snd (closure ?ee [InsertCall (document_new 4)] (Ok ()) (iw_world (en_writer self0)) tx)"
  have "system_run ?ee ?s [] (self0, [Working tx])"
    using client_moves_on [OF at_rest [of ?ee ?s], of 0 "Waiting Serializable" Start self0 "Working tx" "[]"] b by simp
  from client_uses [OF this, of 0 tx "[InsertCall (document_new 4)]" "Ok ()"]
  have w: "system_run ?ee ?s [] (self0, [Working ?tx])" by simp
  have "client_step ?ee self0 (Working ?tx) Succeed = Some (self0, Applying ?ops (transaction_run ?ops), [])"
    using b same(1)
    by (auto simp: engine_begin_transaction_def tx_begin_def closure_def tx_insert_def check_active_def tx_commit_def
        validate_reads_def Let_def)
  from client_moves_on [OF w _ _ this, of 0] have ready: "system_run ?ee ?s [] (self0, [Applying ?ops (transaction_run ?ops)])" by simp
  obtain writer where wr: "writer_run (ee_env ?ee) (en_writer self0) (transaction_run ?ops) = (Ok (), writer)"
    using writer_run_refines [OF plain_engine_facts(7,1), of 1 "transaction_run ?ops"] laws same(1)
    by (auto simp: plain_engine_facts(2,3) cs)
  obtain self' where r: "engine_run ?ee self0 (transaction_run ?ops) = (Ok (), self')"
    using engine_run_writer [OF same(2), of ?ee "transaction_run ?ops"] wr by auto
  from client_applies [OF ready _ _ r, of 0 ?ops, unfolded run_commands_ok [OF r]]
  have run: "system_run ?ee (plain_engine 1, map Waiting [Serializable]) ?t (self', [Returned (Some ?ops) (Ok ())])"
    by (simp add: cs)
  have "foldl (spec_step 1) spec_empty (map snd ?t) = \<lparr>sp_published = [[document_new 4]], sp_buffer = [], sp_deleted = {}\<rparr>"
    by (simp add: spec_empty_def spec_add_def spec_flush_def)
  with concurrent_transactions_refine [OF run plain_engine_facts(7,1)] laws run show ?thesis
    by (auto simp: plain_engine_facts(2,3,5))
qed

lemma deletion_version:
  assumes "mvcc_wf (iw_mvcc w)" "version w \<noteq> - 1"
  shows "sn_version (current_snapshot (iw_mvcc (snd (delete_document ev w d)))) = version w"
proof -
  let ?s = "current_snapshot (iw_mvcc w)"
  obtain s m where c: "create_snapshot_with_deletes (iw_mvcc w) (sn_segments ?s) (insert (ucast d) (sn_deleted_docs ?s)) = (s, m)"
    by fastforce
  from create_wf [OF assms c] c show ?thesis
    by (simp add: delete_document_def delete_document_internal_def Let_def log_operation_same)
qed

lemma first_publication:
  assumes "published_by mvcc_new m" "sn_segments (current_snapshot m) \<noteq> []"
  shows "sn_version (current_snapshot m) = 0" "mv_current_version m = 1"
proof -
  obtain new dels where "m = snd (create_snapshot_with_deletes mvcc_new new dels)"
    using assms current_snapshot_new by (auto simp: published_by_def snapshot_default_def)
  then obtain s where c: "create_snapshot_with_deletes mvcc_new new dels = (s, m)"
    by (cases "create_snapshot_with_deletes mvcc_new new dels") simp
  have "mv_current_version mvcc_new \<noteq> - 1" by (simp add: mvcc_new_def)
  from create_wf [OF mvcc_wf_new this c] show "sn_version (current_snapshot m) = 0" "mv_current_version m = 1"
    by (simp_all add: mvcc_new_def)
qed

text \<open>Another thread deletes the document that the transaction has read: it still reads it, and cannot commit.\<close>

theorem concurrent_snapshot_isolation_witness:
  "\<exists>self start self0 self' tx. engine_run plain_engine_env (plain_engine 1) [AddCommand (document_new 4)] = (Ok (), self) \<and>
     engine_begin_transaction self Serializable = (start, self0) \<and>
     system_run plain_engine_env (self0, [Working start]) [(None, DeleteCommand 4)] (self', [Working tx]) \<and>
     fst (tx_read plain_codec (iw_world (en_writer self')) tx 4) = Ok (Some (document_new 4)) \<and>
     client_step plain_engine_env self' (Working tx) Succeed = Some (self', Returned None (Err validation_failed), [])"
proof -
  let ?ee = plain_engine_env and ?add = "AddCommand (document_new 4)"
  let ?sp = "\<lparr>sp_published = [[document_new 4]], sp_buffer = [], sp_deleted = {}\<rparr>"
  have laws: "document_laws (ev_codec (ee_env ?ee)) (iw_compression (en_writer (plain_engine 1))) (document_new 4)"
    by (rule plain_engine_facts(8)) (simp add: small_id_def)
  obtain w where w: "writer_run (ee_env ?ee) (en_writer (plain_engine 1)) [?add] = (Ok (), w)"
    "iw_compression w = iw_compression (en_writer (plain_engine 1))" "iw_batch_size w = 1" "writer_rep (ee_env ?ee) w ?sp"
    using writer_run_refines [OF plain_engine_facts(7,1), of 1 "[?add]"] laws
    by (auto simp: plain_engine_facts(2,3) spec_empty_def spec_add_def spec_flush_def)
  obtain self where self: "engine_run ?ee (plain_engine 1) [?add] = (Ok (), self)" "en_writer self = w"
    using engine_run_writer [OF plain_engine_facts(4), of ?ee 1 "[?add]"] w(1) by auto
  have m1: "sn_version (current_snapshot (iw_mvcc w)) = 0" "version w = 1" "mvcc_wf (iw_mvcc w)"
  proof -
    have "iw_mvcc (en_writer (plain_engine 1)) = mvcc_new" by (rule assemble_fields(8) [OF plain_engine_assembled])
    with writer_step_published [of "en_writer (plain_engine 1)" "ee_env ?ee" ?add] w(1)
    have "published_by mvcc_new (iw_mvcc w)" by (auto split: prod.splits sum.splits)
    moreover have "sn_segments (current_snapshot (iw_mvcc w)) \<noteq> []"
      using w(4) by (auto simp: writer_rep_def writer_core_def segments_hold_def)
    ultimately show "sn_version (current_snapshot (iw_mvcc w)) = 0" "version w = 1" by (rule first_publication)+
    show "mvcc_wf (iw_mvcc w)" using w(4) by (simp add: writer_rep_def writer_core_def)
  qed
  obtain start self0 where b: "engine_begin_transaction self Serializable = (start, self0)" by fastforce
  define tx where "tx = snd (closure ?ee [ReadCall 4] (Ok ()) (iw_world (en_writer self0)) start)"
  define self' where "self' = api_step ?ee self0 (DeleteCall 4)"
  have tx: "tx_state tx = Active" "tx_operations tx = []" "tracked_doc_ids tx = [4]"
    using b by (auto simp: tx_def engine_begin_transaction_def tx_begin_def closure_def tx_read_def tracked_doc_ids_def)
  have "system_run ?ee (self0, [Working start]) [] (self0, [Working tx])"
    using client_uses [OF at_rest [of ?ee "(self0, [Working start])"], of 0 start "[ReadCall 4]" "Ok ()"] by (simp add: tx_def)
  from other_calls [OF this, of "DeleteCall 4"]
  have run: "system_run ?ee (self0, [Working start]) [(None, DeleteCommand 4)] (self', [Working tx])" by (simp add: self'_def)
  have "en_writer self' = snd (delete_document (ee_env ?ee) w 4)"
    using system_run_writer [OF run] begin_transaction_writer [OF b] self(2) by simp
  then have version: "sn_version (current_snapshot (iw_mvcc (en_writer self'))) = 1"
    using deletion_version [OF m1(3), of "ee_env ?ee" 4] m1(2) by simp
  have within: "spec_within 1 {d. document_laws (ev_codec (ee_env ?ee)) (iw_compression (en_writer (plain_engine 1))) d} ?sp"
    using laws by (simp add: spec_within_def)
  note iso = concurrent_snapshot_isolation [of ?ee self ?sp "[(None, DeleteCommand 4)]" Serializable start self0 "[Working start]" 0
      self' "[Working tx]" tx _ 4, unfolded self(2) w(2,3)]
  have "fst (tx_read (ev_codec (ee_env ?ee)) (iw_world (en_writer self')) tx 4) = Ok (Some (document_new 4)) \<and>
    client_step ?ee self' (Working tx) Succeed = Some (self', Returned None (Err validation_failed), [])"
    using iso [OF w(4)] plain_engine_facts(1) [of 1] within b run tx m1(1,2) version
    by (simp add: plain_engine_facts(6) last_write_def spec_visible_def visible_def document_new_def del: client_step.simps)
  then show ?thesis using self(1) b run by (auto simp: plain_engine_facts(5) plain_env_def simp del: client_step.simps)
qed

theorem alone_is_with_transaction_witness:
  "\<exists>r self' committed. with_transaction plain_engine_env (plain_engine 1) Serializable (closure plain_engine_env [InsertCall (document_new 4)] (Ok ())) = (r, self') \<and>
     system_run plain_engine_env (plain_engine 1, [Waiting Serializable])
       (map (Pair (Some 0)) (transaction_commands plain_engine_env (plain_engine 1) Serializable (closure plain_engine_env [InsertCall (document_new 4)] (Ok ()))))
       (self', [Returned committed r])"
proof -
  obtain r self' where w: "with_transaction plain_engine_env (plain_engine 1) Serializable (closure plain_engine_env [InsertCall (document_new 4)] (Ok ())) = (r, self')"
    by fastforce
  from alone_is_with_transaction [OF _ _ _ this, of 0 "[Waiting Serializable]"] w show ?thesis by auto
qed

end
