(* ===== verification/Monitoring.thy ===== *)
theory Monitoring
  imports Public_Api Index_Files
begin

section \<open>Hit rates\<close>

text \<open>
  The counters of the query cache (\<^verbatim>\<open>src/query/cache.rs\<close>), of the lazy index readers
  (\<^verbatim>\<open>src/index/lazy_index_reader.rs\<close>) and the averages over the cached readers
  (\<^verbatim>\<open>src/index/hybrid_index_cache.rs\<close>), over the double-precision arithmetic of \<open>Floats\<close>: every lookup is
  counted once, and the reported rates are fractions although every operation rounds.
\<close>

subsection \<open>A pair of counters\<close>

definition is_fraction :: "fval \<Rightarrow> bool" where
  "is_fraction v \<longleftrightarrow> (case v of Fin x \<Rightarrow> 0 \<le> x \<and> x \<le> 1 | _ \<Rightarrow> False)"

lemma is_fractionE: "is_fraction v \<Longrightarrow> (\<And>r. v = Fin r \<Longrightarrow> 0 \<le> r \<Longrightarrow> r \<le> 1 \<Longrightarrow> P) \<Longrightarrow> P"
  by (cases v) (auto simp: is_fraction_def)

lemma counter_sum:
  fixes h m :: u64
  shows "unat h + unat m < 2 ^ 64 \<Longrightarrow> unat (h + m) = unat h + unat m"
  by (simp add: unat_word_ariths)

lemma counter_ratio:
  fixes h m :: u64
  assumes "unat h + unat m < 2 ^ 64" "h + m \<noteq> 0"
  shows "is_fraction (d_div (d_of_nat (unat h)) (d_of_nat (unat (h + m)))) \<and>
    (d_div (d_of_nat (unat h)) (d_of_nat (unat (h + m))) = Fin 0 \<longleftrightarrow> h = 0)"
proof -
  have "unat (h + m) = unat h + unat m" using assms(1) by (rule counter_sum)
  moreover have "0 < unat (h + m)" using assms(2) by (simp add: unat_gt_0)
  ultimately show ?thesis
    using d_ratio_bounds [of "unat h" "unat (h + m)"] assms(1) by (auto simp: is_fraction_def unat_eq_zero)
qed

text \<open>Counting one more lookup.\<close>

lemma count_one:
  fixes h m :: u64
  assumes "unat h + unat m + 1 < 2 ^ 64"
  shows "unat (h + 1) + unat m = unat h + unat m + 1" "unat h + unat (m + 1) = unat h + unat m + 1"
  using assms by (simp_all add: unat_word_ariths)

subsection \<open>Lazy readers\<close>

definition ask :: "'l posting_lru \<Rightarrow> index_codec \<Rightarrow> world \<Rightarrow> 'l lazy_index_reader \<Rightarrow> string \<Rightarrow> 'l lazy_index_reader" where
  "ask ops ic w r t = snd (lz_get_postings ops ic w r t)"

lemma ask_counts:
  "(lz_cache_hits (ask ops ic w r t) = lz_cache_hits r + 1 \<and> lz_cache_misses (ask ops ic w r t) = lz_cache_misses r) \<or>
   (lz_cache_hits (ask ops ic w r t) = lz_cache_hits r \<and> lz_cache_misses (ask ops ic w r t) = lz_cache_misses r + 1)"
  by (auto simp: ask_def lz_get_postings_def Let_def split: prod.splits option.splits sum.splits)

lemma asks_counted:
  assumes "unat (lz_cache_hits r) + unat (lz_cache_misses r) + length ts < 2 ^ 64"
  shows "unat (lz_cache_hits (foldl (ask ops ic w) r ts)) + unat (lz_cache_misses (foldl (ask ops ic w) r ts)) =
    unat (lz_cache_hits r) + unat (lz_cache_misses r) + length ts"
  using assms
proof (induction ts arbitrary: r)
  case (Cons t ts)
  have one: "unat (lz_cache_hits (ask ops ic w r t)) + unat (lz_cache_misses (ask ops ic w r t)) =
      unat (lz_cache_hits r) + unat (lz_cache_misses r) + 1"
    using ask_counts [of ops ic w r t] count_one [of "lz_cache_hits r" "lz_cache_misses r"] Cons.prems by auto
  then show ?case using Cons.IH [of "ask ops ic w r t"] Cons.prems by simp
qed simp

lemma lazy_rate_fraction:
  assumes "unat (lz_cache_hits r) + unat (lz_cache_misses r) < 2 ^ 64"
  shows "is_fraction (lq_hit_rate (lz_cache_stats ops r)) \<and>
    (lq_hit_rate (lz_cache_stats ops r) = Fin 0 \<longleftrightarrow> lz_cache_hits r = 0)"
proof (cases "lz_cache_hits r + lz_cache_misses r = 0")
  case True
  then have "unat (lz_cache_hits r) + unat (lz_cache_misses r) = 0"
    using counter_sum [OF assms] by simp
  then show ?thesis using True by (simp add: lz_cache_stats_def Let_def is_fraction_def unat_eq_zero)
next
  case False
  then show ?thesis using counter_ratio [OF assms] by (simp add: lz_cache_stats_def Let_def word_neq_0_conv)
qed

subsection \<open>The query cache\<close>

lemma engine_reader_cache: "engine_reader ee self = Inr (reader, self') \<Longrightarrow> en_cache self' = en_cache self"
  by (auto simp: engine_reader_def and_then_def split: sum.splits prod.splits)

lemma search_counts:
  fixes self :: "('l, 'm) engine"
  defines "h s \<equiv> qc_hit_count (en_cache (s :: ('l, 'm) engine))" and "m s \<equiv> qc_miss_count (en_cache (s :: ('l, 'm) engine))"
  shows "(h (snd (search_n ee self q n)) = h self + 1 \<and> m (snd (search_n ee self q n)) = m self) \<or>
    (h (snd (search_n ee self q n)) = h self \<and> m (snd (search_n ee self q n)) = m self + 1)"
  unfolding h_def m_def
  by (auto simp: search_n_def run_search_def cache_get_by_str_def cache_get_def cache_put_by_str_def cache_put_def
      Let_def dest!: engine_reader_cache split: prod.splits option.splits sum.splits)

definition searched :: "('l, 'm) engine_env \<Rightarrow> ('l, 'm) engine \<Rightarrow> (string \<times> nat) list \<Rightarrow> ('l, 'm) engine" where
  "searched ee self queries = foldl (\<lambda>self (q, n). snd (search_n ee self q n)) self queries"

lemma searches_counted:
  assumes "unat (qc_hit_count (en_cache self)) + unat (qc_miss_count (en_cache self)) + length queries < 2 ^ 64"
  shows "unat (qc_hit_count (en_cache (searched ee self queries))) + unat (qc_miss_count (en_cache (searched ee self queries))) =
    unat (qc_hit_count (en_cache self)) + unat (qc_miss_count (en_cache self)) + length queries"
  using assms
proof (induction queries arbitrary: self)
  case (Cons x queries)
  obtain q n where x: "x = (q, n)" by (cases x)
  let ?s = "snd (search_n ee self q n)"
  have "unat (qc_hit_count (en_cache ?s)) + unat (qc_miss_count (en_cache ?s)) =
      unat (qc_hit_count (en_cache self)) + unat (qc_miss_count (en_cache self)) + 1"
    using search_counts [of ee self q n] count_one [of "qc_hit_count (en_cache self)" "qc_miss_count (en_cache self)"] Cons.prems by auto
  then show ?case using Cons.IH [of ?s] Cons.prems by (simp add: searched_def x)
qed (simp add: searched_def)

lemma cache_rate_fraction:
  assumes "unat (ct_hit_count st) + unat (ct_miss_count st) < 2 ^ 64"
  shows "is_fraction (hit_rate st) \<and> (hit_rate st = Fin 0 \<longleftrightarrow> ct_hit_count st = 0)"
proof (cases "ct_hit_count st + ct_miss_count st = 0")
  case True
  then have "unat (ct_hit_count st) + unat (ct_miss_count st) = 0" using counter_sum [OF assms] by simp
  then show ?thesis using True by (simp add: hit_rate_def Let_def is_fraction_def unat_eq_zero)
next
  case False
  then show ?thesis using counter_ratio [OF assms] by (simp add: hit_rate_def Let_def)
qed

subsection \<open>The cache of readers\<close>

definition counts_fit :: "'l hybrid_index_reader \<Rightarrow> bool" where
  "counts_fit reader \<longleftrightarrow> (case reader of
     LazyReader r \<Rightarrow> unat (lz_cache_hits r) + unat (lz_cache_misses r) < 2 ^ 64 | EagerReader _ \<Rightarrow> True)"

lemma tally_bounds:
  assumes "\<forall>r\<in>set readers. counts_fit r" "ty_total_cache_hit_rate t = Fin a" "0 \<le> a" "a \<le> of_nat (ty_lazy_readers_count t)"
    and "ty_lazy_readers_count t = ty_lazy_count t" "ty_lazy_readers_count t + length readers \<le> 2 ^ 53"
  shows "\<exists>b. ty_total_cache_hit_rate (foldl (tally_reader ops) t readers) = Fin b \<and> 0 \<le> b \<and>
      b \<le> of_nat (ty_lazy_readers_count (foldl (tally_reader ops) t readers)) \<and>
      ty_lazy_readers_count (foldl (tally_reader ops) t readers) = ty_lazy_count (foldl (tally_reader ops) t readers) \<and>
      ty_eager_count (foldl (tally_reader ops) t readers) + ty_lazy_count (foldl (tally_reader ops) t readers) =
        ty_eager_count t + ty_lazy_count t + length readers"
  using assms
proof (induction readers arbitrary: t a)
  case Nil
  then show ?case by simp
next
  case (Cons r readers)
  show ?case
  proof (cases r)
    case (EagerReader e)
    then show ?thesis using Cons.IH [of "tally_reader ops t r" a] Cons.prems by (simp add: tally_reader_def)
  next
    case (LazyReader l)
    then have "is_fraction (lq_hit_rate (lz_cache_stats ops l))"
      using lazy_rate_fraction [of l ops] Cons.prems(1) by (simp add: counts_fit_def)
    then obtain x where x: "lq_hit_rate (lz_cache_stats ops l) = Fin x" "0 \<le> x" "x \<le> 1" by (rule is_fractionE)
    have "a + x \<le> of_nat (Suc (ty_lazy_readers_count t))" using Cons.prems(4) x(3) by simp
    then obtain b where "round_f64 (a + x) = Fin b" "0 \<le> b" "b \<le> of_nat (Suc (ty_lazy_readers_count t))"
      using round_f64_le_nat [of "a + x" "Suc (ty_lazy_readers_count t)"] Cons.prems(3,6) x(2) by auto
    then show ?thesis using Cons.IH [of "tally_reader ops t r" b] Cons.prems LazyReader x(1)
      by (simp add: tally_reader_def Let_def)
  qed
qed

lemma cached_rate_fraction:
  assumes "\<forall>r\<in>snd ` set (xc_cache (hx_cache self)). counts_fit r" "\<And>ks. mset (ord ks) = mset ks"
    and "length (xc_cache (hx_cache self)) \<le> 2 ^ 53"
  shows "hy_eager_segments (hx_stats ord ops self) + hy_lazy_segments (hx_stats ord ops self) = hy_total_segments (hx_stats ord ops self) \<and>
    (case hy_avg_lazy_cache_hit_rate (hx_stats ord ops self) of
       None \<Rightarrow> hy_lazy_segments (hx_stats ord ops self) = 0
     | Some v \<Rightarrow> 0 < hy_lazy_segments (hx_stats ord ops self) \<and> is_fraction v)"
proof -
  let ?cache = "xc_cache (hx_cache self)"
  define readers where "readers = List.map_filter (map_of ?cache) (ord (map fst ?cache))"
  have keys: "set (ord (map fst ?cache)) = fst ` set ?cache" "length (ord (map fst ?cache)) = length ?cache"
    using mset_eq_setD [OF assms(2)] mset_eq_length [OF assms(2)] by simp_all
  have found: "map_of ?cache k \<noteq> None" if "k \<in> set (ord (map fst ?cache))" for k
    using that keys(1) by (simp add: map_of_eq_None_iff)
  have readers: "readers = map (the \<circ> map_of ?cache) (ord (map fst ?cache))"
    unfolding readers_def List.map_filter_def using found by (simp add: filter_id_conv)
  have fit: "\<forall>r\<in>set readers. counts_fit r"
  proof
    fix r
    assume "r \<in> set readers"
    then obtain k where "k \<in> set (ord (map fst ?cache))" "r = the (map_of ?cache k)" unfolding readers by auto
    with found have "map_of ?cache k = Some r" by auto
    then show "counts_fit r" using assms(1) by (metis map_of_SomeD image_eqI snd_conv)
  qed
  define t where "t = foldl (tally_reader ops)
    \<lparr>ty_eager_count = 0, ty_lazy_count = 0, ty_total_cache_hit_rate = Fin 0, ty_lazy_readers_count = 0\<rparr> readers"
  have len: "length readers = length ?cache" by (simp add: readers keys(2))
  obtain b where b: "ty_total_cache_hit_rate t = Fin b" "0 \<le> b" "b \<le> of_nat (ty_lazy_readers_count t)"
      "ty_lazy_readers_count t = ty_lazy_count t" "ty_eager_count t + ty_lazy_count t = length ?cache"
    using tally_bounds [OF fit, of "\<lparr>ty_eager_count = 0, ty_lazy_count = 0, ty_total_cache_hit_rate = Fin 0, ty_lazy_readers_count = 0\<rparr>" 0 ops]
      assms(3) by (auto simp: t_def len)
  have "is_fraction (d_div (Fin b) (d_of_nat (ty_lazy_readers_count t)))" if "0 < ty_lazy_readers_count t"
  proof -
    let ?n = "ty_lazy_readers_count t"
    have "?n \<le> 2 ^ 53" using b(4,5) assms(3) by simp
    then have n: "d_of_nat ?n = Fin (of_nat ?n)" by (rule d_of_nat_small)
    have "0 \<le> b / of_nat ?n" "b / of_nat ?n \<le> of_nat 1" using b(2,3) that by simp_all
    then show ?thesis using round_f64_le_nat [of "b / of_nat ?n" 1] that by (auto simp: n is_fraction_def)
  qed
  then show ?thesis using b by (simp add: hx_stats_def Let_def readers_def [symmetric] t_def [symmetric])
qed

subsection \<open>The reported rates\<close>

text \<open>
  C38: Every lookup is counted once and the reported hit rates are fractions.  After any sequence of
  fewer than \<open>2^64\<close> requests to a lazy reader just opened, hits and misses add up to the number of requests
  and the rate, computed in double precision, is between zero and one and zero only if there were no
  hits; and likewise for the query cache of a new engine after any sequence of searches, successful or not.
\<close>

theorem hit_rates_bounded:
  assumes "lz_open ops ic w i k = Ok r" "length ts < 2 ^ 64"
    and "assemble ee wd schema cfg = Ok self" "length queries < 2 ^ 64"
  shows "(let st = lz_cache_stats ops (foldl (ask ops ic w) r ts)
          in unat (lq_hits st) + unat (lq_misses st) = length ts \<and> is_fraction (lq_hit_rate st) \<and>
             (lq_hit_rate st = Fin 0 \<longleftrightarrow> lq_hits st = 0)) \<and>
         (let st = cache_stats_of (ee_lru ee) (en_cache (searched ee self queries))
          in unat (ct_hit_count st) + unat (ct_miss_count st) = length queries \<and> is_fraction (hit_rate st) \<and>
             (hit_rate st = Fin 0 \<longleftrightarrow> ct_hit_count st = 0))"
proof -
  let ?r = "foldl (ask ops ic w) r ts" and ?st = "cache_stats_of (ee_lru ee) (en_cache (searched ee self queries))"
  have "lz_cache_hits r = 0" "lz_cache_misses r = 0"
    using assms(1) by (auto simp: lz_open_def and_then_def split: option.splits sum.splits)
  then have r: "unat (lz_cache_hits ?r) + unat (lz_cache_misses ?r) = length ts"
    using asks_counted [of r ts] assms(2) by simp
  have "qc_hit_count (en_cache self) = 0" "qc_miss_count (en_cache self) = 0"
    using assms(3) by (auto simp: assemble_def query_cache_new_def and_then_def Let_def split: if_splits)
  then have c: "unat (ct_hit_count ?st) + unat (ct_miss_count ?st) = length queries"
    using searches_counted [of self queries ee] assms(4) by (simp add: cache_stats_of_def)
  have stats: "lq_hits (lz_cache_stats ops ?r) = lz_cache_hits ?r" "lq_misses (lz_cache_stats ops ?r) = lz_cache_misses ?r"
    by (simp_all add: lz_cache_stats_def Let_def)
  show ?thesis unfolding Let_def stats
    using r c lazy_rate_fraction [of ?r ops] cache_rate_fraction [of ?st] assms(2,4) by simp
qed

lemma sample_lazy_open: "\<exists>r. lz_open list_posting_lru sample_index_codec sample_world 0 10 = Ok r"
proof -
  have "decode_index sample_index_codec (the (w_files sample_world (IndexPath 0))) = Ok [(''x'', [sample_posting])]"
    by (simp add: sample_world_def sample_index_codec_def write_file_def decode_index_def) code_simp
  then show ?thesis by (simp add: lz_open_def sample_world_def write_file_def)
qed

theorem hit_rates_bounded_witness:
  "\<exists>r. lz_open list_posting_lru sample_index_codec sample_world 0 10 = Ok r \<and>
     (let st = lz_cache_stats list_posting_lru (foldl (ask list_posting_lru sample_index_codec sample_world) r [''x'', ''x''])
      in unat (lq_hits st) + unat (lq_misses st) = 2 \<and> is_fraction (lq_hit_rate st)) \<and>
     (let st = cache_stats_of (ee_lru plain_engine_env) (en_cache (searched plain_engine_env (plain_engine 1) [([], 10)]))
      in unat (ct_hit_count st) + unat (ct_miss_count st) = 1 \<and> is_fraction (hit_rate st))"
proof -
  obtain r where r: "lz_open list_posting_lru sample_index_codec sample_world 0 10 = Ok r" using sample_lazy_open by blast
  from hit_rates_bounded [OF r _ plain_engine_assembled [of 1], of "[''x'', ''x'']" "[([], 10)]"] r
  show ?thesis unfolding Let_def by auto
qed

end
