(* ===== verification/Spec2Isabelle.thy ===== *)
theory Spec2Isabelle
  imports Prelude Floats Integer_Codec Sorted_Ops Posting_Lists Skip_Lists Text Edit_Distance Analysis
    Inverted_Index Index_Search Query Matcher Planner Top_K Segment_Files Mvcc Merge_Policy Wal Indexer
    Index_Writer Index_Recovery Compaction Readers Transaction Scoring Executor Memory Write_Session
    Query_Cache Engine Index_Files Parallel_Writer Os_Files Levenshtein_Dfa Public_Api
    Storage_Ports Builders Concurrent_Transactions Monitoring
begin

text \<open>
  \<^bold>\<open>Drusdenx, a full-text search engine: a verification library.\<close>

  Drusdenx is an embedded search engine.  Documents are written through an index writer, which logs
  every operation, stores the documents in segment files and publishes snapshots of the list of
  segments; a query string is parsed, checked, rewritten and run by an executor over the readers of the
  current snapshot, behind a cache of results; transactions, compaction and recovery work on the same
  writer and snapshots.  The code is under \<^verbatim>\<open>src/src\<close>; all paths below are relative to that directory.

  \<^bold>\<open>The theories and what they model.\<close>  Each theory has the records and datatypes of its part of
  the code, one definition for each operation, and the lemmas about them.

  \<^item> \<open>Prelude\<close>: results and errors (\<^verbatim>\<open>core/error.rs\<close>), checked indexing, floating-point values with
    their order, and the lemma collections that the other theories share.
  \<^item> \<open>Floats\<close>: the arithmetic of \<^verbatim>\<open>f32\<close> and \<^verbatim>\<open>f64\<close>: rounding to nearest of a format (idempotent, monotone,
    exact on the format's values), the operations, square roots, conversions and printing.
  \<^item> \<open>Integer_Codec\<close>: variable-byte and delta encoding, encoded and compressed blocks
    (\<^verbatim>\<open>compression/\<close>).  Round trips for every list of 32-bit integers and every encoding.
  \<^item> \<open>Sorted_Ops\<close>: union, galloping intersection and unrolled loops of \<^verbatim>\<open>simd/operation.rs\<close>, equal to
    plain reference definitions.
  \<^item> \<open>Posting_Lists\<close>, \<open>Skip_Lists\<close>: \<^verbatim>\<open>index/posting.rs\<close> and \<^verbatim>\<open>skiplist.rs\<close>: round trip, search by
    document, soundness of the intersection, and a case where it misses a document.
  \<^item> \<open>Text\<close>, \<open>Edit_Distance\<close>, \<open>Analysis\<close>: string functions, the edit distances of \<^verbatim>\<open>core/utils.rs\<close> and
    \<^verbatim>\<open>search/fuzzy.rs\<close> against the least cost of an alignment, tokenizers, filters and analyzers
    (\<^verbatim>\<open>analysis/\<close>), schemas.
  \<^item> \<open>Inverted_Index\<close>, \<open>Index_Search\<close>: \<^verbatim>\<open>index/inverted.rs\<close>, \<^verbatim>\<open>search/prefix.rs\<close>, \<^verbatim>\<open>search/fuzzy.rs\<close>.  The
    invariant \<open>index_ok\<close> holds after every document; boolean, prefix and fuzzy searches are exact.
  \<^item> \<open>Query\<close>, \<open>Matcher\<close>, \<open>Planner\<close>: \<^verbatim>\<open>query/\<close>: parser (round trip, errors), the meaning of queries on a
    document, validation, logical plans, rules that keep the meaning of a plan (locale
    \<open>optimization_rule\<close>), rewriting, which never loses a match, and keeps exactly the matches of a query
    that does not mix must and should clauses.
  \<^item> \<open>Scoring\<close>, \<open>Top_K\<close>, \<open>Executor\<close>: scorers over rounded arithmetic, the bounded heap (locale
    \<open>least_heap\<close>), the query executor and the generic pipeline.  The executor returns the best
    documents for the rewritten query, and a pipeline without explanations is the executor.
  \<^item> \<open>Query_Cache\<close>: \<^verbatim>\<open>query/cache.rs\<close> over a least-recently-used cache with named laws.
  \<^item> \<open>Segment_Files\<close>: \<^verbatim>\<open>storage/segment*.rs\<close> on a disk of byte strings: what is written is found.
  \<^item> \<open>Mvcc\<close>, \<open>Readers\<close>: snapshots, versions, pins and garbage collection (\<^verbatim>\<open>mvcc/\<close>); the reader pool and
    the readers (\<^verbatim>\<open>reader/\<close>).  Pinned snapshots survive every sequence of steps, and the pool hands out readers of the current
    snapshot, with one exception that is stated exactly.
  \<^item> \<open>Wal\<close>: \<^verbatim>\<open>storage/wal.rs\<close> and \<^verbatim>\<open>checkpoint.rs\<close>: round trip, torn records, checkpoints.
  \<^item> \<open>Merge_Policy\<close>, \<open>Indexer\<close>: merge policies and batch indexing (\<^verbatim>\<open>storage/merge_policy.rs\<close>, \<^verbatim>\<open>parallel/\<close>);
    the tasks of a batch give the same result in every order.
  \<^item> \<open>Index_Writer\<close>, \<open>Index_Recovery\<close>, \<open>Compaction\<close>: \<^verbatim>\<open>writer/index_writer.rs\<close>.  The abstract
    specification \<open>writer_spec\<close> has the published documents segment by segment, the documents not
    yet flushed and the deleted ids; \<open>writer_rep\<close> relates it to the writer's files and snapshot, and
    every operation is a step of the specification (\<open>writer_run_refines\<close>, \<open>moves_refine\<close>): commands,
    batches, compaction, which fails on every index with deletions and segments, and recovery, which
    cannot read its log.
  \<^item> \<open>Write_Session\<close>: \<^verbatim>\<open>writer/session.rs\<close>, \<^verbatim>\<open>batch.rs\<close>, \<^verbatim>\<open>builder.rs\<close>, \<^verbatim>\<open>data_writer.rs\<close>.
  \<^item> \<open>Storage_Ports\<close>: the traits between writers, readers and the disk (\<^verbatim>\<open>writer/segment_store.rs\<close>,
    \<^verbatim>\<open>reader/segment_opener.rs\<close>) as locales \<open>segment_sink\<close>, \<open>segment_store\<close> and \<open>segment_read\<close>, with their
    implementations in \<^verbatim>\<open>storage/disk_segment_store.rs\<close> and \<^verbatim>\<open>disk_segment_opener.rs\<close> as instances.
  \<^item> \<open>Index_Files\<close>: \<^verbatim>\<open>index/index_writer.rs\<close>, \<^verbatim>\<open>index_reader.rs\<close>, \<^verbatim>\<open>lazy_index_reader.rs\<close>, \<^verbatim>\<open>hybrid_index_reader.rs\<close>
    and the two caches of readers, which share them with their clients: the postings of a segment in
    memory and on disk.  The locale
    \<open>posting_source\<close> is what every reader promises, and the eager, the lazy and the hybrid reader are
    instances, so the strategies agree and the caches are transparent.
  \<^item> \<open>Parallel_Writer\<close>: \<^verbatim>\<open>writer/parallel_writer.rs\<close> as a step relation over the worker, its channels and
    the callers (no document is lost, everything drains, a full channel blocks a flush), segments
    loaded in parts (\<^verbatim>\<open>reader/lazy.rs\<close>) and streaming results (\<^verbatim>\<open>search/streaming.rs\<close>).
  \<^item> \<open>Os_Files\<close>: \<^verbatim>\<open>storage/file_lock.rs\<close> (one writer) and \<^verbatim>\<open>mmap/mmap_file.rs\<close> (the page cache).
  \<^item> \<open>Levenshtein_Dfa\<close>: the hand-written automaton of \<^verbatim>\<open>search/fuzzy.rs\<close> and what it accepts.
  \<^item> \<open>Transaction\<close>: \<^verbatim>\<open>core/transaction.rs\<close>: reachable transactions as an inductive predicate, validation
    of reads and writes against the current snapshot.
  \<^item> \<open>Memory\<close>: \<^verbatim>\<open>memory/\<close>: the tracker under every interleaving of its atomic steps, the block pool
    (locale \<open>block_allocator\<close>), buffer pool, low-memory mode, swap files.
  \<^item> \<open>Engine\<close>: \<^verbatim>\<open>core/engine.rs\<close>, \<^verbatim>\<open>components.rs\<close>, \<^verbatim>\<open>facade.rs\<close>, \<^verbatim>\<open>database_rw.rs\<close>: the composition.  The
    theorem \<open>search_end_to_end\<close> goes from documents handed to a new engine to search results, through
    the writer's refinement, the segment files, the reader pool, parser, optimizer and executor.
  \<^item> \<open>Public_Api\<close>: every method of \<^verbatim>\<open>facade.rs\<close> and the handles of \<^verbatim>\<open>database_rw.rs\<close> as calls on one engine.
    Each sequence of calls on an opened index is a sequence of moves of the writer (commands, batches,
    compactions and recoveries) that refines the same moves of \<open>writer_spec\<close> (\<open>public_calls_refine\<close>);
    background merges are not interleaved there.  No call leaves the engine's types (\<open>public_calls_typed\<close>).
  \<^item> \<open>Concurrent_Transactions\<close>: threads inside \<^verbatim>\<open>with_transaction\<close> of \<^verbatim>\<open>engine.rs\<close> as a step relation.  Each thread
    moves from one lock section to the next while others move.  Every run refines \<open>writer_spec\<close>
    (\<open>concurrent_transactions_refine\<close>), a transaction of any isolation level works on the snapshot it began with
    (\<open>concurrent_snapshot_isolation\<close>), and a thread alone does what \<open>with_transaction\<close> does.
  \<^item> \<open>Builders\<close>: the dispatch of \<^verbatim>\<open>query/visitor.rs\<close> and the three visitors, which agree with the recursive
    functions of \<open>Matcher\<close> and \<open>Planner\<close>; the builders of queries, pipelines and writer contexts.
  \<^item> \<open>Monitoring\<close>: the hit rates that caches and readers report are fractions, rounding included.

  \<^bold>\<open>How the code is represented.\<close>  An operation with side effects takes its state and returns the new
  state with its result; a fallible one returns an error or a value (\<open>result\<close>), and a Rust panic is the
  error \<open>Panic\<close>.  The disk is a \<open>world\<close> with a map from paths to byte strings and a counter that stands
  for fresh random identifiers; writes to it do not fail.  Strings are their UTF-8 bytes.  Integers of
  32 and 64 bits are machine words that wrap as in a release build; \<^verbatim>\<open>usize\<close> is a natural number except
  where the code's arithmetic can wrap.  A hash map is an association list, or a map together with an
  arbitrary iteration order that the theorems quantify over.  A roaring bitmap is a set of 32-bit words.
  Floating-point values are rationals with rounding after every operation, infinities and NaN.  Locks
  are taken for one operation at a time, so operations are atomic; the memory tracker, which uses an atomic
  counter, has its single atomic steps as events, and the threads of the parallel writer and
  those in transactions have step relations, between the points where they take a lock or use a channel.  Background merges are
  separate steps.  The uptime is an argument; other times and latencies are left out, and memory can always
  be allocated.

  \<^bold>\<open>What is assumed.\<close>  Code of other crates is a parameter of the definitions, with its documented
  behaviour as a named predicate where a theorem needs it: \<open>header_laws\<close>, \<open>document_laws\<close>, \<open>env_laws\<close> and
  \<open>op_laws\<close> say that bincode and the compressors give back what they were given, \<open>lru_laws\<close> what the
  cache keeps, \<open>bincode_layout\<close> the sizes and contents of encoded headers, \<open>posting_lru_laws\<close> and \<open>index_laws\<close> the same for the cache of postings and for index files,
  \<open>flock_laws\<close> what the system call promises.  The logarithms, whose precision the standard library leaves open, are
  parameters without laws.  Each theorem with such a hypothesis has an instance with a concrete codec, where it is
  used on a small input.

  \<^bold>\<open>Bounds and loops.\<close>  All loops are structural recursion or have a termination proof; there is no
  fuel.  Bounds in theorems are those of the
  code's integers: fewer than \<open>2 ^ 64\<close> published versions, fewer than \<open>2 ^ 32\<close> documents in a segment.

  \<^bold>\<open>What the theorems found.\<close>  Some theorems state what the code does where it does not do what it
  means to: a flush publishes a snapshot without deletions (\<open>flush_forgets_deletions\<close>), cached results
  outlive writes (\<open>stale_search_after_writes\<close>), a reopened index is empty (\<open>reopening_finds_nothing\<close>),
  recovery cannot read its log (\<open>recover_fails\<close>), compaction reads past the header (\<open>compact_fails\<close>,
  \<open>compact_outcome\<close>), a rewritten query loses boosts and the first word of an AND query
  (\<open>optimize_query_drops_boost\<close>, \<open>and_query_drops_first_word\<close>),
  relevance is not computed (\<open>relevance_never_computed\<close>), the hand-written automaton accepts only its
  pattern (\<open>levenshtein_dfa_exact_only\<close>), a full channel blocks a flush (\<open>full_channel_blocks_flush\<close>), two serializable
  transactions on one document both commit (\<open>concurrent_lost_update\<close>), and others with the same kind of name.

  \<^bold>\<open>Not modelled.\<close>  \<^verbatim>\<open>lib.rs\<close> and the module files, which only declare modules; the names
  and copies that filters and tokenizers give of themselves; releasing memory to the operating system,
  times and latencies; examples, benchmarks and tests.
\<close>

end
